(* ===== verification/Prelude.thy ===== *)
theory Prelude
  imports Main "HOL-Library.Multiset"
begin

text \<open>
  Vocabulary shared by every component.

  \<^item> C character buffers: an array \<open>char b[n]\<close> is a list of \<open>n\<close> bytes. \<open>cstr\<close> is the
    string such a buffer holds (the bytes before the first NUL), \<open>strncpy\<close> and \<open>memmove\<close>
    are the library functions the sources use on it.
  \<^item> \<open>atoi\<close>, \<open>sscanf_d\<close> and \<open>isdigit\<close> as the C library defines them on 32-bit \<open>int\<close>.
  \<^item> \<open>%d\<close>, and what a run of a program writes and returns.
  The collection \<open>cbuf\<close> carries the facts about buffers.
\<close>

named_theorems cbuf \<open>facts about fixed-size C character buffers\<close>

subsection \<open>Character buffers\<close>

type_synonym buf = "char list"

abbreviation NUL :: char where "NUL \<equiv> CHR 0x00"

definition cstr :: "buf \<Rightarrow> string" where
  "cstr b = takeWhile (\<lambda>c. c \<noteq> NUL) b"

definition strlen :: "buf \<Rightarrow> nat" where
  "strlen b = length (cstr b)"

text \<open>A buffer is terminated when it holds a NUL, so that reading it as a string stays inside.\<close>

definition terminated :: "buf \<Rightarrow> bool" where
  "terminated b \<longleftrightarrow> NUL \<in> set b"

text \<open>\<open>strncpy(dst, src, n)\<close>: at most \<open>n\<close> bytes of the string, NUL padded to \<open>n\<close>; the rest stays.\<close>

definition strncpy :: "buf \<Rightarrow> buf \<Rightarrow> nat \<Rightarrow> buf" where
  "strncpy dst src n = take n (cstr src @ replicate n NUL) @ drop n dst"

text \<open>\<open>memmove(&b[d], &b[s], n)\<close> inside one buffer.\<close>

definition memmove :: "buf \<Rightarrow> nat \<Rightarrow> nat \<Rightarrow> nat \<Rightarrow> buf" where
  "memmove b d s n = take d b @ take n (drop s b) @ drop (d + n) b"

lemma length_strncpy [cbuf]: "n \<le> length dst \<Longrightarrow> length (strncpy dst src n) = length dst"
  by (simp add: strncpy_def)

lemma length_memmove [cbuf]:
  "d + n \<le> length b \<Longrightarrow> s + n \<le> length b \<Longrightarrow> length (memmove b d s n) = length b"
  by (simp add: memmove_def)

lemma cstr_no_NUL: "NUL \<notin> set (cstr b)"
  by (auto simp: cstr_def dest: set_takeWhileD)

lemma cstr_append_NUL [cbuf]: "NUL \<notin> set s \<Longrightarrow> cstr (s @ NUL # r) = s"
proof -
  assume "NUL \<notin> set s"
  then have "\<And>x. x \<in> set s \<Longrightarrow> x \<noteq> NUL" by metis
  then show ?thesis by (simp add: cstr_def takeWhile_append2)
qed

lemma cstr_id: "NUL \<notin> set s \<Longrightarrow> cstr s = s"
  by (induction s) (auto simp: cstr_def)

lemma terminated_split: "terminated b \<Longrightarrow> \<exists>r. b = cstr b @ NUL # r"
proof -
  assume "terminated b"
  then obtain ys zs where "b = ys @ NUL # zs" "NUL \<notin> set ys"
    unfolding terminated_def by (blast dest: split_list_first)
  then show ?thesis by (auto simp: cbuf)
qed

lemma terminated_strlen: "terminated b \<longleftrightarrow> strlen b < length b"
proof
  assume "terminated b"
  then obtain r where r: "b = cstr b @ NUL # r" using terminated_split by blast
  have "length b = length (cstr b @ NUL # r)" using r by (rule arg_cong)
  then show "strlen b < length b" by (simp add: strlen_def)
next
  assume a: "strlen b < length b"
  show "terminated b"
    using a by (cases "NUL \<in> set b") (simp_all add: terminated_def strlen_def cstr_id)
qed

lemma cstr_cstr [simp]: "cstr (cstr b) = cstr b"
  by (rule cstr_id) (rule cstr_no_NUL)

lemma length_cstr_le: "length (cstr b) \<le> length b"
  unfolding cstr_def by (rule length_takeWhile_le)

lemma cstr_eq_take: "cstr b = take (strlen b) b"
  unfolding cstr_def strlen_def by (rule takeWhile_eq_take)

lemma cstr_snoc_replicate: "NUL \<notin> set s \<Longrightarrow> cstr (s @ replicate k NUL @ r) = (if k = 0 then cstr (s @ r) else s)"
  by (cases k) (auto simp: cbuf)

lemma cstr_strncpy [cbuf]:
  "strlen src < n \<Longrightarrow> cstr (strncpy dst src n) = cstr src"
proof -
  assume a: "strlen src < n"
  then have "strncpy dst src n = cstr src @ replicate (n - strlen src) NUL @ drop n dst"
    by (simp add: strncpy_def strlen_def min_absorb2)
  with a show ?thesis by (simp add: cstr_snoc_replicate cstr_no_NUL)
qed

text \<open>A full-width copy between buffers of the same size keeps exactly the string.\<close>

lemma cstr_strncpy_full [cbuf]:
  "length src \<le> n \<Longrightarrow> length dst = n \<Longrightarrow> cstr (strncpy dst src n) = cstr src"
proof (cases "strlen src < n")
  case False
  assume a: "length src \<le> n" "length dst = n"
  then have "length (cstr src) = n" using False length_cstr_le[of src] by (simp add: strlen_def)
  then show ?thesis using a by (simp add: strncpy_def)
qed (simp add: cstr_strncpy)

subsection \<open>Characters and numbers of the C library\<close>

definition isdigit :: "char \<Rightarrow> bool" where
  "isdigit c \<longleftrightarrow> 48 \<le> (of_char c :: nat) \<and> (of_char c :: nat) \<le> 57"

definition isupper :: "char \<Rightarrow> bool" where
  "isupper c \<longleftrightarrow> 65 \<le> (of_char c :: nat) \<and> (of_char c :: nat) \<le> 90"

definition isspace :: "char \<Rightarrow> bool" where
  "isspace c \<longleftrightarrow> (of_char c :: nat) \<in> {9, 10, 11, 12, 13, 32}"

definition digit_val :: "char \<Rightarrow> int" where
  "digit_val c = int (of_char c) - 48"

text \<open>Conversion of a \<open>long\<close> to a 32-bit \<open>int\<close> (two's complement, as the targets do).\<close>

definition to_int32 :: "int \<Rightarrow> int" where
  "to_int32 x = (x + 2 ^ 31) mod 2 ^ 32 - 2 ^ 31"

definition sat_long :: "int \<Rightarrow> int" where
  "sat_long x = max (- (2 ^ 63)) (min (2 ^ 63 - 1) x)"

fun digits_val :: "int \<Rightarrow> string \<Rightarrow> int" where
  "digits_val acc [] = acc"
| "digits_val acc (c # cs) = (if isdigit c then digits_val (10 * acc + digit_val c) cs else acc)"

text \<open>
  \<open>atoi\<close>: leading white space, an optional sign, then digits; the GNU library computes it as
  \<open>(int) strtol(s, NULL, 10)\<close>.
\<close>

definition atoi :: "string \<Rightarrow> int" where
  "atoi s = (case dropWhile isspace s of
       [] \<Rightarrow> 0
     | c # cs \<Rightarrow>
         to_int32 (sat_long
           (if c = CHR ''-'' then - digits_val 0 cs
            else if c = CHR ''+'' then digits_val 0 cs
            else digits_val 0 (c # cs))))"

text \<open>\<open>sscanf(s, "%d", &n)\<close>: the same number, but there has to be a digit.\<close>

definition sscanf_d :: "string \<Rightarrow> int option" where
  "sscanf_d s = (let t = dropWhile isspace s;
       ds = (if t \<noteq> [] \<and> (hd t = CHR ''-'' \<or> hd t = CHR ''+'') then tl t else t)
     in if ds \<noteq> [] \<and> isdigit (hd ds) then Some (atoi s) else None)"

lemma to_int32_range: "- (2 ^ 31) \<le> to_int32 x \<and> to_int32 x < 2 ^ 31"
proof -
  have "0 \<le> (x + 2 ^ 31) mod 2 ^ 32" and "(x + 2 ^ 31) mod 2 ^ 32 < (2::int) ^ 32" by simp_all
  then show ?thesis by (simp add: to_int32_def)
qed

lemma to_int32_id: "- (2 ^ 31) \<le> x \<Longrightarrow> x < 2 ^ 31 \<Longrightarrow> to_int32 x = x"
  by (simp add: to_int32_def)

lemma to_int32_nat: "n < 2 ^ 31 \<Longrightarrow> to_int32 (int n) = int n"
  by (simp add: to_int32_def)

text \<open>Wrapping sums: it does not matter how often one wraps.\<close>

lemma to_int32_add: "to_int32 (to_int32 x + y) = to_int32 (x + y)" "to_int32 (x + to_int32 y) = to_int32 (x + y)"
proof -
  have e: "to_int32 z = ((z + 2 ^ 31) mod 2 ^ 32) - 2 ^ 31" for z by (simp add: to_int32_def)
  have "to_int32 (to_int32 x + y) = ((x + 2 ^ 31) mod 2 ^ 32 + y) mod 2 ^ 32 - 2 ^ 31" for x y unfolding e by simp
  then have *: "to_int32 (to_int32 x + y) = to_int32 (x + y)" for x y
    unfolding e mod_add_left_eq by (simp only: add.assoc add.commute add.left_commute)
  show "to_int32 (to_int32 x + y) = to_int32 (x + y)" by (rule *)
  show "to_int32 (x + to_int32 y) = to_int32 (x + y)" using * [of y x] by (simp add: add.commute)
qed

lemma digits_val_nonneg: "0 \<le> acc \<Longrightarrow> 0 \<le> digits_val acc s"
  by (induction acc s rule: digits_val.induct) (auto simp: isdigit_def digit_val_def)

lemma atoi_range: "- (2 ^ 31) \<le> atoi s \<and> atoi s < 2 ^ 31"
  by (auto simp: atoi_def to_int32_range[simplified] split: list.split)

subsection \<open>Printing\<close>

abbreviation NL :: string where "NL \<equiv> [CHR 0x0A]"

text \<open>\<open>%d\<close>.\<close>

fun show_nat :: "nat \<Rightarrow> string" where
  "show_nat n = (if n < 10 then [char_of (48 + n)] else show_nat (n div 10) @ [char_of (48 + n mod 10)])"

declare show_nat.simps [simp del]

definition show_int :: "int \<Rightarrow> string" where
  "show_int x = (if x < 0 then CHR ''-'' # show_nat (nat (- x)) else show_nat (nat x))"

text \<open>What a run of a program writes, and its exit status.\<close>

record outcome =
  stdout :: string
  stderr :: string
  status :: int

definition exits :: "string \<Rightarrow> string \<Rightarrow> int \<Rightarrow> outcome" where
  "exits out err st = \<lparr>stdout = out, stderr = err, status = st\<rparr>"

definition EXIT_SUCCESS :: int where "EXIT_SUCCESS = 0"

definition EXIT_FAILURE :: int where "EXIT_FAILURE = 1"

end
