(* ===== verification/Exchange_Sort.thy ===== *)
theory Exchange_Sort
  imports Prelude
begin

text \<open>
  The exchange sort that three of the programs write out by hand
  (\<open>assignments/hw5/ordered.c\<close>, \<open>assignments/hw6/parkingServer.c\<close>,
  \<open>exercises/ex14/sort.c\<close>): for every position, compare it with each later one and
  swap when the later one is smaller. The comparison is a parameter; the locales
  \<open>partial_key_order\<close> and \<open>key_order\<close> are what the sort needs of it, and each component
  interprets one of them with its own comparison.
\<close>

text \<open>The body of the inner loop, the inner loop over \<open>j\<close>, the outer loop over \<open>i\<close>.\<close>

definition exch_step :: "('a \<Rightarrow> 'a \<Rightarrow> bool) \<Rightarrow> nat \<Rightarrow> nat \<Rightarrow> 'a list \<Rightarrow> 'a list" where
  "exch_step lt i j xs = (if lt (xs ! j) (xs ! i) then xs[i := xs ! j, j := xs ! i] else xs)"

definition exch_pass :: "('a \<Rightarrow> 'a \<Rightarrow> bool) \<Rightarrow> nat \<Rightarrow> 'a list \<Rightarrow> 'a list" where
  "exch_pass lt i xs = fold (exch_step lt i) [Suc i..<length xs] xs"

definition exch_sort :: "('a \<Rightarrow> 'a \<Rightarrow> bool) \<Rightarrow> 'a list \<Rightarrow> 'a list" where
  "exch_sort lt xs = fold (exch_pass lt) [0..<length xs - 1] xs"

lemma length_exch_step [simp]: "length (exch_step lt i j xs) = length xs"
  by (simp add: exch_step_def)

lemma length_fold_exch_step [simp]: "length (fold (exch_step lt i) js xs) = length xs"
  by (induction js arbitrary: xs) auto

lemma length_exch_pass [simp]: "length (exch_pass lt i xs) = length xs"
  by (simp add: exch_pass_def)

lemma mset_exch_step:
  "i < length xs \<Longrightarrow> j < length xs \<Longrightarrow> mset (exch_step lt i j xs) = mset xs"
  by (simp add: exch_step_def mset_swap)

lemma mset_fold_exch_step:
  "i < length xs \<Longrightarrow> \<forall>j\<in>set js. j < length xs \<Longrightarrow> mset (fold (exch_step lt i) js xs) = mset xs"
  by (induction js arbitrary: xs) (auto simp: mset_exch_step)

lemma mset_exch_pass: "i < length xs \<Longrightarrow> mset (exch_pass lt i xs) = mset xs"
  by (simp add: exch_pass_def mset_fold_exch_step)

lemma mset_fold_exch_pass:
  "\<forall>i\<in>set is. i < length xs \<Longrightarrow> mset (fold (exch_pass lt) is xs) = mset xs"
  by (induction "is" arbitrary: xs) (auto simp: mset_exch_pass)

lemma mset_exch_sort: "mset (exch_sort lt xs) = mset xs"
  unfolding exch_sort_def by (rule mset_fold_exch_pass) auto

lemma length_exch_sort [simp]: "length (exch_sort lt xs) = length xs"
  using mset_exch_sort by (rule mset_eq_length)

lemma set_exch_sort [simp]: "set (exch_sort lt xs) = set xs"
  using mset_exch_sort by (rule mset_eq_setD)

lemma fold_exch_step_prefix:
  "\<forall>j\<in>set js. i < j \<Longrightarrow> m < i \<Longrightarrow> fold (exch_step lt i) js xs ! m = xs ! m"
  by (induction js arbitrary: xs) (auto simp: exch_step_def)

lemma take_exch_pass: "i < length xs \<Longrightarrow> take i (exch_pass lt i xs) = take i xs"
  by (rule nth_equalityI) (auto simp: exch_pass_def fold_exch_step_prefix)

lemma set_drop_exch_pass:
  assumes "i < length xs"
  shows "set (drop i (exch_pass lt i xs)) = set (drop i xs)"
proof -
  let ?ys = "exch_pass lt i xs"
  have "mset (take i ?ys @ drop i ?ys) = mset (take i xs @ drop i xs)"
    using mset_exch_pass [OF assms, of lt] by simp
  then have "mset (drop i ?ys) = mset (drop i xs)"
    unfolding mset_append take_exch_pass [OF assms] by simp
  then show ?thesis by (rule mset_eq_setD)
qed

text \<open>
  What the sort needs of its comparison: it compares keys from a linear order, and an element that
  is not \<open>comparable\<close> (a distance that is no number) is neither below nor above any other.
\<close>

locale partial_key_order =
  fixes lt :: "'a \<Rightarrow> 'a \<Rightarrow> bool" and comparable :: "'a \<Rightarrow> bool" and key :: "'a \<Rightarrow> 'k::linorder"
  assumes lt_iff: "lt x y \<longleftrightarrow> comparable x \<and> comparable y \<and> key x < key y"
begin

text \<open>In order as far as the order goes, from the elements below \<open>i\<close> to all later ones.\<close>

definition ordered_upto :: "nat \<Rightarrow> 'a list \<Rightarrow> bool" where
  "ordered_upto i xs \<longleftrightarrow> (\<forall>a b. a < i \<longrightarrow> a < b \<longrightarrow> b < length xs \<longrightarrow> comparable (xs ! a) \<longrightarrow> comparable (xs ! b)
     \<longrightarrow> key (xs ! a) \<le> key (xs ! b))"

lemma pass_min_upto:
  assumes "Suc i \<le> k" "k \<le> length xs" "i \<le> m" "m < k"
    "comparable (fold (exch_step lt i) [Suc i..<k] xs ! i)" "comparable (fold (exch_step lt i) [Suc i..<k] xs ! m)"
  shows "key (fold (exch_step lt i) [Suc i..<k] xs ! i) \<le> key (fold (exch_step lt i) [Suc i..<k] xs ! m)"
  using assms
proof (induction k arbitrary: m rule: dec_induct)
  case base
  then have "m = i" by simp
  then show ?case by simp
next
  case (step k)
  define ys where "ys = fold (exch_step lt i) [Suc i..<k] xs"
  have k: "k < length ys" "i < k" using step.hyps step.prems by (simp_all add: ys_def)
  have IH: "key (ys ! i) \<le> key (ys ! m')" if "i \<le> m'" "m' < k" "comparable (ys ! i)" "comparable (ys ! m')" for m'
    using step.IH [of m'] k that by (simp add: ys_def)
  have unfold: "fold (exch_step lt i) [Suc i..<Suc k] xs = exch_step lt i k ys" using step.hyps by (simp add: ys_def)
  note p = step.prems(2-) [unfolded unfold]
  show ?case
  proof (cases "lt (ys ! k) (ys ! i)")
    case True
    then have e: "exch_step lt i k ys = ys[i := ys ! k, k := ys ! i]" by (simp add: exch_step_def)
    have l: "comparable (ys ! i)" "key (ys ! k) < key (ys ! i)" using True lt_iff by blast+
    show ?thesis
    proof (cases "m = i \<or> m = k")
      case True
      then show ?thesis using l k unfolding unfold e by auto
    next
      case False
      then have m: "i < m" "m < k" "comparable (ys ! m)" using p k by (simp_all add: e)
      then have "key (ys ! k) \<le> key (ys ! m)" using IH [of m] l by simp
      then show ?thesis using False k m unfolding unfold e by simp
    qed
  next
    case False
    then have e: "exch_step lt i k ys = ys" by (simp add: exch_step_def)
    show ?thesis
    proof (cases "m = k")
      case True
      have "\<not> key (ys ! k) < key (ys ! i)" using False p True unfolding e lt_iff by blast
      then show ?thesis using True unfolding unfold e by simp
    next
      case other: False
      then show ?thesis using IH [of m] p unfolding unfold e by simp
    qed
  qed
qed

lemma pass_min:
  assumes "i \<le> m" "m < length xs" "comparable (exch_pass lt i xs ! i)" "comparable (exch_pass lt i xs ! m)"
  shows "key (exch_pass lt i xs ! i) \<le> key (exch_pass lt i xs ! m)"
  using pass_min_upto [of i "length xs" xs m] assms by (simp add: exch_pass_def)

lemma ordered_upto_pass:
  assumes "ordered_upto i xs" "i < length xs"
  shows "ordered_upto (Suc i) (exch_pass lt i xs)"
  unfolding ordered_upto_def
proof (intro allI impI)
  let ?ys = "exch_pass lt i xs"
  fix a b assume ab: "a < Suc i" "a < b" "b < length ?ys" "comparable (?ys ! a)" "comparable (?ys ! b)"
  have tk: "?ys ! c = xs ! c" if "c < i" for c
    using take_exch_pass [OF assms(2), of lt] that by (metis nth_take)
  show "key (?ys ! a) \<le> key (?ys ! b)"
  proof (cases "a = i")
    case True
    then show ?thesis using pass_min [of i b xs] ab by simp
  next
    case False
    obtain c where c: "a < c" "c < length xs" "?ys ! b = xs ! c"
    proof (cases "b < i")
      case True
      then show ?thesis using that [of b] tk ab by simp
    next
      case False
      then have "?ys ! b \<in> set (drop i ?ys)" using ab(3) by (auto simp: in_set_conv_nth intro!: exI [of _ "b - i"])
      then have "?ys ! b \<in> set (drop i xs)" using set_drop_exch_pass [OF assms(2)] by metis
      then obtain d where "d < length xs - i" "?ys ! b = xs ! (i + d)" using assms(2) by (auto simp: in_set_conv_nth)
      then show ?thesis using that [of "i + d"] False ab(1) \<open>a \<noteq> i\<close> by simp
    qed
    then show ?thesis using assms(1) ab False tk [of a] unfolding ordered_upto_def by simp
  qed
qed

lemma ordered_upto_fold:
  "k \<le> length xs \<Longrightarrow> ordered_upto k (fold (exch_pass lt) [0..<k] xs) \<and> length (fold (exch_pass lt) [0..<k] xs) = length xs"
  by (induction k) (simp_all add: ordered_upto_def [of 0] ordered_upto_pass)

text \<open>What can be compared ends in order.\<close>

theorem ordered_exch_sort:
  assumes "a < b" "b < length xs" "comparable (exch_sort lt xs ! a)" "comparable (exch_sort lt xs ! b)"
  shows "key (exch_sort lt xs ! a) \<le> key (exch_sort lt xs ! b)"
proof -
  have "ordered_upto (length xs - 1) (exch_sort lt xs)"
    using ordered_upto_fold [of "length xs - 1" xs] by (simp add: exch_sort_def)
  then show ?thesis using assms unfolding ordered_upto_def by simp
qed

text \<open>What cannot be compared stays where it is.\<close>

lemma exch_step_fixes: "\<not> comparable (xs ! p) \<Longrightarrow> exch_step lt i j xs ! p = xs ! p"
  by (cases "p = i \<or> p = j") (auto simp: exch_step_def lt_iff)

lemma exch_sort_fixes: "\<not> comparable (xs ! p) \<Longrightarrow> exch_sort lt xs ! p = xs ! p"
proof -
  have 1: "\<not> comparable (ys ! p) \<Longrightarrow> fold (exch_step lt i) js ys ! p = ys ! p" for i js ys
    by (induction js arbitrary: ys) (simp_all add: exch_step_fixes)
  have "\<not> comparable (ys ! p) \<Longrightarrow> fold (exch_pass lt) is ys ! p = ys ! p" for "is" ys
    by (induction "is" arbitrary: ys) (simp_all add: exch_pass_def 1)
  then show "\<not> comparable (xs ! p) \<Longrightarrow> exch_sort lt xs ! p = xs ! p" by (simp add: exch_sort_def)
qed

text \<open>A list that is in order is left as it is, so sorting twice is sorting once.\<close>

lemma exch_sort_ordered:
  assumes "ordered_upto (length xs) xs"
  shows "exch_sort lt xs = xs"
proof -
  have step: "exch_step lt i j xs = xs" if "i < j" "j < length xs" for i j
    using assms that unfolding ordered_upto_def exch_step_def lt_iff by (metis less_trans not_less)
  have "\<forall>j\<in>set js. i < j \<and> j < length xs \<Longrightarrow> fold (exch_step lt i) js xs = xs" for i js
    by (induction js) (simp_all add: step)
  then have "exch_pass lt i xs = xs" for i by (simp add: exch_pass_def)
  then have "fold (exch_pass lt) is xs = xs" for "is" by (induction "is") simp_all
  then show ?thesis by (simp add: exch_sort_def)
qed

lemma exch_sort_idem: "exch_sort lt (exch_sort lt xs) = exch_sort lt xs"
  by (rule exch_sort_ordered) (simp add: ordered_upto_def ordered_exch_sort)

end

text \<open>A comparison of keys that are always there.\<close>

locale key_order =
  fixes lt :: "'a \<Rightarrow> 'a \<Rightarrow> bool" and key :: "'a \<Rightarrow> 'k::linorder"
  assumes lt_key: "lt x y \<longleftrightarrow> key x < key y"

sublocale key_order \<subseteq> keys: partial_key_order lt "\<lambda>_. True" key
  by unfold_locales (simp add: lt_key)

context key_order
begin

theorem sorted_exch_sort: "sorted (map key (exch_sort lt xs))"
  by (auto simp: sorted_iff_nth_mono_less intro: keys.ordered_exch_sort)

lemma exch_sort_sorted: "sorted (map key xs) \<Longrightarrow> exch_sort lt xs = xs"
  by (rule keys.exch_sort_ordered) (auto simp: keys.ordered_upto_def sorted_iff_nth_mono_less)

lemma exch_sort_idem: "exch_sort lt (exch_sort lt xs) = exch_sort lt xs"
  by (rule keys.exch_sort_idem)

end

end
