(* ===== verification/Lock_System.thy ===== *)
theory Lock_System
  imports Prelude
begin

text \<open>
  Threads that loop over a body of lock and unlock calls, interleaved in any order. This is
  the shape of every routine in \<open>assignments/hw5/kitchen.c\<close>, \<open>global.c\<close>, \<open>ordered.c\<close> and of
  \<open>exercises/ex09/deadlock.c\<close>:
  \<^verbatim>\<open>while (running) { lock ...; work; unlock ...; rest; }\<close>

  \<^item> \<open>instr\<close>: the calls of a body; \<open>thread\<close>: a thread's remaining calls, or \<open>Done\<close>.
  \<^item> \<open>sys\<close>, \<open>sys_step\<close>: the shared state and its steps, one thread (or the main
    program's \<open>running = false\<close>) at a time.
  \<^item> \<open>lock_store\<close>: the interface of the locks; \<open>pthread_mutex\<close> and \<open>sem_t\<close> are its two
    implementations, each with an interpretation.
  \<^item> \<open>locked_threads\<close>: the contract of the bodies (a lock is released once, after it was taken,
    before the end), from which comes mutual exclusion; \<open>ranked_threads\<close> adds that locks are
    taken in increasing rank, from which come freedom from deadlock and, after
    \<open>running = false\<close>, termination.
\<close>

subsection \<open>Thread code and the shared state\<close>

datatype ('m, 'a) instr = Acq 'm | Rel 'm | Act 'a

text \<open>
  \<open>At is l\<close>: still to run \<open>is\<close>, then back to the loop test; \<open>l\<close> is the thread's local
  state. \<open>At [] l\<close> is the loop test itself.
\<close>

datatype ('m, 'a, 'l) thread = At "('m, 'a) instr list" 'l | Done

record ('t, 'm, 'a, 'l, 'k, 'u) sys =
  thr :: "'t \<Rightarrow> ('m, 'a, 'l) thread"
  locks :: 'k
  usr :: 'u
  running :: bool

text \<open>The operations on the locks, the loop body, and what the other calls do.\<close>

record ('t, 'm, 'a, 'l, 'k, 'u) prog =
  acq :: "'k \<Rightarrow> 't \<Rightarrow> 'm \<Rightarrow> 'k option"
  rel :: "'k \<Rightarrow> 't \<Rightarrow> 'm \<Rightarrow> 'k option"
  act :: "'t \<Rightarrow> 'a \<Rightarrow> 'u \<Rightarrow> 'u"
  body :: "'t \<Rightarrow> 'l \<Rightarrow> ('m, 'a) instr list \<times> 'l"

inductive thread_step ::
    "('t, 'm, 'a, 'l, 'k, 'u) prog \<Rightarrow> 't \<Rightarrow> ('t, 'm, 'a, 'l, 'k, 'u) sys
       \<Rightarrow> ('t, 'm, 'a, 'l, 'k, 'u) sys \<Rightarrow> bool"
  for P t where
  enter: "thr s t = At [] l \<Longrightarrow> running s \<Longrightarrow> body P t l = (is, l') \<Longrightarrow>
     thread_step P t s (s\<lparr>thr := (thr s)(t := At is l')\<rparr>)"
| leave: "thr s t = At [] l \<Longrightarrow> \<not> running s \<Longrightarrow>
     thread_step P t s (s\<lparr>thr := (thr s)(t := Done)\<rparr>)"
| acquire: "thr s t = At (Acq m # is) l \<Longrightarrow> acq P (locks s) t m = Some k \<Longrightarrow>
     thread_step P t s (s\<lparr>thr := (thr s)(t := At is l), locks := k\<rparr>)"
| release: "thr s t = At (Rel m # is) l \<Longrightarrow> rel P (locks s) t m = Some k \<Longrightarrow>
     thread_step P t s (s\<lparr>thr := (thr s)(t := At is l), locks := k\<rparr>)"
| work: "thr s t = At (Act a # is) l \<Longrightarrow>
     thread_step P t s (s\<lparr>thr := (thr s)(t := At is l), usr := act P t a (usr s)\<rparr>)"

inductive sys_step ::
    "('t, 'm, 'a, 'l, 'k, 'u) prog \<Rightarrow> ('t, 'm, 'a, 'l, 'k, 'u) sys
       \<Rightarrow> ('t, 'm, 'a, 'l, 'k, 'u) sys \<Rightarrow> bool"
  for P where
  thread: "thread_step P t s s' \<Longrightarrow> sys_step P s s'"
| stop: "running s \<Longrightarrow> sys_step P s (s\<lparr>running := False\<rparr>)"

inductive reach ::
    "('t, 'm, 'a, 'l, 'k, 'u) prog \<Rightarrow> ('t, 'm, 'a, 'l, 'k, 'u) sys
       \<Rightarrow> ('t, 'm, 'a, 'l, 'k, 'u) sys \<Rightarrow> bool"
  for P s0 where
  init: "reach P s0 s0"
| step: "reach P s0 s \<Longrightarrow> sys_step P s s' \<Longrightarrow> reach P s0 s'"

text \<open>Runs, for the termination of the threads once they are told to stop.\<close>

inductive steps_n ::
    "('t, 'm, 'a, 'l, 'k, 'u) prog \<Rightarrow> nat \<Rightarrow> ('t, 'm, 'a, 'l, 'k, 'u) sys
       \<Rightarrow> ('t, 'm, 'a, 'l, 'k, 'u) sys \<Rightarrow> bool"
  for P where
  none: "steps_n P 0 s s"
| more: "sys_step P s s' \<Longrightarrow> steps_n P n s' s'' \<Longrightarrow> steps_n P (Suc n) s s''"

lemma reach_trans: "reach P s0 s \<Longrightarrow> reach P s s' \<Longrightarrow> reach P s0 s'"
  by (rotate_tac 1, induction rule: reach.induct) (auto intro: reach.step)

lemma reach_thread: "reach P s0 s \<Longrightarrow> thread_step P t s s' \<Longrightarrow> reach P s0 s'"
  by (blast intro: reach.step sys_step.thread)

lemma steps_n_reach: "steps_n P n s s' \<Longrightarrow> reach P s0 s \<Longrightarrow> reach P s0 s'"
  by (induction rule: steps_n.induct) (auto intro: reach.step)

text \<open>
  One step of a given thread is a function; \<open>sched\<close> runs a schedule, a list of thread names.
\<close>

definition thread_exec ::
    "('t, 'm, 'a, 'l, 'k, 'u) prog \<Rightarrow> 't \<Rightarrow> ('t, 'm, 'a, 'l, 'k, 'u) sys
       \<Rightarrow> ('t, 'm, 'a, 'l, 'k, 'u) sys option" where
  "thread_exec P t s = (case thr s t of
       Done \<Rightarrow> None
     | At [] l \<Rightarrow>
         if running s then (let (is, l') = body P t l in Some (s\<lparr>thr := (thr s)(t := At is l')\<rparr>))
         else Some (s\<lparr>thr := (thr s)(t := Done)\<rparr>)
     | At (Acq m # is) l \<Rightarrow>
         map_option (\<lambda>k. s\<lparr>thr := (thr s)(t := At is l), locks := k\<rparr>) (acq P (locks s) t m)
     | At (Rel m # is) l \<Rightarrow>
         map_option (\<lambda>k. s\<lparr>thr := (thr s)(t := At is l), locks := k\<rparr>) (rel P (locks s) t m)
     | At (Act a # is) l \<Rightarrow>
         Some (s\<lparr>thr := (thr s)(t := At is l), usr := act P t a (usr s)\<rparr>))"

fun sched ::
    "('t, 'm, 'a, 'l, 'k, 'u) prog \<Rightarrow> 't list \<Rightarrow> ('t, 'm, 'a, 'l, 'k, 'u) sys
       \<Rightarrow> ('t, 'm, 'a, 'l, 'k, 'u) sys option" where
  "sched P [] s = Some s"
| "sched P (t # ts) s = Option.bind (thread_exec P t s) (sched P ts)"

lemma thread_step_exec: "thread_step P t s s' \<longleftrightarrow> thread_exec P t s = Some s'"
proof
  show "thread_step P t s s' \<Longrightarrow> thread_exec P t s = Some s'"
    by (induction rule: thread_step.induct) (simp_all add: thread_exec_def)
  assume ex: "thread_exec P t s = Some s'"
  then obtain "is" l where t: "thr s t = At is l" by (cases "thr s t") (auto simp: thread_exec_def)
  show "thread_step P t s s'"
  proof (cases "is")
    case Nil
    show ?thesis
    proof (cases "running s")
      case True
      obtain js l' where "body P t l = (js, l')" by (cases "body P t l")
      then show ?thesis using ex t Nil True enter [of s t l P js l'] by (simp add: thread_exec_def)
    next
      case False
      then show ?thesis using ex t Nil leave [of s t l P] by (simp add: thread_exec_def)
    qed
  next
    case (Cons i js)
    show ?thesis
    proof (cases i)
      case (Acq m)
      then obtain k where "acq P (locks s) t m = Some k"
          and "s' = s\<lparr>thr := (thr s)(t := At js l), locks := k\<rparr>"
        using ex t Cons by (auto simp: thread_exec_def)
      then show ?thesis using acquire [of s t m js l P k] t Cons Acq by simp
    next
      case (Rel m)
      then obtain k where "rel P (locks s) t m = Some k"
          and "s' = s\<lparr>thr := (thr s)(t := At js l), locks := k\<rparr>"
        using ex t Cons by (auto simp: thread_exec_def)
      then show ?thesis using release [of s t m js l P k] t Cons Rel by simp
    next
      case (Act a)
      then have "s' = s\<lparr>thr := (thr s)(t := At js l), usr := act P t a (usr s)\<rparr>"
        using ex t Cons by (simp add: thread_exec_def)
      then show ?thesis using work [of s t a js l P] t Cons Act by simp
    qed
  qed
qed

lemma sched_reach: "sched P ts s = Some s' \<Longrightarrow> reach P s s'"
proof (induction ts arbitrary: s)
  case Nil
  then show ?case by (simp add: reach.init)
next
  case (Cons t ts)
  then obtain s1 where s1: "thread_exec P t s = Some s1" "sched P ts s1 = Some s'"
    by (auto simp: Option.bind_eq_Some_conv)
  have "reach P s s1"
    by (rule reach_thread [OF reach.init, of _ t]) (simp add: thread_step_exec s1(1))
  moreover have "reach P s1 s'" using s1(2) by (rule Cons.IH)
  ultimately show ?case by (rule reach_trans)
qed

subsection \<open>The interface of the locks\<close>

text \<open>
  \<open>free k m\<close>: the lock can be taken. \<open>mine k t m\<close>: \<open>t\<close> may release it. \<open>ok\<close> is the store's
  own invariant. \<open>None\<close> from \<open>lk\<close> means the call blocks; \<open>None\<close> from \<open>ul\<close> means the release
  is an error (a mutex its caller does not hold).
\<close>

locale lock_store =
  fixes lk :: "'k \<Rightarrow> 't \<Rightarrow> 'm \<Rightarrow> 'k option" and ul :: "'k \<Rightarrow> 't \<Rightarrow> 'm \<Rightarrow> 'k option"
    and free :: "'k \<Rightarrow> 'm \<Rightarrow> bool" and mine :: "'k \<Rightarrow> 't \<Rightarrow> 'm \<Rightarrow> bool" and ok :: "'k \<Rightarrow> bool"
  assumes lk_free: "ok k \<Longrightarrow> free k m \<Longrightarrow> \<exists>k'. lk k t m = Some k'"
    and lk_ok: "ok k \<Longrightarrow> lk k t m = Some k' \<Longrightarrow> ok k'"
    and lk_was_free: "ok k \<Longrightarrow> lk k t m = Some k' \<Longrightarrow> free k m"
    and lk_taken: "ok k \<Longrightarrow> lk k t m = Some k' \<Longrightarrow> \<not> free k' m \<and> mine k' t m"
    and lk_other: "ok k \<Longrightarrow> lk k t m = Some k' \<Longrightarrow> m' \<noteq> m \<Longrightarrow>
          free k' m' = free k m' \<and> mine k' t' m' = mine k t' m'"
    and ul_mine: "ok k \<Longrightarrow> mine k t m \<Longrightarrow> \<exists>k'. ul k t m = Some k'"
    and ul_free: "ok k \<Longrightarrow> mine k t m \<Longrightarrow> ul k t m = Some k' \<Longrightarrow> ok k' \<and> free k' m"
    and ul_other: "ok k \<Longrightarrow> mine k t m \<Longrightarrow> ul k t m = Some k' \<Longrightarrow> m' \<noteq> m \<Longrightarrow>
          free k' m' = free k m' \<and> mine k' t' m' = mine k t' m'"

text \<open>
  \<open>pthread_mutex_lock\<close> and \<open>pthread_mutex_unlock\<close>: the owner of each mutex; unlocking a mutex
  the caller does not own is an error.
\<close>

type_synonym ('t, 'm) mutexes = "'m \<Rightarrow> 't option"

definition mutex_lock :: "('t, 'm) mutexes \<Rightarrow> 't \<Rightarrow> 'm \<Rightarrow> ('t, 'm) mutexes option" where
  "mutex_lock k t m = (if k m = None then Some (k(m := Some t)) else None)"

definition mutex_unlock :: "('t, 'm) mutexes \<Rightarrow> 't \<Rightarrow> 'm \<Rightarrow> ('t, 'm) mutexes option" where
  "mutex_unlock k t m = (if k m = Some t then Some (k(m := None)) else None)"

interpretation mutex_store: lock_store mutex_lock mutex_unlock
  "\<lambda>k m. k m = None" "\<lambda>k t m. k m = Some t" "\<lambda>_. True"
  by unfold_locales (auto simp: mutex_lock_def mutex_unlock_def split: if_splits)

text \<open>\<open>sem_wait\<close> and \<open>sem_post\<close>: a count for each semaphore, no owner.\<close>

type_synonym 'm sems = "'m \<Rightarrow> nat"

definition sem_wait :: "'m sems \<Rightarrow> 't \<Rightarrow> 'm \<Rightarrow> 'm sems option" where
  "sem_wait k t m = (if 0 < k m then Some (k(m := k m - 1)) else None)"

definition sem_post :: "'m sems \<Rightarrow> 't \<Rightarrow> 'm \<Rightarrow> 'm sems option" where
  "sem_post k t m = Some (k(m := k m + 1))"

text \<open>Used as locks, the semaphores stay at 0 or 1.\<close>

interpretation sem_store: lock_store sem_wait sem_post
  "\<lambda>k m. 0 < k m" "\<lambda>k t m. k m = 0" "\<lambda>k. \<forall>m. k m \<le> 1"
  by unfold_locales (auto simp: sem_wait_def sem_post_def le_Suc_eq split: if_splits, metis neq0_conv)

lemmas sched_simps = thread_exec_def mutex_lock_def mutex_unlock_def sem_wait_def sem_post_def Let_def

subsection \<open>What a body promises\<close>

text \<open>
  \<open>owed is\<close>: the locks that the remaining calls release before they take them again, that is,
  the locks the thread holds now.
\<close>

fun owed :: "('m, 'a) instr list \<Rightarrow> 'm set" where
  "owed [] = {}"
| "owed (Acq m # is) = owed is - {m}"
| "owed (Rel m # is) = insert m (owed is)"
| "owed (Act a # is) = owed is"

text \<open>
  \<open>ranked ab is\<close>: no release of a lock that is not held, every lock released, and every lock
  \<open>m\<close> taken while \<open>h\<close> is held satisfies \<open>ab h m\<close>.
\<close>

fun ranked :: "('m \<Rightarrow> 'm \<Rightarrow> bool) \<Rightarrow> ('m, 'a) instr list \<Rightarrow> bool" where
  "ranked ab [] \<longleftrightarrow> True"
| "ranked ab (Acq m # is) \<longleftrightarrow> m \<in> owed is \<and> (\<forall>h\<in>owed is - {m}. ab h m) \<and> ranked ab is"
| "ranked ab (Rel m # is) \<longleftrightarrow> m \<notin> owed is \<and> ranked ab is"
| "ranked ab (Act a # is) \<longleftrightarrow> ranked ab is"

fun holds :: "('m, 'a, 'l) thread \<Rightarrow> 'm set" where
  "holds (At is l) = owed is"
| "holds Done = {}"

fun thread_ranked :: "('m \<Rightarrow> 'm \<Rightarrow> bool) \<Rightarrow> ('l \<Rightarrow> bool) \<Rightarrow> ('m, 'a, 'l) thread \<Rightarrow> bool" where
  "thread_ranked rk li (At is l) \<longleftrightarrow> ranked rk is \<and> li l"
| "thread_ranked rk li Done \<longleftrightarrow> True"

text \<open>
  The pattern of the routines: take the locks of a list, work, give them back. It is ranked
  when the list goes up in rank.
\<close>

lemma owed_append: "owed (map Rel xs @ is) = set xs \<union> owed is"
  by (induction xs) auto

lemma owed_Acqs: "owed (map Acq xs @ is) = owed is - set xs"
  by (induction xs) auto

lemma ranked_Rels: "ranked ab (map Rel xs @ is) \<longleftrightarrow> distinct xs \<and> set xs \<inter> owed is = {} \<and> ranked ab is"
  by (induction xs) (auto simp: owed_append)

lemma ranked_Acqs:
  "ranked ab is \<Longrightarrow> set xs \<subseteq> owed is \<Longrightarrow> distinct xs \<Longrightarrow> sorted_wrt ab xs \<Longrightarrow>
   \<forall>h\<in>owed is - set xs. \<forall>m\<in>set xs. ab h m \<Longrightarrow> ranked ab (map Acq xs @ is)"
proof (induction xs)
  case (Cons x xs)
  have "ranked ab (map Acq xs @ is)"
    by (rule Cons.IH) (use Cons.prems in auto)
  then show ?case using Cons.prems by (auto simp: owed_Acqs)
qed simp

lemma locked_routine:
  assumes "sorted_wrt ab xs" "distinct xs" "distinct ys" "set ys = set xs"
  shows "ranked ab (map Acq xs @ Act a # map Rel ys @ [Act b])"
    and "owed (map Acq xs @ Act a # map Rel ys @ [Act b]) = {}"
proof -
  have o: "owed (Act a # map Rel ys @ [Act b]) = set xs" using assms by (simp add: owed_append)
  show "ranked ab (map Acq xs @ Act a # map Rel ys @ [Act b])"
    by (rule ranked_Acqs) (use assms o in \<open>simp_all add: ranked_Rels\<close>)
  show "owed (map Acq xs @ Act a # map Rel ys @ [Act b]) = {}" using o by (simp add: owed_Acqs)
qed

text \<open>A thread about to do the work of its routine has only the releases (and the rest) left.\<close>

lemma routine_tail: "map Rel ys @ [Act b] = ks @ Act c # js \<Longrightarrow> c \<noteq> b \<Longrightarrow> False"
  by (induction ys arbitrary: ks) (auto simp: Cons_eq_append_conv)

lemma routine_at_work:
  "map Acq xs @ Act a # map Rel ys @ [Act b] = ks @ Act c # js \<Longrightarrow> c \<noteq> b \<Longrightarrow>
   js = map Rel ys @ [Act b]"
  by (induction xs arbitrary: ks) (auto simp: Cons_eq_append_conv dest: routine_tail)

text \<open>The calls still to make, counting the exit: what shrinks once \<open>running\<close> is false.\<close>

fun thread_left :: "('m, 'a, 'l) thread \<Rightarrow> nat" where
  "thread_left (At is l) = Suc (length is)"
| "thread_left Done = 0"

locale locked_threads = lock_store lk ul free mine ok
  for lk :: "'k \<Rightarrow> 't \<Rightarrow> 'm \<Rightarrow> 'k option" and ul :: "'k \<Rightarrow> 't \<Rightarrow> 'm \<Rightarrow> 'k option"
    and free :: "'k \<Rightarrow> 'm \<Rightarrow> bool" and mine :: "'k \<Rightarrow> 't \<Rightarrow> 'm \<Rightarrow> bool" and ok :: "'k \<Rightarrow> bool" +
  fixes P :: "('t, 'm, 'a, 'l, 'k, 'u) prog" and s0 :: "('t, 'm, 'a, 'l, 'k, 'u) sys"
    and above :: "'m \<Rightarrow> 'm \<Rightarrow> bool" and linv :: "'t \<Rightarrow> 'l \<Rightarrow> bool"
  assumes acq_P: "acq P = lk" and rel_P: "rel P = ul"
    and body_ranked: "linv t l \<Longrightarrow> body P t l = (is, l') \<Longrightarrow> ranked above is \<and> owed is = {} \<and> linv t l'"
    and start_idle: "\<exists>l. linv t l \<and> thr s0 t = At [] l"
    and start_free: "free (locks s0) m"
    and start_ok: "ok (locks s0)"
begin

text \<open>The invariant: thread code and lock store agree about who holds what.\<close>

definition agree :: "('t, 'm, 'a, 'l, 'k, 'u) sys \<Rightarrow> bool" where
  "agree s \<longleftrightarrow> ok (locks s)
     \<and> (\<forall>t. thread_ranked above (linv t) (thr s t))
     \<and> (\<forall>t m. m \<in> holds (thr s t) \<longrightarrow> mine (locks s) t m \<and> \<not> free (locks s) m)
     \<and> (\<forall>m. \<not> free (locks s) m \<longrightarrow> (\<exists>t. m \<in> holds (thr s t)))
     \<and> (\<forall>t t'. t \<noteq> t' \<longrightarrow> holds (thr s t) \<inter> holds (thr s t') = {})"

lemma agree_start: "agree s0"
proof -
  have "holds (thr s0 t) = {} \<and> thread_ranked above (linv t) (thr s0 t)" for t
    using start_idle [of t] by auto
  then show ?thesis by (auto simp: agree_def start_ok start_free)
qed

text \<open>
  One rule for all the steps: thread \<open>t\<close> moves to \<open>th\<close>, the store to \<open>k\<close>, and the two still
  agree when they do for \<open>t\<close>'s own locks and nothing else changed.
\<close>

lemma agree_move:
  assumes a: "agree s" and ok: "ok k" and r: "thread_ranked above (linv t) th"
    and own: "\<And>m. m \<in> holds th \<Longrightarrow> mine k t m \<and> \<not> free k m \<and> (\<forall>t'. t' \<noteq> t \<longrightarrow> m \<notin> holds (thr s t'))"
    and others: "\<And>t' m. t' \<noteq> t \<Longrightarrow> m \<in> holds (thr s t') \<Longrightarrow> mine k t' m \<and> \<not> free k m"
    and held: "\<And>m. \<not> free k m \<Longrightarrow> m \<in> holds th \<or> (\<exists>t'. t' \<noteq> t \<and> m \<in> holds (thr s t'))"
    and s': "thr s' = (thr s)(t := th)" "locks s' = k"
  shows "agree s'"
proof -
  have "\<exists>t'. m \<in> holds (thr s' t')" if "\<not> free k m" for m
    using held [OF that] s' by (metis fun_upd_apply)
  moreover have "holds (thr s' t1) \<inter> holds (thr s' t2) = {}" if "t1 \<noteq> t2" for t1 t2
    using a own that s' unfolding agree_def by (cases "t1 = t"; cases "t2 = t") auto
  ultimately show ?thesis
    using a ok r own others s' unfolding agree_def by simp
qed

lemma agree_acquire:
  assumes a: "agree s" and t: "thr s t = At (Acq m # is) l" and k: "lk (locks s) t m = Some k"
  shows "agree (s\<lparr>thr := (thr s)(t := At is l), locks := k\<rparr>)"
proof (rule agree_move [OF a])
  have ok: "ok (locks s)" using a by (simp add: agree_def)
  have f: "free (locks s) m" using lk_was_free ok k by blast
  have rt: "thread_ranked above (linv t) (thr s t)" using a by (simp add: agree_def)
  have nm: "m \<notin> holds (thr s t')" for t' using a f by (auto simp: agree_def)
  note o = lk_other [OF ok k]
  note taken = lk_taken [OF ok k]
  show "ok k" using lk_ok [OF ok k] .
  show "thread_ranked above (linv t) (At is l)" using rt t by simp
  show "mine k t m' \<and> \<not> free k m' \<and> (\<forall>t'. t' \<noteq> t \<longrightarrow> m' \<notin> holds (thr s t'))"
    if "m' \<in> holds (At is l)" for m'
  proof (cases "m' = m")
    case True
    then show ?thesis using taken nm by simp
  next
    case False
    then have "m' \<in> holds (thr s t)" using that t by simp
    then show ?thesis using a o [OF False] unfolding agree_def by blast
  qed
  show "mine k t' m' \<and> \<not> free k m'" if "t' \<noteq> t" "m' \<in> holds (thr s t')" for t' m'
    using that a o [of m'] nm [of t'] unfolding agree_def by (cases "m' = m") blast+
  show "m' \<in> holds (At is l) \<or> (\<exists>t'. t' \<noteq> t \<and> m' \<in> holds (thr s t'))" if n: "\<not> free k m'" for m'
  proof (cases "m' = m")
    case True
    then show ?thesis using rt t by simp
  next
    case False
    then obtain t' where "m' \<in> holds (thr s t')"
      using n a o [OF False] unfolding agree_def by blast
    then show ?thesis using t by (cases "t' = t") auto
  qed
qed simp_all

lemma agree_release:
  assumes a: "agree s" and t: "thr s t = At (Rel m # is) l" and k: "ul (locks s) t m = Some k"
  shows "agree (s\<lparr>thr := (thr s)(t := At is l), locks := k\<rparr>)"
proof (rule agree_move [OF a])
  have ok: "ok (locks s)" using a by (simp add: agree_def)
  have rt: "thread_ranked above (linv t) (thr s t)" using a by (simp add: agree_def)
  have mh: "m \<in> holds (thr s t)" using t by simp
  then have mn: "mine (locks s) t m" using a by (simp add: agree_def)
  have nm: "m \<notin> holds (thr s t')" if "t' \<noteq> t" for t'
    using a mh that unfolding agree_def by blast
  note o = ul_other [OF ok mn k]
  have fr: "free k m" using ul_free [OF ok mn k] by simp
  show "ok k" using ul_free [OF ok mn k] by simp
  show "thread_ranked above (linv t) (At is l)" using rt t by simp
  have mo: "m \<notin> owed is" using rt t by simp
  show "mine k t m' \<and> \<not> free k m' \<and> (\<forall>t'. t' \<noteq> t \<longrightarrow> m' \<notin> holds (thr s t'))"
    if "m' \<in> holds (At is l)" for m'
  proof -
    have "m' \<noteq> m" "m' \<in> holds (thr s t)" using that mo t by auto
    then show ?thesis using a o unfolding agree_def by blast
  qed
  show "mine k t' m' \<and> \<not> free k m'" if "t' \<noteq> t" "m' \<in> holds (thr s t')" for t' m'
    using that a o [of m'] nm [of t'] unfolding agree_def by (cases "m' = m") blast+
  show "m' \<in> holds (At is l) \<or> (\<exists>t'. t' \<noteq> t \<and> m' \<in> holds (thr s t'))" if n: "\<not> free k m'" for m'
  proof -
    have "m' \<noteq> m" using n fr by blast
    then obtain t' where "m' \<in> holds (thr s t')"
      using n a o unfolding agree_def by blast
    then show ?thesis using t \<open>m' \<noteq> m\<close> by (cases "t' = t") auto
  qed
qed simp_all

lemma agree_local:
  assumes a: "agree s" and h: "holds th = holds (thr s t)" and r: "thread_ranked above (linv t) th"
    and s': "thr s' = (thr s)(t := th)" "locks s' = locks s"
  shows "agree s'"
proof (rule agree_move [OF a _ r _ _ _ s'])
  show "ok (locks s)" using a by (simp add: agree_def)
  have own: "mine (locks s) t' m \<and> \<not> free (locks s) m" if "m \<in> holds (thr s t')" for t' m
    using that a by (simp add: agree_def)
  have one: "m \<notin> holds (thr s t')" if "m \<in> holds (thr s t)" "t' \<noteq> t" for t' m
    using that a unfolding agree_def by blast
  show "mine (locks s) t m \<and> \<not> free (locks s) m \<and> (\<forall>t'. t' \<noteq> t \<longrightarrow> m \<notin> holds (thr s t'))"
    if "m \<in> holds th" for m
    using that own one unfolding h by simp
  show "mine (locks s) t' m \<and> \<not> free (locks s) m" if "m \<in> holds (thr s t')" for t' m
    using that by (rule own)
  show "m \<in> holds th \<or> (\<exists>t'. t' \<noteq> t \<and> m \<in> holds (thr s t'))" if "\<not> free (locks s) m" for m
  proof -
    from a have "\<exists>t'. m \<in> holds (thr s t')" using that unfolding agree_def by metis
    then obtain t' where "m \<in> holds (thr s t')" by blast
    then show ?thesis unfolding h by (cases "t' = t") auto
  qed
qed

lemma agree_thread_step:
  assumes "thread_step P t s s'" "agree s"
  shows "agree s'"
  using assms
proof (cases rule: thread_step.cases)
  case (enter l "is" l')
  moreover have "linv t l" using assms(2) enter(2) unfolding agree_def by (metis thread_ranked.simps(1))
  ultimately show ?thesis
    using body_ranked [OF _ enter(4)] by (intro agree_local [OF assms(2), where t = t]) simp_all
next
  case (leave l)
  then show ?thesis by (intro agree_local [OF assms(2), where t = t]) simp_all
next
  case (acquire m "is" l k)
  then show ?thesis using assms(2) by (simp add: acq_P agree_acquire)
next
  case (release m "is" l k)
  then show ?thesis using assms(2) by (simp add: rel_P agree_release)
next
  case (work a "is" l)
  moreover from assms(2) have "thread_ranked above (linv t) (thr s t)" by (simp add: agree_def)
  ultimately show ?thesis by (intro agree_local [OF assms(2), where t = t]) simp_all
qed

lemma agree_reach: "reach P s0 s \<Longrightarrow> agree s"
proof (induction rule: reach.induct)
  case init
  show ?case by (rule agree_start)
next
  case (step s s')
  from step.hyps(2) show ?case
  proof cases
    case (thread t)
    then show ?thesis using step.IH by (rule agree_thread_step)
  next
    case stop
    then show ?thesis using step.IH by (simp add: agree_def)
  qed
qed

text \<open>The thread's local state keeps its own invariant.\<close>

lemma reach_linv: "reach P s0 s \<Longrightarrow> thr s t = At is l \<Longrightarrow> linv t l"
  using agree_reach [of s] unfolding agree_def by (metis thread_ranked.simps(1))

text \<open>Mutual exclusion.\<close>

lemma mutual_exclusion:
  "reach P s0 s \<Longrightarrow> m \<in> holds (thr s t) \<Longrightarrow> m \<in> holds (thr s t') \<Longrightarrow> t = t'"
  using agree_reach [of s] unfolding agree_def by blast

text \<open>A thread that is not about to take a lock can always go on.\<close>

lemma blocked_only_on_acquire:
  assumes a: "agree s" and n: "thr s t \<noteq> Done" and b: "\<not> (\<exists>s'. thread_step P t s s')"
  shows "\<exists>m is l. thr s t = At (Acq m # is) l \<and> \<not> free (locks s) m"
proof (cases "thr s t")
  case (At "is" l)
  show ?thesis
  proof (cases "is")
    case Nil
    have "\<exists>s'. thread_step P t s s'"
    proof (cases "running s")
      case True
      obtain js l' where "body P t l = (js, l')" by (cases "body P t l")
      then show ?thesis using enter [of s t l] True At Nil by blast
    next
      case False
      then show ?thesis using leave [of s t l] At Nil by blast
    qed
    then show ?thesis using b by blast
  next
    case (Cons i js)
    show ?thesis
    proof (cases i)
      case (Acq m)
      have "\<not> free (locks s) m"
        using lk_free [of "locks s" m t] acquire [of s t m js l P] b At Cons Acq a
        by (auto simp: acq_P agree_def)
      then show ?thesis using At Cons Acq by blast
    next
      case (Rel m)
      have "m \<in> holds (thr s t)" using At Cons Rel by simp
      then have "mine (locks s) t m" "ok (locks s)" using a by (simp_all add: agree_def)
      then show ?thesis
        using ul_mine [of "locks s" t m] release [of s t m js l P] b At Cons Rel by (auto simp: rel_P)
    next
      case (Act x)
      then show ?thesis using work [of s t x js l P] b At Cons by blast
    qed
  qed
qed (simp add: n)

text \<open>Releases never go wrong: a thread only ever gives back a lock that it may release.\<close>

lemma release_defined:
  assumes "reach P s0 s" "thr s t = At (Rel m # is) l"
  shows "\<exists>k. ul (locks s) t m = Some k"
proof -
  have a: "agree s" using assms(1) by (rule agree_reach)
  moreover have "m \<in> holds (thr s t)" using assms(2) by simp
  ultimately show ?thesis unfolding agree_def by (blast intro: ul_mine)
qed

text \<open>A thread's remaining calls are always the end of one of its loop bodies.\<close>

lemma reach_suffix:
  assumes "reach P s0 s" "thr s t = At is l" "is \<noteq> []"
  shows "\<exists>l0 js. linv t l0 \<and> body P t l0 = (js @ is, l)"
  using assms
proof (induction arbitrary: "is" l rule: reach.induct)
  case init
  then show ?case using start_idle [of t] by auto
next
  case (step s s')
  have IH: "\<exists>l0 js. linv t l0 \<and> body P t l0 = (js @ is, l)" if "thr s t = At is l" "is \<noteq> []" for "is" l
    using step.IH that .
  from step.hyps(2) show ?case
  proof cases
    case (thread t')
    show ?thesis
    proof (cases "t' = t")
      case False
      then have "thr s t = At is l"
        using thread step.prems by (auto elim: thread_step.cases)
      then show ?thesis using IH step.prems by blast
    next
      case True
      have more: ?thesis if "thr s t = At (i # is) l" for i
        using IH [OF that] by (metis append.assoc append_Cons append_Nil list.discI)
      show ?thesis
        using thread [unfolded True] step.prems reach_linv [OF step.hyps(1)]
      proof cases
        case (enter l0 js l')
        then show ?thesis using step.prems reach_linv [OF step.hyps(1) enter(2)]
          by (intro exI [of _ l0] exI [of _ "[]"]) simp
      qed (use step.prems more in auto)
    qed
  next
    case stop
    then show ?thesis using IH step.prems by simp
  qed
qed

end

text \<open>
  When the order in which locks are taken follows a rank, finitely many threads never deadlock
  and end once they are told to.
\<close>

locale ranked_threads = locked_threads lk ul free mine ok P s0 above linv
  for lk :: "'k \<Rightarrow> 't \<Rightarrow> 'm \<Rightarrow> 'k option" and ul :: "'k \<Rightarrow> 't \<Rightarrow> 'm \<Rightarrow> 'k option"
    and free :: "'k \<Rightarrow> 'm \<Rightarrow> bool" and mine :: "'k \<Rightarrow> 't \<Rightarrow> 'm \<Rightarrow> bool" and ok :: "'k \<Rightarrow> bool"
    and P :: "('t, 'm, 'a, 'l, 'k, 'u) prog" and s0 :: "('t, 'm, 'a, 'l, 'k, 'u) sys"
    and above :: "'m \<Rightarrow> 'm \<Rightarrow> bool" and linv :: "'t \<Rightarrow> 'l \<Rightarrow> bool" +
  fixes rk :: "'m \<Rightarrow> nat"
  assumes above_rank: "above h m \<Longrightarrow> rk h < rk m"
    and threads_finite: "finite (UNIV :: 't set)"
begin

text \<open>
  No deadlock: while some thread is not done, some thread can step. The one that waits for the
  lock of highest rank would otherwise wait for a thread that waits for a lock of higher rank.
\<close>

lemma deadlock_free:
  assumes "reach P s0 s" and n: "thr s t \<noteq> Done"
  shows "\<exists>t s'. thread_step P t s s'"
proof (rule ccontr)
  assume stuck: "\<nexists>t s'. thread_step P t s s'"
  have a: "agree s" using assms(1) by (rule agree_reach)
  define W where "W = {t. thr s t \<noteq> Done}"
  define want where "want t = (case thr s t of At (Acq m # is) l \<Rightarrow> rk m | _ \<Rightarrow> 0)" for t
  have W: "finite W" "W \<noteq> {}" using threads_finite n finite_subset [of W UNIV] by (auto simp: W_def)
  then have "Max (want ` W) \<in> want ` W" by (intro Max_in) simp_all
  then obtain t0 where t0: "t0 \<in> W" "want t0 = Max (want ` W)" by auto
  have top: "want t \<le> want t0" if "t \<in> W" for t
    unfolding t0(2) using W(1) that by (intro Max_ge) simp_all
  have b: "\<exists>m is l. thr s t = At (Acq m # is) l \<and> \<not> free (locks s) m" if "t \<in> W" for t
    using blocked_only_on_acquire [OF a] stuck that by (simp add: W_def)
  obtain m "is" l where m: "thr s t0 = At (Acq m # is) l" "\<not> free (locks s) m" using b t0(1) by blast
  then obtain t1 where t1: "m \<in> holds (thr s t1)" using a unfolding agree_def by blast
  then have "t1 \<in> W" by (auto simp: W_def)
  then obtain m1 is1 l1 where m1: "thr s t1 = At (Acq m1 # is1) l1" using b by blast
  have "thread_ranked above (linv t1) (thr s t1)" using a by (simp add: agree_def)
  then have "above m m1" using t1 m1 by simp
  then have "rk m < rk m1" by (rule above_rank)
  then show False using top [OF \<open>t1 \<in> W\<close>] m m1 by (simp add: want_def)
qed

text \<open>Once told to stop, the threads run dry: each step uses up one call.\<close>

definition left :: "('t, 'm, 'a, 'l, 'k, 'u) sys \<Rightarrow> nat" where
  "left s = (\<Sum>t\<in>UNIV. thread_left (thr s t))"

lemma left_update:
  assumes "thread_left (thr s t) = Suc (thread_left th)" "thr s' = (thr s)(t := th)"
  shows "left s = Suc (left s')"
proof -
  have "left s = thread_left (thr s t) + (\<Sum>t\<in>UNIV - {t}. thread_left (thr s t))"
    unfolding left_def by (rule sum.remove) (simp_all add: threads_finite)
  moreover have "left s' = thread_left th + (\<Sum>t\<in>UNIV - {t}. thread_left (thr s t))"
    unfolding left_def
    by (subst sum.remove [of UNIV t]) (simp_all add: threads_finite assms(2))
  ultimately show ?thesis using assms(1) by simp
qed

lemma stopped_step:
  assumes "sys_step P s s'" "\<not> running s"
  shows "\<not> running s' \<and> left s = Suc (left s')"
  using assms
proof cases
  case (thread t)
  then show ?thesis
    using assms(2) by (cases rule: thread_step.cases) (auto intro!: left_update [where t = t])
qed simp

lemma stopped_steps: "steps_n P n s s' \<Longrightarrow> \<not> running s \<Longrightarrow> \<not> running s' \<and> left s = n + left s'"
  by (induction rule: steps_n.induct) (auto dest: stopped_step)

lemma left_0: "left s = 0 \<Longrightarrow> thr s t = Done"
proof -
  assume "left s = 0"
  then have "thread_left (thr s t) = 0" by (simp add: left_def threads_finite sum_eq_0_iff)
  then show ?thesis by (cases "thr s t") simp_all
qed

lemma stopped_terminates:
  assumes "reach P s0 s" "\<not> running s"
  shows "\<exists>s'. steps_n P (left s) s s' \<and> (\<forall>t. thr s' t = Done)"
  using assms
proof (induction "left s" arbitrary: s)
  case 0
  then have "\<forall>t. thr s t = Done" using left_0 by simp
  moreover have "steps_n P 0 s s" by (rule steps_n.none)
  ultimately show ?case using 0 by metis
next
  case (Suc n)
  have "\<exists>t. thr s t \<noteq> Done"
  proof (rule ccontr)
    assume "\<nexists>t. thr s t \<noteq> Done"
    then have "left s = 0" by (simp add: left_def)
    then show False using Suc.hyps(2) by simp
  qed
  then obtain t s1 where st: "thread_step P t s s1" using deadlock_free Suc.prems(1) by blast
  then have s1: "sys_step P s s1" by (rule sys_step.thread)
  then have "left s = Suc (left s1)" "\<not> running s1" using stopped_step Suc.prems(2) by blast+
  moreover from this obtain s' where "steps_n P (left s1) s1 s'" "\<forall>t. thr s' t = Done"
    using Suc.hyps(1) [of s1] Suc.hyps(2) reach_thread [OF Suc.prems(1) st] by auto
  ultimately show ?case using steps_n.more [OF s1] by metis
qed

end

end
