(* ===== verification/Kitchen.thy ===== *)
theory Kitchen
  imports Lock_System Exchange_Sort
begin

text \<open>
  The chefs of homework 5 that lock appliances one by one: \<open>assignments/hw5/kitchen.c\<close> (each
  chef in an order of its own), \<open>ordered.c\<close> (in the order of the enumeration) and \<open>global.c\<close>
  (one lock for the whole kitchen). A routine is a body of \<open>Lock_System\<close> instructions; the
  three programs differ in their bodies only and share \<open>cook\<close>, \<open>rest\<close> and \<open>main\<close>.

  Proved: \<open>ordered.c\<close> and \<open>global.c\<close> exclude each other's chefs from an appliance, never
  deadlock, and end once \<open>main\<close> clears \<open>running\<close>; \<open>kitchen.c\<close> reaches a state from which two
  chefs never move again.
\<close>

subsection \<open>Chefs, appliances, cooking and resting\<close>

datatype chef = Tad | Merry | Charles | Merlin | Lyn | Marian | Summer | Sammy | Lura | Ginny

text \<open>The enumeration of \<open>ordered.c\<close>, in its order.\<close>

datatype appliance = BLENDER | GRIDDLE | FRYER | GRILL | MIXER | COFFEEMAKER | OVEN | MICROWAVE

datatype chef_act = Cook int | Rest int

text \<open>\<open>chefList\<close>, as every \<open>main\<close> lists it.\<close>

definition chefList :: "chef list" where
  "chefList = [Tad, Merry, Charles, Merlin, Lyn, Marian, Summer, Sammy, Lura, Ginny]"

lemma set_chefList: "set chefList = UNIV"
proof -
  have "c \<in> set chefList" for c by (cases c) (simp_all add: chefList_def)
  then show ?thesis by auto
qed

lemma finite_chef: "finite (UNIV :: chef set)"
  using finite_set [of chefList] unfolding set_chefList .

fun chef_name :: "chef \<Rightarrow> string" where
  "chef_name Tad = ''Tad''"
| "chef_name Merry = ''Merry''"
| "chef_name Charles = ''Charles''"
| "chef_name Merlin = ''Merlin''"
| "chef_name Lyn = ''Lyn''"
| "chef_name Marian = ''Marian''"
| "chef_name Summer = ''Summer''"
| "chef_name Sammy = ''Sammy''"
| "chef_name Lura = ''Lura''"
| "chef_name Ginny = ''Ginny''"

text \<open>What the chefs print, and the \<open>dishCount\<close> of each \<open>ChefRec\<close>.\<close>

record kitchen =
  dishCount :: "chef \<Rightarrow> nat"
  printed :: "string list"

definition cook :: "int \<Rightarrow> chef \<Rightarrow> kitchen \<Rightarrow> kitchen" where
  "cook duration c k = k\<lparr>printed := printed k @ [chef_name c @ '' is cooking''],
                         dishCount := (dishCount k)(c := dishCount k c + 1)\<rparr>"

definition rest :: "int \<Rightarrow> chef \<Rightarrow> kitchen \<Rightarrow> kitchen" where
  "rest duration c k = k\<lparr>printed := printed k @ [chef_name c @ '' is resting'']\<rparr>"

fun do_act :: "chef \<Rightarrow> chef_act \<Rightarrow> kitchen \<Rightarrow> kitchen" where
  "do_act c (Cook d) k = cook d c k"
| "do_act c (Rest d) k = rest d c k"

text \<open>The argument of \<open>usleep\<close> in \<open>cook\<close> and \<open>rest\<close>, in microseconds, for a value of \<open>rand()\<close>.\<close>

definition RAND_MAX :: int where "RAND_MAX = 2147483647"

definition usleep_arg :: "int \<Rightarrow> int \<Rightarrow> int" where
  "usleep_arg r duration = 500 * (r * duration div RAND_MAX + duration)"

text \<open>The code comment: "between duration / 2 and duration ms".\<close>

lemma usleep_arg_bounds:
  assumes "0 \<le> r" "r \<le> RAND_MAX" "0 \<le> duration"
  shows "500 * duration \<le> usleep_arg r duration \<and> usleep_arg r duration \<le> 1000 * duration"
proof -
  have "r * duration \<le> RAND_MAX * duration" using assms by (simp add: mult_right_mono)
  then have "r * duration div RAND_MAX \<le> RAND_MAX * duration div RAND_MAX"
    by (rule zdiv_mono1) (simp add: RAND_MAX_def)
  then have "r * duration div RAND_MAX \<le> duration" by (simp add: RAND_MAX_def)
  moreover have "0 \<le> r * duration div RAND_MAX"
    using assms by (simp add: RAND_MAX_def pos_imp_zdiv_nonneg_iff)
  ultimately show ?thesis by (simp add: usleep_arg_def)
qed

text \<open>The state \<open>main\<close> starts the threads in, and its report when all have been joined.\<close>

definition kitchen_init :: "(chef \<Rightarrow> 'l) \<Rightarrow> (chef, 'm, chef_act, 'l, (chef, 'm) mutexes, kitchen) sys" where
  "kitchen_init l = \<lparr>thr = (\<lambda>c. At [] (l c)), locks = (\<lambda>_. None),
     usr = \<lparr>dishCount = (\<lambda>_. 0), printed = []\<rparr>, running = True\<rparr>"

definition report_total :: "kitchen \<Rightarrow> nat" where
  "report_total k = fold (\<lambda>c total. total + dishCount k c) chefList 0"

text \<open>What \<open>main\<close> prints after the joins.\<close>

definition main_report :: "kitchen \<Rightarrow> string" where
  "main_report k =
     concat (map (\<lambda>c. chef_name c @ '' cooked '' @ show_int (int (dishCount k c)) @ '' dishes'' @ NL) chefList)
     @ ''Total dishes cooked: '' @ show_int (int (report_total k)) @ NL"

definition kitchen_prog ::
    "(chef \<Rightarrow> 'l \<Rightarrow> ('m, chef_act) instr list \<times> 'l)
       \<Rightarrow> (chef, 'm, chef_act, 'l, (chef, 'm) mutexes, kitchen) prog" where
  "kitchen_prog b = \<lparr>acq = mutex_lock, rel = mutex_unlock, act = do_act, body = b\<rparr>"

text \<open>The cook at work: a chef that has locked what it needs and not yet cooked.\<close>

fun cooking :: "('m, chef_act, 'l) thread \<Rightarrow> bool" where
  "cooking (At (Act (Cook d) # is) l) = True"
| "cooking _ = False"

text \<open>In every kitchen the dish counters agree with the lines printed.\<close>

definition counted :: "kitchen \<Rightarrow> bool" where
  "counted k \<longleftrightarrow> (\<forall>c. dishCount k c = count_list (printed k) (chef_name c @ '' is cooking''))"

lemma chef_name_eq [simp]: "chef_name c = chef_name c' \<longleftrightarrow> c = c'"
  by (cases c; cases c') simp_all

lemma rest_not_cook [simp]: "chef_name c @ '' is resting'' \<noteq> chef_name c' @ '' is cooking''"
  by (cases c; cases c') simp_all

lemma counted_act: "counted k \<Longrightarrow> counted (do_act c a k)"
  by (cases a) (auto simp: counted_def cook_def rest_def)

lemma counted_reach:
  assumes "reach (kitchen_prog b) (kitchen_init l) s"
  shows "counted (usr s)"
  using assms
proof (induction rule: reach.induct)
  case init
  show ?case by (simp add: counted_def kitchen_init_def)
next
  case (step s s')
  then show ?case
    by (auto elim!: sys_step.cases thread_step.cases simp: kitchen_prog_def counted_act)
qed

lemma report_total_eq: "report_total k = (\<Sum>c\<leftarrow>chefList. dishCount k c)"
  by (simp add: report_total_def chefList_def)

subsection \<open>kitchen.c: every chef in its own order\<close>

definition kitchen_Tad :: "(appliance, chef_act) instr list" where
  "kitchen_Tad = [Acq GRIDDLE, Acq GRILL, Acq MICROWAVE, Act (Cook 60),
     Rel MICROWAVE, Rel GRILL, Rel GRIDDLE, Act (Rest 25)]"

definition kitchen_Merry :: "(appliance, chef_act) instr list" where
  "kitchen_Merry = [Acq MIXER, Acq OVEN, Acq BLENDER, Act (Cook 15),
     Rel BLENDER, Rel OVEN, Rel MIXER, Act (Rest 25)]"

definition kitchen_Charles :: "(appliance, chef_act) instr list" where
  "kitchen_Charles = [Acq COFFEEMAKER, Acq GRIDDLE, Act (Cook 90),
     Rel GRIDDLE, Rel COFFEEMAKER, Act (Rest 25)]"

definition kitchen_Merlin :: "(appliance, chef_act) instr list" where
  "kitchen_Merlin = [Acq BLENDER, Acq MIXER, Act (Cook 15),
     Rel MIXER, Rel BLENDER, Act (Rest 25)]"

definition kitchen_Lyn :: "(appliance, chef_act) instr list" where
  "kitchen_Lyn = [Acq GRIDDLE, Acq FRYER, Act (Cook 75),
     Rel FRYER, Rel GRIDDLE, Act (Rest 25)]"

definition kitchen_Marian :: "(appliance, chef_act) instr list" where
  "kitchen_Marian = [Acq COFFEEMAKER, Acq MICROWAVE, Acq OVEN, Act (Cook 45),
     Rel OVEN, Rel MICROWAVE, Rel COFFEEMAKER, Act (Rest 25)]"

definition kitchen_Summer :: "(appliance, chef_act) instr list" where
  "kitchen_Summer = [Acq FRYER, Acq BLENDER, Acq COFFEEMAKER, Act (Cook 30),
     Rel COFFEEMAKER, Rel BLENDER, Rel FRYER, Act (Rest 25)]"

definition kitchen_Sammy :: "(appliance, chef_act) instr list" where
  "kitchen_Sammy = [Acq GRILL, Acq FRYER, Act (Cook 60),
     Rel FRYER, Rel GRILL, Act (Rest 25)]"

definition kitchen_Lura :: "(appliance, chef_act) instr list" where
  "kitchen_Lura = [Acq MICROWAVE, Acq MIXER, Act (Cook 15),
     Rel MIXER, Rel MICROWAVE, Act (Rest 25)]"

definition kitchen_Ginny :: "(appliance, chef_act) instr list" where
  "kitchen_Ginny = [Acq GRILL, Acq OVEN, Act (Cook 45),
     Rel OVEN, Rel GRILL, Act (Rest 25)]"

fun kitchen_body :: "chef \<Rightarrow> unit \<Rightarrow> (appliance, chef_act) instr list \<times> unit" where
  "kitchen_body Tad l = (kitchen_Tad, l)"
| "kitchen_body Merry l = (kitchen_Merry, l)"
| "kitchen_body Charles l = (kitchen_Charles, l)"
| "kitchen_body Merlin l = (kitchen_Merlin, l)"
| "kitchen_body Lyn l = (kitchen_Lyn, l)"
| "kitchen_body Marian l = (kitchen_Marian, l)"
| "kitchen_body Summer l = (kitchen_Summer, l)"
| "kitchen_body Sammy l = (kitchen_Sammy, l)"
| "kitchen_body Lura l = (kitchen_Lura, l)"
| "kitchen_body Ginny l = (kitchen_Ginny, l)"

abbreviation "kitchen_c \<equiv> kitchen_prog kitchen_body"
abbreviation "kitchen_start \<equiv> kitchen_init (\<lambda>_. ())"

text \<open>Merry has the mixer and wants the blender; Merlin has the blender and wants the mixer.\<close>

definition locked_up :: "(chef, appliance, chef_act, unit, (chef, appliance) mutexes, kitchen) sys \<Rightarrow> bool" where
  "locked_up s \<longleftrightarrow> (\<exists>is js. thr s Merry = At (Acq BLENDER # is) () \<and> thr s Merlin = At (Acq MIXER # js) ()
     \<and> locks s MIXER = Some Merry \<and> locks s BLENDER = Some Merlin)"

lemma locked_up_step:
  assumes "sys_step kitchen_c s s'" "locked_up s"
  shows "locked_up s'"
  using assms
proof cases
  case (thread t)
  then show ?thesis using assms(2)
    by (cases rule: thread_step.cases)
      (auto simp: locked_up_def kitchen_prog_def mutex_lock_def mutex_unlock_def split: if_splits)
next
  case stop
  then show ?thesis using assms(2) by (simp add: locked_up_def)
qed

lemma locked_up_forever: "reach kitchen_c s s' \<Longrightarrow> locked_up s \<Longrightarrow> locked_up s'"
  by (induction rule: reach.induct) (auto dest: locked_up_step)

text \<open>The schedule: Merry takes mixer and oven, Merlin the blender.\<close>

lemma kitchen_locks_up: "\<exists>s. reach kitchen_c kitchen_start s \<and> locked_up s"
proof -
  note st = reach_thread [where P = kitchen_c] and d = kitchen_prog_def mutex_lock_def kitchen_init_def
  let ?s0 = "kitchen_start :: (chef, appliance, chef_act, unit, (chef, appliance) mutexes, kitchen) sys"
  let ?m1 = "tl kitchen_Merry" and ?m2 = "tl (tl kitchen_Merry)" and ?l1 = "tl kitchen_Merlin"
  let ?s1 = "?s0\<lparr>thr := (thr ?s0)(Merry := At kitchen_Merry ())\<rparr>"
  let ?s2 = "?s1\<lparr>thr := (thr ?s1)(Merry := At ?m1 ()), locks := (locks ?s1)(MIXER := Some Merry)\<rparr>"
  let ?s3 = "?s2\<lparr>thr := (thr ?s2)(Merry := At ?m2 ()), locks := (locks ?s2)(OVEN := Some Merry)\<rparr>"
  let ?s4 = "?s3\<lparr>thr := (thr ?s3)(Merlin := At kitchen_Merlin ())\<rparr>"
  let ?s5 = "?s4\<lparr>thr := (thr ?s4)(Merlin := At ?l1 ()), locks := (locks ?s4)(BLENDER := Some Merlin)\<rparr>"
  have "reach kitchen_c ?s0 ?s1"
    by (rule st [OF reach.init, where t = Merry]) (rule enter, simp_all add: d)
  then have "reach kitchen_c ?s0 ?s2"
    by (rule st [where t = Merry]) (rule acquire, (simp add: d kitchen_Merry_def)+)
  then have "reach kitchen_c ?s0 ?s3"
    by (rule st [where t = Merry]) (rule acquire, (simp add: d kitchen_Merry_def)+)
  then have "reach kitchen_c ?s0 ?s4"
    by (rule st [where t = Merlin]) (rule enter, simp_all add: d)
  then have "reach kitchen_c ?s0 ?s5"
    by (rule st [where t = Merlin]) (rule acquire, (simp add: d kitchen_Merlin_def)+)
  moreover have "locked_up ?s5"
    by (simp add: locked_up_def kitchen_Merry_def kitchen_Merlin_def)
  ultimately show ?thesis by blast
qed

subsection \<open>ordered.c: every chef in the order of the enumeration\<close>

fun appliance_idx :: "appliance \<Rightarrow> nat" where
  "appliance_idx BLENDER = 0"
| "appliance_idx GRIDDLE = 1"
| "appliance_idx FRYER = 2"
| "appliance_idx GRILL = 3"
| "appliance_idx MIXER = 4"
| "appliance_idx COFFEEMAKER = 5"
| "appliance_idx OVEN = 6"
| "appliance_idx MICROWAVE = 7"

text \<open>C compares enumeration constants by their value.\<close>

instantiation appliance :: linorder
begin

definition less_eq_appliance :: "appliance \<Rightarrow> appliance \<Rightarrow> bool" where
  "less_eq_appliance a b \<longleftrightarrow> appliance_idx a \<le> appliance_idx b"

definition less_appliance :: "appliance \<Rightarrow> appliance \<Rightarrow> bool" where
  "less_appliance a b \<longleftrightarrow> appliance_idx a < appliance_idx b"

instance
proof
  fix a b :: appliance
  show "a \<le> b \<Longrightarrow> b \<le> a \<Longrightarrow> a = b"
    unfolding less_eq_appliance_def by (cases a; cases b) simp_all
qed (auto simp: less_eq_appliance_def less_appliance_def)

end

interpretation appliance_sort: key_order "(<) :: appliance \<Rightarrow> appliance \<Rightarrow> bool" appliance_idx
  by unfold_locales (simp add: less_appliance_def)

text \<open>
  \<open>lock_appliances\<close> sorts the caller's array in place (so the next iteration sees it sorted),
  then locks in that order; \<open>unlock_appliances\<close> unlocks from the end.
\<close>

definition lock_appliances :: "appliance list \<Rightarrow> (appliance, chef_act) instr list \<times> appliance list" where
  "lock_appliances list = (let sorted_list = exch_sort (<) list in (map Acq sorted_list, sorted_list))"

definition unlock_appliances :: "appliance list \<Rightarrow> (appliance, chef_act) instr list" where
  "unlock_appliances list = map Rel (rev list)"

fun needed :: "chef \<Rightarrow> appliance list" where
  "needed Tad = [GRIDDLE, GRILL, MICROWAVE]"
| "needed Merry = [MIXER, OVEN, BLENDER]"
| "needed Charles = [COFFEEMAKER, GRIDDLE]"
| "needed Merlin = [BLENDER, MIXER]"
| "needed Lyn = [GRIDDLE, FRYER]"
| "needed Marian = [COFFEEMAKER, MICROWAVE, OVEN]"
| "needed Summer = [FRYER, BLENDER, COFFEEMAKER]"
| "needed Sammy = [GRILL, FRYER]"
| "needed Lura = [MICROWAVE, MIXER]"
| "needed Ginny = [GRILL, OVEN]"

fun cook_time :: "chef \<Rightarrow> int" where
  "cook_time Tad = 60"
| "cook_time Merry = 15"
| "cook_time Charles = 90"
| "cook_time Merlin = 15"
| "cook_time Lyn = 75"
| "cook_time Marian = 45"
| "cook_time Summer = 30"
| "cook_time Sammy = 60"
| "cook_time Lura = 15"
| "cook_time Ginny = 45"

text \<open>One turn of a chef's loop; the local state is the array \<open>needed\<close>.\<close>

definition ordered_body :: "chef \<Rightarrow> appliance list \<Rightarrow> (appliance, chef_act) instr list \<times> appliance list" where
  "ordered_body c list =
     (let (lock_calls, list') = lock_appliances list
      in (lock_calls @ [Act (Cook (cook_time c))] @ unlock_appliances list' @ [Act (Rest 25)], list'))"

abbreviation "ordered_c \<equiv> kitchen_prog ordered_body"
abbreviation "ordered_start \<equiv> kitchen_init needed"

lemma exch_sort_ranks:
  assumes "distinct list"
  shows "distinct (exch_sort (<) list)" and "sorted_wrt (<) (exch_sort (<) list :: appliance list)"
proof -
  let ?s = "exch_sort (<) list"
  show d: "distinct ?s" using assms mset_exch_sort by (metis mset_eq_imp_distinct_iff)
  have "sorted ?s"
    using appliance_sort.sorted_exch_sort [of list] by (simp add: sorted_wrt_map less_eq_appliance_def [abs_def])
  then show "sorted_wrt (<) ?s" using d by (simp add: strict_sorted_iff)
qed

interpretation ordered: ranked_threads mutex_lock mutex_unlock
  "\<lambda>k m. k m = None" "\<lambda>k t m. k m = Some t" "\<lambda>_. True"
  ordered_c ordered_start "(<)" "\<lambda>c list. distinct list \<and> set list = set (needed c)" appliance_idx
proof unfold_locales
  fix c l "is" l'
  assume l: "distinct l \<and> set l = set (needed c)" and b: "body ordered_c c l = (is, l')"
  have l': "l' = exch_sort (<) l" and "is": "is = map Acq l' @ Act (Cook (cook_time c)) # map Rel (rev l') @ [Act (Rest 25)]"
    using b by (auto simp: kitchen_prog_def ordered_body_def lock_appliances_def unlock_appliances_def Let_def)
  then show "ranked (<) is \<and> owed is = {} \<and> distinct l' \<and> set l' = set (needed c)"
    using l exch_sort_ranks [of l] unfolding "is" l' by (simp add: locked_routine)
next
  show "\<exists>l. (distinct l \<and> set l = set (needed c)) \<and> thr ordered_start c = At [] l" for c
    by (cases c) (simp_all add: kitchen_init_def)
qed (simp_all add: kitchen_prog_def kitchen_init_def finite_chef less_appliance_def)

text \<open>A chef at work holds every appliance it needs.\<close>

lemma ordered_cooking_holds:
  assumes "reach ordered_c ordered_start s" "cooking (thr s c)"
  shows "holds (thr s c) = set (needed c)"
proof -
  obtain d js l where at: "thr s c = At (Act (Cook d) # js) l"
    using assms(2) by (cases "thr s c" rule: cooking.cases) auto
  obtain l0 ks where l0: "distinct l0 \<and> set l0 = set (needed c)"
      and b: "body ordered_c c l0 = (ks @ Act (Cook d) # js, l)"
    using ordered.reach_suffix [OF assms(1) at] by blast
  have l: "l = exch_sort (<) l0"
    and eq: "map Acq l @ Act (Cook (cook_time c)) # map Rel (rev l) @ [Act (Rest 25)] = ks @ Act (Cook d) # js"
    using b by (auto simp: kitchen_prog_def ordered_body_def lock_appliances_def unlock_appliances_def Let_def)
  have "js = map Rel (rev l) @ [Act (Rest 25)]" by (rule routine_at_work [OF eq]) simp
  then show ?thesis using at l0 l by (simp add: owed_append)
qed

subsection \<open>global.c: one lock\<close>

datatype global_lock = KITCHEN_LOCK

fun global_body :: "chef \<Rightarrow> unit \<Rightarrow> (global_lock, chef_act) instr list \<times> unit" where
  "global_body Tad l = ([Acq KITCHEN_LOCK, Act (Cook 60), Rel KITCHEN_LOCK, Act (Rest 25)], l)"
| "global_body Merry l = ([Acq KITCHEN_LOCK, Act (Cook 15), Rel KITCHEN_LOCK, Act (Rest 25)], l)"
| "global_body Charles l = ([Acq KITCHEN_LOCK, Act (Cook 90), Rel KITCHEN_LOCK, Act (Rest 25)], l)"
| "global_body Merlin l = ([Acq KITCHEN_LOCK, Act (Cook 15), Rel KITCHEN_LOCK, Act (Rest 25)], l)"
| "global_body Lyn l = ([Acq KITCHEN_LOCK, Act (Cook 75), Rel KITCHEN_LOCK, Act (Rest 25)], l)"
| "global_body Marian l = ([Acq KITCHEN_LOCK, Act (Cook 45), Rel KITCHEN_LOCK, Act (Rest 25)], l)"
| "global_body Summer l = ([Acq KITCHEN_LOCK, Act (Cook 30), Rel KITCHEN_LOCK, Act (Rest 25)], l)"
| "global_body Sammy l = ([Acq KITCHEN_LOCK, Act (Cook 60), Rel KITCHEN_LOCK, Act (Rest 25)], l)"
| "global_body Lura l = ([Acq KITCHEN_LOCK, Act (Cook 15), Rel KITCHEN_LOCK, Act (Rest 25)], l)"
| "global_body Ginny l = ([Acq KITCHEN_LOCK, Act (Cook 45), Rel KITCHEN_LOCK, Act (Rest 25)], l)"

abbreviation "global_c \<equiv> kitchen_prog global_body"
abbreviation "global_start \<equiv> kitchen_init (\<lambda>_. ())"

lemma global_body_eq:
  "global_body c l = (map Acq [KITCHEN_LOCK] @ Act (Cook (cook_time c)) # map Rel [KITCHEN_LOCK] @ [Act (Rest 25)], l)"
  by (cases c) simp_all

interpretation global: ranked_threads mutex_lock mutex_unlock
  "\<lambda>k m. k m = None" "\<lambda>k t m. k m = Some t" "\<lambda>_. True"
  global_c global_start "\<lambda>_ _. False" "\<lambda>_ _. True" "\<lambda>_. 0"
  by unfold_locales (auto simp: kitchen_prog_def kitchen_init_def finite_chef global_body_eq)

lemma global_cooking_holds:
  assumes "reach global_c global_start s" "cooking (thr s c)"
  shows "holds (thr s c) = {KITCHEN_LOCK}"
proof -
  obtain d js where at: "thr s c = At (Act (Cook d) # js) ()"
    using assms(2) by (cases "thr s c" rule: cooking.cases) auto
  obtain ks where "body global_c c () = (ks @ Act (Cook d) # js, ())"
    using global.reach_suffix [OF assms(1) at] by auto
  then have eq: "map Acq [KITCHEN_LOCK] @ Act (Cook (cook_time c)) # map Rel [KITCHEN_LOCK] @ [Act (Rest 25)]
      = ks @ Act (Cook d) # js"
    by (simp add: kitchen_prog_def global_body_eq)
  have "js = map Rel [KITCHEN_LOCK] @ [Act (Rest 25)]" by (rule routine_at_work [OF eq]) simp
  then show ?thesis using at by simp
qed

subsection \<open>kitchen.c: exclusion holds there too\<close>

lemma kitchen_body_eq:
  "\<exists>xs ys. kitchen_body c l = (map Acq xs @ Act (Cook (cook_time c)) # map Rel ys @ [Act (Rest 25)], l)
     \<and> distinct xs \<and> distinct ys \<and> set xs = set (needed c) \<and> set ys = set (needed c)"
proof -
  let ?acqs = "\<lambda>is. map (\<lambda>i. case i of Acq m \<Rightarrow> m) (filter (\<lambda>i. case i of Acq m \<Rightarrow> True | _ \<Rightarrow> False) is)"
  let ?rels = "\<lambda>is. map (\<lambda>i. case i of Rel m \<Rightarrow> m) (filter (\<lambda>i. case i of Rel m \<Rightarrow> True | _ \<Rightarrow> False) is)"
  show ?thesis
    by (rule exI [of _ "?acqs (fst (kitchen_body c l))"], rule exI [of _ "?rels (fst (kitchen_body c l))"],
        cases c)
      (auto simp: kitchen_Tad_def kitchen_Merry_def kitchen_Charles_def kitchen_Merlin_def
        kitchen_Lyn_def kitchen_Marian_def kitchen_Summer_def kitchen_Sammy_def kitchen_Lura_def
        kitchen_Ginny_def)
qed

interpretation kitchen: locked_threads mutex_lock mutex_unlock
  "\<lambda>k m. k m = None" "\<lambda>k t m. k m = Some t" "\<lambda>_. True"
  kitchen_c kitchen_start "\<lambda>_ _. True" "\<lambda>_ _. True"
proof unfold_locales
  fix c l "is" l'
  assume "body kitchen_c c l = (is, l')"
  moreover obtain xs ys where
      "kitchen_body c l = (map Acq xs @ Act (Cook (cook_time c)) # map Rel ys @ [Act (Rest 25)], l)"
      and xs: "sorted_wrt (\<lambda>_ _. True) xs" "distinct xs" "distinct ys" "set ys = set xs"
    using kitchen_body_eq [of c l] by (auto simp: sorted_wrt_iff_nth_less)
  ultimately show "ranked (\<lambda>_ _. True) is \<and> owed is = {} \<and> True"
    by (simp add: kitchen_prog_def locked_routine [OF xs])
qed (simp_all add: kitchen_prog_def kitchen_init_def)

lemma kitchen_cooking_holds:
  assumes "reach kitchen_c kitchen_start s" "cooking (thr s c)"
  shows "holds (thr s c) = set (needed c)"
proof -
  obtain d js where at: "thr s c = At (Act (Cook d) # js) ()"
    using assms(2) by (cases "thr s c" rule: cooking.cases) auto
  obtain ks where b: "kitchen_body c () = (ks @ Act (Cook d) # js, ())"
    using kitchen.reach_suffix [OF assms(1) at] by (auto simp: kitchen_prog_def)
  obtain xs ys where eq: "map Acq xs @ Act (Cook (cook_time c)) # map Rel ys @ [Act (Rest 25)] = ks @ Act (Cook d) # js"
      and ys: "set ys = set (needed c)"
    using kitchen_body_eq [of c "()"] b by auto
  have "js = map Rel ys @ [Act (Rest 25)]" by (rule routine_at_work [OF eq]) simp
  then show ?thesis using at ys by (simp add: owed_append)
qed

subsection \<open>Properties\<close>

text \<open>
  C1: In \<open>ordered.c\<close> no reachable state is a deadlock: while some chef has not returned, some
  chef can take a step.
\<close>

theorem ordered_deadlock_free:
  "reach ordered_c ordered_start s \<Longrightarrow> thr s c \<noteq> Done \<Longrightarrow> \<exists>c' s'. thread_step ordered_c c' s s'"
  by (rule ordered.deadlock_free)

theorem ordered_deadlock_free_witness:
  "\<exists>c' s'. thread_step ordered_c c' ordered_start s'"
  by (rule ordered_deadlock_free [OF reach.init, where c = Tad]) (simp add: kitchen_init_def)

text \<open>
  Two chefs of \<open>ordered.c\<close> that cook at the same time use no common appliance.
\<close>

theorem ordered_exclusive:
  assumes "reach ordered_c ordered_start s" "cooking (thr s c)" "cooking (thr s c')" "c \<noteq> c'"
  shows "set (needed c) \<inter> set (needed c') = {}"
  using ordered.mutual_exclusion [OF assms(1)] ordered_cooking_holds assms by blast

theorem ordered_exclusive_witness: "set (needed Merlin) \<inter> set (needed Ginny) = {}"
proof -
  obtain s where s: "sched ordered_c [Merlin, Merlin, Merlin, Ginny, Ginny, Ginny] ordered_start = Some s"
    and at: "cooking (thr s Merlin)" "cooking (thr s Ginny)"
    by (simp add: sched_simps kitchen_prog_def kitchen_init_def ordered_body_def lock_appliances_def
        unlock_appliances_def exch_sort_def exch_pass_def exch_step_def less_appliance_def)
  show ?thesis by (rule ordered_exclusive [OF sched_reach [OF s] at]) simp
qed

text \<open>
  C36: After \<open>main\<close> has cleared \<open>running\<close> the chefs of \<open>ordered.c\<close> all return, so the joins of
  \<open>main\<close> do: there is a run to the end, and no run is longer than the calls left.
\<close>

theorem ordered_terminates:
  assumes "reach ordered_c ordered_start s" "\<not> running s"
  shows "(\<exists>n s'. steps_n ordered_c n s s' \<and> (\<forall>c. thr s' c = Done))
       \<and> (\<forall>n s'. steps_n ordered_c n s s' \<longrightarrow> n \<le> (\<Sum>c\<in>UNIV. thread_left (thr s c)))"
  using ordered.stopped_terminates [OF assms] ordered.stopped_steps assms(2)
  by (fastforce simp: ordered.left_def)

theorem ordered_terminates_witness:
  "\<exists>n s'. steps_n ordered_c n (ordered_start\<lparr>running := False\<rparr>) s' \<and> (\<forall>c. thr s' c = Done)"
proof -
  have "reach ordered_c ordered_start (ordered_start\<lparr>running := False\<rparr>)"
    by (rule reach.step [OF reach.init]) (rule sys_step.stop, simp add: kitchen_init_def)
  then show ?thesis using ordered_terminates by auto
qed

text \<open>
  \<open>lock_appliances\<close> locks exactly the appliances asked for, in strictly increasing order of
  the enumeration, and leaves the caller's array in that order.
\<close>

theorem lock_appliances_correct:
  assumes "distinct list"
  shows "\<exists>locked. lock_appliances list = (map Acq locked, locked)
     \<and> mset locked = mset list \<and> sorted_wrt (<) locked \<and> lock_appliances locked = (map Acq locked, locked)"
  using exch_sort_ranks [OF assms] mset_exch_sort [of "(<)" list] appliance_sort.exch_sort_idem [of list]
  by (simp add: lock_appliances_def Let_def)

theorem lock_appliances_correct_witness:
  "lock_appliances [FRYER, BLENDER, COFFEEMAKER]
     = (map Acq [BLENDER, FRYER, COFFEEMAKER], [BLENDER, FRYER, COFFEEMAKER])"
  using lock_appliances_correct [of "[FRYER, BLENDER, COFFEEMAKER]"]
  by (simp add: lock_appliances_def Let_def exch_sort_def exch_pass_def exch_step_def less_appliance_def)

text \<open>
  C15: \<open>kitchen.c\<close> can deadlock for good: a state is reachable from which Merry and Merlin wait
  for each other in every later state, whatever the others and \<open>main\<close> do, so \<open>main\<close>'s join on
  them never returns.
\<close>

theorem kitchen_deadlocks:
  "\<exists>s. reach kitchen_c kitchen_start s
     \<and> (\<forall>s'. reach kitchen_c s s' \<longrightarrow> thr s' Merry \<noteq> Done \<and> thr s' Merlin \<noteq> Done
          \<and> (\<nexists>s''. thread_step kitchen_c Merry s' s'') \<and> (\<nexists>s''. thread_step kitchen_c Merlin s' s''))"
proof -
  obtain s where s: "reach kitchen_c kitchen_start s" "locked_up s" using kitchen_locks_up by blast
  have "thr s' Merry \<noteq> Done \<and> thr s' Merlin \<noteq> Done
      \<and> (\<nexists>s''. thread_step kitchen_c Merry s' s'') \<and> (\<nexists>s''. thread_step kitchen_c Merlin s' s'')"
    if "reach kitchen_c s s'" for s'
    using locked_up_forever [OF that s(2)]
    by (auto simp: locked_up_def thread_step_exec sched_simps kitchen_prog_def)
  then show ?thesis using s(1) by blast
qed

theorem kitchen_deadlocks_witness:
  "\<exists>s. reach kitchen_c kitchen_start s \<and> thr s Merry \<noteq> Done \<and> (\<nexists>s'. thread_step kitchen_c Merry s s')"
  using kitchen_deadlocks reach.init by metis

text \<open>
  In \<open>kitchen.c\<close>, deadlock or not, two chefs that cook at the same time use no common appliance.
\<close>

theorem kitchen_exclusive:
  assumes "reach kitchen_c kitchen_start s" "cooking (thr s c)" "cooking (thr s c')" "c \<noteq> c'"
  shows "set (needed c) \<inter> set (needed c') = {}"
  using kitchen.mutual_exclusion [OF assms(1)] kitchen_cooking_holds assms by blast

theorem kitchen_exclusive_witness: "set (needed Merlin) \<inter> set (needed Ginny) = {}"
proof -
  obtain s where s: "sched kitchen_c [Merlin, Merlin, Merlin, Ginny, Ginny, Ginny] kitchen_start = Some s"
    and at: "cooking (thr s Merlin)" "cooking (thr s Ginny)"
    by (simp add: sched_simps kitchen_prog_def kitchen_init_def kitchen_Merlin_def kitchen_Ginny_def)
  show ?thesis by (rule kitchen_exclusive [OF sched_reach [OF s] at]) simp
qed

text \<open>
  In \<open>global.c\<close> at most one chef cooks, and no reachable state is a deadlock.
\<close>

theorem global_one_cook:
  assumes "reach global_c global_start s"
  shows "(cooking (thr s c) \<and> cooking (thr s c') \<longrightarrow> c = c')
       \<and> (thr s c \<noteq> Done \<longrightarrow> (\<exists>c' s'. thread_step global_c c' s s'))"
  using global.mutual_exclusion [OF assms, of KITCHEN_LOCK c c'] global_cooking_holds [OF assms]
    global.deadlock_free [OF assms] by blast

theorem global_one_cook_witness:
  "\<exists>s. sched global_c [Lyn, Lyn, Tad] global_start = Some s \<and> cooking (thr s Lyn)
     \<and> \<not> cooking (thr s Tad) \<and> (\<exists>c' s'. thread_step global_c c' s s')"
proof -
  obtain s where s: "sched global_c [Lyn, Lyn, Tad] global_start = Some s"
    and at: "cooking (thr s Lyn)" "thr s Lyn \<noteq> Done"
    by (simp add: sched_simps kitchen_prog_def kitchen_init_def)
  show ?thesis
    using s at global_one_cook [OF sched_reach [OF s], of Lyn Tad] by blast
qed

text \<open>
  The total that the three kitchens report is the number of dishes announced as cooking.
\<close>

theorem kitchen_total:
  assumes "reach (kitchen_prog b) (kitchen_init l) s"
  shows "report_total (usr s)
    = (\<Sum>c\<leftarrow>chefList. count_list (printed (usr s)) (chef_name c @ '' is cooking''))"
  using counted_reach [OF assms] by (simp add: report_total_eq counted_def)

theorem kitchen_total_witness:
  "\<exists>s. sched global_c [Lyn, Lyn, Lyn, Lyn, Lyn] global_start = Some s \<and> report_total (usr s) = 1
     \<and> (\<Sum>c\<leftarrow>chefList. count_list (printed (usr s)) (chef_name c @ '' is cooking'')) = 1"
proof -
  obtain s where s: "sched global_c [Lyn, Lyn, Lyn, Lyn, Lyn] global_start = Some s"
    and at: "report_total (usr s) = 1"
    by (simp add: sched_simps kitchen_prog_def kitchen_init_def cook_def rest_def report_total_def
        chefList_def)
  show ?thesis using s at kitchen_total [OF sched_reach [OF s]] by simp
qed

end
