(* ===== verification/Take_All.thy ===== *)
theory Take_All
  imports Kitchen
begin

text \<open>
  \<open>assignments/hw5/takeAll.c\<close>: a chef takes all its appliances at once, under one mutex and one
  condition variable. The sections between \<open>pthread_mutex_lock\<close> and \<open>pthread_mutex_unlock\<close> or
  \<open>pthread_cond_wait\<close> are the only code that touches \<open>applianceInUse\<close>, so each is one step;
  \<open>pthread_cond_wait\<close> is the state \<open>Waiting\<close>, left on a broadcast or for no reason at all (a
  spurious wakeup), and then the test is made again.

  Proved: an appliance is in use exactly while one chef cooks with it; a waiting chef always
  has a reason to wait (no wakeup is lost); no reachable state is a deadlock.
\<close>

subsection \<open>State and operations\<close>

text \<open>
  Where a chef is: at the loop test, before (or again before) the test of
  \<open>wait_and_acquire_appliances\<close>, in \<open>pthread_cond_wait\<close>, about to cook, about to call
  \<open>release_appliances\<close>, about to rest, returned.
\<close>

datatype chef_pc = Testing | Trying | Waiting | Cooking | Releasing | Resting | Returned

record takeall =
  pc :: "chef \<Rightarrow> chef_pc"
  applianceInUse :: "appliance \<Rightarrow> bool"
  out :: kitchen
  going :: bool

text \<open>The loop that looks for an appliance in use.\<close>

fun all_available :: "(appliance \<Rightarrow> bool) \<Rightarrow> appliance list \<Rightarrow> bool" where
  "all_available u [] = True"
| "all_available u (a # as) = (if u a then False else all_available u as)"

fun set_in_use :: "bool \<Rightarrow> appliance list \<Rightarrow> (appliance \<Rightarrow> bool) \<Rightarrow> (appliance \<Rightarrow> bool)" where
  "set_in_use b [] u = u"
| "set_in_use b (a # as) u = set_in_use b as (u(a := b))"

text \<open>One turn of the loop of \<open>wait_and_acquire_appliances\<close>.\<close>

definition wait_and_acquire_appliances :: "chef \<Rightarrow> takeall \<Rightarrow> takeall" where
  "wait_and_acquire_appliances c s =
     (if all_available (applianceInUse s) (needed c)
      then s\<lparr>applianceInUse := set_in_use True (needed c) (applianceInUse s), pc := (pc s)(c := Cooking)\<rparr>
      else s\<lparr>pc := (pc s)(c := Waiting)\<rparr>)"

text \<open>\<open>pthread_cond_broadcast\<close> sends every waiting chef back to the test.\<close>

definition broadcast :: "(chef \<Rightarrow> chef_pc) \<Rightarrow> (chef \<Rightarrow> chef_pc)" where
  "broadcast p = (\<lambda>c. if p c = Waiting then Trying else p c)"

definition release_appliances :: "chef \<Rightarrow> takeall \<Rightarrow> takeall" where
  "release_appliances c s =
     s\<lparr>applianceInUse := set_in_use False (needed c) (applianceInUse s),
       pc := broadcast ((pc s)(c := Resting))\<rparr>"

text \<open>One step of a chef's routine (the routines differ in \<open>needed\<close> and \<open>cook_time\<close>).\<close>

fun chef_step :: "chef \<Rightarrow> takeall \<Rightarrow> takeall option" where
  "chef_step c s = (case pc s c of
       Testing \<Rightarrow> Some (s\<lparr>pc := (pc s)(c := (if going s then Trying else Returned))\<rparr>)
     | Trying \<Rightarrow> Some (wait_and_acquire_appliances c s)
     | Waiting \<Rightarrow> None
     | Cooking \<Rightarrow> Some (s\<lparr>out := cook (cook_time c) c (out s), pc := (pc s)(c := Releasing)\<rparr>)
     | Releasing \<Rightarrow> Some (release_appliances c s)
     | Resting \<Rightarrow> Some (s\<lparr>out := rest 25 c (out s), pc := (pc s)(c := Testing)\<rparr>)
     | Returned \<Rightarrow> None)"

definition takeall_init :: takeall where
  "takeall_init = \<lparr>pc = (\<lambda>_. Testing), applianceInUse = (\<lambda>_. False),
     out = \<lparr>dishCount = (\<lambda>_. 0), printed = []\<rparr>, going = True\<rparr>"

inductive takeall_step :: "takeall \<Rightarrow> takeall \<Rightarrow> bool" where
  chef: "chef_step c s = Some s' \<Longrightarrow> takeall_step s s'"
| spurious: "pc s c = Waiting \<Longrightarrow> takeall_step s (s\<lparr>pc := (pc s)(c := Trying)\<rparr>)"
| halt: "going s \<Longrightarrow> takeall_step s (s\<lparr>going := False\<rparr>)"

inductive takeall_reach :: "takeall \<Rightarrow> bool" where
  base: "takeall_reach takeall_init"
| later: "takeall_reach s \<Longrightarrow> takeall_step s s' \<Longrightarrow> takeall_reach s'"

subsection \<open>Lemmas\<close>

lemma all_available_iff [simp]: "all_available u as \<longleftrightarrow> (\<forall>a\<in>set as. \<not> u a)"
  by (induction as) auto

lemma set_in_use_apply [simp]: "set_in_use b as u a = (if a \<in> set as then b else u a)"
  by (induction as arbitrary: u) auto

lemma broadcast_eq [simp]:
  "broadcast p c = Waiting \<longleftrightarrow> False"
  "broadcast p c = Cooking \<longleftrightarrow> p c = Cooking"
  "broadcast p c = Releasing \<longleftrightarrow> p c = Releasing"
  by (auto simp: broadcast_def)

text \<open>The chefs that have their appliances.\<close>

definition using_them :: "takeall \<Rightarrow> chef \<Rightarrow> bool" where
  "using_them s c \<longleftrightarrow> pc s c = Cooking \<or> pc s c = Releasing"

text \<open>
  The invariant: the flags say who uses what, no appliance has two users, and a waiting chef
  waits for an appliance in use.
\<close>

definition takeall_inv :: "takeall \<Rightarrow> bool" where
  "takeall_inv s \<longleftrightarrow>
     (\<forall>a. applianceInUse s a \<longleftrightarrow> (\<exists>c. using_them s c \<and> a \<in> set (needed c)))
   \<and> (\<forall>c c'. using_them s c \<longrightarrow> using_them s c' \<longrightarrow> c \<noteq> c' \<longrightarrow> set (needed c) \<inter> set (needed c') = {})
   \<and> (\<forall>c. pc s c = Waiting \<longrightarrow> (\<exists>a\<in>set (needed c). applianceInUse s a))"

lemma takeall_invI:
  assumes "\<And>a. applianceInUse s a \<longleftrightarrow> (\<exists>c. using_them s c \<and> a \<in> set (needed c))"
    and "\<And>c c' a. using_them s c \<Longrightarrow> using_them s c' \<Longrightarrow> a \<in> set (needed c) \<Longrightarrow> a \<in> set (needed c') \<Longrightarrow> c = c'"
    and "\<And>c. pc s c = Waiting \<Longrightarrow> \<exists>a\<in>set (needed c). applianceInUse s a"
  shows "takeall_inv s"
  unfolding takeall_inv_def using assms by blast

lemma takeall_invD:
  assumes "takeall_inv s"
  shows "applianceInUse s a \<longleftrightarrow> (\<exists>c. using_them s c \<and> a \<in> set (needed c))"
    and "using_them s c \<Longrightarrow> using_them s c' \<Longrightarrow> a \<in> set (needed c) \<Longrightarrow> a \<in> set (needed c') \<Longrightarrow> c = c'"
    and "pc s c = Waiting \<Longrightarrow> \<exists>a\<in>set (needed c). applianceInUse s a"
  using assms unfolding takeall_inv_def by blast+

text \<open>A chef that only moves between states without appliances, and does not go to sleep.\<close>

lemma takeall_inv_move:
  assumes inv: "takeall_inv s"
    and s': "applianceInUse s' = applianceInUse s" "\<And>c. using_them s' c = using_them s c"
      "\<And>c. pc s' c = Waiting \<Longrightarrow> pc s c = Waiting"
  shows "takeall_inv s'"
  by (rule takeall_invI) (use takeall_invD [OF inv] in \<open>simp_all add: s'\<close>)

lemma takeall_inv_acquire:
  assumes inv: "takeall_inv s" and c: "pc s c = Trying"
  shows "takeall_inv (wait_and_acquire_appliances c s)"
proof (cases "all_available (applianceInUse s) (needed c)")
  case True
  let ?s = "wait_and_acquire_appliances c s"
  have s: "applianceInUse ?s a \<longleftrightarrow> a \<in> set (needed c) \<or> applianceInUse s a"
      "using_them ?s c' \<longleftrightarrow> c' = c \<or> using_them s c'" "pc ?s c' = Waiting \<Longrightarrow> pc s c' = Waiting" for a c'
    using True c by (auto simp: wait_and_acquire_appliances_def using_them_def split: if_splits)
  have apart: "a \<notin> set (needed c)" if "using_them s c'" "a \<in> set (needed c')" for a c'
    using that True takeall_invD(1) [OF inv] by auto
  show ?thesis
  proof (rule takeall_invI)
    show "applianceInUse ?s a \<longleftrightarrow> (\<exists>c'. using_them ?s c' \<and> a \<in> set (needed c'))" for a
      unfolding s(1,2) takeall_invD(1) [OF inv] by blast
    show "c1 = c2" if "using_them ?s c1" "using_them ?s c2" "a \<in> set (needed c1)" "a \<in> set (needed c2)" for c1 c2 a
      using that apart takeall_invD(2) [OF inv, of c1 c2 a] unfolding s(2) by blast
    show "\<exists>a\<in>set (needed c'). applianceInUse ?s a" if "pc ?s c' = Waiting" for c'
      using takeall_invD(3) [OF inv s(3) [OF that]] unfolding s(1) by blast
  qed
next
  case False
  let ?s = "wait_and_acquire_appliances c s"
  have s: "applianceInUse ?s = applianceInUse s" "using_them ?s c' = using_them s c'"
      "pc ?s c' = Waiting \<Longrightarrow> c' = c \<or> pc s c' = Waiting" for c'
    using False c by (auto simp: wait_and_acquire_appliances_def using_them_def split: if_splits)
  show ?thesis
  proof (rule takeall_invI)
    show "\<exists>a\<in>set (needed c'). applianceInUse ?s a" if "pc ?s c' = Waiting" for c'
      using s(3) [OF that] takeall_invD(3) [OF inv] False unfolding s(1) by auto
  qed (use takeall_invD(1,2) [OF inv] in \<open>simp_all only: s\<close>)
qed

lemma takeall_inv_release:
  assumes inv: "takeall_inv s" and c: "pc s c = Releasing"
  shows "takeall_inv (release_appliances c s)"
proof -
  let ?s = "release_appliances c s"
  have s: "applianceInUse ?s a \<longleftrightarrow> a \<notin> set (needed c) \<and> applianceInUse s a"
      "using_them ?s c' \<longleftrightarrow> c' \<noteq> c \<and> using_them s c'" "pc ?s c' \<noteq> Waiting" for a c'
    using c by (auto simp: release_appliances_def using_them_def)
  have u: "using_them s c" using c by (simp add: using_them_def)
  show ?thesis
  proof (rule takeall_invI)
    show "applianceInUse ?s a \<longleftrightarrow> (\<exists>c'. using_them ?s c' \<and> a \<in> set (needed c'))" for a
      using takeall_invD(2) [OF inv u, of _ a] unfolding s(1,2) takeall_invD(1) [OF inv]
      by (metis u)
    show "c1 = c2" if "using_them ?s c1" "using_them ?s c2" "a \<in> set (needed c1)" "a \<in> set (needed c2)" for c1 c2 a
      using that takeall_invD(2) [OF inv, of c1 c2 a] unfolding s(2) by blast
  qed (use s(3) in blast)
qed

lemma takeall_inv_step: "takeall_step s s' \<Longrightarrow> takeall_inv s \<Longrightarrow> takeall_inv s'"
proof (induction rule: takeall_step.induct)
  case (chef c s s')
  consider "pc s c = Trying" | "pc s c = Releasing" | "pc s c \<in> {Testing, Cooking, Resting}"
    using chef(1) by (cases "pc s c") simp_all
  then show ?case
  proof cases
    case 1
    then show ?thesis using chef(1) takeall_inv_acquire [OF chef(2) 1] by simp
  next
    case 2
    then show ?thesis using chef(1) takeall_inv_release [OF chef(2) 2] by simp
  next
    case 3
    then show ?thesis using chef(1)
      by (intro takeall_inv_move [OF chef(2)]) (auto simp: using_them_def split: if_splits)
  qed
next
  case (spurious s c)
  show ?case by (rule takeall_inv_move [OF spurious(2)]) (use spurious(1) in \<open>auto simp: using_them_def split: if_splits\<close>)
next
  case (halt s)
  show ?case by (rule takeall_inv_move [OF halt(2)]) (auto simp: using_them_def)
qed

lemma takeall_reach_inv: "takeall_reach s \<Longrightarrow> takeall_inv s"
proof (induction rule: takeall_reach.induct)
  case base
  show ?case by (rule takeall_invI) (simp_all add: takeall_init_def using_them_def)
qed (blast intro: takeall_inv_step)

text \<open>A schedule of chefs, for the concrete runs.\<close>

fun chef_sched :: "chef list \<Rightarrow> takeall \<Rightarrow> takeall option" where
  "chef_sched [] s = Some s"
| "chef_sched (c # cs) s = Option.bind (chef_step c s) (chef_sched cs)"

lemma chef_sched_reach: "chef_sched cs s = Some s' \<Longrightarrow> takeall_reach s \<Longrightarrow> takeall_reach s'"
proof (induction cs arbitrary: s)
  case (Cons c cs)
  then obtain s1 where s1: "chef_step c s = Some s1" "chef_sched cs s1 = Some s'"
    by (auto simp: Option.bind_eq_Some_conv simp del: chef_step.simps)
  have "takeall_reach s1" using Cons.prems(2) takeall_step.chef [OF s1(1)] by (rule takeall_reach.later)
  then show ?case by (rule Cons.IH [OF s1(2)])
qed simp

subsection \<open>Properties\<close>

text \<open>
  C7: In \<open>takeAll.c\<close> an appliance is marked in use exactly while a chef has it, two chefs never
  have the same one, and a chef in \<open>pthread_cond_wait\<close> needs an appliance that is in use (so
  no wakeup is lost).
\<close>

theorem takeall_safe:
  assumes "takeall_reach s"
  shows "(applianceInUse s a \<longleftrightarrow> (\<exists>c. using_them s c \<and> a \<in> set (needed c)))
       \<and> (using_them s c \<and> using_them s c' \<and> c \<noteq> c' \<longrightarrow> set (needed c) \<inter> set (needed c') = {})
       \<and> (pc s c = Waiting \<longrightarrow> (\<exists>a\<in>set (needed c). applianceInUse s a))"
  using takeall_invD [OF takeall_reach_inv [OF assms]] by blast

theorem takeall_safe_witness:
  "\<exists>s. chef_sched [Merlin, Merlin, Ginny, Ginny, Lura, Lura] takeall_init = Some s
     \<and> using_them s Merlin \<and> using_them s Ginny \<and> pc s Lura = Waiting
     \<and> (\<exists>a\<in>set (needed Lura). applianceInUse s a)"
proof -
  obtain s where s: "chef_sched [Merlin, Merlin, Ginny, Ginny, Lura, Lura] takeall_init = Some s"
    and at: "using_them s Merlin" "using_them s Ginny" "pc s Lura = Waiting"
    by (simp add: takeall_init_def wait_and_acquire_appliances_def using_them_def)
  have "takeall_reach s" using s takeall_reach.base by (rule chef_sched_reach)
  from takeall_safe [OF this, where c = Lura] show ?thesis using s at by blast
qed

text \<open>
  C37: \<open>takeAll.c\<close> never deadlocks: while some chef has not returned, some chef can take a step
  of its own (without counting on a spurious wakeup).
\<close>

theorem takeall_progress:
  assumes "takeall_reach s" "pc s c \<noteq> Returned"
  shows "\<exists>c' s'. chef_step c' s = Some s'"
proof (cases "pc s c = Waiting")
  case False
  then show ?thesis using assms(2) by (intro exI [of _ c]) (cases "pc s c"; simp)
next
  case True
  then obtain c' where "using_them s c'"
    using takeall_invD(1,3) [OF takeall_reach_inv [OF assms(1)]] by blast
  then show ?thesis by (intro exI [of _ c']) (auto simp: using_them_def)
qed

theorem takeall_progress_witness:
  "\<exists>s. chef_sched [Merlin, Merlin, Lura, Lura] takeall_init = Some s \<and> pc s Lura = Waiting
     \<and> (\<exists>c' s'. chef_step c' s = Some s')"
proof -
  obtain s where s: "chef_sched [Merlin, Merlin, Lura, Lura] takeall_init = Some s"
    and at: "pc s Lura = Waiting"
    by (simp add: takeall_init_def wait_and_acquire_appliances_def)
  have "takeall_reach s" using s takeall_reach.base by (rule chef_sched_reach)
  then have "\<exists>c' s'. chef_step c' s = Some s'" by (rule takeall_progress [where c = Lura]) (simp add: at)
  then show ?thesis using s at by blast
qed

end
