(* ===== verification/Semaphore_Threads.thy ===== *)
theory Semaphore_Threads
  imports Lock_System
begin

text \<open>
  \<open>exercises/ex09/deadlock.c\<close>: ten threads that take named objects, each guarded by a semaphore
  initialised to 1. Every routine is one list of \<open>Lock_System\<close> instructions; \<open>object_rank\<close> is an
  order that all ten follow, from which the program never deadlocks and its joins return.
\<close>

datatype object = Hammer | Rubber_stamp | Bookmark | Shovel | Bowtie | Camera | Spatula | Tricorder | Usb_cable

datatype person = Tamara | Adolfo | Terrie | Dollie | Alesha | Benita | Laverne | Grady | Arnold | Gladys

text \<open>The work of a thread is to print its name.\<close>

datatype say = Say string

fun say_act :: "person \<Rightarrow> say \<Rightarrow> string list \<Rightarrow> string list" where
  "say_act t (Say line) printed_lines = printed_lines @ [line]"

definition threadTamara :: "(object, say) instr list" where
  "threadTamara = [Acq Bookmark, Acq Shovel, Acq Tricorder, Act (Say ''Tamara''),
     Rel Bookmark, Rel Shovel, Rel Tricorder]"

definition threadAdolfo :: "(object, say) instr list" where
  "threadAdolfo = [Acq Hammer, Acq Bowtie, Acq Camera, Acq Usb_cable, Act (Say ''Adolfo''),
     Rel Hammer, Rel Bowtie, Rel Camera, Rel Usb_cable]"

definition threadTerrie :: "(object, say) instr list" where
  "threadTerrie = [Acq Hammer, Acq Rubber_stamp, Acq Bookmark, Acq Bowtie, Act (Say ''Terrie''),
     Rel Hammer, Rel Rubber_stamp, Rel Bookmark, Rel Bowtie]"

definition threadDollie :: "(object, say) instr list" where
  "threadDollie = [Acq Hammer, Acq Shovel, Act (Say ''Dollie''), Rel Hammer, Rel Shovel]"

definition threadAlesha :: "(object, say) instr list" where
  "threadAlesha = [Acq Shovel, Acq Camera, Acq Usb_cable, Act (Say ''Alesha''),
     Rel Shovel, Rel Camera, Rel Usb_cable]"

definition threadBenita :: "(object, say) instr list" where
  "threadBenita = [Acq Hammer, Acq Spatula, Act (Say ''Benita''), Rel Hammer, Rel Spatula]"

definition threadLaverne :: "(object, say) instr list" where
  "threadLaverne = [Acq Camera, Acq Tricorder, Acq Usb_cable, Act (Say ''Laverne''),
     Rel Camera, Rel Tricorder, Rel Usb_cable]"

definition threadGrady :: "(object, say) instr list" where
  "threadGrady = [Acq Hammer, Acq Usb_cable, Act (Say ''Grady''), Rel Hammer, Rel Usb_cable]"

definition threadArnold :: "(object, say) instr list" where
  "threadArnold = [Acq Rubber_stamp, Acq Camera, Acq Spatula, Act (Say ''Arnold''),
     Rel Rubber_stamp, Rel Camera, Rel Spatula]"

definition threadGladys :: "(object, say) instr list" where
  "threadGladys = [Acq Camera, Acq Spatula, Act (Say ''Gladys''), Rel Camera, Rel Spatula]"

fun start_routine :: "person \<Rightarrow> unit \<Rightarrow> (object, say) instr list \<times> unit" where
  "start_routine Tamara l = (threadTamara, l)"
| "start_routine Adolfo l = (threadAdolfo, l)"
| "start_routine Terrie l = (threadTerrie, l)"
| "start_routine Dollie l = (threadDollie, l)"
| "start_routine Alesha l = (threadAlesha, l)"
| "start_routine Benita l = (threadBenita, l)"
| "start_routine Laverne l = (threadLaverne, l)"
| "start_routine Grady l = (threadGrady, l)"
| "start_routine Arnold l = (threadArnold, l)"
| "start_routine Gladys l = (threadGladys, l)"

lemmas routine_defs = threadTamara_def threadAdolfo_def threadTerrie_def threadDollie_def
  threadAlesha_def threadBenita_def threadLaverne_def threadGrady_def threadArnold_def threadGladys_def

definition ex09_prog :: "(person, object, say, unit, object sems, string list) prog" where
  "ex09_prog = \<lparr>acq = sem_wait, rel = sem_post, act = say_act, body = start_routine\<rparr>"

text \<open>\<open>main\<close>: every \<open>sem_init\<close> to 1, then the threads.\<close>

definition ex09_init :: "(person, object, say, unit, object sems, string list) sys" where
  "ex09_init = \<lparr>thr = (\<lambda>_. At [] ()), locks = (\<lambda>_. 1), usr = [], running = True\<rparr>"

text \<open>An order of the objects that every routine follows.\<close>

fun object_rank :: "object \<Rightarrow> nat" where
  "object_rank Hammer = 0"
| "object_rank Rubber_stamp = 1"
| "object_rank Bookmark = 2"
| "object_rank Shovel = 3"
| "object_rank Bowtie = 4"
| "object_rank Camera = 5"
| "object_rank Spatula = 6"
| "object_rank Tricorder = 7"
| "object_rank Usb_cable = 8"

lemma finite_person: "finite (UNIV :: person set)"
proof -
  have "t \<in> {Tamara, Adolfo, Terrie, Dollie, Alesha, Benita, Laverne, Grady, Arnold, Gladys}" for t
    by (cases t) simp_all
  then have "(UNIV :: person set) = {Tamara, Adolfo, Terrie, Dollie, Alesha, Benita, Laverne, Grady, Arnold, Gladys}"
    by blast
  then show ?thesis by (metis finite.emptyI finite_insert)
qed

lemma routine_ranked:
  "ranked (\<lambda>a b. object_rank a < object_rank b) (fst (start_routine t l)) \<and> owed (fst (start_routine t l)) = {}"
  by (cases t) (auto simp: routine_defs)

interpretation ex09: ranked_threads sem_wait sem_post "\<lambda>k m. 0 < k m" "\<lambda>k t m. k m = 0" "\<lambda>k. \<forall>m. k m \<le> 1"
  ex09_prog ex09_init "\<lambda>a b. object_rank a < object_rank b" "\<lambda>_ _. True" object_rank
proof unfold_locales
  fix t l "is" l'
  assume "body ex09_prog t l = (is, l')"
  then show "ranked (\<lambda>a b. object_rank a < object_rank b) is \<and> owed is = {} \<and> True"
    using routine_ranked [of t l] by (simp add: ex09_prog_def)
qed (simp_all add: ex09_prog_def ex09_init_def finite_person)

subsection \<open>Properties\<close>

text \<open>
  The ten threads of \<open>deadlock.c\<close> never deadlock, and no object is ever with two of them.
\<close>

theorem ex09_deadlock_free:
  assumes "reach ex09_prog ex09_init s"
  shows "(thr s t \<noteq> Done \<longrightarrow> (\<exists>t' s'. thread_step ex09_prog t' s s'))
       \<and> (x \<in> holds (thr s t) \<and> x \<in> holds (thr s t') \<longrightarrow> t = t')"
  using ex09.deadlock_free [OF assms] ex09.mutual_exclusion [OF assms] by blast

theorem ex09_deadlock_free_witness:
  "\<exists>s. sched ex09_prog [Terrie, Terrie, Terrie, Arnold] ex09_init = Some s
     \<and> Rubber_stamp \<in> holds (thr s Terrie) \<and> (\<exists>t' s'. thread_step ex09_prog t' s s')"
proof -
  obtain s where s: "sched ex09_prog [Terrie, Terrie, Terrie, Arnold] ex09_init = Some s"
    and at: "Rubber_stamp \<in> holds (thr s Terrie)" "thr s Terrie \<noteq> Done"
    by (simp add: sched_simps ex09_prog_def ex09_init_def routine_defs)
  show ?thesis using s at ex09_deadlock_free [OF sched_reach [OF s], of Terrie] by blast
qed

text \<open>
  When \<open>main\<close> has set \<open>running\<close> to 0 all ten threads of \<open>deadlock.c\<close> return, within the
  number of calls they have left.
\<close>

theorem ex09_terminates:
  assumes "reach ex09_prog ex09_init s" "\<not> running s"
  shows "(\<exists>n s'. steps_n ex09_prog n s s' \<and> (\<forall>t. thr s' t = Done))
       \<and> (\<forall>n s'. steps_n ex09_prog n s s' \<longrightarrow> n \<le> (\<Sum>t\<in>UNIV. thread_left (thr s t)))"
  using ex09.stopped_terminates [OF assms] ex09.stopped_steps assms(2)
  by (fastforce simp: ex09.left_def)

theorem ex09_terminates_witness:
  "\<exists>n s'. steps_n ex09_prog n (ex09_init\<lparr>running := False\<rparr>) s' \<and> (\<forall>t. thr s' t = Done)"
proof -
  have "reach ex09_prog ex09_init (ex09_init\<lparr>running := False\<rparr>)"
    by (rule reach.step [OF reach.init]) (rule sys_step.stop, simp add: ex09_init_def)
  then show ?thesis using ex09_terminates by auto
qed

end
