(* ===== verification/Triangles.thy ===== *)
theory Triangles
  imports Prelude
begin

text \<open>
  The triangle counters: \<open>assignments/hw2/triangles.c\<close> (worker processes and a pipe),
  \<open>assignments/hw3/triangles-thread.c\<close> (threads) and \<open>assignments/hw6/triangles.cu\<close> (one CUDA
  thread for each last index). The semaphore version of homework 4 is in
  \<open>Triangles_Sem\<close>.

  The list that was read is a list of 32-bit values. \<open>triangle_count\<close> is the specification: the
  number of index triples \<open>i < j < k\<close> whose sides pass \<open>checkTriangle\<close>. The counters of the code
  are \<open>int\<close>s, with their wrap-around. Each program is proved to add up \<open>triangle_count\<close> in them,
  whatever the number of workers and the order in which they report; with up to 2344 values no
  counter can wrap.
\<close>

subsection \<open>checkTriangle\<close>

text \<open>32-bit addition with wrap-around, as the targets do it.\<close>

definition add32 :: "int \<Rightarrow> int \<Rightarrow> int" where
  "add32 a b = to_int32 (a + b)"

definition checkTriangle :: "int \<Rightarrow> int \<Rightarrow> int \<Rightarrow> bool" where
  "checkTriangle a b c \<longleftrightarrow> add32 a b > c \<and> add32 a c > b \<and> add32 b c > a"

text \<open>For sides below \<open>2\<^sup>3\<^sup>0\<close> no sum wraps, and the test is the triangle inequality.\<close>

lemma checkTriangle_ineq:
  assumes "0 \<le> a" "a < 2 ^ 30" "0 \<le> b" "b < 2 ^ 30" "0 \<le> c" "c < 2 ^ 30"
  shows "checkTriangle a b c \<longleftrightarrow> a + b > c \<and> a + c > b \<and> b + c > a"
  using assms by (simp add: checkTriangle_def add32_def to_int32_id)

lemma checkTriangle_zero:
  assumes "- (2 ^ 31) \<le> a" "a < 2 ^ 31" "- (2 ^ 31) \<le> b" "b < 2 ^ 31"
  shows "\<not> checkTriangle a b 0"
  using assms by (auto simp: checkTriangle_def add32_def to_int32_id)

text \<open>What an \<open>int\<close> counter holds after \<open>n\<close> increments: \<open>n\<close> itself, as long as it is below \<open>2\<^sup>3\<^sup>1\<close>.\<close>

definition count32 :: "nat \<Rightarrow> int" where
  "count32 n = to_int32 (int n)"

lemma count32_0 [simp]: "count32 0 = 0"
  by (simp add: count32_def to_int32_def)

lemma count32_id: "n < 2 ^ 31 \<Longrightarrow> count32 n = int n"
  by (simp add: count32_def to_int32_nat)

lemma add32_count [simp]: "add32 (count32 m) (count32 n) = count32 (m + n)"
  by (simp add: add32_def count32_def to_int32_add)

lemma count32_1: "count32 1 = 1" "count32 (Suc 0) = 1"
  by (simp_all add: count32_id)

lemma add32_one [simp]: "add32 (count32 m) 1 = count32 (Suc m)"
  using add32_count [of m 1] by (simp add: count32_1)

lemma map_count32: "n \<le> 2 ^ 31 \<Longrightarrow> map count32 [m..<n] = map int [m..<n]"
  by (auto simp: count32_id)

text \<open>Two sides of \<open>2\<^sup>3\<^sup>0\<close> and one of 1 make a triangle, which the wrapped sum loses.\<close>

lemma checkTriangle_overflow: "\<not> checkTriangle (2 ^ 30) (2 ^ 30) 1" "(2 ^ 30 :: int) + 2 ^ 30 > 1 \<and> (2 ^ 30 :: int) + 1 > 2 ^ 30"
  by (simp_all add: checkTriangle_def add32_def to_int32_def)

subsection \<open>The specification\<close>

definition tri :: "int list \<Rightarrow> nat \<Rightarrow> nat \<Rightarrow> nat \<Rightarrow> bool" where
  "tri vs i j k \<longleftrightarrow> checkTriangle (vs ! i) (vs ! j) (vs ! k)"

definition triangles :: "int list \<Rightarrow> (nat \<times> nat \<times> nat) set" where
  "triangles vs = {(i, j, k). i < j \<and> j < k \<and> k < length vs \<and> tri vs i j k}"

definition triangle_count :: "int list \<Rightarrow> nat" where
  "triangle_count vs = card (triangles vs)"

lemma finite_triangles: "finite (triangles vs)"
  by (rule finite_subset [of _ "{..<length vs} \<times> {..<length vs} \<times> {..<length vs}"])
    (auto simp: triangles_def)

subsection \<open>readList\<close>

text \<open>
  The growing array: the values stored, \<open>vCap\<close>; \<open>vCount\<close> is the number stored. A store at
  \<open>vCount\<close> outside the capacity is \<open>None\<close>. The argument is what \<open>scanf\<close> delivers.
\<close>

record varray =
  vList :: "int list"
  vCap :: nat

definition vCount :: "varray \<Rightarrow> nat" where
  "vCount a = length (vList a)"

definition store_value :: "int \<Rightarrow> varray \<Rightarrow> varray option" where
  "store_value v a =
     (let a' = (if vCount a \<ge> vCap a then a\<lparr>vCap := vCap a * 2\<rparr> else a)
      in if vCount a' < vCap a' then Some (a'\<lparr>vList := vList a' @ [v]\<rparr>) else None)"

fun read_values :: "int list \<Rightarrow> varray \<Rightarrow> varray option" where
  "read_values [] a = Some a"
| "read_values (v # vs) a = Option.bind (store_value v a) (read_values vs)"

definition readList :: "int list \<Rightarrow> varray option" where
  "readList input = read_values input \<lparr>vList = [], vCap = 5\<rparr>"

lemma read_values_ok:
  "0 < vCap a \<Longrightarrow> vCount a \<le> vCap a \<Longrightarrow>
   \<exists>a'. read_values vs a = Some a' \<and> vList a' = vList a @ vs \<and> vCount a' \<le> vCap a'"
proof (induction vs arbitrary: a)
  case (Cons v vs)
  obtain a1 where a1: "store_value v a = Some a1" "vList a1 = vList a @ [v]" "0 < vCap a1" "vCount a1 \<le> vCap a1"
    using Cons.prems that
    by (cases "vCap a \<le> vCount a") (simp_all add: store_value_def vCount_def Let_def Suc_le_eq)
  then show ?case using Cons.IH [OF a1(3,4)] by auto
qed simp

subsection \<open>findTriangles: the loops\<close>

text \<open>The pairs \<open>j < k\<close> of the two inner loops, for a given first index.\<close>

definition inner_pairs :: "nat \<Rightarrow> nat \<Rightarrow> (nat \<times> nat) list" where
  "inner_pairs n i = concat (map (\<lambda>j. map (Pair j) [j + 1..<n]) [i + 1..<n - 1])"

text \<open>
  A worker's loop over \<open>i\<close>, from \<open>wid\<close> in steps of \<open>workers\<close>. It returns the count and the
  lines it prints when \<open>report\<close> is set, as (count so far, i, j, k).
\<close>

type_synonym line = "int \<times> nat \<times> nat \<times> nat"

definition scan_pair :: "int list \<Rightarrow> bool \<Rightarrow> nat \<Rightarrow> nat \<times> nat \<Rightarrow> int \<times> line list \<Rightarrow> int \<times> line list" where
  "scan_pair vs report i p st = (let (j, k) = p; (count, lines) = st in
     if checkTriangle (vs ! i) (vs ! j) (vs ! k)
     then (add32 count 1, if report then lines @ [(add32 count 1, i, j, k)] else lines)
     else (count, lines))"

function scan_from :: "int list \<Rightarrow> bool \<Rightarrow> nat \<Rightarrow> nat \<Rightarrow> int \<times> line list \<Rightarrow> int \<times> line list" where
  "scan_from vs report workers i st =
     (if 0 < workers \<and> i < length vs - 2
      then scan_from vs report workers (i + workers)
             (fold (scan_pair vs report i) (inner_pairs (length vs) i) st)
      else st)"
  by pat_completeness auto
termination
  by (relation "measure (\<lambda>(vs, report, workers, i, st). length vs - i)") auto

declare scan_from.simps [simp del]

definition findTriangles :: "int list \<Rightarrow> nat \<Rightarrow> nat \<Rightarrow> bool \<Rightarrow> int \<times> line list" where
  "findTriangles vs wid workers report = scan_from vs report workers wid (0, [])"

text \<open>The triangles with first index \<open>i\<close>.\<close>

definition tri_at :: "int list \<Rightarrow> nat \<Rightarrow> (nat \<times> nat) set" where
  "tri_at vs i = {(j, k). i < j \<and> j < k \<and> k < length vs \<and> tri vs i j k}"

lemma finite_tri_at: "finite (tri_at vs i)"
  by (rule finite_subset [of _ "{..<length vs} \<times> {..<length vs}"]) (auto simp: tri_at_def)

lemma set_inner_pairs: "set (inner_pairs n i) = {(j, k). i < j \<and> j < k \<and> k < n}"
  by (fastforce simp: inner_pairs_def image_iff)

lemma distinct_pairs: "distinct js \<Longrightarrow> distinct (concat (map (\<lambda>j. map (Pair j) [f j..<n]) js))"
  by (induction js) (auto simp: distinct_map inj_on_def)

lemma distinct_inner_pairs: "distinct (inner_pairs n i)"
  unfolding inner_pairs_def by (rule distinct_pairs) simp

lemma fst_fold_scan_pair:
  "fst st = count32 c \<Longrightarrow> fst (fold (scan_pair vs r i) ps st) = count32 (c + length (filter (\<lambda>(j, k). tri vs i j k) ps))"
proof (induction ps arbitrary: st c)
  case (Cons p ps)
  then show ?case by (auto simp: scan_pair_def tri_def split: prod.splits)
qed simp

lemma count_inner: "length (filter (\<lambda>(j, k). tri vs i j k) (inner_pairs (length vs) i)) = card (tri_at vs i)"
proof -
  let ?f = "filter (\<lambda>(j, k). tri vs i j k) (inner_pairs (length vs) i)"
  have "set ?f = tri_at vs i" by (auto simp: set_inner_pairs tri_at_def)
  moreover have "distinct ?f" using distinct_inner_pairs by (rule distinct_filter)
  ultimately show ?thesis using distinct_card by metis
qed

lemma tri_at_late: "length vs - 2 \<le> i \<Longrightarrow> tri_at vs i = {}"
  by (auto simp: tri_at_def)

text \<open>What a worker counts: the triangles whose first index is its own modulo \<open>workers\<close>.\<close>

lemma fst_scan_from:
  "0 < workers \<Longrightarrow> fst st = count32 c \<Longrightarrow> fst (scan_from vs r workers i st)
     = count32 (c + (\<Sum>m | m < length vs \<and> i \<le> m \<and> m mod workers = i mod workers. card (tri_at vs m)))"
proof (induction vs r workers i st arbitrary: c rule: scan_from.induct)
  case (1 vs r workers i st)
  let ?S = "\<lambda>i. {m. m < length vs \<and> i \<le> m \<and> m mod workers = i mod workers}"
  show ?case
  proof (cases "i < length vs - 2")
    case True
    have S: "?S i = insert i (?S (i + workers))"
    proof (intro set_eqI iffI)
      fix m assume m: "m \<in> ?S i"
      show "m \<in> insert i (?S (i + workers))"
      proof (cases "m = i")
        case False
        then have "i < m" using m by simp
        moreover have "workers dvd m - i" using m by (auto simp flip: mod_eq_dvd_iff_nat)
        ultimately have "workers \<le> m - i" by (intro dvd_imp_le) simp_all
        with \<open>i < m\<close> have "i + workers \<le> m" by linarith
        then show ?thesis using m by simp
      qed simp
    qed (use True in auto)
    have i: "i \<notin> ?S (i + workers)" using "1.prems" by simp
    have fin: "finite (?S (i + workers))" by simp
    have f: "fst (fold (scan_pair vs r i) (inner_pairs (length vs) i) st) = count32 (c + card (tri_at vs i))"
      using fst_fold_scan_pair [OF "1.prems"(2)] by (simp add: count_inner)
    show ?thesis
      using "1.IH" [OF _ "1.prems"(1) f] "1.prems" True
      by (subst scan_from.simps) (simp add: S sum.insert [OF fin i] add.assoc)
  next
    case False
    have "(\<Sum>m\<in>?S i. card (tri_at vs m)) = 0"
      by (rule sum.neutral) (use False in \<open>auto simp: tri_at_late\<close>)
    then show ?thesis using False "1.prems"(2) by (subst scan_from.simps) simp
  qed
qed

lemma triangle_count_first: "triangle_count vs = (\<Sum>i<length vs. card (tri_at vs i))"
proof -
  have "triangles vs = Sigma {..<length vs} (tri_at vs)"
    by (auto simp: triangles_def tri_at_def)
  then show ?thesis by (simp add: triangle_count_def card_SigmaI finite_tri_at)
qed

text \<open>What worker \<open>w\<close> has to count.\<close>

definition share :: "int list \<Rightarrow> nat \<Rightarrow> nat \<Rightarrow> nat" where
  "share vs workers w = (\<Sum>m | m < length vs \<and> w \<le> m \<and> m mod workers = w mod workers. card (tri_at vs m))"

lemma findTriangles_count: "0 < workers \<Longrightarrow> fst (findTriangles vs wid workers r) = count32 (share vs workers wid)"
  using fst_scan_from [of workers "(0, [])" 0 vs r wid] by (simp add: findTriangles_def share_def)

text \<open>The shares add up: every first index belongs to exactly one worker.\<close>

lemma sum_workers:
  assumes "0 < workers"
  shows "(\<Sum>wid<workers. share vs workers wid) = triangle_count vs"
proof -
  let ?S = "\<lambda>w. {m. m < length vs \<and> w \<le> m \<and> m mod workers = w mod workers}"
  have "(\<Sum>wid<workers. share vs workers wid) = (\<Sum>w<workers. \<Sum>m\<in>?S w. card (tri_at vs m))"
    by (simp add: share_def)
  also have "\<dots> = (\<Sum>m\<in>(\<Union>w<workers. ?S w). card (tri_at vs m))"
    by (rule sum.UNION_disjoint [symmetric]) auto
  also have "(\<Union>w<workers. ?S w) = {..<length vs}"
    using assms by (auto intro!: bexI [of _ "_ mod workers"])
  finally show ?thesis by (simp add: triangle_count_first)
qed

subsection \<open>The three programs\<close>

text \<open>
  \<open>main\<close> of homework 2: the parent adds the counts in the order the pipe delivers them.
\<close>

definition parent_total :: "int list \<Rightarrow> int" where
  "parent_total pipe_counts = fold (\<lambda>count total. add32 total count) pipe_counts 0"

text \<open>\<open>main\<close> of homework 3: the threads are joined in the order of their ids.\<close>

record ThreadInfo =
  info_wid :: nat
  info_workers :: nat
  info_report :: bool
  info_localCount :: int

definition thread_info :: "nat \<Rightarrow> bool \<Rightarrow> nat \<Rightarrow> ThreadInfo" where
  "thread_info workers report i = \<lparr>info_wid = i, info_workers = workers, info_report = report, info_localCount = 0\<rparr>"

definition findTriangles_thread :: "int list \<Rightarrow> ThreadInfo \<Rightarrow> ThreadInfo \<times> line list" where
  "findTriangles_thread vs tArgs =
     (let (n, ls) = scan_from vs (info_report tArgs) (info_workers tArgs) (info_wid tArgs) (0, []) in (tArgs\<lparr>info_localCount := n\<rparr>, ls))"

definition thread_total :: "int list \<Rightarrow> nat \<Rightarrow> bool \<Rightarrow> int" where
  "thread_total vs workers report =
     fold (\<lambda>i total. add32 total (info_localCount (fst (findTriangles_thread vs (thread_info workers report i))))) [0..<workers] 0"

text \<open>A thread finds what the process of the same number finds.\<close>

lemma thread_like_process:
  "info_localCount (fst (findTriangles_thread vs (thread_info workers report i))) = fst (findTriangles vs i workers report)"
  "snd (findTriangles_thread vs (thread_info workers report i)) = snd (findTriangles vs i workers report)"
  by (simp_all add: findTriangles_thread_def findTriangles_def thread_info_def case_prod_beta Let_def)

text \<open>
  The CUDA kernel \<open>checkValid\<close> for the thread with index \<open>idx\<close>: counts the triangles that end
  at \<open>idx\<close>; \<open>None\<close> when the index is past the list and nothing is stored.
\<close>

definition ending_pairs :: "nat \<Rightarrow> (nat \<times> nat) list" where
  "ending_pairs idx = concat (map (\<lambda>i. map (Pair i) [i + 1..<idx]) [0..<idx - 1])"

definition checkValid :: "int list \<Rightarrow> nat \<Rightarrow> int option" where
  "checkValid vs idx =
     (if idx \<ge> length vs then None
      else Some (fold (\<lambda>(i, j) localCount.
                    if checkTriangle (vs ! i) (vs ! j) (vs ! idx) then add32 localCount 1 else localCount)
                  (ending_pairs idx) 0))"

text \<open>
  \<open>main\<close>: \<open>results\<close> starts zeroed; the kernel runs for every thread of the grid, in any order;
  the host adds the results up.
\<close>

definition threadsPerBlock :: nat where "threadsPerBlock = 100"

definition blocksPerGrid :: "nat \<Rightarrow> nat" where
  "blocksPerGrid n = (n + threadsPerBlock - 1) div threadsPerBlock"

definition kernel_store :: "int list \<Rightarrow> nat \<Rightarrow> int list \<Rightarrow> int list" where
  "kernel_store vs idx results = (case checkValid vs idx of None \<Rightarrow> results | Some c \<Rightarrow> results[idx := c])"

definition cuda_total :: "int list \<Rightarrow> nat list \<Rightarrow> int" where
  "cuda_total vs order =
     (let results = fold (kernel_store vs) order (replicate (length vs) 0)
      in fold (\<lambda>r total. add32 total r) results 0)"

text \<open>Adding up counters: the counter of the sum.\<close>

lemma fold_add: "(\<And>x. x \<in> set xs \<Longrightarrow> g x = count32 (f x)) \<Longrightarrow>
    fold (\<lambda>c t. add32 t (g c)) xs (count32 a) = count32 (a + (\<Sum>x\<leftarrow>xs. f x))"
  by (induction xs arbitrary: a) (auto simp: add.assoc)

lemma fold_add_values: "fold (\<lambda>c t. add32 t c) xs (to_int32 a) = to_int32 (a + sum_list xs)"
  by (induction xs arbitrary: a) (auto simp: add32_def to_int32_add add.assoc)

lemma parent_total_sum: "parent_total xs = to_int32 (sum_list xs)"
  using fold_add_values [of xs 0] by (simp add: parent_total_def to_int32_id)

lemma sum_count32: "to_int32 (\<Sum>x\<leftarrow>xs. count32 (f x)) = count32 (\<Sum>x\<leftarrow>xs. f x)"
proof (induction xs)
  case (Cons x xs)
  have "to_int32 (count32 (f x) + (\<Sum>x\<leftarrow>xs. count32 (f x))) = to_int32 (count32 (f x) + to_int32 (\<Sum>x\<leftarrow>xs. count32 (f x)))"
    by (simp add: to_int32_add)
  also have "\<dots> = add32 (count32 (f x)) (count32 (\<Sum>x\<leftarrow>xs. f x))" unfolding Cons by (simp only: add32_def)
  finally show ?case by simp
qed (simp add: to_int32_id)

lemma fold_add_zero: "(\<And>x. x \<in> set xs \<Longrightarrow> g x = count32 (f x)) \<Longrightarrow>
    fold (\<lambda>c t. add32 t (g c)) xs 0 = count32 (\<Sum>x\<leftarrow>xs. f x)"
  using fold_add [of xs g f 0] by simp

text \<open>The triangles with last index \<open>k\<close>.\<close>

definition tri_end :: "int list \<Rightarrow> nat \<Rightarrow> (nat \<times> nat) set" where
  "tri_end vs k = {(i, j). i < j \<and> j < k \<and> tri vs i j k}"

lemma finite_tri_end: "finite (tri_end vs k)"
  by (rule finite_subset [of _ "{..<k} \<times> {..<k}"]) (auto simp: tri_end_def)

lemma triangle_count_last: "triangle_count vs = (\<Sum>k<length vs. card (tri_end vs k))"
proof -
  let ?f = "\<lambda>(k, i, j). (i, j, k)"
  have "triangles vs = ?f ` Sigma {..<length vs} (tri_end vs)"
    by (force simp: triangles_def tri_end_def)
  moreover have "inj_on ?f (Sigma {..<length vs} (tri_end vs))" by (auto simp: inj_on_def)
  ultimately show ?thesis by (simp add: triangle_count_def card_image card_SigmaI finite_tri_end)
qed

lemma checkValid_eq: "checkValid vs idx = (if idx < length vs then Some (count32 (card (tri_end vs idx))) else None)"
proof -
  have fold: "fold (\<lambda>(i, j) c. if checkTriangle (vs ! i) (vs ! j) (vs ! idx) then add32 c 1 else c) ps (count32 a)
      = count32 (a + length (filter (\<lambda>(i, j). tri vs i j idx) ps))" for ps and a :: nat
    by (induction ps arbitrary: a) (auto simp: tri_def)
  have "set (filter (\<lambda>(i, j). tri vs i j idx) (ending_pairs idx)) = tri_end vs idx"
    by (fastforce simp: ending_pairs_def tri_end_def image_iff)
  moreover have "distinct (filter (\<lambda>(i, j). tri vs i j idx) (ending_pairs idx))"
    unfolding ending_pairs_def by (intro distinct_filter distinct_pairs) simp
  ultimately have "length (filter (\<lambda>(i, j). tri vs i j idx) (ending_pairs idx)) = card (tri_end vs idx)"
    using distinct_card by metis
  then show ?thesis using fold [of "ending_pairs idx" 0] by (simp add: checkValid_def)
qed

lemma kernel_store_eq:
  "kernel_store vs idx rs = (if idx < length vs then rs[idx := count32 (card (tri_end vs idx))] else rs)"
  by (simp add: kernel_store_def checkValid_eq)

lemma kernel_results:
  "length rs = length vs \<Longrightarrow> k < length vs \<Longrightarrow>
   length (fold (kernel_store vs) order rs) = length vs
   \<and> fold (kernel_store vs) order rs ! k = (if k \<in> set order then count32 (card (tri_end vs k)) else rs ! k)"
  by (induction order arbitrary: rs) (auto simp: kernel_store_eq nth_list_update)

lemma length_kernel_results [simp]: "length (fold (kernel_store vs) order rs) = length rs"
  by (induction order arbitrary: rs) (auto simp: kernel_store_eq)

lemma sum_list_upt: "(\<Sum>k\<leftarrow>[0..<n]. f k) = (\<Sum>k<n. f k :: nat)"
  by (simp add: sum_list_distinct_conv_sum_set atLeast0LessThan)

lemma grid_covers: "n \<le> blocksPerGrid n * threadsPerBlock"
proof -
  have "n + 99 = (n + 99) div 100 * 100 + (n + 99) mod 100" by (rule div_mult_mod_eq [symmetric])
  moreover have "(n + 99) mod 100 < 100" by simp
  ultimately have "n \<le> (n + 99) div 100 * 100" by linarith
  then show ?thesis by (simp add: blocksPerGrid_def threadsPerBlock_def)
qed

subsection \<open>Properties\<close>

text \<open>
  \<open>readList\<close> stores every value \<open>scanf\<close> delivers, in order, and never writes past the
  array it has allocated.
\<close>

theorem readList_correct: "\<exists>a. readList input = Some a \<and> vList a = input \<and> vCount a \<le> vCap a"
  using read_values_ok [of "\<lparr>vList = [], vCap = 5\<rparr>" input] by (simp add: readList_def vCount_def)

text \<open>
  The processes of \<open>triangles.c\<close>: for any positive number of workers, and whatever the order
  of their counts in the pipe, the parent's total is the number of triangles, as an \<open>int\<close>.
\<close>

theorem process_total_correct:
  assumes "0 < workers"
    and "mset pipe_counts = mset (map (\<lambda>wid. fst (findTriangles vs wid workers report)) [0..<workers])"
  shows "parent_total pipe_counts = count32 (triangle_count vs)"
proof -
  have "sum_list pipe_counts = (\<Sum>wid\<leftarrow>[0..<workers]. count32 (share vs workers wid))"
    using assms(2) by (simp add: findTriangles_count [OF assms(1)] flip: sum_mset_sum_list)
  then show ?thesis by (simp add: parent_total_sum sum_count32 sum_list_upt sum_workers [OF assms(1)])
qed

theorem process_total_correct_witness: "parent_total [0, 1] = count32 (triangle_count [3, 4, 5])"
  by (rule process_total_correct [where workers = 2 and report = False])
    (simp_all add: findTriangles_def scan_from.simps inner_pairs_def scan_pair_def checkTriangle_def
      add32_def to_int32_def numeral_2_eq_2 add.commute upt_rec)

text \<open>
  The threads of \<open>triangles-thread.c\<close> and the CUDA threads of \<open>triangles.cu\<close>, in any order
  in which the grid runs them, give the same total: the number of triangles, as an \<open>int\<close>.
\<close>

theorem thread_and_cuda_total_correct:
  assumes "0 < workers" and "set order = {..<blocksPerGrid (length vs) * threadsPerBlock}"
  shows "thread_total vs workers report = count32 (triangle_count vs) \<and> cuda_total vs order = count32 (triangle_count vs)"
proof
  have "thread_total vs workers report = count32 (\<Sum>i\<leftarrow>[0..<workers]. share vs workers i)"
    unfolding thread_total_def by (rule fold_add_zero) (simp add: thread_like_process findTriangles_count [OF assms(1)])
  then show "thread_total vs workers report = count32 (triangle_count vs)"
    by (simp add: sum_list_upt sum_workers [OF assms(1)])
  let ?rs = "map (\<lambda>k. count32 (card (tri_end vs k))) [0..<length vs]"
  have "fold (kernel_store vs) order (replicate (length vs) 0) = ?rs"
    using assms(2) grid_covers [of "length vs"] by (intro nth_equalityI) (auto simp: kernel_results)
  then have "cuda_total vs order = to_int32 (sum_list ?rs)"
    using parent_total_sum [of ?rs] by (simp add: cuda_total_def parent_total_def)
  then show "cuda_total vs order = count32 (triangle_count vs)"
    by (simp add: sum_count32 sum_list_upt triangle_count_last)
qed

theorem thread_and_cuda_total_correct_witness:
  "thread_total [3, 4, 5] 2 True = count32 (triangle_count [3, 4, 5])
     \<and> cuda_total [3, 4, 5] (rev [0..<100]) = count32 (triangle_count [3, 4, 5])"
  by (rule thread_and_cuda_total_correct)
    (auto simp: blocksPerGrid_def threadsPerBlock_def)

text \<open>
  The count is at most the number of index triples, so with up to 2344 values it fits the
  32-bit counters of the programs.
\<close>

theorem triangle_count_bound:
  "triangle_count vs \<le> length vs choose 3 \<and> (length vs \<le> 2344 \<longrightarrow> triangle_count vs < 2 ^ 31)"
proof -
  let ?f = "\<lambda>(i, j, k). {i, j, k :: nat}"
  let ?T = "{A. A \<subseteq> {..<length vs} \<and> card A = 3}"
  have "inj_on ?f (triangles vs)"
  proof (rule inj_onI)
    fix p q assume p: "p \<in> triangles vs" and q: "q \<in> triangles vs" and e: "?f p = ?f q"
    obtain a b c where p': "p = (a, b, c)" "a < b" "b < c" using p by (auto simp: triangles_def)
    obtain d e' f where q': "q = (d, e', f)" "d < e'" "e' < f" using q by (auto simp: triangles_def)
    have "[a, b, c] = [d, e', f]"
      by (rule sorted_distinct_set_unique) (use p' q' e in auto)
    then show "p = q" using p' q' by simp
  qed
  moreover have "?f ` triangles vs \<subseteq> ?T" by (auto simp: triangles_def)
  ultimately have "triangle_count vs \<le> card ?T"
    unfolding triangle_count_def by (intro card_inj_on_le [of ?f]) (auto simp: finite_Collect_conjI)
  then have b: "triangle_count vs \<le> length vs choose 3" using n_subsets [of "{..<length vs}" 3] by simp
  have "length vs choose 3 \<le> 2344 choose 3" if "length vs \<le> 2344" using that by (rule binomial_right_mono)
  moreover have "3 * (2344 choose 3) = 2344 * (2343 choose 2 :: nat)"
    using binomial_absorption [of 2 2344] by (simp add: numeral_3_eq_3 [symmetric] del: binomial_Suc_Suc)
  then have "(2344 choose 3 :: nat) < 2 ^ 31" by (simp add: choose_two)
  ultimately show ?thesis using b by fastforce
qed

theorem triangle_count_bound_witness: "triangle_count (replicate 10 5) < 2 ^ 31"
  using triangle_count_bound [of "replicate 10 5"] by simp

end
