(* ===== verification/Triangles_Sem.thy ===== *)
theory Triangles_Sem
  imports Triangles
begin

text \<open>
  \<open>assignments/hw4/triangles-sem.c\<close>: the main thread reads the list and then posts one token
  for each worker; a worker takes a token, tests whether an index is left, takes the next index
  and counts the triangles that end there, and gives the token back.

  Every interleaving is modelled: the test of \<open>nextWorkIndex\<close> and the increment under
  \<open>workMutex\<close> are separate steps (as the code has them, "Check before locking"), and so is each
  increment of \<open>global_count\<close> under \<open>countMutex\<close>. A section between the wait and the post of
  \<open>workMutex\<close>, or the lock and unlock of \<open>countMutex\<close>, is one step: nothing else touches those
  variables and nothing in it can block. The lines printed with \<open>report\<close> and the rest of \<open>main\<close> are
  in \<open>Triangles_Sem_Report\<close>.

  Proved: with at most 10001 numbers and workers together, whatever the schedule, no worker reads
  outside \<open>vList\<close>, all workers return, and then \<open>global_count\<close> is the number of triangles as an \<open>int\<close>,
  although the unlocked test lets workers take indices past the end of the list. With more, a read
  outside \<open>vList\<close> can be reached.
\<close>

subsection \<open>State and steps\<close>

definition MAX_VALUES :: nat where "MAX_VALUES = 10000"

text \<open>
  A worker: before \<open>sem_wait(&workAvailable)\<close>, before the test of \<open>nextWorkIndex\<close>, before
  \<open>nextWorkIndex++\<close>, in the loops over \<open>j\<close> and \<open>k\<close> for an index (with the pairs still to do),
  returned. Each carries \<open>local_count\<close>. \<open>Faulted\<close>: it has read outside \<open>vList\<close>.
\<close>

datatype worker = AtWait int | AtCheck int | AtTake int | Scanning nat "(nat \<times> nat) list" int | Exited int | Faulted

record semstate =
  vals :: "int list"
  input :: "int list"
  posted :: nat
  workAvailable :: nat
  nextWorkIndex :: nat
  global_count :: int
  wpc :: "nat \<Rightarrow> worker"

text \<open>
  \<open>vList[i]\<close>: the array is static, so it is zero past \<open>vCount\<close>; \<open>None\<close> is a read outside it.
\<close>

definition vAt :: "int list \<Rightarrow> nat \<Rightarrow> int option" where
  "vAt vs i = (if i < length vs then Some (vs ! i) else if i < MAX_VALUES then Some 0 else None)"

text \<open>The test of \<open>workerRoutine\<close>, with its three reads.\<close>

definition test_at :: "int list \<Rightarrow> nat \<Rightarrow> nat \<Rightarrow> nat \<Rightarrow> bool option" where
  "test_at vs j k index = (case (vAt vs j, vAt vs k, vAt vs index) of
       (Some a, Some b, Some c) \<Rightarrow> Some (checkTriangle a b c) | _ \<Rightarrow> None)"

text \<open>The loops \<open>for j < index\<close>, \<open>for j < k < index\<close>.\<close>

definition work_pairs :: "nat \<Rightarrow> (nat \<times> nat) list" where
  "work_pairs idx = concat (map (\<lambda>j. map (Pair j) [j + 1..<idx]) [0..<idx])"

text \<open>
  The store in \<open>readList\<close>: the code gives up when \<open>vCount > MAX_VALUES\<close>, and writes past the
  array when \<open>vCount = MAX_VALUES\<close>.
\<close>

datatype store_result = Stored "int list" | Failed | Overrun

definition readList_store :: "int list \<Rightarrow> int \<Rightarrow> store_result" where
  "readList_store vs v =
     (if length vs > MAX_VALUES then Failed
      else if length vs < MAX_VALUES then Stored (vs @ [v]) else Overrun)"

text \<open>One step of worker \<open>w\<close> (\<open>getWork\<close> and \<open>workerRoutine\<close>); \<open>None\<close> while it is blocked.\<close>

definition worker_step :: "nat \<Rightarrow> semstate \<Rightarrow> semstate option" where
  "worker_step w s = (case wpc s w of
       AtWait lc \<Rightarrow>
         if 0 < workAvailable s
         then Some (s\<lparr>workAvailable := workAvailable s - 1, wpc := (wpc s)(w := AtCheck lc)\<rparr>) else None
     | AtCheck lc \<Rightarrow>
         if nextWorkIndex s \<ge> length (vals s)
         then Some (s\<lparr>wpc := (wpc s)(w := Exited lc)\<rparr>)
         else Some (s\<lparr>wpc := (wpc s)(w := AtTake lc)\<rparr>)
     | AtTake lc \<Rightarrow>
         Some (s\<lparr>nextWorkIndex := nextWorkIndex s + 1,
                 wpc := (wpc s)(w := Scanning (nextWorkIndex s) (work_pairs (nextWorkIndex s)) lc)\<rparr>)
     | Scanning idx ((j, k) # ps) lc \<Rightarrow>
         (case test_at (vals s) j k idx of
            None \<Rightarrow> Some (s\<lparr>wpc := (wpc s)(w := Faulted)\<rparr>)
          | Some yes \<Rightarrow>
              if yes
              then Some (s\<lparr>global_count := add32 (global_count s) 1, wpc := (wpc s)(w := Scanning idx ps (add32 lc 1))\<rparr>)
              else Some (s\<lparr>wpc := (wpc s)(w := Scanning idx ps lc)\<rparr>))
     | Scanning idx [] lc \<Rightarrow>
         Some (s\<lparr>workAvailable := workAvailable s + 1, wpc := (wpc s)(w := AtWait lc)\<rparr>)
     | Exited lc \<Rightarrow> None
     | Faulted \<Rightarrow> None)"

text \<open>The steps of the program with workers \<open>0 \<dots> N-1\<close>: \<open>main\<close> reads, then posts; a worker moves.\<close>

inductive sem_step :: "nat \<Rightarrow> semstate \<Rightarrow> semstate \<Rightarrow> bool" for N where
  read: "input s = v # vs \<Longrightarrow> readList_store (vals s) v = Stored vals' \<Longrightarrow>
     sem_step N s (s\<lparr>vals := vals', input := vs\<rparr>)"
| post: "input s = [] \<Longrightarrow> posted s < N \<Longrightarrow>
     sem_step N s (s\<lparr>workAvailable := workAvailable s + 1, posted := posted s + 1\<rparr>)"
| worker: "w < N \<Longrightarrow> worker_step w s = Some s' \<Longrightarrow> sem_step N s s'"

definition sem_start :: "int list \<Rightarrow> semstate" where
  "sem_start xs = \<lparr>vals = [], input = xs, posted = 0, workAvailable = 0, nextWorkIndex = 0,
     global_count = 0, wpc = (\<lambda>_. AtWait 0)\<rparr>"

inductive sem_run :: "nat \<Rightarrow> nat \<Rightarrow> semstate \<Rightarrow> semstate \<Rightarrow> bool" for N where
  halt: "sem_run N 0 s s"
| go: "sem_run N n s s' \<Longrightarrow> sem_step N s' s'' \<Longrightarrow> sem_run N (Suc n) s s''"

text \<open>All workers have returned: what \<open>main\<close>'s joins wait for.\<close>

definition all_exited :: "nat \<Rightarrow> semstate \<Rightarrow> bool" where
  "all_exited N s \<longleftrightarrow> (\<forall>w<N. \<exists>lc. wpc s w = Exited lc)"

subsection \<open>What is still to be counted\<close>

fun still :: "int list \<Rightarrow> worker \<Rightarrow> nat" where
  "still vs (Scanning idx ps lc) =
     length (filter (\<lambda>(j, k). test_at vs j k idx = Some True) ps)"
| "still vs _ = 0"

fun has_token :: "worker \<Rightarrow> nat" where
  "has_token (AtWait lc) = 0"
| "has_token _ = 1"

fun taking :: "worker \<Rightarrow> nat" where
  "taking (AtTake lc) = 1"
| "taking _ = 0"

definition int32_list :: "int list \<Rightarrow> bool" where
  "int32_list xs \<longleftrightarrow> (\<forall>x\<in>set xs. - (2 ^ 31) \<le> x \<and> x < 2 ^ 31)"

text \<open>
  The numbers the workers can read: \<open>int\<close>s, and few enough that the index of no worker can leave
  the array. The unlocked test lets each worker but one take an index too much.
\<close>

definition fits :: "nat \<Rightarrow> int list \<Rightarrow> bool" where
  "fits N xs \<longleftrightarrow> int32_list xs \<and> length xs + N \<le> Suc MAX_VALUES"

lemma test_at_inside: "j < length vs \<Longrightarrow> k < length vs \<Longrightarrow> idx < length vs \<Longrightarrow> test_at vs j k idx = Some (tri vs j k idx)"
  by (simp add: test_at_def vAt_def tri_def)

lemma test_at_past:
  assumes "int32_list vs" "length vs \<le> idx"
  shows "test_at vs j k idx \<noteq> Some True"
proof -
  have r: "- (2 ^ 31) \<le> a \<and> a < 2 ^ 31" if "vAt vs i = Some a" for i a
    using that assms(1) nth_mem [of i vs] by (auto simp: vAt_def int32_list_def split: if_splits)
  have "\<not> checkTriangle a b c" if "vAt vs j = Some a" "vAt vs k = Some b" "vAt vs idx = Some c" for a b c
    using checkTriangle_zero [of a b] r [OF that(1)] r [OF that(2)] that(3) assms(2) by (auto simp: vAt_def split: if_splits)
  then show ?thesis by (auto simp: test_at_def split: option.splits)
qed

lemma test_at_some: "length vs \<le> MAX_VALUES \<Longrightarrow> j < idx \<Longrightarrow> k < idx \<Longrightarrow> idx < MAX_VALUES \<Longrightarrow> test_at vs j k idx \<noteq> None"
  by (simp add: test_at_def vAt_def)

text \<open>The work for one index: its triangles, and none at all past the end of the list.\<close>

lemma mset_work:
  assumes "idx < length vs"
  shows "mset (filter (\<lambda>(j, k). test_at vs j k idx = Some True) (work_pairs idx)) = mset_set (tri_end vs idx)"
proof -
  let ?f = "filter (\<lambda>(j, k). tri vs j k idx) (work_pairs idx)"
  have "filter (\<lambda>(j, k). test_at vs j k idx = Some True) (work_pairs idx) = ?f"
    using assms by (intro filter_cong) (auto simp: work_pairs_def test_at_inside)
  moreover have "set ?f = tri_end vs idx" by (fastforce simp: work_pairs_def tri_end_def image_iff)
  moreover have "distinct ?f" unfolding work_pairs_def by (intro distinct_filter distinct_pairs) simp
  ultimately show ?thesis using mset_set_set by metis
qed

lemma still_work:
  assumes "int32_list vs"
  shows "still vs (Scanning idx (work_pairs idx) lc) = (if idx < length vs then card (tri_end vs idx) else 0)"
proof (cases "idx < length vs")
  case True
  then show ?thesis unfolding still.simps size_mset [symmetric] mset_work [OF True] by simp
next
  case False
  then show ?thesis using test_at_past [OF assms] by (simp add: filter_False)
qed

text \<open>A worker in its loops stays below an index that is inside the array.\<close>

fun inside :: "nat \<Rightarrow> worker \<Rightarrow> bool" where
  "inside B (Scanning idx ps lc) \<longleftrightarrow> idx < B \<and> (\<forall>(j, k)\<in>set ps. j < idx \<and> k < idx)"
| "inside B Faulted \<longleftrightarrow> False"
| "inside B _ \<longleftrightarrow> True"

lemma inside_work: "idx < B \<Longrightarrow> inside B (Scanning idx (work_pairs idx) lc)"
  by (auto simp: work_pairs_def)

lemma sum_update:
  fixes w N :: nat and f :: "'a \<Rightarrow> 'b :: comm_monoid_add"
  assumes "w < N"
  shows "(\<Sum>v<N. f ((p(w := x)) v)) + f (p w) = (\<Sum>v<N. f (p v)) + f x"
proof -
  have "(\<Sum>v<N. g v) = g w + (\<Sum>v\<in>{..<N} - {w}. g v)" for g :: "nat \<Rightarrow> 'b"
    using assms by (intro sum.remove) simp_all
  from this [of "\<lambda>v. f ((p(w := x)) v)"] this [of "\<lambda>v. f (p v)"] show ?thesis by (simp add: ac_simps)
qed

text \<open>
  The invariant. Tokens: every token posted is available or with a worker that is past the
  wait (a worker that exits keeps its own). Triangles: counted, still to be counted by a
  worker, or at an index not yet taken.
\<close>

definition sem_inv :: "nat \<Rightarrow> int list \<Rightarrow> semstate \<Rightarrow> bool" where
  "sem_inv N xs s \<longleftrightarrow>
     vals s @ input s = xs
   \<and> posted s \<le> N \<and> (input s \<noteq> [] \<longrightarrow> posted s = 0 \<and> nextWorkIndex s = 0 \<and> global_count s = 0)
   \<and> workAvailable s + (\<Sum>w<N. has_token (wpc s w)) = posted s
   \<and> (\<exists>c. global_count s = count32 c \<and> c + (\<Sum>w<N. still (vals s) (wpc s w))
       + (\<Sum>k\<in>{nextWorkIndex s..<length (vals s)}. card (tri_end (vals s) k)) = triangle_count (vals s))
   \<and> (\<forall>w<N. \<forall>lc. wpc s w = Exited lc \<longrightarrow> length (vals s) \<le> nextWorkIndex s)
   \<and> nextWorkIndex s + (\<Sum>w<N. taking (wpc s w)) \<le> length (vals s) + N - 1
   \<and> (\<forall>w<N. inside (length xs + N - 1) (wpc s w))"

lemma sem_inv_start: "sem_inv N xs (sem_start xs)"
  by (auto simp: sem_inv_def sem_start_def triangle_count_last intro: exI [of _ 0])

text \<open>While \<open>main\<close> still reads, every worker waits.\<close>

lemma reading_all_wait:
  assumes "sem_inv N xs s" "input s \<noteq> []" "w < N"
  shows "\<exists>lc. wpc s w = AtWait lc"
proof -
  have "workAvailable s + (\<Sum>w<N. has_token (wpc s w)) = posted s" "posted s = 0"
    using assms(1,2) by (auto simp: sem_inv_def)
  then have "(\<Sum>w<N. has_token (wpc s w)) = 0" by linarith
  then have "has_token (wpc s w) = 0" using assms(3) by simp
  then show ?thesis by (cases "wpc s w") simp_all
qed

lemma sem_inv_read:
  assumes inv: "sem_inv N xs s" and i: "input s = v # vs"
  shows "sem_inv N xs (s\<lparr>vals := vals s @ [v], input := vs\<rparr>)"
proof -
  have "still vals' (wpc s w) = 0 \<and> taking (wpc s w) = 0" if "w < N" for w vals'
    using reading_all_wait [OF inv _ that] i by auto
  moreover have "\<forall>w<N. \<forall>lc. wpc s w \<noteq> Exited lc"
    using reading_all_wait [OF inv] i by fastforce
  ultimately show ?thesis
    using inv i unfolding sem_inv_def
    by (auto simp: triangle_count_last atLeast0LessThan intro: exI [of _ 0])
qed

lemma sum_taking_le: "(\<Sum>w<N. taking (p w)) \<le> N"
proof -
  have "taking x \<le> 1" for x by (cases x) simp_all
  then have "(\<Sum>w<N. taking (p w)) \<le> (\<Sum>w<N. 1)" by (intro sum_mono) blast
  then show ?thesis by simp
qed

text \<open>One worker moves from \<open>wpc s w\<close> to \<open>x\<close>: what has to be checked.\<close>

lemma sem_inv_worker:
  assumes inv: "sem_inv N xs s" and w: "w < N"
    and s': "s' = s\<lparr>workAvailable := a, nextWorkIndex := i, global_count := g, wpc := (wpc s)(w := x)\<rparr>"
    and tok: "a + has_token x = workAvailable s + has_token (wpc s w)"
    and g: "g = (if d then add32 (global_count s) 1 else global_count s)"
    and cnt: "(if d then 1 else 0) + still (vals s) x + (\<Sum>k\<in>{i..<length (vals s)}. card (tri_end (vals s) k))
        = still (vals s) (wpc s w) + (\<Sum>k\<in>{nextWorkIndex s..<length (vals s)}. card (tri_end (vals s) k))"
    and busy: "input s = []"
    and mono: "nextWorkIndex s \<le> i" and ex: "\<And>lc. x = Exited lc \<Longrightarrow> length (vals s) \<le> i"
    and tk: "i + (\<Sum>v<N. taking (((wpc s)(w := x)) v)) \<le> length (vals s) + N - 1"
    and ins: "inside (length xs + N - 1) x"
  shows "sem_inv N xs s'"
proof -
  have "(\<Sum>v<N. has_token (((wpc s)(w := x)) v)) + has_token (wpc s w) = (\<Sum>v<N. has_token (wpc s v)) + has_token x"
    by (rule sum_update [OF w])
  moreover have "workAvailable s + (\<Sum>v<N. has_token (wpc s v)) = posted s" using inv by (simp add: sem_inv_def)
  ultimately have t: "a + (\<Sum>v<N. has_token (((wpc s)(w := x)) v)) = posted s" using tok by linarith
  have "(\<Sum>v<N. still (vals s) (((wpc s)(w := x)) v)) + still (vals s) (wpc s w)
      = (\<Sum>v<N. still (vals s) (wpc s v)) + still (vals s) x"
    by (rule sum_update [OF w])
  moreover obtain c where c: "global_count s = count32 c" "c + (\<Sum>v<N. still (vals s) (wpc s v))
      + (\<Sum>k\<in>{nextWorkIndex s..<length (vals s)}. card (tri_end (vals s) k)) = triangle_count (vals s)"
    using inv unfolding sem_inv_def by blast
  ultimately have "((if d then 1 else 0) + c) + (\<Sum>v<N. still (vals s) (((wpc s)(w := x)) v))
      + (\<Sum>k\<in>{i..<length (vals s)}. card (tri_end (vals s) k)) = triangle_count (vals s)"
    using cnt by linarith
  moreover have "g = count32 ((if d then 1 else 0) + c)" using g c(1) by simp
  ultimately have c: "\<exists>c. g = count32 c \<and> c + (\<Sum>v<N. still (vals s) (((wpc s)(w := x)) v))
      + (\<Sum>k\<in>{i..<length (vals s)}. card (tri_end (vals s) k)) = triangle_count (vals s)" by blast
  have ins': "\<forall>v<N. inside (length xs + N - 1) (((wpc s)(w := x)) v)" using inv ins by (simp add: sem_inv_def)
  have e: "\<forall>v<N. \<forall>lc. ((wpc s)(w := x)) v = Exited lc \<longrightarrow> length (vals s) \<le> i"
    using inv ex mono unfolding sem_inv_def by (auto intro: order_trans)
  have "vals s @ input s = xs" "posted s \<le> N" using inv by (simp_all add: sem_inv_def)
  then show ?thesis
    unfolding sem_inv_def s' using t c e tk busy ins' by simp
qed

lemma token_not_reading:
  assumes "sem_inv N xs s" "w < N" "worker_step w s = Some s'"
  shows "input s = []"
proof (rule ccontr)
  assume i: "input s \<noteq> []"
  then obtain lc where "wpc s w = AtWait lc" using reading_all_wait assms by blast
  moreover have "workAvailable s = 0" using assms(1) i by (simp add: sem_inv_def)
  ultimately show False using assms(3) by (simp add: worker_step_def)
qed

lemma sem_inv_worker_step:
  assumes inv: "sem_inv N xs s" and w: "w < N" and st: "worker_step w s = Some s'" and few: "fits N xs"
  shows "sem_inv N xs s'"
proof -
  have rd: "input s = []" using token_not_reading assms by blast
  then have v: "vals s = xs" using inv by (simp add: sem_inv_def)
  then have v32: "int32_list (vals s)" using few by (simp add: fits_def)
  have ins: "inside (length xs + N - 1) (wpc s w)" using inv w by (simp add: sem_inv_def)
  have tk0: "nextWorkIndex s + (\<Sum>v<N. taking (wpc s v)) \<le> length (vals s) + N - 1"
    using inv by (simp add: sem_inv_def)
  have tk: "(\<Sum>v<N. taking (((wpc s)(w := x)) v)) + taking (wpc s w) = (\<Sum>v<N. taking (wpc s v)) + taking x" for x
    by (rule sum_update [OF w])
  show ?thesis
  proof (cases "wpc s w")
    case (AtWait lc)
    then show ?thesis using st rd tk0 tk [of "AtCheck lc"]
      by (intro sem_inv_worker [OF inv w, where x = "AtCheck lc" and a = "workAvailable s - 1"
            and i = "nextWorkIndex s" and d = False and g = "global_count s"])
        (auto simp: worker_step_def split: if_splits)
  next
    case (AtCheck lc)
    show ?thesis
    proof (cases "nextWorkIndex s \<ge> length (vals s)")
      case True
      then show ?thesis using AtCheck st rd tk0 tk [of "Exited lc"]
        by (intro sem_inv_worker [OF inv w, where x = "Exited lc" and a = "workAvailable s"
              and i = "nextWorkIndex s" and d = False and g = "global_count s"])
          (auto simp: worker_step_def)
    next
      case False
      have "(\<Sum>v<N. taking (((wpc s)(w := AtTake lc)) v)) \<le> N" by (rule sum_taking_le)
      then show ?thesis using False AtCheck st rd
        by (intro sem_inv_worker [OF inv w, where x = "AtTake lc" and a = "workAvailable s"
              and i = "nextWorkIndex s" and d = False and g = "global_count s"])
          (auto simp: worker_step_def)
    qed
  next
    case (AtTake lc)
    let ?i = "nextWorkIndex s"
    have "{?i..<length (vals s)} = (if ?i < length (vals s) then insert ?i {?i + 1..<length (vals s)} else {})"
      "{?i + 1..<length (vals s)} = {} \<or> ?i < length (vals s)" by auto
    moreover have "inside (length xs + N - 1) (Scanning ?i (work_pairs ?i) lc)"
    proof (rule inside_work)
      have "taking (wpc s w) \<le> (\<Sum>v<N. taking (wpc s v))" using w by (intro member_le_sum) simp_all
      then show "?i < length xs + N - 1" using tk0 AtTake v by simp
    qed
    ultimately show ?thesis using AtTake st rd tk0 tk [of "Scanning ?i (work_pairs ?i) lc"]
      by (intro sem_inv_worker [OF inv w, where x = "Scanning ?i (work_pairs ?i) lc" and a = "workAvailable s"
            and i = "?i + 1" and d = False and g = "global_count s"])
        (auto simp: worker_step_def still_work [OF v32] simp del: still.simps(1) inside.simps(1))
  next
    case (Scanning idx ps lc)
    show ?thesis
    proof (cases ps)
      case Nil
      then show ?thesis using Scanning st rd tk0 tk [of "AtWait lc"]
        by (intro sem_inv_worker [OF inv w, where x = "AtWait lc" and a = "workAvailable s + 1"
              and i = "nextWorkIndex s" and d = False and g = "global_count s"])
          (auto simp: worker_step_def)
    next
      case (Cons p qs)
      obtain j k where p: "p = (j, k)" by (cases p)
      have "j < idx" "k < idx" "idx < MAX_VALUES" "length (vals s) \<le> MAX_VALUES"
        using ins Scanning Cons p few v w by (auto simp: fits_def)
      then obtain yes where y: "test_at (vals s) j k idx = Some yes" using test_at_some by blast
      let ?x = "Scanning idx qs (if yes then add32 lc 1 else lc)"
      show ?thesis using Scanning Cons p st rd tk0 tk [of ?x] y ins
        by (intro sem_inv_worker [OF inv w, where x = ?x and a = "workAvailable s" and d = yes
              and i = "nextWorkIndex s" and g = "if yes then add32 (global_count s) 1 else global_count s"])
          (auto simp: worker_step_def)
    qed
  qed (use st in \<open>simp_all add: worker_step_def\<close>)
qed

lemma sem_inv_step:
  assumes "sem_step N s s'" "sem_inv N xs s" "fits N xs"
  shows "sem_inv N xs s'"
  using assms(1)
proof cases
  case (read v vs vals')
  then show ?thesis using sem_inv_read [OF assms(2)] by (simp add: readList_store_def split: if_splits)
next
  case post
  then show ?thesis using assms(2) by (auto simp: sem_inv_def)
next
  case (worker w)
  then show ?thesis using sem_inv_worker_step assms(2,3) by blast
qed

lemma sem_inv_run: "sem_run N n (sem_start xs) s \<Longrightarrow> fits N xs \<Longrightarrow> sem_inv N xs s"
  by (induction n "sem_start xs" s rule: sem_run.induct) (auto simp: sem_inv_start intro: sem_inv_step)

subsection \<open>Progress and termination\<close>

fun weight :: "worker \<Rightarrow> nat" where
  "weight (AtWait lc) = 4"
| "weight (AtCheck lc) = 3"
| "weight (AtTake lc) = 2"
| "weight (Scanning idx ps lc) = 5 + length ps"
| "weight (Exited lc) = 0"
| "weight Faulted = 0"

text \<open>What every step uses up.\<close>

definition variant :: "nat \<Rightarrow> nat \<Rightarrow> semstate \<Rightarrow> nat" where
  "variant N L s = length (input s) + (N - posted s) + (\<Sum>w<N. weight (wpc s w))
     + ((L + N) * (L + N) + 5) * (L + N - nextWorkIndex s)"

lemma length_pairs: "length (concat (map (\<lambda>j. map (Pair j) [f j..<n]) js)) \<le> length js * n"
  by (induction js) (auto simp: add.commute intro: add_mono)

lemma length_work_pairs: "idx \<le> m \<Longrightarrow> length (work_pairs idx) \<le> m * m"
  using length_pairs [of Suc idx "[0..<idx]"] mult_le_mono [of idx m idx m]
  by (simp add: work_pairs_def)

lemma variant_worker_step:
  assumes inv: "sem_inv N xs s" and w: "w < N" and st: "worker_step w s = Some s'"
  shows "variant N (length xs) s' < variant N (length xs) s"
proof -
  let ?L = "length xs"
  have up: "(\<Sum>v<N. weight (((wpc s)(w := x)) v)) + weight (wpc s w) = (\<Sum>v<N. weight (wpc s v)) + weight x" for x
    by (rule sum_update [OF w])
  show ?thesis
  proof (cases "wpc s w")
    case (AtTake lc)
    let ?i = "nextWorkIndex s"
    have "taking (wpc s w) \<le> (\<Sum>v<N. taking (wpc s v))" using w by (intro member_le_sum) simp_all
    moreover have "?i + (\<Sum>v<N. taking (wpc s v)) \<le> length (vals s) + N - 1"
      and "length (vals s) \<le> ?L"
      using inv by (auto simp: sem_inv_def)
    ultimately have i: "?i < ?L + N" using AtTake w by simp
    then have "?L + N - ?i = Suc (?L + N - (?i + 1))" by simp
    then have k: "((?L + N) * (?L + N) + 5) * (?L + N - ?i)
        = ((?L + N) * (?L + N) + 5) * (?L + N - (?i + 1)) + (?L + N) * (?L + N) + 5" by simp
    have "length (work_pairs ?i) \<le> (?L + N) * (?L + N)" using i by (intro length_work_pairs) simp
    then show ?thesis
      using st AtTake up [of "Scanning ?i (work_pairs ?i) lc"] k
      by (auto simp: worker_step_def variant_def)
  next
    case (AtWait lc)
    then show ?thesis using st up [of "AtCheck lc"]
      by (auto simp: worker_step_def variant_def split: if_splits)
  next
    case (AtCheck lc)
    then show ?thesis using st up [of "AtTake lc"] up [of "Exited lc"]
      by (auto simp: worker_step_def variant_def split: if_splits)
  next
    case (Scanning idx ps lc)
    show ?thesis
    proof (cases ps)
      case Nil
      then show ?thesis using Scanning st up [of "AtWait lc"]
        by (auto simp: worker_step_def variant_def)
    next
      case (Cons p qs)
      obtain j k where p: "p = (j, k)" by (cases p)
      show ?thesis using Scanning Cons p st up [of "Scanning idx qs lc"] up [of "Scanning idx qs (add32 lc 1)"] up [of Faulted]
        by (auto simp: worker_step_def variant_def split: if_splits option.splits)
    qed
  qed (use st in \<open>simp_all add: worker_step_def\<close>)
qed

lemma variant_step:
  assumes "sem_step N s s'" "sem_inv N xs s"
  shows "variant N (length xs) s' < variant N (length xs) s"
  using assms(1)
proof cases
  case (worker w)
  then show ?thesis using variant_worker_step [OF assms(2)] by blast
qed (auto simp: variant_def)

lemma variant_run:
  "sem_run N n (sem_start xs) s \<Longrightarrow> fits N xs \<Longrightarrow>
   n + variant N (length xs) s \<le> variant N (length xs) (sem_start xs)"
proof (induction n "sem_start xs" s rule: sem_run.induct)
  case (go n s s')
  then show ?case using variant_step [OF go.hyps(3) sem_inv_run [OF go.hyps(1)]] by fastforce
qed simp

text \<open>No worker has read outside the array.\<close>

definition no_fault :: "nat \<Rightarrow> semstate \<Rightarrow> bool" where
  "no_fault N s \<longleftrightarrow> (\<forall>w<N. wpc s w \<noteq> Faulted)"

lemma sem_no_fault: "sem_inv N xs s \<Longrightarrow> no_fault N s"
  by (auto simp: sem_inv_def no_fault_def)

text \<open>Nothing blocks for good: tokens are enough for every worker that waits.\<close>

lemma sem_progress:
  assumes inv: "sem_inv N xs s" and len: "fits N xs" and n: "\<not> all_exited N s"
  shows "\<exists>s'. sem_step N s s'"
proof -
  obtain w where w: "w < N" "\<And>lc. wpc s w \<noteq> Exited lc" using n by (auto simp: all_exited_def)
  consider v vs where "input s = v # vs" | "input s = []" "posted s < N" | "input s = []" "posted s = N"
    using inv by (cases "input s") (auto simp: sem_inv_def le_less)
  then show ?thesis
  proof cases
    case (1 v vs)
    then have "length (vals s) < MAX_VALUES" using inv len w(1) by (auto simp: sem_inv_def fits_def)
    then show ?thesis using sem_step.read [OF 1] by (auto simp: readList_store_def)
  next
    case 2
    then show ?thesis by (blast intro: sem_step.post)
  next
    case 3
    have "\<exists>s'. worker_step w s = Some s'"
    proof (cases "wpc s w")
      case (AtWait lc)
      have "has_token x \<le> 1" for x by (cases x) simp_all
      then have "(\<Sum>v\<in>{..<N} - {w}. has_token (wpc s v)) \<le> (\<Sum>v\<in>{..<N} - {w}. 1)"
        by (intro sum_mono) blast
      moreover have "(\<Sum>v<N. has_token (wpc s v)) = has_token (wpc s w) + (\<Sum>v\<in>{..<N} - {w}. has_token (wpc s v))"
        using w(1) by (intro sum.remove) simp_all
      moreover have "workAvailable s + (\<Sum>v<N. has_token (wpc s v)) = N" using inv 3 by (simp add: sem_inv_def)
      ultimately have "0 < workAvailable s" using w(1) AtWait by simp
      then show ?thesis using AtWait by (simp add: worker_step_def)
    next
      case (Scanning idx ps lc)
      then show ?thesis by (cases ps) (auto simp: worker_step_def split: prod.split option.split)
    next
      case Faulted
      then show ?thesis using sem_no_fault [OF inv] w(1) by (simp add: no_fault_def)
    qed (use w(2) in \<open>auto simp: worker_step_def\<close>)
    then show ?thesis using w(1) by (blast intro: sem_step.worker)
  qed
qed

text \<open>What \<open>global_count\<close> is in the end: the number of triangles, as an \<open>int\<close>.\<close>

lemma sem_total:
  assumes inv: "sem_inv N xs s" and "0 < N" and ex: "all_exited N s"
  shows "global_count s = count32 (triangle_count xs)"
proof -
  have e: "\<exists>lc. wpc s w = Exited lc" if "w < N" for w using ex that by (simp add: all_exited_def)
  have "(\<Sum>w<N. still (vals s) (wpc s w)) = 0"
    by (rule sum.neutral) (use e in fastforce)
  moreover have "length (vals s) \<le> nextWorkIndex s"
    using inv e [OF assms(2)] assms(2) unfolding sem_inv_def by blast
  moreover have "input s = []"
  proof (rule ccontr)
    assume "input s \<noteq> []"
    then show False using reading_all_wait [OF inv _ assms(2)] e [OF assms(2)] by fastforce
  qed
  ultimately show ?thesis using inv by (auto simp: sem_inv_def)
qed

text \<open>A schedule for the concrete runs: \<open>None\<close> is \<open>main\<close>, \<open>Some w\<close> a worker.\<close>

fun sem_exec :: "nat \<Rightarrow> nat option \<Rightarrow> semstate \<Rightarrow> semstate option" where
  "sem_exec N (Some w) s = (if w < N then worker_step w s else None)"
| "sem_exec N None s = (case input s of
       v # vs \<Rightarrow> (case readList_store (vals s) v of
           Stored vals' \<Rightarrow> Some (s\<lparr>vals := vals', input := vs\<rparr>) | _ \<Rightarrow> None)
     | [] \<Rightarrow> if posted s < N
             then Some (s\<lparr>workAvailable := workAvailable s + 1, posted := posted s + 1\<rparr>) else None)"

fun sem_sched :: "nat \<Rightarrow> nat option list \<Rightarrow> semstate \<Rightarrow> semstate option" where
  "sem_sched N [] s = Some s"
| "sem_sched N (m # ms) s = (case sem_sched N ms s of None \<Rightarrow> None | Some s' \<Rightarrow> sem_exec N m s')"

lemma sem_exec_step: "sem_exec N m s = Some s' \<Longrightarrow> sem_step N s s'"
  using sem_step.post [of s N]
  by (cases m) (auto split: list.splits store_result.splits if_splits intro: sem_step.intros)

text \<open>The schedule is listed from its last step to its first.\<close>

lemma sem_sched_run: "sem_sched N ms s = Some s' \<Longrightarrow> sem_run N (length ms) s s'"
  by (induction ms arbitrary: s') (auto split: option.splits intro: sem_run.intros sem_exec_step)

subsection \<open>Properties\<close>

text \<open>
  \<open>triangles-sem.c\<close>, for any list of ints and any positive number of workers that are together at
  most 10001, and any schedule: every run is finite, no worker reads outside the array, a run can
  only end when all workers have returned, and then \<open>global_count\<close> is the number of triangles, as
  an \<open>int\<close>.
\<close>

theorem sem_correct:
  assumes "sem_run N n (sem_start xs) s" "fits N xs" "0 < N"
  shows "n \<le> variant N (length xs) (sem_start xs) \<and> no_fault N s
       \<and> (all_exited N s \<or> (\<exists>s'. sem_step N s s'))
       \<and> (all_exited N s \<longrightarrow> global_count s = count32 (triangle_count xs))"
  using variant_run [OF assms(1,2)] sem_progress [OF sem_inv_run [OF assms(1,2)] assms(2)]
    sem_no_fault [OF sem_inv_run [OF assms(1,2)]] sem_total [OF sem_inv_run [OF assms(1,2)] assms(3)] by auto

theorem sem_correct_witness:
  "\<exists>s. sem_sched 1 (map (\<lambda>_. Some 0) [1..15] @ [None, None, None, None]) (sem_start [3, 4, 5]) = Some s
     \<and> all_exited 1 s \<and> global_count s = 1 \<and> triangle_count [3, 4, 5] = 1"
proof -
  obtain s where s: "sem_sched 1 (map (\<lambda>_. Some 0) [1..15] @ [None, None, None, None]) (sem_start [3, 4, 5]) = Some s"
    and ex: "all_exited 1 s" "global_count s = 1"
    by (simp add: upto_rec1 sem_start_def readList_store_def MAX_VALUES_def worker_step_def work_pairs_def
        test_at_def vAt_def checkTriangle_def add32_def to_int32_def all_exited_def upt_rec)
  have "global_count s = count32 (triangle_count [3, 4, 5])"
    using sem_correct [OF sem_sched_run [OF s]] ex by (simp add: fits_def int32_list_def MAX_VALUES_def)
  moreover have "triangle_count [3, 4, 5] < 2 ^ 31" using triangle_count_bound [of "[3, 4, 5]"] by simp
  ultimately have "triangle_count [3, 4, 5] = 1" using ex(2) by (simp add: count32_id)
  then show ?thesis using s ex by metis
qed

text \<open>
  The unlocked test lets an index past the end of the list be taken, but never one beyond
  \<open>vCount + workers - 2\<close>.
\<close>

theorem sem_index_bound:
  assumes "sem_run N n (sem_start xs) s" "fits N xs" "w < N" "wpc s w = AtTake lc"
  shows "nextWorkIndex s + 2 \<le> length (vals s) + N"
proof -
  have "taking (wpc s w) \<le> (\<Sum>v<N. taking (wpc s v))" using assms(3) by (intro member_le_sum) simp_all
  then show ?thesis using sem_inv_run [OF assms(1,2)] assms(3,4) by (auto simp: sem_inv_def)
qed

text \<open>Two workers pass the test for the only index; the second one takes index 1 of a list of one.\<close>

theorem sem_index_bound_witness:
  "\<exists>s. sem_sched 2 [Some 0, Some 1, Some 0, Some 1, Some 0, None, None, None] (sem_start [3]) = Some s
     \<and> wpc s 1 = AtTake 0 \<and> length (vals s) = 1 \<and> nextWorkIndex s = 1"
proof -
  obtain s where s: "sem_sched 2 [Some 0, Some 1, Some 0, Some 1, Some 0, None, None, None] (sem_start [3]) = Some s"
    and at: "wpc s 1 = AtTake 0" "length (vals s) = 1" "1 \<le> nextWorkIndex s"
    by (simp add: sem_start_def readList_store_def MAX_VALUES_def worker_step_def)
  have "nextWorkIndex s + 2 \<le> length (vals s) + 2"
    by (rule sem_index_bound [OF sem_sched_run [OF s] _ _ at(1)]) (simp_all add: fits_def int32_list_def MAX_VALUES_def)
  then have "nextWorkIndex s = 1" using at(2,3) by linarith
  then show ?thesis using s at(1,2) by blast
qed


subsection \<open>A read outside the array\<close>

definition reaches :: "nat \<Rightarrow> semstate \<Rightarrow> semstate \<Rightarrow> bool" where
  "reaches N s t \<longleftrightarrow> (\<exists>n. sem_run N n s t)"

lemma reaches_step: "reaches N s t \<Longrightarrow> sem_step N t u \<Longrightarrow> reaches N s u"
  unfolding reaches_def by (blast intro: sem_run.go)

text \<open>A phase in which one after the other makes a step.\<close>

lemma reaches_phase: "reaches N s (f 0) \<Longrightarrow> (\<And>m. m < k \<Longrightarrow> sem_step N (f m) (f (Suc m))) \<Longrightarrow> reaches N s (f k)"
proof (induction k)
  case (Suc k)
  then show ?case using reaches_step [of N s "f k" "f (Suc k)"] by simp
qed

text \<open>All workers pass the test before one takes an index.\<close>

lemma all_take:
  "reaches N (sem_start [v]) \<lparr>vals = [v], input = [], posted = N, workAvailable = 0, nextWorkIndex = 0,
     global_count = 0, wpc = (\<lambda>w. if w < N then AtTake 0 else AtWait 0)\<rparr>"
proof -
  define st where "st p a f = \<lparr>vals = [v], input = [], posted = p, workAvailable = a, nextWorkIndex = 0, global_count = 0, wpc = f\<rparr>" for p a f
  have 0: "reaches N (sem_start [v]) (sem_start [v])" unfolding reaches_def by (blast intro: sem_run.halt)
  have "sem_step N (sem_start [v]) (st 0 0 (\<lambda>_. AtWait 0))"
    using sem_step.read [of "sem_start [v]" v "[]" "[v]" N] by (simp add: sem_start_def st_def readList_store_def MAX_VALUES_def)
  then have 1: "reaches N (sem_start [v]) (st 0 0 (\<lambda>_. AtWait 0))" by (rule reaches_step [OF 0])
  have "sem_step N (st m m (\<lambda>_. AtWait 0)) (st (Suc m) (Suc m) (\<lambda>_. AtWait 0))" if "m < N" for m
    using sem_step.post [of "st m m (\<lambda>_. AtWait 0)" N] that by (simp add: st_def)
  from reaches_phase [of N "sem_start [v]" "\<lambda>m. st m m (\<lambda>_. AtWait 0)" N, OF 1 this]
  have 2: "reaches N (sem_start [v]) (st N (N - 0) (\<lambda>w. if w < 0 then AtCheck 0 else AtWait 0))" by simp
  let ?c = "\<lambda>m w. if w < m then AtCheck 0 else AtWait 0"
  have "sem_step N (st N (N - m) (?c m)) (st N (N - Suc m) (?c (Suc m)))" if "m < N" for m
  proof (rule sem_step.worker [OF that])
    have "(?c m)(m := AtCheck 0) = ?c (Suc m)" by (auto simp: fun_eq_iff)
    then show "worker_step m (st N (N - m) (?c m)) = Some (st N (N - Suc m) (?c (Suc m)))" using that by (simp add: worker_step_def st_def)
  qed
  from reaches_phase [of N "sem_start [v]" "\<lambda>m. st N (N - m) (?c m)" N, OF 2 this]
  have 3: "reaches N (sem_start [v]) (st N 0 (\<lambda>w. if w < 0 then AtTake 0 else if w < N then AtCheck 0 else AtWait 0))" by simp
  let ?t = "\<lambda>m w. if w < m then AtTake 0 else if w < N then AtCheck 0 else AtWait 0"
  have "sem_step N (st N 0 (?t m)) (st N 0 (?t (Suc m)))" if "m < N" for m
  proof (rule sem_step.worker [OF that])
    have "(?t m)(m := AtTake 0) = ?t (Suc m)" by (auto simp: fun_eq_iff)
    then show "worker_step m (st N 0 (?t m)) = Some (st N 0 (?t (Suc m)))" using that by (simp add: worker_step_def st_def)
  qed
  from reaches_phase [of N "sem_start [v]" "\<lambda>m. st N 0 (?t m)" N, OF 3 this]
  have "reaches N (sem_start [v]) (st N 0 (?t N))" .
  moreover have "?t N = (\<lambda>w. if w < N then AtTake 0 else AtWait 0)" by auto
  ultimately show ?thesis by (simp add: st_def)
qed

text \<open>
  The bound on values and workers is needed: with one number and one worker more than it allows,
  the unlocked test lets a worker read \<open>vList[MAX_VALUES]\<close>.
\<close>

theorem sem_reads_outside:
  assumes "MAX_VALUES < N"
  shows "\<exists>s. reaches N (sem_start [v]) s \<and> wpc s MAX_VALUES = Faulted"
proof -
  define st where "st i f = \<lparr>vals = [v], input = [], posted = N, workAvailable = 0, nextWorkIndex = i, global_count = 0, wpc = f\<rparr>" for i f
  let ?c = "\<lambda>m w. if w < m then Scanning w (work_pairs w) 0 else if w < N then AtTake 0 else AtWait 0"
  have 0: "reaches N (sem_start [v]) (st 0 (?c 0))" using all_take [of N v] by (simp add: st_def)
  have "sem_step N (st m (?c m)) (st (Suc m) (?c (Suc m)))" if "m < Suc MAX_VALUES" for m
  proof (rule sem_step.worker [of m])
    show "m < N" using that assms by simp
    moreover have "(?c m)(m := Scanning m (work_pairs m) 0) = ?c (Suc m)" by (auto simp: fun_eq_iff)
    ultimately show "worker_step m (st m (?c m)) = Some (st (Suc m) (?c (Suc m)))" by (simp add: worker_step_def st_def)
  qed
  from reaches_phase [of N "sem_start [v]" "\<lambda>m. st m (?c m)" "Suc MAX_VALUES", OF 0 this]
  have 1: "reaches N (sem_start [v]) (st (Suc MAX_VALUES) (?c (Suc MAX_VALUES)))" .
  obtain j k ps where p: "work_pairs MAX_VALUES = (j, k) # ps"
  proof -
    have "(0, 1) \<in> set (work_pairs MAX_VALUES)" by (auto simp: work_pairs_def MAX_VALUES_def image_iff)
    then show thesis using that by (cases "work_pairs MAX_VALUES") auto
  qed
  have "vAt [v] MAX_VALUES = None" by (simp add: vAt_def MAX_VALUES_def)
  then have "test_at [v] j k MAX_VALUES = None" by (auto simp: test_at_def split: option.split)
  then have "worker_step MAX_VALUES (st (Suc MAX_VALUES) (?c (Suc MAX_VALUES)))
      = Some (st (Suc MAX_VALUES) ((?c (Suc MAX_VALUES))(MAX_VALUES := Faulted)))"
    by (simp add: worker_step_def st_def p)
  from reaches_step [OF 1 sem_step.worker [OF assms this]] show ?thesis by (auto simp: st_def)
qed

end
