(* ===== verification/Editor_Shm.thy ===== *)
theory Editor_Shm
  imports Prelude
begin

text \<open>
  The shared-memory string editor: \<open>assignments/hw3/edit.c\<close> and \<open>reset.c\<close>, and homework 4's
  version of them, which puts the operations in functions and a semaphore around each. The
  state is the \<open>EditState\<close> of \<open>common.h\<close> in shared memory. Attaching the memory and opening
  the semaphore are assumed to succeed.

  \<open>doc\<close> is the specification: the text and up to three earlier texts. Proved: insert and
  delete refine it; undo restores the text but not \<open>len\<close>, so it leaves the state out of step,
  and a further insert can leave the buffer without its NUL; every operation stays inside the
  arrays all the same.
\<close>

definition STRING_LIMIT :: nat where "STRING_LIMIT = 76"

definition UNDO_LIMIT :: int where "UNDO_LIMIT = 3"

record EditState =
  str :: buf
  prev1 :: buf
  prev2 :: buf
  prev3 :: buf
  len :: int
  num_undos :: int

subsection \<open>The operations\<close>

text \<open>
  \<open>memmove\<close> inside a string with a \<open>size_t\<close> count (a negative count becomes a huge one), and a store
  into it; \<open>None\<close> is an access outside the array.
\<close>

definition move_bytes :: "buf \<Rightarrow> int \<Rightarrow> int \<Rightarrow> int \<Rightarrow> buf option" where
  "move_bytes b d s n = (let k = n mod 2 ^ 64 in
     if 0 \<le> d \<and> 0 \<le> s \<and> d + k \<le> int (length b) \<and> s + k \<le> int (length b)
     then Some (memmove b (nat d) (nat s) (nat k)) else None)"

definition put_byte :: "buf \<Rightarrow> int \<Rightarrow> char \<Rightarrow> buf option" where
  "put_byte b i c = (if 0 \<le> i \<and> i < int (length b) then Some (b[nat i := c]) else None)"

lemma move_bytes_ok:
  "0 \<le> d \<Longrightarrow> 0 \<le> s \<Longrightarrow> 0 \<le> n \<Longrightarrow> n < 2 ^ 64 \<Longrightarrow> d + n \<le> int (length b) \<Longrightarrow> s + n \<le> int (length b) \<Longrightarrow>
    move_bytes b d s n = Some (memmove b (nat d) (nat s) (nat n))"
  by (simp add: move_bytes_def Let_def)

text \<open>The three copies that open insert and delete.\<close>

definition push_history :: "EditState \<Rightarrow> EditState" where
  "push_history s =
     (let s1 = s\<lparr>prev3 := strncpy (prev3 s) (prev2 s) STRING_LIMIT\<rparr>;
          s2 = s1\<lparr>prev2 := strncpy (prev2 s1) (prev1 s1) STRING_LIMIT\<rparr>
      in s2\<lparr>prev1 := strncpy (prev1 s2) (str s2) STRING_LIMIT\<rparr>)"

definition count_undo :: "EditState \<Rightarrow> EditState" where
  "count_undo s = (if num_undos s < UNDO_LIMIT then s\<lparr>num_undos := num_undos s + 1\<rparr> else s)"

definition insert_char :: "EditState \<Rightarrow> int \<Rightarrow> char \<Rightarrow> (bool \<times> EditState) option" where
  "insert_char s idx ch =
     (if idx < 0 \<or> idx > len s \<or> len s \<ge> int STRING_LIMIT - 1 then Some (False, s)
      else let s1 = push_history s in
        case move_bytes (str s1) (idx + 1) idx (len s1 - idx + 1) of
          None \<Rightarrow> None
        | Some moved \<Rightarrow> (case put_byte moved idx ch of
            None \<Rightarrow> None
          | Some b \<Rightarrow> Some (True, count_undo (s1\<lparr>str := b, len := len s1 + 1\<rparr>))))"

definition delete_char :: "EditState \<Rightarrow> int \<Rightarrow> (bool \<times> EditState) option" where
  "delete_char s idx =
     (if idx < 0 \<or> idx \<ge> len s then Some (False, s)
      else let s1 = push_history s in
        case move_bytes (str s1) idx (idx + 1) (len s1 - idx) of
          None \<Rightarrow> None
        | Some b \<Rightarrow> Some (True, count_undo (s1\<lparr>str := b, len := len s1 - 1\<rparr>)))"

definition undo_edit :: "EditState \<Rightarrow> bool \<times> EditState" where
  "undo_edit s =
     (if num_undos s = 0 then (False, s)
      else let s1 = s\<lparr>str := strncpy (str s) (prev1 s) STRING_LIMIT\<rparr>;
               s2 = s1\<lparr>prev1 := strncpy (prev1 s1) (prev2 s1) STRING_LIMIT\<rparr>;
               s3 = s2\<lparr>prev2 := strncpy (prev2 s2) (prev3 s2) STRING_LIMIT\<rparr>
           in (True, s3\<lparr>num_undos := num_undos s3 - 1\<rparr>))"

text \<open>\<open>report\<close>: \<open>None\<close> when the buffer has no NUL and \<open>printf\<close> would read past it.\<close>

definition report :: "EditState \<Rightarrow> string option" where
  "report s = (if terminated (str s)
     then Some (cstr (str s) @ '' ['' @ show_int (num_undos s) @ '']'' @ NL) else None)"

text \<open>\<open>test\<close>: \<open>n\<close> times insert and delete.\<close>

fun test_edit :: "nat \<Rightarrow> EditState \<Rightarrow> int \<Rightarrow> char \<Rightarrow> EditState option" where
  "test_edit 0 s idx ch = Some s"
| "test_edit (Suc n) s idx ch = (case insert_char s idx ch of
       None \<Rightarrow> None
     | Some (_, s1) \<Rightarrow> (case delete_char s1 idx of
         None \<Rightarrow> None
       | Some (_, s2) \<Rightarrow> test_edit n s2 idx ch))"

text \<open>Both \<open>strIsInt\<close>s: only digits (an empty argument passes).\<close>

fun strIsInt :: "string \<Rightarrow> bool" where
  "strIsInt [] = True"
| "strIsInt (c # cs) = (if \<not> isdigit c then False else strIsInt cs)"

text \<open>
  \<open>reset.c\<close> of homework 3, which clears the history, and of homework 4, which leaves it as it
  was. \<open>None\<close>: the argument is too long and the program fails.
\<close>

definition reset3 :: "EditState \<Rightarrow> string \<Rightarrow> EditState option" where
  "reset3 s initial =
     (if strlen initial \<ge> STRING_LIMIT then None
      else Some (s\<lparr>str := (strncpy (str s) initial STRING_LIMIT)[STRING_LIMIT - 1 := NUL],
                   prev1 := strncpy (prev1 s) [] STRING_LIMIT,
                   prev2 := strncpy (prev2 s) [] STRING_LIMIT,
                   prev3 := strncpy (prev3 s) [] STRING_LIMIT,
                   len := int (strlen initial), num_undos := 0\<rparr>))"

definition reset4 :: "EditState \<Rightarrow> string \<Rightarrow> EditState option" where
  "reset4 s initial =
     (if strlen initial \<ge> STRING_LIMIT then None
      else Some (s\<lparr>str := (strncpy (str s) initial STRING_LIMIT)[STRING_LIMIT - 1 := NUL],
                   len := int (strlen initial), num_undos := 0\<rparr>))"

subsection \<open>The programs\<close>

text \<open>
  \<open>main\<close> of homework 3: \<open>args\<close> is \<open>argv[1..]\<close>; \<open>None\<close> is an access outside an array, or a
  report of an unterminated buffer. \<open>status\<close> is never changed from \<open>EXIT_FAILURE\<close>.
\<close>

definition say_result :: "(bool \<times> EditState) option \<Rightarrow> int \<Rightarrow> (outcome \<times> EditState) option" where
  "say_result r st = map_option (\<lambda>(ok, s). (exits ((if ok then ''OK'' else ''Error'') @ NL) '''' st, s)) r"

definition usage_error :: "string \<Rightarrow> EditState \<Rightarrow> (outcome \<times> EditState) option" where
  "usage_error msg s = Some (exits '''' (msg @ NL) 1, s)"

definition edit3_main :: "string list \<Rightarrow> EditState \<Rightarrow> (outcome \<times> EditState) option" where
  "edit3_main args s = (case args of
       [] \<Rightarrow> usage_error ''usage: edit COMMAND [ARGS]'' s
     | cmd # rest \<Rightarrow>
         if cmd = ''insert'' then
           (if length rest \<noteq> 2 \<or> length (rest ! 1) \<noteq> 1 \<or> \<not> strIsInt (rest ! 0)
            then usage_error ''usage: edit insert IDX CHAR'' s
            else say_result (insert_char s (atoi (rest ! 0)) (rest ! 1 ! 0)) EXIT_FAILURE)
         else if cmd = ''delete'' then
           (if length rest \<noteq> 1 \<or> \<not> strIsInt (rest ! 0)
            then usage_error ''usage: edit delete IDX'' s
            else say_result (delete_char s (atoi (rest ! 0))) EXIT_FAILURE)
         else if cmd = ''undo'' then say_result (Some (undo_edit s)) EXIT_FAILURE
         else if cmd = ''report'' then map_option (\<lambda>out. (exits out '''' EXIT_FAILURE, s)) (report s)
         else usage_error ''Unknown command'' s)"

text \<open>\<open>main\<close> of homework 4, with the command \<open>test\<close>; a run that is done exits with success.\<close>

definition edit4_main :: "string list \<Rightarrow> EditState \<Rightarrow> (outcome \<times> EditState) option" where
  "edit4_main args s = (case args of
       [] \<Rightarrow> usage_error ''usage: edit COMMAND [ARGS]'' s
     | cmd # rest \<Rightarrow>
         if cmd = ''insert'' then
           (if length rest \<noteq> 2 \<or> length (rest ! 1) \<noteq> 1 \<or> \<not> strIsInt (rest ! 0)
            then usage_error ''usage: edit insert IDX CHAR'' s
            else say_result (insert_char s (atoi (rest ! 0)) (rest ! 1 ! 0)) EXIT_SUCCESS)
         else if cmd = ''delete'' then
           (if length rest \<noteq> 1 \<or> \<not> strIsInt (rest ! 0)
            then usage_error ''usage: edit delete IDX'' s
            else say_result (delete_char s (atoi (rest ! 0))) EXIT_SUCCESS)
         else if cmd = ''undo'' then say_result (Some (undo_edit s)) EXIT_SUCCESS
         else if cmd = ''report'' then map_option (\<lambda>out. (exits out '''' EXIT_SUCCESS, s)) (report s)
         else if cmd = ''test'' then
           (if length rest \<noteq> 3 \<or> \<not> strIsInt (rest ! 0) \<or> \<not> strIsInt (rest ! 1) \<or> length (rest ! 2) \<noteq> 1
            then usage_error ''usage: edit test N IDX CHAR'' s
            else say_result (map_option (Pair True) (test_edit (nat (atoi (rest ! 0))) s (atoi (rest ! 1)) (rest ! 2 ! 0))) EXIT_SUCCESS)
         else usage_error ''Unknown command'' s)"

subsection \<open>The specification\<close>

text \<open>A document: the text, and the texts that undo can return to, newest first.\<close>

type_synonym doc = "string \<times> string list"

definition doc_insert :: "doc \<Rightarrow> nat \<Rightarrow> char \<Rightarrow> doc option" where
  "doc_insert d i c = (let (t, h) = d in
     if i \<le> length t \<and> length t < STRING_LIMIT - 1
     then Some (take i t @ c # drop i t, take (nat UNDO_LIMIT) (t # h)) else None)"

definition doc_delete :: "doc \<Rightarrow> nat \<Rightarrow> doc option" where
  "doc_delete d i = (let (t, h) = d in
     if i < length t then Some (take i t @ drop (i + 1) t, take (nat UNDO_LIMIT) (t # h)) else None)"

definition doc_undo :: "doc \<Rightarrow> doc option" where
  "doc_undo d = (case snd d of [] \<Rightarrow> None | t # h \<Rightarrow> Some (t, h))"

definition doc_of :: "EditState \<Rightarrow> doc" where
  "doc_of s = (cstr (str s), take (nat (num_undos s)) [cstr (prev1 s), cstr (prev2 s), cstr (prev3 s)])"

text \<open>The arrays have their sizes and the counters their ranges: what every operation keeps.\<close>

definition sized :: "EditState \<Rightarrow> bool" where
  "sized s \<longleftrightarrow> length (str s) = STRING_LIMIT \<and> length (prev1 s) = STRING_LIMIT
     \<and> length (prev2 s) = STRING_LIMIT \<and> length (prev3 s) = STRING_LIMIT
     \<and> 0 \<le> len s \<and> len s < int STRING_LIMIT \<and> 0 \<le> num_undos s \<and> num_undos s \<le> UNDO_LIMIT"

text \<open>\<open>len\<close> is the length of the string in the buffer.\<close>

definition in_step :: "EditState \<Rightarrow> bool" where
  "in_step s \<longleftrightarrow> sized s \<and> len s = int (strlen (str s))"

lemmas limits = STRING_LIMIT_def UNDO_LIMIT_def

lemma fst_doc_of [simp]: "fst (doc_of s) = cstr (str s)"
  by (simp add: doc_of_def)

lemma in_step_terminated: "in_step s \<Longrightarrow> terminated (str s)"
  by (auto simp: in_step_def sized_def terminated_strlen)

subsection \<open>Lemmas\<close>

lemma push_history_simps [simp]:
  "str (push_history s) = str s" "len (push_history s) = len s" "num_undos (push_history s) = num_undos s"
  by (simp_all add: push_history_def Let_def)

lemma push_history_prevs:
  assumes "sized s"
  shows "cstr (prev1 (push_history s)) = cstr (str s)" "cstr (prev2 (push_history s)) = cstr (prev1 s)"
    "cstr (prev3 (push_history s)) = cstr (prev2 s)"
    "length (prev1 (push_history s)) = STRING_LIMIT" "length (prev2 (push_history s)) = STRING_LIMIT"
    "length (prev3 (push_history s)) = STRING_LIMIT"
  using assms by (simp_all add: push_history_def Let_def sized_def cbuf)

lemma count_undo_simps [simp]:
  "str (count_undo s) = str s" "prev1 (count_undo s) = prev1 s" "prev2 (count_undo s) = prev2 s"
  "prev3 (count_undo s) = prev3 s" "len (count_undo s) = len s"
  "num_undos (count_undo s) = (if num_undos s < UNDO_LIMIT then num_undos s + 1 else num_undos s)"
  by (simp_all add: count_undo_def)

lemma history_grows:
  assumes "0 \<le> n" "n \<le> UNDO_LIMIT"
  shows "take (nat (if n < UNDO_LIMIT then n + 1 else n)) [t, a, b] = take (nat UNDO_LIMIT) (t # take (nat n) [a, b, c])"
proof -
  have "n = 0 \<or> n = 1 \<or> n = 2 \<or> n = 3" using assms by (auto simp: UNDO_LIMIT_def)
  then show ?thesis by (auto simp: UNDO_LIMIT_def numeral_3_eq_3 numeral_2_eq_2)
qed

text \<open>The effect of the two memory moves on a terminated buffer, in lists.\<close>

lemma insert_moved:
  assumes b: "b = t @ NUL # r" and t: "NUL \<notin> set t" and i: "i \<le> length t" and r: "r \<noteq> []"
  shows "(memmove b (i + 1) i (length t - i + 1))[i := c] = take i t @ c # drop i t @ NUL # tl r"
proof -
  have l: "length t - i + 1 = Suc (length (drop i t))" by simp
  have "memmove b (i + 1) i (length t - i + 1) = take (i + 1) b @ (drop i t @ [NUL]) @ tl r"
    using i r by (simp add: memmove_def b Suc_diff_le drop_Suc)
  moreover have "take (i + 1) b = take i t @ [b ! i]"
  proof -
    have "i < length b" "take i b = take i t" using i by (simp_all add: b)
    then show ?thesis by (simp add: take_Suc_conv_app_nth)
  qed
  ultimately show ?thesis using i by (simp add: list_update_append)
qed

lemma delete_moved:
  assumes b: "b = t @ NUL # r" and i: "i < length t"
  shows "memmove b i (i + 1) (length t - i) = take i t @ drop (i + 1) t @ NUL # NUL # r"
proof -
  have "take (length t - i) (drop (i + 1) b) = drop (i + 1) t @ [NUL]"
    using i by (simp add: b Suc_diff_le)
  then show ?thesis using i by (simp add: memmove_def b)
qed

lemma split_buffer:
  assumes "in_step s"
  obtains r where "str s = cstr (str s) @ NUL # r" "length (cstr (str s)) = nat (len s)"
    "length r = STRING_LIMIT - 1 - nat (len s)"
proof -
  obtain r where r: "str s = cstr (str s) @ NUL # r"
    using terminated_split [OF in_step_terminated [OF assms]] by blast
  have l: "length (cstr (str s)) = nat (len s)" using assms by (simp add: in_step_def strlen_def)
  have "length (str s) = length (cstr (str s) @ NUL # r)" by (rule arg_cong [OF r])
  then have "length (str s) = length (cstr (str s)) + 1 + length r" by simp
  moreover have "length (str s) = STRING_LIMIT" using assms by (simp add: in_step_def sized_def)
  ultimately have "length r = STRING_LIMIT - 1 - nat (len s)" using l by linarith
  then show ?thesis by (rule that [OF r l])
qed

lemma insert_refines:
  assumes s: "in_step s" and c: "c \<noteq> NUL"
  shows "case insert_char s idx c of None \<Rightarrow> False | Some (ok, s') \<Rightarrow>
     if ok then 0 \<le> idx \<and> doc_insert (doc_of s) (nat idx) c = Some (doc_of s') \<and> in_step s'
     else s' = s \<and> (idx < 0 \<or> doc_insert (doc_of s) (nat idx) c = None)"
proof (cases "idx < 0 \<or> idx > len s \<or> len s \<ge> int STRING_LIMIT - 1")
  case True
  then show ?thesis using s
    by (auto simp: insert_char_def doc_insert_def doc_of_def in_step_def strlen_def)
next
  case False
  obtain r where r: "str s = cstr (str s) @ NUL # r" "length (cstr (str s)) = nat (len s)"
    "length r = STRING_LIMIT - 1 - nat (len s)" using split_buffer [OF s] .
  let ?t = "cstr (str s)" and ?i = "nat idx"
  let ?b = "take ?i ?t @ c # drop ?i ?t @ NUL # tl r"
  have z: "sized s" using s by (simp add: in_step_def)
  have "r \<noteq> []" using r(3) False by auto
  moreover have n: "nat (len s - idx + 1) = length ?t - ?i + 1" "nat (idx + 1) = ?i + 1"
    using r(2) False by auto
  ultimately have m: "(memmove (str s) (nat (idx + 1)) ?i (nat (len s - idx + 1)))[?i := c] = ?b"
    unfolding n using r False by (intro insert_moved cstr_no_NUL) auto
  have cb: "cstr ?b = take ?i ?t @ c # drop ?i ?t"
    using c cstr_no_NUL [of "str s"] cstr_append_NUL [of "take ?i ?t @ c # drop ?i ?t" "tl r"]
    by (auto dest: in_set_takeD in_set_dropD)
  have lb: "length ?b = STRING_LIMIT" using r(2,3) False \<open>r \<noteq> []\<close> z by (auto simp: sized_def)
  have lz: "length (str s) = 76" using z by (simp add: sized_def limits)
  then have "move_bytes (str s) (idx + 1) idx (len s - idx + 1) = Some (memmove (str s) (nat (idx + 1)) ?i (nat (len s - idx + 1)))"
    using False by (intro move_bytes_ok) (auto simp: limits)
  moreover have "length (memmove (str s) (nat (idx + 1)) ?i (nat (len s - idx + 1))) = 76"
    using False lz by (subst length_memmove) (auto simp: limits)
  ultimately have ok: "insert_char s idx c = Some (True, count_undo ((push_history s)\<lparr>str := ?b, len := len s + 1\<rparr>))"
    using False m by (simp add: insert_char_def put_byte_def Let_def limits)
  let ?s = "count_undo ((push_history s)\<lparr>str := ?b, len := len s + 1\<rparr>)"
  have "doc_of ?s = (take ?i ?t @ c # drop ?i ?t, take (nat UNDO_LIMIT) (?t # snd (doc_of s)))"
    using cb z push_history_prevs [OF z]
      history_grows [of "num_undos s" ?t "cstr (prev1 s)" "cstr (prev2 s)" "cstr (prev3 s)"]
    by (simp add: doc_of_def sized_def split: if_splits)
  moreover have "?i \<le> nat (len s)" "nat (len s) < STRING_LIMIT - 1" using False by (auto simp: limits)
  ultimately have "doc_insert (doc_of s) ?i c = Some (doc_of ?s)"
    using r(2) by (simp add: doc_insert_def case_prod_beta)
  moreover have "in_step ?s"
    using lb cb r(2) z push_history_prevs(4-6) [OF z] False
    by (simp add: in_step_def sized_def strlen_def min_def) arith?
  ultimately show ?thesis using ok False by simp
qed

lemma delete_refines:
  assumes s: "in_step s"
  shows "case delete_char s idx of None \<Rightarrow> False | Some (ok, s') \<Rightarrow>
     if ok then 0 \<le> idx \<and> doc_delete (doc_of s) (nat idx) = Some (doc_of s') \<and> in_step s'
     else s' = s \<and> (idx < 0 \<or> doc_delete (doc_of s) (nat idx) = None)"
proof (cases "idx < 0 \<or> idx \<ge> len s")
  case True
  then show ?thesis using s
    by (auto simp: delete_char_def doc_delete_def doc_of_def in_step_def strlen_def)
next
  case False
  obtain r where r: "str s = cstr (str s) @ NUL # r" "length (cstr (str s)) = nat (len s)"
    "length r = STRING_LIMIT - 1 - nat (len s)" using split_buffer [OF s] .
  let ?t = "cstr (str s)" and ?i = "nat idx"
  let ?b = "take ?i ?t @ drop (?i + 1) ?t @ NUL # NUL # r"
  have z: "sized s" using s by (simp add: in_step_def)
  have n: "nat (len s - idx) = length ?t - ?i" "nat (idx + 1) = ?i + 1" using r(2) False by auto
  have m: "memmove (str s) ?i (nat (idx + 1)) (nat (len s - idx)) = ?b"
    unfolding n using r False by (intro delete_moved) auto
  have cb: "cstr ?b = take ?i ?t @ drop (?i + 1) ?t"
    using cstr_no_NUL [of "str s"] cstr_append_NUL [of "take ?i ?t @ drop (?i + 1) ?t" "NUL # r"]
    by (auto dest: in_set_takeD in_set_dropD)
  have lb: "length ?b = STRING_LIMIT" using r(2,3) False z by (auto simp: sized_def)
  have "length (str s) = 76" using z by (simp add: sized_def limits)
  then have "move_bytes (str s) idx (idx + 1) (len s - idx) = Some (memmove (str s) ?i (nat (idx + 1)) (nat (len s - idx)))"
    using False z by (intro move_bytes_ok) (auto simp: sized_def limits)
  then have ok: "delete_char s idx = Some (True, count_undo ((push_history s)\<lparr>str := ?b, len := len s - 1\<rparr>))"
    using False m by (simp add: delete_char_def Let_def)
  let ?s = "count_undo ((push_history s)\<lparr>str := ?b, len := len s - 1\<rparr>)"
  have "doc_of ?s = (take ?i ?t @ drop (?i + 1) ?t, take (nat UNDO_LIMIT) (?t # snd (doc_of s)))"
    using cb z push_history_prevs [OF z]
      history_grows [of "num_undos s" ?t "cstr (prev1 s)" "cstr (prev2 s)" "cstr (prev3 s)"]
    by (simp add: doc_of_def sized_def split: if_splits)
  then have "doc_delete (doc_of s) ?i = Some (doc_of ?s)"
    using False r(2) by (simp add: doc_delete_def case_prod_beta)
  moreover have "in_step ?s"
    using lb cb r(2) z push_history_prevs(4-6) [OF z] False
    by (simp add: in_step_def sized_def strlen_def) arith?
  ultimately show ?thesis using ok False by simp
qed

lemma undo_refines:
  assumes z: "sized s"
  shows "(let (ok, s') = undo_edit s in
     if ok then doc_undo (doc_of s) = Some (doc_of s') \<and> len s' = len s \<and> sized s'
     else s' = s \<and> doc_undo (doc_of s) = None)"
proof (cases "num_undos s = 0")
  case True
  then show ?thesis by (simp add: undo_edit_def doc_undo_def doc_of_def)
next
  case False
  then have "num_undos s = 1 \<or> num_undos s = 2 \<or> num_undos s = 3" using z by (auto simp: sized_def UNDO_LIMIT_def)
  then show ?thesis using z
    by (auto simp: undo_edit_def Let_def doc_undo_def doc_of_def sized_def cbuf UNDO_LIMIT_def
        numeral_3_eq_3 numeral_2_eq_2)
qed

subsection \<open>Sessions\<close>

text \<open>The requests of a session, and their effect on the state and on the document.\<close>

datatype edit_op = Ins int char | Del int | Undo

fun run_op :: "EditState \<Rightarrow> edit_op \<Rightarrow> EditState option" where
  "run_op s (Ins i c) = map_option snd (insert_char s i c)"
| "run_op s (Del i) = map_option snd (delete_char s i)"
| "run_op s Undo = Some (snd (undo_edit s))"

text \<open>A session, \<open>None\<close> once an operation writes outside the array.\<close>

fun run_ops :: "EditState \<Rightarrow> edit_op list \<Rightarrow> EditState option" where
  "run_ops s [] = Some s"
| "run_ops s (a # as) = (case run_op s a of None \<Rightarrow> None | Some s' \<Rightarrow> run_ops s' as)"

lemma run_ops_append: "run_ops s (as @ bs) = (case run_ops s as of None \<Rightarrow> None | Some s' \<Rightarrow> run_ops s' bs)"
  by (induction as arbitrary: s) (simp_all split: option.split)

fun doc_op :: "doc \<Rightarrow> edit_op \<Rightarrow> doc" where
  "doc_op d (Ins i c) = (if i < 0 then d else case doc_insert d (nat i) c of None \<Rightarrow> d | Some d' \<Rightarrow> d')"
| "doc_op d (Del i) = (if i < 0 then d else case doc_delete d (nat i) of None \<Rightarrow> d | Some d' \<Rightarrow> d')"
| "doc_op d Undo = (case doc_undo d of None \<Rightarrow> d | Some d' \<Rightarrow> d')"

text \<open>An insert or delete of a real character, as opposed to an undo.\<close>

fun is_edit :: "edit_op \<Rightarrow> bool" where
  "is_edit (Ins i c) = (c \<noteq> NUL)"
| "is_edit (Del i) = True"
| "is_edit Undo = False"

lemma edit_op_refines:
  assumes "in_step s" "is_edit a"
  shows "\<exists>s'. run_op s a = Some s' \<and> in_step s' \<and> doc_of s' = doc_op (doc_of s) a"
proof (cases a)
  case (Ins i c)
  then show ?thesis using assms insert_refines [of s c i]
    by (cases "insert_char s i c") (auto split: if_splits option.split)
next
  case (Del i)
  then show ?thesis using assms delete_refines [of s i]
    by (cases "delete_char s i") (auto split: if_splits option.split)
qed (use assms in simp)

lemma edits_refine:
  "in_step s \<Longrightarrow> list_all is_edit es \<Longrightarrow>
    \<exists>s'. run_ops s es = Some s' \<and> in_step s' \<and> doc_of s' = foldl doc_op (doc_of s) es"
proof (induction es arbitrary: s)
  case (Cons a es)
  obtain s1 where s1: "run_op s a = Some s1" "in_step s1" "doc_of s1 = doc_op (doc_of s) a"
    using edit_op_refines [of s a] Cons.prems by auto
  then show ?case using Cons.IH [of s1] Cons.prems by simp
qed simp

lemma undos_refine:
  "sized s \<Longrightarrow> \<exists>s'. run_ops s (replicate k Undo) = Some s' \<and> doc_of s' = foldl doc_op (doc_of s) (replicate k Undo)"
proof (induction k arbitrary: s)
  case (Suc k)
  have "sized (snd (undo_edit s)) \<and> doc_of (snd (undo_edit s)) = doc_op (doc_of s) Undo"
    using undo_refines [OF Suc.prems] Suc.prems by (cases "undo_edit s") (auto split: if_splits)
  then show ?case using Suc.IH [of "snd (undo_edit s)"] by simp
qed simp

lemma reset_in_step:
  assumes z: "length (str s) = STRING_LIMIT" "length (prev1 s) = STRING_LIMIT"
    "length (prev2 s) = STRING_LIMIT" "length (prev3 s) = STRING_LIMIT"
    and r: "reset3 s t = Some s0 \<or> reset4 s t = Some s0"
  shows "in_step s0 \<and> doc_of s0 = (cstr t, [])"
proof -
  let ?b = "(strncpy (str s) t STRING_LIMIT)[STRING_LIMIT - 1 := NUL]"
  have t: "strlen t < STRING_LIMIT" using r by (auto simp: reset3_def reset4_def split: if_splits)
  then have "strncpy (str s) t STRING_LIMIT = cstr t @ replicate (STRING_LIMIT - strlen t) NUL"
    using z by (simp add: strncpy_def strlen_def)
  moreover have "\<dots>[STRING_LIMIT - 1 := NUL] = \<dots>"
    using t by (intro list_update_same_conv [THEN iffD2]) (auto simp: nth_append strlen_def limits)
  ultimately have b: "?b = cstr t @ replicate (STRING_LIMIT - strlen t) NUL" by simp
  have c: "cstr ?b = cstr t"
    using t cstr_snoc_replicate [OF cstr_no_NUL, of t "STRING_LIMIT - strlen t" "[]"] unfolding b by simp
  have "length ?b = STRING_LIMIT" using z by (simp add: cbuf)
  then show ?thesis using r t z c
    by (auto simp: reset3_def reset4_def in_step_def sized_def doc_of_def strlen_def cbuf limits split: if_splits)
qed

lemma op_sized: 
  assumes z: "sized s"
  shows "\<exists>s'. run_op s a = Some s' \<and> sized s'"
proof (cases a)
  case (Ins i c)
  show ?thesis
  proof (cases "i < 0 \<or> i > len s \<or> len s \<ge> int STRING_LIMIT - 1")
    case True
    then show ?thesis using z by (auto simp: Ins insert_char_def)
  next
    case False
    let ?b = "memmove (str s) (nat (i + 1)) (nat i) (nat (len s - i + 1))"
    have lz: "length (str s) = 76" using z by (simp add: sized_def limits)
    have "move_bytes (str s) (i + 1) i (len s - i + 1) = Some ?b"
      using False lz by (intro move_bytes_ok) (auto simp: limits)
    moreover have lb: "length ?b = 76" using False lz by (subst length_memmove) (auto simp: limits)
    ultimately have "run_op s a = Some (count_undo ((push_history s)\<lparr>str := ?b[nat i := c], len := len s + 1\<rparr>))"
      using False by (simp add: Ins insert_char_def put_byte_def Let_def limits)
    moreover have "sized (count_undo ((push_history s)\<lparr>str := ?b[nat i := c], len := len s + 1\<rparr>))"
      using z push_history_prevs [OF z] lb False by (simp add: sized_def limits)
    ultimately show ?thesis by blast
  qed
next
  case (Del i)
  show ?thesis
  proof (cases "i < 0 \<or> i \<ge> len s")
    case True
    then show ?thesis using z by (auto simp: Del delete_char_def)
  next
    case False
    let ?b = "memmove (str s) (nat i) (nat (i + 1)) (nat (len s - i))"
    have lz: "length (str s) = 76" "len s \<le> 75" using z by (simp_all add: sized_def limits)
    have "move_bytes (str s) i (i + 1) (len s - i) = Some ?b"
      using False lz by (intro move_bytes_ok) auto
    moreover have lb: "length ?b = 76" using False lz by (subst length_memmove) auto
    ultimately have "run_op s a = Some (count_undo ((push_history s)\<lparr>str := ?b, len := len s - 1\<rparr>))"
      using False by (simp add: Del delete_char_def Let_def)
    moreover have "sized (count_undo ((push_history s)\<lparr>str := ?b, len := len s - 1\<rparr>))"
      using z push_history_prevs [OF z] lb False by (simp add: sized_def limits)
    ultimately show ?thesis by blast
  qed
next
  case Undo
  show ?thesis unfolding Undo using undo_refines [OF z] z by (cases "undo_edit s") (auto split: if_splits)
qed

subsection \<open>Properties\<close>

text \<open>
  C10: After \<open>reset\<close> of either homework, any session of inserts and deletes followed by undos
  shows the texts of the specification: each edit applied at its index or refused with nothing
  changed, each undo bringing back the text before, three deep.
\<close>

theorem session_shows_doc:
  assumes "length (str s) = STRING_LIMIT" "length (prev1 s) = STRING_LIMIT"
    "length (prev2 s) = STRING_LIMIT" "length (prev3 s) = STRING_LIMIT"
    and "reset3 s t = Some s0 \<or> reset4 s t = Some s0"
    and "list_all is_edit es"
  shows "\<exists>s'. run_ops s0 (es @ replicate k Undo) = Some s'
    \<and> doc_of s' = foldl doc_op (cstr t, []) (es @ replicate k Undo)"
proof -
  note r = reset_in_step [OF assms(1-5)]
  obtain s1 where e: "run_ops s0 es = Some s1" "in_step s1" "doc_of s1 = foldl doc_op (cstr t, []) es"
    using edits_refine [of s0 es] r assms(6) by auto
  show ?thesis using undos_refine [of s1 k] e by (simp add: in_step_def run_ops_append)
qed

definition shm_zero :: EditState where
  "shm_zero = (let z = replicate STRING_LIMIT NUL in
     \<lparr>str = z, prev1 = z, prev2 = z, prev3 = z, len = 0, num_undos = 0\<rparr>)"

lemma shm_zero_in_step [simp]:
  "in_step shm_zero" "length (str shm_zero) = STRING_LIMIT" "length (prev1 shm_zero) = STRING_LIMIT"
  "length (prev2 shm_zero) = STRING_LIMIT" "length (prev3 shm_zero) = STRING_LIMIT"
  by (simp_all add: shm_zero_def in_step_def sized_def limits Let_def strlen_def cstr_def)

theorem session_shows_doc_witness:
  "\<exists>s0 s'. reset3 shm_zero ''abc'' = Some s0
     \<and> run_ops s0 ([Ins 1 CHR ''x'', Del 0, Ins 9 CHR ''y''] @ replicate 1 Undo) = Some s' \<and> cstr (str s') = ''axbc''"
proof -
  obtain s0 where r: "reset3 shm_zero ''abc'' = Some s0"
    by (simp add: reset3_def limits strlen_def cstr_def)
  have "\<exists>s'. run_ops s0 ([Ins 1 CHR ''x'', Del 0, Ins 9 CHR ''y''] @ replicate 1 Undo) = Some s'
    \<and> doc_of s' = foldl doc_op (cstr ''abc'', []) ([Ins 1 CHR ''x'', Del 0, Ins 9 CHR ''y''] @ replicate 1 Undo)"
    by (rule session_shows_doc [where s = shm_zero])
      (simp_all add: r)
  moreover have "foldl doc_op (cstr ''abc'', []) ([Ins 1 CHR ''x'', Del 0, Ins 9 CHR ''y''] @ replicate 1 Undo) = (''axbc'', [''abc''])"
    by (simp add: cstr_def doc_insert_def doc_delete_def doc_undo_def limits Let_def)
  ultimately obtain s' where s': "run_ops s0 ([Ins 1 CHR ''x'', Del 0, Ins 9 CHR ''y''] @ replicate 1 Undo) = Some s'"
    "doc_of s' = (''axbc'', [''abc''])" by metis
  then have "cstr (str s') = ''axbc''" using fst_doc_of [of s'] by simp
  then show ?thesis using r s'(1) by blast
qed

text \<open>
  C34: No sequence of operations at all, undos in any place and any indices, writes or moves memory
  outside the array of the text (\<open>run_ops\<close> gives a state: \<open>None\<close> would be such an access), and the
  four arrays keep their sizes and \<open>len\<close> and \<open>num_undos\<close> their ranges.
\<close>

theorem session_memory_safe: "sized s \<Longrightarrow> \<exists>s'. run_ops s as = Some s' \<and> sized s'"
proof (induction as arbitrary: s)
  case (Cons a as)
  obtain s1 where "run_op s a = Some s1" "sized s1" using op_sized [OF Cons.prems] by blast
  then show ?case using Cons.IH [of s1] by simp
qed simp

theorem session_memory_safe_witness:
  "\<exists>s'. run_ops shm_zero [Ins 0 CHR ''a'', Undo, Ins 9 CHR ''c'', Del 0, Del 4, Ins (- 1) CHR ''b''] = Some s' \<and> sized s'"
  by (rule session_memory_safe) (simp add: shm_zero_def sized_def limits Let_def)

text \<open>
  \<open>undo\<close> forgets \<open>len\<close>: an insert and its undo restore the text but leave \<open>len\<close> one larger
  than it; and there is a session that ends with no NUL in the buffer, so that \<open>report\<close> reads
  past it.
\<close>

theorem undo_forgets_len:
  assumes "in_step s" "c \<noteq> NUL" "insert_char s i c = Some (True, s1)"
  shows "\<exists>s'. run_ops s [Ins i c, Undo] = Some s' \<and> cstr (str s') = cstr (str s) \<and> len s' = int (strlen (str s)) + 1"
proof -
  have e: "in_step s1" "doc_insert (doc_of s) (nat i) c = Some (doc_of s1)"
    using insert_refines [of s c i] assms by simp_all
  have h: "snd (doc_of s1) = take (nat UNDO_LIMIT) (cstr (str s) # snd (doc_of s))"
    using arg_cong [OF e(2), of "map_option snd"] by (simp add: doc_insert_def case_prod_beta split: if_splits)
  have u: "let (ok, s') = undo_edit s1 in
     if ok then doc_undo (doc_of s1) = Some (doc_of s') \<and> len s' = len s1 \<and> sized s'
     else s' = s1 \<and> doc_undo (doc_of s1) = None"
    by (rule undo_refines) (use e(1) in \<open>simp add: in_step_def\<close>)
  have l: "len s1 = int (strlen (str s)) + 1"
    using assms by (auto simp: insert_char_def Let_def in_step_def split: if_splits option.splits)
  obtain r where d: "doc_undo (doc_of s1) = Some (cstr (str s), r)"
    unfolding doc_undo_def h by (simp add: UNDO_LIMIT_def)
  obtain ok s' where ok: "undo_edit s1 = (ok, s')" by fastforce
  then have "doc_of s' = (cstr (str s), r)" "len s' = int (strlen (str s)) + 1" using u d l by (auto split: if_splits)
  then show ?thesis using ok fst_doc_of [of s'] assms(3) by simp
qed

theorem undo_forgets_len_witness:
  "\<exists>s'. run_ops shm_zero [Ins 0 CHR ''a'', Undo] = Some s' \<and> cstr (str s') = [] \<and> len s' = 1"
proof -
  have "case insert_char shm_zero 0 CHR ''a'' of None \<Rightarrow> False | Some (ok, s1) \<Rightarrow> ok" by code_simp
  then obtain s1 where "insert_char shm_zero 0 CHR ''a'' = Some (True, s1)" by (auto split: option.splits)
  moreover have "cstr (str shm_zero) = []" "strlen (str shm_zero) = 0" by code_simp+
  ultimately show ?thesis using undo_forgets_len [of shm_zero "CHR ''a''" 0 s1] by simp
qed

text \<open>
  A session of three commands on a text of 75 characters leaves the buffer without its NUL, so
  that \<open>report\<close> reads past the end of the array.
\<close>

theorem session_unterminates:
  "\<exists>s0 s'. reset3 shm_zero (replicate 75 CHR ''a'') = Some s0
     \<and> run_ops s0 [Del 0, Undo, Ins 0 CHR ''b''] = Some s' \<and> report s' = None"
proof -
  have "case reset3 shm_zero (replicate 75 CHR ''a'') of None \<Rightarrow> False
    | Some s0 \<Rightarrow> (case run_ops s0 [Del 0, Undo, Ins 0 CHR ''b''] of None \<Rightarrow> False | Some s' \<Rightarrow> report s' = None)"
    by code_simp
  then show ?thesis by (auto split: option.splits simp del: run_ops.simps)
qed

text \<open>
  The stress test \<open>test N IDX CHAR\<close>, which inserts and deletes the same character \<open>n\<close>
  times, leaves the text as it was, whatever \<open>n\<close>, when the insert can succeed.
\<close>

theorem test_keeps_text:
  assumes "in_step s" "c \<noteq> NUL" "0 \<le> i" "i \<le> len s" "len s < 75"
  shows "\<exists>s'. test_edit n s i c = Some s' \<and> cstr (str s') = cstr (str s) \<and> in_step s'"
  using assms
proof (induction n arbitrary: s)
  case (Suc n)
  have l: "len s = int (length (cstr (str s)))" using Suc.prems(1) by (simp add: in_step_def strlen_def)
  obtain s1 s2 where s: "run_op s (Ins i c) = Some s1" "run_op s1 (Del i) = Some s2" "in_step s2"
    "doc_of s2 = doc_op (doc_op (doc_of s) (Ins i c)) (Del i)"
    using edit_op_refines [of s "Ins i c"] edit_op_refines [of _ "Del i"] Suc.prems(1,2) by (metis is_edit.simps(1,2))
  have "fst (doc_op (doc_op (doc_of s) (Ins i c)) (Del i)) = cstr (str s)"
    using Suc.prems l by (auto simp: doc_insert_def doc_delete_def doc_of_def limits)
  then have t: "cstr (str s2) = cstr (str s)" using s(4) fst_doc_of [of s2] by simp
  then have "len s2 = len s" using s(3) Suc.prems(1) by (simp add: in_step_def strlen_def)
  then obtain s' where "test_edit n s2 i c = Some s'" "cstr (str s') = cstr (str s2)" "in_step s'"
    using Suc.IH [of s2] Suc.prems s(3) by auto
  then show ?case using s(1,2) t by (auto simp del: doc_op.simps)
qed simp

theorem test_keeps_text_witness:
  "\<exists>s'. test_edit 1000 shm_zero 0 CHR ''q'' = Some s' \<and> cstr (str s') = [] \<and> in_step s'"
proof -
  have "len shm_zero = 0" "cstr (str shm_zero) = []" by code_simp+
  then show ?thesis using test_keeps_text [of shm_zero "CHR ''q''" 0 1000] by simp
qed

end
