(* ===== verification/Editor_Records.thy ===== *)
theory Editor_Records
  imports Editor_Shm
begin

text \<open>
  The other editor of homework 3, \<open>assignments/hw3/edit2.c\<close>, \<open>reset2.c\<close> and \<open>common2.h\<close>: it keeps
  records of the last edits instead of copies of the text. An edit stores its record at
  \<open>history[undo_count % UNDO_LIMIT]\<close>, but \<open>undo_count\<close> stops at \<open>UNDO_LIMIT\<close>: the fourth edit in a
  row goes to slot 0, and undo then takes slot 2. Proved: undo is right as long as at most three
  edits are pending and no NUL is inserted, and what happens otherwise. \<open>None\<close> is a move of memory
  outside the string.
\<close>

datatype CommandType = INSERT | DELETE | NONE

record UndoRecord =
  edit_type :: CommandType
  edit_index :: int
  edit_char :: char

record RecordState =
  rstr :: buf
  history :: "UndoRecord list"
  undo_count :: int

text \<open>\<open>history[undo_count % UNDO_LIMIT] = r\<close> and the counter.\<close>

definition record_edit :: "RecordState \<Rightarrow> UndoRecord \<Rightarrow> RecordState" where
  "record_edit s r =
     (let s1 = s\<lparr>history := (history s)[nat (undo_count s mod UNDO_LIMIT) := r]\<rparr>
      in if undo_count s1 < UNDO_LIMIT then s1\<lparr>undo_count := undo_count s1 + 1\<rparr> else s1)"

definition insert2 :: "RecordState \<Rightarrow> int \<Rightarrow> char \<Rightarrow> (bool \<times> RecordState) option" where
  "insert2 s idx c =
     (let n = int (strlen (rstr s)) in
      if idx < 0 \<or> idx > n \<or> n \<ge> int STRING_LIMIT - 1 then Some (False, s)
      else case move_bytes (rstr s) (idx + 1) idx (n - idx + 1) of
          None \<Rightarrow> None
        | Some b \<Rightarrow> (case put_byte b idx c of
            None \<Rightarrow> None
          | Some b' \<Rightarrow> Some (True, record_edit (s\<lparr>rstr := b'\<rparr>)
              \<lparr>edit_type = INSERT, edit_index = idx, edit_char = c\<rparr>)))"

definition delete2 :: "RecordState \<Rightarrow> int \<Rightarrow> (bool \<times> RecordState) option" where
  "delete2 s idx =
     (let n = int (strlen (rstr s)) in
      if idx < 0 \<or> idx \<ge> n then Some (False, s)
      else let removed = rstr s ! nat idx in
        case move_bytes (rstr s) idx (idx + 1) (n - idx) of
          None \<Rightarrow> None
        | Some b \<Rightarrow> Some (True, record_edit (s\<lparr>rstr := b\<rparr>)
              \<lparr>edit_type = DELETE, edit_index = idx, edit_char = removed\<rparr>))"

definition undo2 :: "RecordState \<Rightarrow> (bool \<times> RecordState) option" where
  "undo2 s =
     (if undo_count s = 0 then Some (False, s)
      else let s1 = s\<lparr>undo_count := undo_count s - 1\<rparr>;
               last = history s1 ! nat (undo_count s1 mod UNDO_LIMIT);
               n = int (strlen (rstr s1)); i = edit_index last
           in (case edit_type last of
                 INSERT \<Rightarrow> (case move_bytes (rstr s1) i (i + 1) (n - i) of
                     None \<Rightarrow> None
                   | Some b \<Rightarrow> Some (True, s1\<lparr>rstr := b\<rparr>))
               | DELETE \<Rightarrow> (case move_bytes (rstr s1) (i + 1) i (n - i + 1) of
                     None \<Rightarrow> None
                   | Some b \<Rightarrow> (case put_byte b i (edit_char last) of
                       None \<Rightarrow> None
                     | Some b' \<Rightarrow> Some (True, s1\<lparr>rstr := b'\<rparr>)))
               | NONE \<Rightarrow> Some (True, s1)))"

text \<open>\<open>reset2\<close>: the history keeps what it held.\<close>

definition reset2 :: "RecordState \<Rightarrow> string \<Rightarrow> RecordState option" where
  "reset2 s initial =
     (if strlen initial \<ge> STRING_LIMIT then None
      else Some (s\<lparr>rstr := (strncpy (rstr s) initial STRING_LIMIT)[STRING_LIMIT - 1 := NUL], undo_count := 0\<rparr>))"

text \<open>\<open>main\<close>; the index goes through \<open>atoi\<close> unchecked, and an empty CHAR is a NUL.\<close>

definition said :: "(bool \<times> RecordState) option \<Rightarrow> (outcome \<times> RecordState) option" where
  "said r = map_option (\<lambda>(ok, s). (exits ((if ok then ''OK'' else ''Error'') @ NL) '''' EXIT_FAILURE, s)) r"

definition edit2_main :: "string list \<Rightarrow> RecordState \<Rightarrow> (outcome \<times> RecordState) option" where
  "edit2_main args s = (case args of
       [] \<Rightarrow> Some (exits '''' (''usage: edit COMMAND [ARGS]'' @ NL) 1, s)
     | cmd # rest \<Rightarrow>
         if cmd = ''insert'' then
           (if length rest \<noteq> 2 then Some (exits '''' (''usage: edit insert IDX CHAR'' @ NL) 1, s)
            else said (insert2 s (atoi (rest ! 0)) (case rest ! 1 of [] \<Rightarrow> NUL | c # _ \<Rightarrow> c)))
         else if cmd = ''delete'' then
           (if length rest \<noteq> 1 then Some (exits '''' (''usage: edit delete IDX'' @ NL) 1, s)
            else said (delete2 s (atoi (rest ! 0))))
         else if cmd = ''undo'' then said (undo2 s)
         else if cmd = ''report'' then
           (if terminated (rstr s)
            then Some (exits (cstr (rstr s) @ '' ['' @ show_int (undo_count s) @ '']'' @ NL) '''' EXIT_FAILURE, s)
            else None)
         else Some (exits '''' (''Unknown command'' @ NL) 1, s))"

subsection \<open>What the records promise\<close>

text \<open>\<open>undoes r t t'\<close>: undoing \<open>r\<close> turns \<open>t\<close> back into \<open>t'\<close>; the pending records, newest first.\<close>

definition undoes :: "UndoRecord \<Rightarrow> string \<Rightarrow> string \<Rightarrow> bool" where
  "undoes r t t' \<longleftrightarrow> 0 \<le> edit_index r \<and> length t' < STRING_LIMIT \<and>
     (let i = nat (edit_index r) in case edit_type r of
        INSERT \<Rightarrow> i < length t \<and> t' = take i t @ drop (i + 1) t
      | DELETE \<Rightarrow> i \<le> length t \<and> edit_char r \<noteq> NUL \<and> t' = take i t @ edit_char r # drop i t
      | NONE \<Rightarrow> False)"

fun undo_chain :: "UndoRecord list \<Rightarrow> string \<Rightarrow> string list \<Rightarrow> bool" where
  "undo_chain [] t h = (h = [])"
| "undo_chain (r # rs) t h = (case h of [] \<Rightarrow> False | t' # h' \<Rightarrow> undoes r t t' \<and> undo_chain rs t' h')"

definition rec_inv :: "RecordState \<Rightarrow> doc \<Rightarrow> bool" where
  "rec_inv s d \<longleftrightarrow> length (rstr s) = STRING_LIMIT \<and> terminated (rstr s) \<and> length (history s) = 3
     \<and> cstr (rstr s) = fst d \<and> undo_count s = int (length (snd d)) \<and> length (snd d) \<le> 3
     \<and> undo_chain (rev (take (length (snd d)) (history s))) (fst d) (snd d)"

text \<open>The moves on a terminated buffer, through the lemmas of the other editor.\<close>

lemma insert_bytes:
  assumes t: "terminated b" "length b = STRING_LIMIT" and i: "i \<le> strlen b" "strlen b < STRING_LIMIT - 1" and c: "c \<noteq> NUL"
  obtains b1 b2 where "move_bytes b (int i + 1) (int i) (int (strlen b) - int i + 1) = Some b1"
    "put_byte b1 (int i) c = Some b2" "cstr b2 = take i (cstr b) @ c # drop i (cstr b)"
    "terminated b2" "length b2 = STRING_LIMIT"
proof -
  obtain r where r: "b = cstr b @ NUL # r" using terminated_split [OF t(1)] by blast
  have l: "length (cstr b) = strlen b" by (simp add: strlen_def)
  have "length b = length (cstr b @ NUL # r)" by (rule arg_cong [OF r])
  then have lr: "length r = STRING_LIMIT - 1 - strlen b" using t l by simp
  then have "r \<noteq> []" using i by auto
  let ?b1 = "memmove b (i + 1) i (strlen b - i + 1)" and ?b2 = "take i (cstr b) @ c # drop i (cstr b) @ NUL # tl r"
  have b2: "?b1[i := c] = ?b2"
    using insert_moved [OF r cstr_no_NUL _ \<open>r \<noteq> []\<close>, of i] i by (simp add: l)
  have k: "(int (strlen b) - int i + 1) mod 2 ^ 64 = int (strlen b) - int i + 1"
    using i by (intro mod_pos_pos_trivial) (auto simp: limits)
  have "nat (int (strlen b) - int i + 1) = strlen b - i + 1" "nat (int i + 1) = i + 1" using i by auto
  then have m: "move_bytes b (int i + 1) (int i) (int (strlen b) - int i + 1) = Some ?b1"
    using i t unfolding move_bytes_def k by (simp add: Let_def)
  have lb: "length ?b1 = STRING_LIMIT" using i t by (simp add: length_memmove)
  then have p: "put_byte ?b1 (int i) c = Some ?b2" using i b2 by (simp add: put_byte_def)
  have c2: "cstr ?b2 = take i (cstr b) @ c # drop i (cstr b)"
    using c cstr_no_NUL [of b] cstr_append_NUL [of "take i (cstr b) @ c # drop i (cstr b)" "tl r"]
    by (auto dest: in_set_takeD in_set_dropD)
  have "length ?b2 = STRING_LIMIT" using lb unfolding b2 [symmetric] by simp
  moreover have "terminated ?b2" by (simp add: terminated_def)
  ultimately show ?thesis using that [OF m p c2] by blast
qed

lemma delete_bytes:
  assumes t: "terminated b" "length b = STRING_LIMIT" and i: "i < strlen b"
  obtains b1 where "move_bytes b (int i) (int i + 1) (int (strlen b) - int i) = Some b1"
    "cstr b1 = take i (cstr b) @ drop (i + 1) (cstr b)" "terminated b1" "length b1 = STRING_LIMIT"
proof -
  obtain r where r: "b = cstr b @ NUL # r" using terminated_split [OF t(1)] by blast
  have l: "length (cstr b) = strlen b" by (simp add: strlen_def)
  have n: "strlen b < STRING_LIMIT" using t by (simp add: terminated_strlen)
  let ?b1 = "take i (cstr b) @ drop (i + 1) (cstr b) @ NUL # NUL # r"
  have b1: "memmove b i (i + 1) (strlen b - i) = ?b1"
    using delete_moved [OF r, of i] i by (simp add: l)
  have k: "(int (strlen b) - int i) mod 2 ^ 64 = int (strlen b) - int i"
    using i n by (intro mod_pos_pos_trivial) (auto simp: limits)
  have "nat (int (strlen b) - int i) = strlen b - i" "nat (int i + 1) = i + 1" using i by auto
  then have m: "move_bytes b (int i) (int i + 1) (int (strlen b) - int i) = Some ?b1"
    using i t n b1 unfolding move_bytes_def k by (simp add: Let_def)
  have c: "cstr ?b1 = take i (cstr b) @ drop (i + 1) (cstr b)"
    using cstr_no_NUL [of b] cstr_append_NUL [of "take i (cstr b) @ drop (i + 1) (cstr b)" "NUL # r"]
    by (auto dest: in_set_takeD in_set_dropD)
  have "length ?b1 = STRING_LIMIT" unfolding b1 [symmetric] using i n t by (simp add: length_memmove)
  moreover have "terminated ?b1" by (simp add: terminated_def)
  ultimately show ?thesis using that [OF m c] by blast
qed

lemma record_edit_inv:
  assumes s: "rec_inv s (t, h)" "length h < 3"
    and b: "length b = STRING_LIMIT" "terminated b" "cstr b = t'" and u: "undoes r t' t"
  shows "rec_inv (record_edit (s\<lparr>rstr := b\<rparr>) r) (t', t # h)"
proof -
  have "undo_count s = int (length h)" using s by (simp add: rec_inv_def)
  then have "undo_count s mod UNDO_LIMIT = int (length h)" "undo_count s < UNDO_LIMIT" using s(2) by (auto simp: limits)
  then show ?thesis using assms
    by (auto simp: record_edit_def rec_inv_def Let_def take_Suc_conv_app_nth)
qed

lemma insert2_inv:
  assumes s: "rec_inv s d" "length (snd d) < 3" and c: "c \<noteq> NUL"
  obtains ok s' where "insert2 s idx c = Some (ok, s')" "rec_inv s' (doc_op d (Ins idx c))"
proof (cases "idx < 0 \<or> idx > int (strlen (rstr s)) \<or> int (strlen (rstr s)) \<ge> int STRING_LIMIT - 1")
  case True
  then have "doc_op d (Ins idx c) = d"
    using s by (auto simp: doc_insert_def case_prod_beta rec_inv_def strlen_def split: option.splits)
  then show ?thesis using True s that [of False s] by (simp add: insert2_def Let_def del: doc_op.simps)
next
  case False
  let ?t = "cstr (rstr s)" and ?i = "nat idx"
  have t: "terminated (rstr s)" "length (rstr s) = STRING_LIMIT" "d = (?t, snd d)" using s by (auto simp: rec_inv_def prod_eq_iff)
  have i: "?i \<le> strlen (rstr s)" "strlen (rstr s) < STRING_LIMIT - 1" using False by auto
  have ii: "int ?i = idx" using False by simp
  obtain b1 b2 where m: "move_bytes (rstr s) (idx + 1) idx (int (strlen (rstr s)) - idx + 1) = Some b1"
    "put_byte b1 idx c = Some b2" and b: "cstr b2 = take ?i ?t @ c # drop ?i ?t"
    "terminated b2" "length b2 = STRING_LIMIT"
    using insert_bytes [OF t(1,2) i c] unfolding ii by metis
  let ?r = "\<lparr>edit_type = INSERT, edit_index = idx, edit_char = c\<rparr>"
  have "undoes ?r (take ?i ?t @ c # drop ?i ?t) ?t"
    using i False by (simp add: undoes_def Let_def strlen_def)
  then have v: "rec_inv (record_edit (s\<lparr>rstr := b2\<rparr>) ?r) (take ?i ?t @ c # drop ?i ?t, ?t # snd d)"
    using record_edit_inv [of s ?t "snd d" b2] s(1,2) t(3) b by simp
  have "doc_insert (?t, snd d) ?i c = Some (take ?i ?t @ c # drop ?i ?t, ?t # snd d)"
    using i s(2) by (simp add: doc_insert_def strlen_def UNDO_LIMIT_def numeral_3_eq_3)
  then have "doc_op d (Ins idx c) = (take ?i ?t @ c # drop ?i ?t, ?t # snd d)" using False by (subst t(3)) simp
  moreover have "insert2 s idx c = Some (True, record_edit (s\<lparr>rstr := b2\<rparr>) ?r)"
    using False m by (simp add: insert2_def Let_def)
  ultimately show ?thesis using v that by simp
qed

lemma delete2_inv:
  assumes s: "rec_inv s d" "length (snd d) < 3"
  obtains ok s' where "delete2 s idx = Some (ok, s')" "rec_inv s' (doc_op d (Del idx))"
proof (cases "idx < 0 \<or> idx \<ge> int (strlen (rstr s))")
  case True
  then have "doc_op d (Del idx) = d"
    using s by (auto simp: doc_delete_def case_prod_beta rec_inv_def strlen_def split: option.splits)
  then show ?thesis using True s that [of False s] by (simp add: delete2_def Let_def del: doc_op.simps)
next
  case False
  let ?t = "cstr (rstr s)" and ?i = "nat idx"
  have t: "terminated (rstr s)" "length (rstr s) = STRING_LIMIT" "d = (?t, snd d)" using s by (auto simp: rec_inv_def prod_eq_iff)
  have i: "?i < strlen (rstr s)" using False by auto
  have ii: "int ?i = idx" using False by simp
  obtain b where m: "move_bytes (rstr s) idx (idx + 1) (int (strlen (rstr s)) - idx) = Some b"
    and b: "cstr b = take ?i ?t @ drop (?i + 1) ?t" "terminated b" "length b = STRING_LIMIT"
    using delete_bytes [OF t(1,2) i] unfolding ii by metis
  have lt: "?i < length ?t" using i by (simp add: strlen_def)
  have at: "rstr s ! ?i = ?t ! ?i" using i by (simp add: cstr_eq_take [of "rstr s"])
  then have nn: "rstr s ! ?i \<noteq> NUL" using cstr_no_NUL [of "rstr s"] nth_mem [OF lt] by metis
  let ?r = "\<lparr>edit_type = DELETE, edit_index = idx, edit_char = rstr s ! ?i\<rparr>"
  have "strlen (rstr s) < STRING_LIMIT" using t by (simp add: terminated_strlen)
  then have "undoes ?r (take ?i ?t @ drop (?i + 1) ?t) ?t"
    using lt False nn by (simp add: undoes_def Let_def strlen_def at id_take_nth_drop [symmetric])
  then have v: "rec_inv (record_edit (s\<lparr>rstr := b\<rparr>) ?r) (take ?i ?t @ drop (?i + 1) ?t, ?t # snd d)"
    using record_edit_inv [of s ?t "snd d" b] s(1,2) t(3) b by simp
  have "doc_delete (?t, snd d) ?i = Some (take ?i ?t @ drop (?i + 1) ?t, ?t # snd d)"
    using lt s(2) by (simp add: doc_delete_def UNDO_LIMIT_def numeral_3_eq_3)
  then have "doc_op d (Del idx) = (take ?i ?t @ drop (?i + 1) ?t, ?t # snd d)" using False by (subst t(3)) simp
  moreover have "delete2 s idx = Some (True, record_edit (s\<lparr>rstr := b\<rparr>) ?r)"
    using False m by (simp add: delete2_def Let_def)
  ultimately show ?thesis using v that by simp
qed

lemma undo2_inv:
  assumes s: "rec_inv s d"
  obtains ok s' where "undo2 s = Some (ok, s')" "rec_inv s' (doc_op d Undo)"
proof (cases "snd d")
  case Nil
  then show ?thesis using s that by (auto simp: undo2_def rec_inv_def doc_undo_def)
next
  case (Cons t' h)
  let ?n = "length h" and ?t = "cstr (rstr s)"
  have t: "terminated (rstr s)" "length (rstr s) = STRING_LIMIT" "fst d = ?t" "?n < 3" "length (history s) = 3"
    "undo_count s = int ?n + 1" using s Cons by (auto simp: rec_inv_def)
  let ?r = "history s ! ?n"
  have "undo_chain (rev (take (Suc ?n) (history s))) ?t (t' # h)" using s Cons by (simp add: rec_inv_def)
  then have u: "undoes ?r ?t t'" "undo_chain (rev (take ?n (history s))) t' h"
    using t(4,5) by (simp_all add: take_Suc_conv_app_nth)
  have n: "nat ((undo_count s - 1) mod UNDO_LIMIT) = ?n" using t(4) by (simp add: t(6) limits)
  have i: "0 \<le> edit_index ?r" and len: "length t' < STRING_LIMIT" using u by (simp_all add: undoes_def)
  define k where "k = nat (edit_index ?r)"
  have ik: "edit_index ?r = int k" using i by (simp add: k_def)
  have post: "rec_inv (s\<lparr>undo_count := int ?n, rstr := b\<rparr>) (doc_op d Undo)"
    if "length b = STRING_LIMIT" "terminated b" "cstr b = t'" for b
    using that t u Cons by (simp add: rec_inv_def doc_undo_def)
  show ?thesis
  proof (cases "edit_type ?r")
    case INSERT
    then have "k < strlen (rstr s)" "t' = take k ?t @ drop (k + 1) ?t"
      using u(1) by (simp_all add: undoes_def Let_def k_def strlen_def)
    then obtain b where m: "move_bytes (rstr s) (int k) (int k + 1) (int (strlen (rstr s)) - int k) = Some b"
      and b: "cstr b = t'" "terminated b" "length b = STRING_LIMIT"
      using delete_bytes [OF t(1,2)] by metis
    have "undo2 s = Some (True, s\<lparr>undo_count := int ?n, rstr := b\<rparr>)"
      using INSERT m t(6) n ik by (simp add: undo2_def Let_def)
    then show ?thesis using post [OF b(3,2,1)] that by blast
  next
    case DELETE
    then have k: "k \<le> strlen (rstr s)" "edit_char ?r \<noteq> NUL" "t' = take k ?t @ edit_char ?r # drop k ?t"
      using u(1) by (simp_all add: undoes_def Let_def k_def strlen_def)
    then have "strlen (rstr s) < STRING_LIMIT - 1" using len by (simp add: strlen_def)
    then obtain b1 b where m: "move_bytes (rstr s) (int k + 1) (int k) (int (strlen (rstr s)) - int k + 1) = Some b1"
      "put_byte b1 (int k) (edit_char ?r) = Some b"
      and b: "cstr b = t'" "terminated b" "length b = STRING_LIMIT"
      using insert_bytes [OF t(1,2) k(1) _ k(2)] k(3) by metis
    have "undo2 s = Some (True, s\<lparr>undo_count := int ?n, rstr := b\<rparr>)"
      using DELETE m t(6) n ik by (simp add: undo2_def Let_def)
    then show ?thesis using post [OF b(3,2,1)] that by blast
  next
    case NONE
    then show ?thesis using u(1) by (simp add: undoes_def Let_def)
  qed
qed

subsection \<open>Properties\<close>

text \<open>A session, \<open>None\<close> once memory outside the string is moved.\<close>

fun run2_op :: "RecordState \<Rightarrow> edit_op \<Rightarrow> RecordState option" where
  "run2_op s (Ins i c) = map_option snd (insert2 s i c)"
| "run2_op s (Del i) = map_option snd (delete2 s i)"
| "run2_op s Undo = map_option snd (undo2 s)"

fun run2 :: "RecordState \<Rightarrow> edit_op list \<Rightarrow> RecordState option" where
  "run2 s [] = Some s"
| "run2 s (a # as) = (case run2_op s a of None \<Rightarrow> None | Some s' \<Rightarrow> run2 s' as)"

text \<open>At every edit fewer than three edits are pending, and no NUL is inserted (\<open>is_edit\<close>).\<close>

fun pending_fits :: "doc \<Rightarrow> edit_op list \<Rightarrow> bool" where
  "pending_fits d [] = True"
| "pending_fits d (a # as) = ((a = Undo \<or> is_edit a \<and> length (snd d) < 3) \<and> pending_fits (doc_op d a) as)"

lemma run2_inv: "rec_inv s d \<Longrightarrow> pending_fits d as \<Longrightarrow> \<exists>s'. run2 s as = Some s' \<and> rec_inv s' (foldl doc_op d as)"
proof (induction as arbitrary: s d)
  case (Cons a as)
  have "\<exists>s'. run2_op s a = Some s' \<and> rec_inv s' (doc_op d a)"
  proof (cases a)
    case (Ins i c)
    then have "c \<noteq> NUL" "length (snd d) < 3" using Cons.prems by simp_all
    then show ?thesis using insert2_inv [OF Cons.prems(1)] Ins by (metis run2_op.simps(1) option.simps(9) snd_conv)
  next
    case (Del i)
    then have "length (snd d) < 3" using Cons.prems by simp
    then show ?thesis using delete2_inv [OF Cons.prems(1)] Del by (metis run2_op.simps(2) option.simps(9) snd_conv)
  next
    case Undo
    then show ?thesis using undo2_inv [OF Cons.prems(1)] by (metis run2_op.simps(3) option.simps(9) snd_conv)
  qed
  then obtain s' where "run2_op s a = Some s'" "rec_inv s' (doc_op d a)" by blast
  then show ?case using Cons.IH [of s' "doc_op d a"] Cons.prems(2) by simp
qed simp

definition records_zero :: RecordState where
  "records_zero = \<lparr>rstr = replicate STRING_LIMIT NUL,
     history = replicate 3 \<lparr>edit_type = NONE, edit_index = 0, edit_char = NUL\<rparr>, undo_count = 0\<rparr>"

lemma reset2_inv:
  assumes r: "reset2 s t = Some s0" and z: "length (rstr s) = STRING_LIMIT" "length (history s) = 3"
  shows "rec_inv s0 (cstr t, [])"
proof -
  let ?s = "shm_zero\<lparr>str := rstr s\<rparr>"
  obtain s1 where s1: "reset4 ?s t = Some s1" "str s1 = rstr s0"
    using r by (auto simp: reset2_def reset4_def split: if_splits)
  then have "in_step s1" "doc_of s1 = (cstr t, [])"
    using reset_in_step [of ?s t s1] z by simp_all
  then have "length (rstr s0) = STRING_LIMIT" "terminated (rstr s0)" "cstr (rstr s0) = cstr t"
    using in_step_terminated [of s1] fst_doc_of [of s1] s1(2) by (simp_all add: in_step_def sized_def)
  then show ?thesis using r z by (auto simp: rec_inv_def reset2_def split: if_splits)
qed

text \<open>
  C38: As long as no more than three edits are pending at a time and no inserted character is a NUL
  (which \<open>edit2.c\<close> takes from an empty argument), a session of the record-keeping editor moves no
  memory outside the string and shows the texts of the specification, in any order of edits and
  undos.
\<close>

theorem records_show_doc:
  assumes "reset2 s t = Some s0" "length (rstr s) = STRING_LIMIT" "length (history s) = 3"
    and "pending_fits (cstr t, []) as"
  shows "\<exists>s'. run2 s0 as = Some s' \<and> cstr (rstr s') = fst (foldl doc_op (cstr t, []) as)
    \<and> undo_count s' = int (length (snd (foldl doc_op (cstr t, []) as)))"
  using run2_inv [OF reset2_inv [OF assms(1-3)] assms(4)] by (auto simp: rec_inv_def)

theorem records_show_doc_witness:
  "\<exists>s0 s'. reset2 records_zero ''abc'' = Some s0
     \<and> run2 s0 [Ins 1 CHR ''x'', Del 0, Undo, Ins 4 CHR ''y'', Del 0, Undo] = Some s'
     \<and> cstr (rstr s') = ''axbcy''"
proof -
  obtain s0 where r: "reset2 records_zero ''abc'' = Some s0"
    by (simp add: reset2_def limits strlen_def cstr_def)
  have d: "foldl doc_op (cstr ''abc'', []) [Ins 1 CHR ''x'', Del 0, Undo, Ins 4 CHR ''y'', Del 0, Undo]
    = (''axbcy'', [''axbc'', ''abc''])"
    by (simp add: cstr_def doc_insert_def doc_delete_def doc_undo_def limits)
  have "\<exists>s'. run2 s0 [Ins 1 CHR ''x'', Del 0, Undo, Ins 4 CHR ''y'', Del 0, Undo] = Some s' \<and>
    cstr (rstr s') = fst (foldl doc_op (cstr ''abc'', []) [Ins 1 CHR ''x'', Del 0, Undo, Ins 4 CHR ''y'', Del 0, Undo]) \<and>
    undo_count s' = int (length (snd (foldl doc_op (cstr ''abc'', []) [Ins 1 CHR ''x'', Del 0, Undo, Ins 4 CHR ''y'', Del 0, Undo])))"
    by (rule records_show_doc [OF r])
      (simp_all add: records_zero_def cstr_def doc_insert_def doc_delete_def doc_undo_def limits)
  then show ?thesis using r unfolding d by auto
qed

text \<open>
  An inserted NUL cuts the text, and its undo moves nothing: of \<open>abc\<close> only \<open>a\<close> is left.
\<close>

theorem records_NUL_cuts:
  "case reset2 records_zero ''abc'' of None \<Rightarrow> False | Some s0 \<Rightarrow>
     (case edit2_main [''insert'', ''1'', []] s0 of None \<Rightarrow> False
      | Some (oc, s1) \<Rightarrow> stdout oc = ''OK'' @ NL \<and> (case run2 s1 [Undo] of None \<Rightarrow> False
         | Some s' \<Rightarrow> cstr (rstr s') = ''a'' \<and> undo_count s' = 0))"
  by code_simp

text \<open>
  After a fourth edit in a row undo is wrong: on an empty text, inserting a, b, c and d and
  undoing once gives \<open>abd\<close> and not \<open>abc\<close>; and three deletes after three inserts make undo move
  memory outside the string.
\<close>

theorem records_overrun:
  "(case reset2 records_zero '''' of None \<Rightarrow> False | Some s0 \<Rightarrow>
      (case run2 s0 [Ins 0 CHR ''a'', Ins 1 CHR ''b'', Ins 2 CHR ''c'', Ins 3 CHR ''d'', Undo] of None \<Rightarrow> False
       | Some s' \<Rightarrow> cstr (rstr s') = ''abd'')
      \<and> run2 s0 [Ins 0 CHR ''a'', Ins 1 CHR ''b'', Ins 2 CHR ''c'', Del 0, Del 0, Undo] = None)"
  by code_simp

end
