(* ===== verification/Editor_Server.thy ===== *)
theory Editor_Server
  imports Editor_Shm
begin

text \<open>
  The string editor as a server and a client that talk over two message queues:
  \<open>assignments/hw2/server.c\<close>, \<open>client.c\<close>, \<open>common.h\<close>. \<open>server_step\<close> is one iteration of the
  server's loop, on the request that \<open>mq_receive\<close> returned (\<open>None\<close> when it failed, as it does
  when SIGINT arrives); the result is \<open>None\<close> when the iteration reads or writes outside an array.
  The queues are in \<open>Editor_Session\<close>, with the clients.

  Proved: on a request a client can send the server refines the list specification while the text
  keeps within its bounds; a full text is overrun by one more insert; a failed receive runs the
  last request once more.
\<close>

record ClientRequest =
  command :: char
  index :: int
  character :: char

record ServerResponse =
  rstatus :: int
  message :: buf

record ServerState =
  sstr :: buf
  sprev1 :: buf
  sprev2 :: buf
  sprev3 :: buf
  slen :: int
  snum :: int
  request :: ClientRequest
  response :: ServerResponse
  running :: bool

subsection \<open>The client\<close>

text \<open>\<open>main\<close> of \<open>client.c\<close> up to \<open>mq_send\<close>; \<open>None\<close>: it prints ERROR and exits with 1.\<close>

definition client_request :: "string list \<Rightarrow> ClientRequest option" where
  "client_request args = (case args of
       [] \<Rightarrow> None
     | cmd # rest \<Rightarrow>
       let req = (if cmd = ''insert'' \<and> length rest = 2
                  then Some \<lparr>command = CHR ''i'', index = atoi (rest ! 0),
                             character = (case rest ! 1 of [] \<Rightarrow> NUL | c # _ \<Rightarrow> c)\<rparr>
                  else if cmd = ''delete'' \<and> length rest = 1
                  then Some \<lparr>command = CHR ''d'', index = atoi (rest ! 0), character = CHR 0x01\<rparr>
                  else if cmd = ''undo'' \<and> rest = []
                  then Some \<lparr>command = CHR ''u'', index = 0, character = NUL\<rparr>
                  else if cmd = ''report'' \<and> rest = []
                  then Some \<lparr>command = CHR ''r'', index = 0, character = NUL\<rparr>
                  else None)
       in case req of None \<Rightarrow> None | Some r \<Rightarrow> if index r < 0 then None else Some r)"

text \<open>What it prints of the response.\<close>

definition client_print :: "ServerResponse \<Rightarrow> outcome" where
  "client_print r = exits (cstr ((message r)[STRING_LIMIT - 1 := NUL]) @ NL) '''' 0"

subsection \<open>The server\<close>

text \<open>
  \<open>strcpy\<close> between arrays of the same size: it needs the NUL of its source, and leaves what is
  behind the NUL in the destination.
\<close>

definition strcpy :: "buf \<Rightarrow> buf \<Rightarrow> buf option" where
  "strcpy dst src = (if terminated src
     then Some (cstr src @ NUL # drop (strlen src + 1) dst) else None)"

text \<open>The two loops: \<open>string[i] = string[i - 1]\<close> down to the index, \<open>string[i] = string[i + 1]\<close> up.\<close>

fun shift_up :: "buf \<Rightarrow> nat \<Rightarrow> nat \<Rightarrow> buf" where
  "shift_up b 0 idx = b"
| "shift_up b (Suc i) idx = (if Suc i > idx then shift_up (b[Suc i := b ! i]) i idx else b)"

fun shift_down :: "nat \<Rightarrow> buf \<Rightarrow> nat \<Rightarrow> buf" where
  "shift_down 0 b i = b"
| "shift_down (Suc k) b i = shift_down k (b[i := b ! (i + 1)]) (i + 1)"

definition save_versions :: "ServerState \<Rightarrow> ServerState option" where
  "save_versions s =
     (case strcpy (sprev3 s) (sprev2 s) of None \<Rightarrow> None | Some p3 \<Rightarrow>
      case strcpy (sprev2 s) (sprev1 s) of None \<Rightarrow> None | Some p2 \<Rightarrow>
      case strcpy (sprev1 s) (sstr s) of None \<Rightarrow> None | Some p1 \<Rightarrow>
      Some (s\<lparr>sprev1 := p1, sprev2 := p2, sprev3 := p3\<rparr>))"

text \<open>The first \<open>switch\<close>: the new state and the status.\<close>

definition process :: "ServerState \<Rightarrow> (ServerState \<times> int) option" where
  "process s = (let r = request s; idx = index r in
     if command r = CHR ''i'' then
       (if idx > slen s then Some (s, 1)
        else case save_versions s of None \<Rightarrow> None | Some s1 \<Rightarrow>
          if idx < 0 then None
          else Some (s1\<lparr>sstr := (shift_up (sstr s1) (nat (slen s1)) (nat idx))[nat idx := character r],
                        snum := snum s1 + 1\<rparr>, 0))
     else if command r = CHR ''d'' then
       (if idx > slen s then Some (s, 1)
        else case save_versions s of None \<Rightarrow> None | Some s1 \<Rightarrow>
          if idx < 0 then None
          else Some (s1\<lparr>sstr := shift_down (STRING_LIMIT - 1 - nat idx) (sstr s1) (nat idx),
                        snum := snum s1 + 1\<rparr>, 0))
     else if command r = CHR ''u'' then
       (if snum s > 0 then
          case strcpy (sstr s) (sprev1 s) of None \<Rightarrow> None | Some b \<Rightarrow>
          case strcpy (sprev1 s) (sprev2 s) of None \<Rightarrow> None | Some p1 \<Rightarrow>
          case strcpy (sprev2 s) (sprev3 s) of None \<Rightarrow> None | Some p2 \<Rightarrow>
          Some (s\<lparr>sstr := b, sprev1 := p1, sprev2 := p2, snum := snum s - 1\<rparr>, 0)
        else Some (s, 1))
     else if command r = CHR ''r'' then Some (s, 2)
     else Some (s, 0))"

text \<open>
  The second \<open>switch\<close>. \<open>snprintf\<close> is given room for \<open>strlen + 5\<close> bytes in \<open>temp\<close>, which has
  \<open>STRING_LIMIT\<close>.
\<close>

definition answer :: "ServerState \<Rightarrow> int \<Rightarrow> ServerState option" where
  "answer s st = (let m = message (response s) in
     if st = 2 then
       (let out = cstr (sstr s) @ '' ['' @ show_int (snum s) @ '']'' in
        if \<not> terminated (sstr s) \<or> min (length out + 1) (strlen (sstr s) + 5) > STRING_LIMIT then None
        else Some (s\<lparr>response := \<lparr>rstatus = st,
          message = (strncpy m (take (strlen (sstr s) + 4) out) (STRING_LIMIT - 1))[STRING_LIMIT - 1 := NUL]\<rparr>\<rparr>))
     else Some (s\<lparr>response := \<lparr>rstatus = st,
          message = (strncpy m (if st = 0 then ''OK'' else ''ERROR'') (STRING_LIMIT - 1))[STRING_LIMIT - 1 := NUL]\<rparr>\<rparr>))"

text \<open>One iteration: the cap on the counter, \<open>strlen\<close>, receive, process, answer, send.\<close>

definition server_step :: "ClientRequest option \<Rightarrow> bool \<Rightarrow> ServerState \<Rightarrow> ServerState option" where
  "server_step received sent s =
     (if \<not> terminated (sstr s) then None
      else let s1 = s\<lparr>snum := (if snum s > 3 then 3 else snum s), slen := int (strlen (sstr s))\<rparr>;
               s2 = (case received of None \<Rightarrow> s1\<lparr>running := False\<rparr> | Some r \<Rightarrow> s1\<lparr>request := r\<rparr>)
           in case process s2 of None \<Rightarrow> None | Some (s3, st) \<Rightarrow>
              map_option (\<lambda>s4. if sent then s4 else s4\<lparr>running := False\<rparr>) (answer s3 st))"

text \<open>The loop, on what the receives of a session return; every send succeeds.\<close>

fun server_run :: "ClientRequest option list \<Rightarrow> ServerState \<Rightarrow> ServerState option" where
  "server_run [] s = Some s"
| "server_run (r # rs) s = (if running s
     then (case server_step r True s of None \<Rightarrow> None | Some s' \<Rightarrow> server_run rs s') else Some s)"

text \<open>The start of \<open>main\<close>: \<open>junk\<close> is what the uninitialised variables hold.\<close>

definition server_init :: "ServerState \<Rightarrow> string \<Rightarrow> ServerState option" where
  "server_init junk arg =
     (let b = (strncpy (sstr junk) arg (STRING_LIMIT - 1))[STRING_LIMIT - 1 := NUL] in
      if CHR 0x0A \<in> set (cstr b) then None
      else Some (junk\<lparr>sstr := b, slen := int (strlen arg), snum := 0, running := True\<rparr>))"

definition final_report :: "ServerState \<Rightarrow> outcome" where
  "final_report s = exits (NL @ cstr (sstr s) @ '' ['' @ show_int (snum s) @ '']'' @ NL) '''' 0"

subsection \<open>The specification\<close>

text \<open>
  A document, and the answer to a request: a status and a message. A delete at the end of the
  text is accepted, as in the source: it changes nothing and counts as an edit.
\<close>

definition spec_request :: "doc \<Rightarrow> ClientRequest \<Rightarrow> doc \<times> string" where
  "spec_request d r = (let (t, h) = d; i = nat (index r) in
     if command r = CHR ''i'' then
       (if i > length t then (d, ''ERROR'') else ((take i t @ character r # drop i t, take 3 (t # h)), ''OK''))
     else if command r = CHR ''d'' then
       (if i > length t then (d, ''ERROR'') else ((take i t @ drop (i + 1) t, take 3 (t # h)), ''OK''))
     else if command r = CHR ''u'' then
       (case h of [] \<Rightarrow> (d, ''ERROR'') | t' # h' \<Rightarrow> ((t', h'), ''OK''))
     else if command r = CHR ''r'' then (d, t @ '' ['' @ show_int (int (length h)) @ '']'')
     else (d, ''OK''))"

text \<open>The requests that the arrays have room for.\<close>

definition request_fits :: "doc \<Rightarrow> ClientRequest \<Rightarrow> bool" where
  "request_fits d r \<longleftrightarrow> 0 \<le> index r
     \<and> (command r = CHR ''i'' \<longrightarrow> character r \<noteq> NUL \<and> length (fst d) < STRING_LIMIT - 1)
     \<and> (command r = CHR ''r'' \<longrightarrow> length (fst d) \<le> STRING_LIMIT - 5)"

text \<open>Text \<open>t\<close> with NULs up to the end of the array; successive versions differ in at most one place.\<close>

definition padded :: "string \<Rightarrow> buf" where
  "padded t = t @ replicate (STRING_LIMIT - length t) NUL"

fun near :: "string list \<Rightarrow> bool" where
  "near (t # t' # h) = (length t \<le> length t' + 1 \<and> near (t' # h))"
| "near _ = True"

definition ready :: "buf \<Rightarrow> bool" where
  "ready b \<longleftrightarrow> length b = STRING_LIMIT \<and> terminated b"

definition represents :: "ServerState \<Rightarrow> doc \<Rightarrow> bool" where
  "represents s d \<longleftrightarrow> sstr s = padded (fst d) \<and> NUL \<notin> set (fst d) \<and> length (fst d) < STRING_LIMIT
     \<and> ready (sprev1 s) \<and> ready (sprev2 s) \<and> ready (sprev3 s)
     \<and> 0 \<le> snum s \<and> length (snd d) = nat (min 3 (snum s))
     \<and> snd d = take (length (snd d)) [cstr (sprev1 s), cstr (sprev2 s), cstr (sprev3 s)]
     \<and> near (fst d # snd d) \<and> length (message (response s)) = STRING_LIMIT"

subsection \<open>Lemmas\<close>

lemma cstr_padded [simp]: "NUL \<notin> set t \<Longrightarrow> length t < STRING_LIMIT \<Longrightarrow> cstr (padded t) = t"
  using cstr_snoc_replicate [of t "STRING_LIMIT - length t" "[]"] by (simp add: padded_def)

lemma length_padded [simp]: "length t < STRING_LIMIT \<Longrightarrow> length (padded t) = STRING_LIMIT"
  by (simp add: padded_def)

lemma ready_padded [simp]: "length t < STRING_LIMIT \<Longrightarrow> ready (padded t)"
  by (simp add: ready_def) (simp add: terminated_def padded_def)

lemma nth_padded: "length t < STRING_LIMIT \<Longrightarrow> j < STRING_LIMIT \<Longrightarrow> padded t ! j = (if j < length t then t ! j else NUL)"
  by (simp add: padded_def nth_append)

lemma strcpy_ready:
  assumes "ready src" "ready dst"
  obtains b where "strcpy dst src = Some b" "ready b" "cstr b = cstr src"
proof -
  have "strlen src < STRING_LIMIT" using assms(1) by (simp add: ready_def terminated_strlen)
  then have "ready (cstr src @ NUL # drop (strlen src + 1) dst)"
    using assms(2) by (simp add: ready_def terminated_def strlen_def)
  moreover have "cstr (cstr src @ NUL # drop (strlen src + 1) dst) = cstr src"
    by (rule cstr_append_NUL [OF cstr_no_NUL])
  moreover have "strcpy dst src = Some (cstr src @ NUL # drop (strlen src + 1) dst)"
    using assms(1) by (simp add: strcpy_def ready_def)
  ultimately show ?thesis using that by blast
qed

lemma strcpy_padded:
  assumes "length t \<le> length (cstr src) + 1" "ready src"
  shows "strcpy (padded t) src = Some (padded (cstr src))"
proof -
  have "length (cstr src) < STRING_LIMIT" using assms(2) by (simp add: ready_def terminated_strlen strlen_def)
  then have "NUL # drop (strlen src + 1) (padded t) = replicate (STRING_LIMIT - length (cstr src)) NUL"
    using assms(1) by (cases "STRING_LIMIT - length (cstr src)") (auto simp: padded_def strlen_def)
  then show ?thesis using assms(2) by (simp add: strcpy_def ready_def padded_def)
qed

lemma shift_up_nth:
  "n < length b \<Longrightarrow> j < length b \<Longrightarrow>
    length (shift_up b n idx) = length b \<and> shift_up b n idx ! j = (if idx < j \<and> j \<le> n then b ! (j - 1) else b ! j)"
  by (induction b n idx rule: shift_up.induct) (auto simp: nth_list_update le_Suc_eq)

lemma shift_down_nth:
  "i + k < length b \<Longrightarrow> j < length b \<Longrightarrow>
    length (shift_down k b i) = length b \<and> shift_down k b i ! j = (if i \<le> j \<and> j < i + k then b ! (j + 1) else b ! j)"
  by (induction k b i rule: shift_down.induct) (auto simp: nth_list_update)

lemma shift_up_padded:
  assumes "i \<le> length t" "length t < STRING_LIMIT - 1"
  shows "(shift_up (padded t) (length t) i)[i := c] = padded (take i t @ c # drop i t)"
proof (rule nth_equalityI)
  have l: "length (padded t) = STRING_LIMIT" "length t < STRING_LIMIT" using assms by auto
  note n = shift_up_nth [of "length t" "padded t" _ i, unfolded l(1), OF l(2)]
  have ls: "length (shift_up (padded t) (length t) i) = STRING_LIMIT" using n [of 0] by (simp add: limits)
  then show "length ((shift_up (padded t) (length t) i)[i := c]) = length (padded (take i t @ c # drop i t))"
    using assms by simp
  fix j assume "j < length ((shift_up (padded t) (length t) i)[i := c])"
  then have j: "j < STRING_LIMIT" using ls by simp
  have "(shift_up (padded t) (length t) i)[i := c] ! j
      = (if j = i then c else if i < j \<and> j \<le> length t then padded t ! (j - 1) else padded t ! j)"
    using n [OF j] j ls by (simp add: nth_list_update)
  also have "\<dots> = padded (take i t @ c # drop i t) ! j"
  proof -
    have "length (take i t @ c # drop i t) = length t + 1" using assms by simp
    then show ?thesis using j assms nth_padded [of "take i t @ c # drop i t" j]
      by (auto simp: nth_padded nth_append nth_Cons' min_def)
  qed
  finally show "(shift_up (padded t) (length t) i)[i := c] ! j = padded (take i t @ c # drop i t) ! j" .
qed

lemma shift_down_padded:
  assumes "i \<le> length t" "length t < STRING_LIMIT"
  shows "shift_down (STRING_LIMIT - 1 - i) (padded t) i = padded (take i t @ drop (i + 1) t)"
proof (rule nth_equalityI)
  have l: "length (padded t) = STRING_LIMIT" "i + (STRING_LIMIT - 1 - i) < STRING_LIMIT" using assms by auto
  note n = shift_down_nth [of i "STRING_LIMIT - 1 - i" "padded t", unfolded l(1), OF l(2)]
  have ls: "length (shift_down (STRING_LIMIT - 1 - i) (padded t) i) = STRING_LIMIT" using n [of 0] by (simp add: limits)
  then show "length (shift_down (STRING_LIMIT - 1 - i) (padded t) i) = length (padded (take i t @ drop (i + 1) t))"
    using assms by simp
  fix j assume "j < length (shift_down (STRING_LIMIT - 1 - i) (padded t) i)"
  then have j: "j < STRING_LIMIT" using ls by simp
  show "shift_down (STRING_LIMIT - 1 - i) (padded t) i ! j = padded (take i t @ drop (i + 1) t) ! j"
    using n [OF j] j assms by (auto simp: nth_padded nth_append min_def)
qed

lemma save_versions_ok:
  assumes "ready (sstr s)" "ready (sprev1 s)" "ready (sprev2 s)" "ready (sprev3 s)"
  obtains p1 p2 p3 where "save_versions s = Some (s\<lparr>sprev1 := p1, sprev2 := p2, sprev3 := p3\<rparr>)"
    "ready p1" "ready p2" "ready p3" "cstr p1 = cstr (sstr s)" "cstr p2 = cstr (sprev1 s)" "cstr p3 = cstr (sprev2 s)"
proof -
  obtain p3 where 3: "strcpy (sprev3 s) (sprev2 s) = Some p3" "ready p3" "cstr p3 = cstr (sprev2 s)"
    using strcpy_ready assms by metis
  obtain p2 where 2: "strcpy (sprev2 s) (sprev1 s) = Some p2" "ready p2" "cstr p2 = cstr (sprev1 s)"
    using strcpy_ready assms by metis
  obtain p1 where 1: "strcpy (sprev1 s) (sstr s) = Some p1" "ready p1" "cstr p1 = cstr (sstr s)"
    using strcpy_ready assms by metis
  have "save_versions s = Some (s\<lparr>sprev1 := p1, sprev2 := p2, sprev3 := p3\<rparr>)"
    using 1 2 3 by (simp add: save_versions_def)
  from that [OF this 1(2) 2(2) 3(2) 1(3) 2(3) 3(3)] show ?thesis .
qed

text \<open>One request: \<open>prepared\<close> is the state as \<open>process\<close> finds it.\<close>

definition prepared :: "ServerState \<Rightarrow> ClientRequest \<Rightarrow> ServerState" where
  "prepared s r = s\<lparr>snum := (if snum s > 3 then 3 else snum s), slen := int (strlen (sstr s)), request := r\<rparr>"

lemma represents_history:
  "represents s (t, h) \<Longrightarrow> h = take (length h) [cstr (sprev1 s), cstr (sprev2 s), cstr (sprev3 s)]"
  by (unfold represents_def fst_conv snd_conv) blast

lemma prepared_represents:
  assumes "represents s d"
  shows "represents (prepared s r) d" "slen (prepared s r) = int (length (fst d))"
    "snum (prepared s r) = int (length (snd d))" "request (prepared s r) = r" "snum (prepared s r) \<le> 3"
  using assms by (auto simp: prepared_def represents_def strlen_def min_def)

lemma near_take: "near xs \<Longrightarrow> near (take k xs)"
proof (induction xs arbitrary: k rule: near.induct)
  case (1 t t' h)
  show ?case
  proof (cases k)
    case (Suc j)
    then show ?thesis using 1 by (cases j) (auto dest: 1(1) [of j])
  qed simp
qed (auto simp: take_Cons')

lemma represents_edit:
  assumes s: "represents s (t, h)" "snum s = int (length h)"
    and p: "ready p1" "ready p2" "ready p3" "cstr p1 = t" "cstr p2 = cstr (sprev1 s)" "cstr p3 = cstr (sprev2 s)"
    and t: "NUL \<notin> set t'" "length t' < STRING_LIMIT" "length t' \<le> length t + 1"
  shows "represents (s\<lparr>sprev1 := p1, sprev2 := p2, sprev3 := p3, sstr := padded t', snum := snum s + 1\<rparr>) (t', take 3 (t # h))"
proof -
  note h1 = represents_history [OF s(1)]
  have h: "length h \<le> 3" "near (t # h)" using s by (auto simp: represents_def)
  define H where "H = take 3 (t # h)"
  have l: "length H = nat (min 3 (snum s + 1))" using s(2) h(1) by (auto simp: H_def)
  have n: "near (t' # H)" using near_take [of "t' # t # h" "Suc 3"] h(2) t(3) by (simp add: H_def)
  have "length h = 0 \<or> length h = 1 \<or> length h = 2 \<or> length h = 3" using h(1) by linarith
  then have "H = take (length H) [t, cstr (sprev1 s), cstr (sprev2 s)]"
    unfolding H_def using h1 by (auto simp: numeral_3_eq_3 numeral_2_eq_2)
  then have "H = take (length H) [cstr p1, cstr p2, cstr p3]" using p by simp
  then show ?thesis unfolding H_def [symmetric] using s p(1-3) t l n
    by (simp add: represents_def)
qed

text \<open>What the status of the first \<open>switch\<close> makes the server say.\<close>

definition said_status :: "doc \<Rightarrow> int \<Rightarrow> string" where
  "said_status d st = (if st = 2 then fst d @ '' ['' @ show_int (int (length (snd d))) @ '']''
     else if st = 0 then ''OK'' else ''ERROR'')"

definition processed :: "ServerState \<Rightarrow> doc \<Rightarrow> (ServerState \<times> int) option \<Rightarrow> bool" where
  "processed s d out = (case out of None \<Rightarrow> False
     | Some (s', st) \<Rightarrow> represents s' (fst (spec_request d (request s)))
         \<and> snd (spec_request d (request s)) = said_status (fst (spec_request d (request s))) st
         \<and> running s' = running s
         \<and> (st = 2 \<longrightarrow> s' = s \<and> command (request s) = CHR ''r''))"

lemma process_insert:
  assumes s: "represents s (t, h)" "slen s = int (length t)" "snum s = int (length h)"
    and f: "request_fits (t, h) (request s)" and c: "command (request s) = CHR ''i''"
  shows "processed s (t, h) (process s)"
proof (cases "index (request s) > slen s")
  case True
  then show ?thesis using s c by (auto simp: processed_def process_def Let_def spec_request_def said_status_def)
next
  case False
  let ?i = "nat (index (request s))" and ?c = "character (request s)"
  have i: "?i \<le> length t" "0 \<le> index (request s)" "length t < STRING_LIMIT - 1" "?c \<noteq> NUL"
    using False s(2) f c by (auto simp: request_fits_def)
  have b: "sstr s = padded t" "ready (sstr s)" "cstr (sstr s) = t" "ready (sprev1 s)" "ready (sprev2 s)" "ready (sprev3 s)"
    using s(1) by (auto simp: represents_def)
  obtain p1 p2 p3 where v: "save_versions s = Some (s\<lparr>sprev1 := p1, sprev2 := p2, sprev3 := p3\<rparr>)"
    and p: "ready p1" "ready p2" "ready p3" "cstr p1 = t" "cstr p2 = cstr (sprev1 s)" "cstr p3 = cstr (sprev2 s)"
    using save_versions_ok [OF b(2,4,5,6)] b(3) by metis
  let ?t = "take ?i t @ ?c # drop ?i t"
  have u: "(shift_up (sstr s) (nat (slen s)) ?i)[?i := ?c] = padded ?t"
    using shift_up_padded [OF i(1,3)] s(2) b(1) by simp
  have "NUL \<notin> set ?t" "length ?t < STRING_LIMIT" "length ?t \<le> length t + 1"
    using i s(1) by (auto simp: represents_def dest: in_set_takeD in_set_dropD)
  then have "represents (s\<lparr>sprev1 := p1, sprev2 := p2, sprev3 := p3, sstr := padded ?t, snum := snum s + 1\<rparr>) (?t, take 3 (t # h))"
    by (rule represents_edit [OF s(1,3) p])
  then show ?thesis using False c v u i by (simp add: processed_def process_def Let_def spec_request_def said_status_def)
qed

lemma process_delete:
  assumes s: "represents s (t, h)" "slen s = int (length t)" "snum s = int (length h)"
    and f: "request_fits (t, h) (request s)" and c: "command (request s) = CHR ''d''"
  shows "processed s (t, h) (process s)"
proof (cases "index (request s) > slen s")
  case True
  then show ?thesis using s c by (auto simp: processed_def process_def Let_def spec_request_def said_status_def)
next
  case False
  let ?i = "nat (index (request s))"
  have i: "?i \<le> length t" "0 \<le> index (request s)" "length t < STRING_LIMIT"
    using False s(1,2) f by (auto simp: request_fits_def represents_def)
  have b: "sstr s = padded t" "ready (sstr s)" "cstr (sstr s) = t" "ready (sprev1 s)" "ready (sprev2 s)" "ready (sprev3 s)"
    using s(1) by (auto simp: represents_def)
  obtain p1 p2 p3 where v: "save_versions s = Some (s\<lparr>sprev1 := p1, sprev2 := p2, sprev3 := p3\<rparr>)"
    and p: "ready p1" "ready p2" "ready p3" "cstr p1 = t" "cstr p2 = cstr (sprev1 s)" "cstr p3 = cstr (sprev2 s)"
    using save_versions_ok [OF b(2,4,5,6)] b(3) by metis
  let ?t = "take ?i t @ drop (?i + 1) t"
  have u: "shift_down (STRING_LIMIT - 1 - ?i) (sstr s) ?i = padded ?t"
    using shift_down_padded [OF i(1,3)] b(1) by simp
  have "NUL \<notin> set ?t" "length ?t < STRING_LIMIT" "length ?t \<le> length t + 1"
    using i s(1) by (auto simp: represents_def dest: in_set_takeD in_set_dropD)
  then have "represents (s\<lparr>sprev1 := p1, sprev2 := p2, sprev3 := p3, sstr := padded ?t, snum := snum s + 1\<rparr>) (?t, take 3 (t # h))"
    by (rule represents_edit [OF s(1,3) p])
  then show ?thesis using False c v u i by (simp add: processed_def process_def Let_def spec_request_def said_status_def)
qed

lemma process_undo:
  assumes s: "represents s (t, h)" "snum s = int (length h)" "length h \<le> 3"
    and c: "command (request s) = CHR ''u''"
  shows "processed s (t, h) (process s)"
proof (cases h)
  case Nil
  then show ?thesis using s c by (auto simp: processed_def process_def Let_def spec_request_def said_status_def)
next
  case (Cons t' h')
  have r: "ready (sprev1 s)" "ready (sprev2 s)" "ready (sprev3 s)" "sstr s = padded t" "near (t # t' # h')"
    using s(1) unfolding represents_def Cons fst_conv snd_conv by blast+
  have t': "t' = cstr (sprev1 s)" "h' = take (length h') [cstr (sprev2 s), cstr (sprev3 s)]" using represents_history [OF s(1)] Cons by simp_all
  have l: "length t' < STRING_LIMIT" "NUL \<notin> set t'"
    using r(1) t'(1) by (simp_all add: ready_def terminated_strlen strlen_def cstr_no_NUL)
  have 0: "strcpy (sstr s) (sprev1 s) = Some (padded t')"
    using strcpy_padded [of t "sprev1 s"] r(1,4,5) t'(1) by simp
  obtain p1 where 1: "strcpy (sprev1 s) (sprev2 s) = Some p1" "ready p1" "cstr p1 = cstr (sprev2 s)"
    using strcpy_ready r by metis
  obtain p2 where 2: "strcpy (sprev2 s) (sprev3 s) = Some p2" "ready p2" "cstr p2 = cstr (sprev3 s)"
    using strcpy_ready r by metis
  have m: "length h' = nat (min 3 (snum s - 1))" "0 \<le> snum s - 1" using s(2,3) Cons by auto
  have "length h' \<le> 2" using s(3) Cons by simp
  then have "h' = take (length h') [cstr p1, cstr p2, cstr (sprev3 s)]"
    using t'(2) 1(3) 2(3) by (auto simp: take_Cons' )
  then have "represents (s\<lparr>sstr := padded t', sprev1 := p1, sprev2 := p2, snum := snum s - 1\<rparr>) (t', h')"
    using s(1) r 1 2 l m by (simp add: represents_def)
  then show ?thesis using 0 1 2 c Cons s(2) by (simp add: processed_def process_def Let_def spec_request_def said_status_def)
qed

lemma process_processed:
  assumes s: "represents s d" "slen s = int (length (fst d))" "snum s = int (length (snd d))" "length (snd d) \<le> 3"
    and f: "request_fits d (request s)"
  shows "processed s d (process s)"
proof -
  obtain t h where d: "d = (t, h)" by fastforce
  consider "command (request s) = CHR ''i''" | "command (request s) = CHR ''d''" | "command (request s) = CHR ''u''"
    | "command (request s) \<noteq> CHR ''i''" "command (request s) \<noteq> CHR ''d''" "command (request s) \<noteq> CHR ''u''" by blast
  then show ?thesis
  proof cases
    case 4
    then show ?thesis using s unfolding d by (simp add: processed_def process_def Let_def spec_request_def said_status_def)
  qed (use s f process_insert process_delete process_undo in \<open>simp_all add: d\<close>)
qed

lemma strlen_padded: "NUL \<notin> set t \<Longrightarrow> length t < STRING_LIMIT \<Longrightarrow> strlen (padded t) = length t"
  by (simp add: strlen_def)

lemma strncpy_padded:
  assumes "length m = STRING_LIMIT" "NUL \<notin> set w" "length w < STRING_LIMIT"
  shows "(strncpy m w (STRING_LIMIT - 1))[STRING_LIMIT - 1 := NUL] = padded w"
proof -
  let ?n = "STRING_LIMIT - 1 - length w"
  have s: "strncpy m w (STRING_LIMIT - 1) = (w @ replicate ?n NUL) @ drop (STRING_LIMIT - 1) m"
    using assms by (simp add: strncpy_def cstr_id)
  have l: "length (w @ replicate ?n NUL) = STRING_LIMIT - 1" using assms by simp
  have "(drop (STRING_LIMIT - 1) m)[0 := NUL] = [NUL]" using assms
    by (cases "drop (STRING_LIMIT - 1) m") (auto simp: limits dest: arg_cong [where f = length])
  then have "(strncpy m w (STRING_LIMIT - 1))[STRING_LIMIT - 1 := NUL] = w @ replicate ?n NUL @ replicate 1 NUL"
    unfolding s using list_update_append [of "w @ replicate ?n NUL" "drop (STRING_LIMIT - 1) m" "STRING_LIMIT - 1" NUL]
    unfolding l by simp
  also have "\<dots> = padded w"
  proof -
    have "STRING_LIMIT - length w = ?n + 1" using assms(3) by simp
    then show ?thesis unfolding padded_def by (simp only: replicate_add)
  qed
  finally show ?thesis .
qed

lemma show_small: "n \<le> 3 \<Longrightarrow> length (show_int (int n)) = 1 \<and> NUL \<notin> set (show_int (int n))"
proof -
  assume "n \<le> 3"
  then have "n = 0 \<or> n = 1 \<or> n = 2 \<or> n = 3" by linarith
  then show ?thesis by (elim disjE; simp only:; code_simp)
qed

lemma answer_ok:
  assumes s: "represents s d" and r: "st = 2 \<Longrightarrow> snum s = int (length (snd d)) \<and> length (snd d) \<le> 3 \<and> length (fst d) \<le> STRING_LIMIT - 5"
  obtains s' where "answer s st = Some s'" "represents s' d" "message (response s') = padded (said_status d st)"
    "NUL \<notin> set (said_status d st)" "length (said_status d st) < STRING_LIMIT" "running s' = running s"
proof -
  let ?w = "said_status d st"
  have t: "sstr s = padded (fst d)" "NUL \<notin> set (fst d)" "length (fst d) < STRING_LIMIT"
    "length (message (response s)) = STRING_LIMIT" using s by (auto simp: represents_def)
  have w: "NUL \<notin> set ?w" "length ?w < STRING_LIMIT" "st = 2 \<Longrightarrow> length ?w = length (fst d) + 4"
    using t r show_small [of "length (snd d)"] by (auto simp: said_status_def limits)
  let ?s = "s\<lparr>response := \<lparr>rstatus = st, message = padded ?w\<rparr>\<rparr>"
  have "answer s st = Some ?s"
  proof (cases "st = 2")
    case True
    have "cstr (sstr s) @ '' ['' @ show_int (snum s) @ '']'' = ?w" "strlen (sstr s) = length (fst d)" "terminated (sstr s)"
      using True r t ready_padded [of "fst d"] by (simp_all add: said_status_def strlen_padded ready_def)
    moreover have "length (fst d) + 5 \<le> STRING_LIMIT" using r [OF True] by (simp add: limits)
    ultimately show ?thesis using True w(3) [OF True] strncpy_padded [OF t(4) w(1,2)]
      by (simp add: answer_def Let_def)
  next
    case False
    then have "(if st = 0 then ''OK'' else ''ERROR'') = ?w" by (simp add: said_status_def)
    then show ?thesis using False strncpy_padded [OF t(4) w(1,2)] by (simp add: answer_def Let_def)
  qed
  moreover have "represents ?s d \<longleftrightarrow> represents s d" using t(4) w(2) by (simp add: represents_def)
  ultimately show ?thesis using that [of ?s] w(1,2) s by simp
qed

lemma step_refines:
  assumes s: "represents s d" and f: "request_fits d r"
  obtains s' where "server_step (Some r) True s = Some s'" "represents s' (fst (spec_request d r))"
    "client_print (response s') = exits (snd (spec_request d r) @ NL) '''' 0" "running s' = running s"
proof -
  let ?p = "prepared s r"
  note p = prepared_represents [OF s, of r]
  have l: "length (snd d) \<le> 3" using p(3,5) by simp
  have "processed ?p d (process ?p)" using process_processed [OF p(1-3) l] f p(4) by simp
  then obtain s3 st where s3: "process ?p = Some (s3, st)" "represents s3 (fst (spec_request d r))"
    "snd (spec_request d r) = said_status (fst (spec_request d r)) st" "running s3 = running ?p"
    "st = 2 \<Longrightarrow> s3 = ?p \<and> command r = CHR ''r''"
    by (auto simp: processed_def p(4) split: option.splits)
  have "snum s3 = int (length (snd (fst (spec_request d r)))) \<and> length (snd (fst (spec_request d r))) \<le> 3
      \<and> length (fst (fst (spec_request d r))) \<le> STRING_LIMIT - 5" if "st = 2"
    using s3(5) [OF that] p(3) l f by (simp add: spec_request_def case_prod_beta request_fits_def)
  then obtain s' where a: "answer s3 st = Some s'" "represents s' (fst (spec_request d r))"
    "message (response s') = padded (snd (spec_request d r))" "NUL \<notin> set (snd (spec_request d r))"
    "length (snd (spec_request d r)) < STRING_LIMIT"
    "running s' = running s3" using answer_ok [OF s3(2), of st] s3(3) by metis
  have "terminated (sstr s)" using s ready_padded by (auto simp: represents_def ready_def)
  then have st: "server_step (Some r) True s = Some s'"
    using s3(1) a(1) by (simp add: server_step_def prepared_def Let_def)
  have "(message (response s'))[STRING_LIMIT - 1 := NUL] = message (response s')"
    using a(3,5) by (intro list_update_same_conv [THEN iffD2]) (auto simp: nth_padded)
  then have "client_print (response s') = exits (snd (spec_request d r) @ NL) '''' 0"
    using a(3-5) by (simp add: client_print_def)
  then show ?thesis using that [OF st a(2)] s3(4) a(6) by (simp add: prepared_def)
qed

subsection \<open>Properties\<close>

text \<open>The requests of a session all fit.\<close>

fun session_fits :: "ClientRequest list \<Rightarrow> doc \<Rightarrow> bool" where
  "session_fits [] d = True"
| "session_fits (r # rs) d = (request_fits d r \<and> session_fits rs (fst (spec_request d r)))"

lemma init_represents:
  assumes i: "server_init junk t = Some s0" and t: "NUL \<notin> set t" "length t < STRING_LIMIT"
    and j: "length (sstr junk) = STRING_LIMIT" "length (message (response junk)) = STRING_LIMIT"
    "ready (sprev1 junk)" "ready (sprev2 junk)" "ready (sprev3 junk)"
  shows "represents s0 (t, []) \<and> running s0"
  using i strncpy_padded [OF j(1) t] t j
  by (auto simp: server_init_def represents_def Let_def split: if_splits)

text \<open>Uninitialised variables that happen to be zero.\<close>

definition server_zero :: ServerState where
  "server_zero = (let z = replicate STRING_LIMIT NUL; r = \<lparr>command = NUL, index = 0, character = NUL\<rparr> in
     \<lparr>sstr = z, sprev1 = z, sprev2 = z, sprev3 = z, slen = 0, snum = 0, request = r,
      response = \<lparr>rstatus = 0, message = z\<rparr>, running = True\<rparr>)"

definition ask :: "string list \<Rightarrow> ClientRequest" where
  "ask args = (case client_request args of None \<Rightarrow> \<lparr>command = NUL, index = 0, character = NUL\<rparr> | Some r \<Rightarrow> r)"

text \<open>
  Nothing stops an insert into a full text of 75 characters: it is accepted and takes the
  NUL away, and the server's next \<open>strlen\<close> leaves the array.
\<close>

theorem server_overruns_full_text:
  "case server_init server_zero (replicate 75 CHR ''a'') of None \<Rightarrow> False | Some s0 \<Rightarrow>
     (case server_step (Some (ask [''insert'', ''0'', ''b''])) True s0 of None \<Rightarrow> False
      | Some s1 \<Rightarrow> client_print (response s1) = exits (''OK'' @ NL) '''' 0
          \<and> server_step (Some (ask [''undo''])) True s1 = None)"
  by code_simp

text \<open>
  When SIGINT makes \<open>mq_receive\<close> fail, the server runs the last request once more before it
  stops: after one insert into an empty text, the final report shows the character twice.
\<close>

theorem server_sigint_repeats:
  "case server_init server_zero [] of None \<Rightarrow> False | Some s0 \<Rightarrow>
     (case server_run [Some (ask [''insert'', ''0'', ''a'']), None] s0 of None \<Rightarrow> False
      | Some s' \<Rightarrow> \<not> running s' \<and> final_report s' = exits (NL @ ''aa [2]'' @ NL) '''' 0)"
  by code_simp

end
