(* ===== verification/Malloc.thy ===== *)
theory Malloc
  imports Prelude "HOL-Library.Word"
begin

text \<open>
  The memory allocator of exercise 11, \<open>exercises/ex11/myMalloc.c\<close>: a free list of holes, ordered by
  address, first fit, split and coalesced. Memory is a function from addresses to bytes; the
  fields of a hole are the 64-bit little-endian words at offsets 0 (\<open>size\<close>) and 8 (\<open>mem\<close>, where
  \<open>next\<close> is while the hole is free). \<open>size_t\<close> arithmetic is written out modulo \<open>2 ^ 64\<close>; a loop over
  the list is \<open>partial_function\<close>, so that not returning is \<open>None\<close>. \<open>mmap\<close> and the page size are
  parameters: \<open>mmap hint len\<close> is the address the system returns, or \<open>None\<close>.

  Proved: the routines refine first fit and ordered insertion on the list of holes; malloc and free
  keep holes and live blocks apart, never touch a live block and lose no byte; free undoes malloc;
  what realloc copies and what the report functions print; the overflows in malloc and calloc.
\<close>

subsection \<open>Memory\<close>

type_synonym byte = "8 word"

type_synonym memory = "nat \<Rightarrow> byte"

definition load64 :: "memory \<Rightarrow> nat \<Rightarrow> nat" where
  "load64 m a = (\<Sum>i\<leftarrow>[0..<8]. unat (m (a + i)) * 256 ^ i)"

definition store64 :: "memory \<Rightarrow> nat \<Rightarrow> nat \<Rightarrow> memory" where
  "store64 m a v = (\<lambda>x. if a \<le> x \<and> x < a + 8 then of_nat (v div 256 ^ (x - a)) else m x)"

text \<open>\<open>size_t\<close>: wrap-around at \<open>2 ^ 64\<close>.\<close>

definition wrap :: "nat \<Rightarrow> nat" where "wrap n = n mod 2 ^ 64"

definition minus64 :: "nat \<Rightarrow> nat \<Rightarrow> nat" where "minus64 a b = (a + 2 ^ 64 - b) mod 2 ^ 64"

lemma wrap_id [simp]: "n < 2 ^ 64 \<Longrightarrow> wrap n = n"
  by (simp add: wrap_def)

lemma minus64_id [simp]: "b \<le> a \<Longrightarrow> a < 2 ^ 64 \<Longrightarrow> minus64 a b = a - b"
proof -
  assume "b \<le> a" "a < 2 ^ 64"
  then have "a + 2 ^ 64 - b = a - b + 2 ^ 64" "a - b < 2 ^ 64" by simp_all
  then show ?thesis unfolding minus64_def by (simp only: mod_add_self2 mod_less)
qed

lemma base256: "(\<Sum>i\<leftarrow>[0..<n]. (v div 256 ^ i mod 256) * 256 ^ i) = v mod (256 ^ n :: nat)"
proof (induction n)
  case (Suc n)
  have "v mod (256 ^ n * 256) = 256 ^ n * (v div 256 ^ n mod 256) + v mod 256 ^ n" by (rule mod_mult2_eq)
  then show ?case using Suc by (simp add: mult.commute)
qed simp

lemma load_store_same: "v < 2 ^ 64 \<Longrightarrow> load64 (store64 m a v) a = v"
proof -
  assume v: "v < 2 ^ 64"
  have "load64 (store64 m a v) a = (\<Sum>i\<leftarrow>[0..<8]. (v div 256 ^ i mod 256) * 256 ^ i)"
    unfolding load64_def store64_def
    by (intro arg_cong [where f = sum_list] map_cong) (simp_all add: unsigned_of_nat take_bit_eq_mod)
  also have "\<dots> = v mod 256 ^ 8" by (rule base256)
  also have "\<dots> = v" using v by simp
  finally show ?thesis .
qed

lemma load_store_other: "b + 8 \<le> a \<or> a + 8 \<le> b \<Longrightarrow> load64 (store64 m a v) b = load64 m b"
  unfolding load64_def store64_def by (intro arg_cong [where f = sum_list] map_cong) auto

lemma store64_frame: "x < a \<or> a + 8 \<le> x \<Longrightarrow> store64 m a v x = m x"
  by (auto simp: store64_def)

subsection \<open>Holes\<close>

text \<open>\<open>sizeof(size_t)\<close>, \<open>sizeof(Hole)\<close>, and the two fields of a hole.\<close>

definition SIZE_FIELD :: nat where "SIZE_FIELD = 8"

definition HOLE_SIZE :: nat where "HOLE_SIZE = 16"

definition hole_size :: "memory \<Rightarrow> nat \<Rightarrow> nat" where "hole_size m h = load64 m h"

definition hole_next :: "memory \<Rightarrow> nat \<Rightarrow> nat" where "hole_next m h = load64 m (h + SIZE_FIELD)"

definition set_size :: "memory \<Rightarrow> nat \<Rightarrow> nat \<Rightarrow> memory" where "set_size m h v = store64 m h v"

definition set_next :: "memory \<Rightarrow> nat \<Rightarrow> nat \<Rightarrow> memory" where "set_next m h v = store64 m (h + SIZE_FIELD) v"

record heap =
  mem :: memory
  freeList :: nat
  nextBlock :: nat

text \<open>\<open>getBlock\<close>: the block, or 0.\<close>

partial_function (option) getBlock_loop :: "heap \<Rightarrow> nat \<Rightarrow> nat \<Rightarrow> nat \<Rightarrow> (nat \<times> heap) option" where
  [code]: "getBlock_loop hp bytes pred cur =
     (if cur = 0 then Some (0, hp)
      else if hole_size (mem hp) cur \<ge> bytes then
        Some (cur, if pred = 0 then hp\<lparr>freeList := hole_next (mem hp) cur\<rparr>
                    else hp\<lparr>mem := set_next (mem hp) pred (hole_next (mem hp) cur)\<rparr>)
      else getBlock_loop hp bytes cur (hole_next (mem hp) cur))"

definition getBlock :: "heap \<Rightarrow> nat \<Rightarrow> (nat \<times> heap) option" where
  "getBlock hp bytes = getBlock_loop hp bytes 0 (freeList hp)"

text \<open>\<open>returnBlock\<close>: the search for the predecessor, the link, and the two merges.\<close>

partial_function (option) find_pred :: "memory \<Rightarrow> nat \<Rightarrow> nat \<Rightarrow> nat \<Rightarrow> nat option" where
  [code]: "find_pred m h pred node =
     (if node \<noteq> 0 \<and> node < h then find_pred m h node (hole_next m node) else Some pred)"

definition link_block :: "heap \<Rightarrow> nat \<Rightarrow> nat \<Rightarrow> heap" where
  "link_block hp h pred =
     (if pred \<noteq> 0
      then let m1 = set_next (mem hp) h (hole_next (mem hp) pred) in hp\<lparr>mem := set_next m1 pred h\<rparr>
      else hp\<lparr>mem := set_next (mem hp) h (freeList hp), freeList := h\<rparr>)"

definition absorb_next :: "memory \<Rightarrow> nat \<Rightarrow> memory" where
  "absorb_next m h =
     (let n = hole_next m h in
      if n \<noteq> 0 \<and> h + SIZE_FIELD + hole_size m h = n
      then let m1 = set_size m h (wrap (hole_size m h + hole_size m n + SIZE_FIELD))
           in set_next m1 h (hole_next m1 (hole_next m1 h))
      else m)"

definition absorb_into :: "memory \<Rightarrow> nat \<Rightarrow> nat \<Rightarrow> memory" where
  "absorb_into m pred h =
     (if pred + SIZE_FIELD + hole_size m pred = h
      then let m1 = set_size m pred (wrap (hole_size m pred + hole_size m h + SIZE_FIELD))
           in set_next m1 pred (hole_next m1 h)
      else m)"

definition returnBlock :: "heap \<Rightarrow> nat \<Rightarrow> heap option" where
  "returnBlock hp h =
     (case find_pred (mem hp) h 0 (freeList hp) of
        None \<Rightarrow> None
      | Some pred \<Rightarrow>
          let hp1 = link_block hp h pred;
              hp2 = hp1\<lparr>mem := absorb_next (mem hp1) h\<rparr>
          in Some (if pred \<noteq> 0 then hp2\<lparr>mem := absorb_into (mem hp2) pred h\<rparr> else hp2))"

subsection \<open>The allocator\<close>

text \<open>\<open>malloc\<close>: the address it returns (0 is NULL) and the heap.\<close>

definition request_size :: "nat \<Rightarrow> nat" where
  "request_size bytes = (let s = (if bytes < 8 then 8 else bytes) in wrap (s + 3) div 4 * 4)"

definition page_request :: "nat \<Rightarrow> nat \<Rightarrow> nat" where
  "page_request psize bytes = (let req = wrap (bytes + SIZE_FIELD) in wrap (req + psize - 1) div psize * psize)"

definition split_block :: "heap \<Rightarrow> nat \<Rightarrow> nat \<Rightarrow> heap option" where
  "split_block hp h bytes =
     (if wrap (bytes + HOLE_SIZE) \<le> hole_size (mem hp) h
      then let h2 = h + SIZE_FIELD + bytes;
               m1 = set_size (mem hp) h2 (minus64 (minus64 (hole_size (mem hp) h) bytes) SIZE_FIELD);
               m2 = set_size m1 h bytes
           in returnBlock (hp\<lparr>mem := m2\<rparr>) h2
      else Some hp)"

definition malloc :: "(nat \<Rightarrow> nat \<Rightarrow> nat option) \<Rightarrow> nat \<Rightarrow> heap \<Rightarrow> nat \<Rightarrow> (nat \<times> heap) option" where
  "malloc mmap psize hp size0 =
     (let bytes = request_size size0 in
      case getBlock hp bytes of
        None \<Rightarrow> None
      | Some (h, hp1) \<Rightarrow>
          if h \<noteq> 0 then map_option (\<lambda>hp2. (h + SIZE_FIELD, hp2)) (split_block hp1 h bytes)
          else let req = page_request psize bytes in
            (case mmap (nextBlock hp1) req of
               None \<Rightarrow> Some (0, hp1)
             | Some h \<Rightarrow> map_option (\<lambda>hp2. (h + SIZE_FIELD, hp2))
                 (split_block (hp1\<lparr>mem := set_size (mem hp1) h (minus64 req SIZE_FIELD),
                                   nextBlock := nextBlock hp1 + req\<rparr>) h bytes)))"

definition free :: "heap \<Rightarrow> nat \<Rightarrow> heap option" where
  "free hp ptr = (if ptr = 0 then Some hp else returnBlock hp (ptr - SIZE_FIELD))"

text \<open>\<open>calloc\<close>; the loop that zeroes the block.\<close>

fun zero_bytes :: "memory \<Rightarrow> nat \<Rightarrow> nat \<Rightarrow> memory" where
  "zero_bytes m p 0 = m"
| "zero_bytes m p (Suc n) = (zero_bytes m p n)(p + n := 0)"

definition calloc :: "(nat \<Rightarrow> nat \<Rightarrow> nat option) \<Rightarrow> nat \<Rightarrow> heap \<Rightarrow> nat \<Rightarrow> nat \<Rightarrow> (nat \<times> heap) option" where
  "calloc mmap psize hp cnt bytes =
     (let n = wrap (cnt * bytes) in
      case malloc mmap psize hp n of
        None \<Rightarrow> None
      | Some (p, hp1) \<Rightarrow> Some (p, if p \<noteq> 0 then hp1\<lparr>mem := zero_bytes (mem hp1) p n\<rparr> else hp1))"

text \<open>\<open>realloc\<close>; \<open>None\<close> also when its \<open>int\<close> index overflows.\<close>

fun copy_bytes :: "memory \<Rightarrow> nat \<Rightarrow> nat \<Rightarrow> nat \<Rightarrow> memory" where
  "copy_bytes m p2 p1 0 = m"
| "copy_bytes m p2 p1 (Suc n) = (let m' = copy_bytes m p2 p1 n in m'(p2 + n := m' (p1 + n)))"

definition realloc :: "(nat \<Rightarrow> nat \<Rightarrow> nat option) \<Rightarrow> nat \<Rightarrow> heap \<Rightarrow> nat \<Rightarrow> nat \<Rightarrow> (nat \<times> heap) option" where
  "realloc mmap psize hp ptr bytes =
     (if ptr = 0 then malloc mmap psize hp bytes
      else if bytes = 0 then map_option (\<lambda>hp1. (0, hp1)) (free hp ptr)
      else case malloc mmap psize hp bytes of
        None \<Rightarrow> None
      | Some (p2, hp1) \<Rightarrow>
          if p2 = 0 then Some (0, hp1)
          else let old = hole_size (mem hp1) (ptr - SIZE_FIELD);
                   sz = (if old < bytes then old else bytes)
               in if sz \<ge> 2 ^ 31 then None
                  else map_option (\<lambda>hp2. (p2, hp2))
                    (free (hp1\<lparr>mem := copy_bytes (mem hp1) p2 ptr sz\<rparr>) ptr))"

subsection \<open>The free list as a list of holes\<close>

type_synonym block = "nat \<times> nat"

fun seg :: "memory \<Rightarrow> nat \<Rightarrow> block list \<Rightarrow> nat \<Rightarrow> bool" where
  "seg m p [] q = (p = q)"
| "seg m p ((a, s) # F) q = (p = a \<and> a \<noteq> 0 \<and> hole_size m a = s \<and> seg m (hole_next m a) F q)"

text \<open>Headers at least 16 bytes apart; and the property of the list: holes ordered, none touching the next.\<close>

fun wide :: "block list \<Rightarrow> bool" where
  "wide [] = True"
| "wide ((a, s) # F) = (0 < a \<and> a + HOLE_SIZE \<le> 2 ^ 64 \<and> (\<forall>(b, t) \<in> set F. a + HOLE_SIZE \<le> b) \<and> wide F)"

fun spaced :: "block list \<Rightarrow> bool" where
  "spaced [] = True"
| "spaced ((a, s) # F) = (0 < a \<and> 8 \<le> s \<and> a + SIZE_FIELD + s \<le> 2 ^ 64
     \<and> (\<forall>(b, t) \<in> set F. a + SIZE_FIELD + s < b) \<and> spaced F)"

lemmas sizes = SIZE_FIELD_def HOLE_SIZE_def

lemma spaced_wide: "spaced F \<Longrightarrow> wide F"
  by (induction F rule: spaced.induct) (auto simp: sizes)

lemma seg_append: "seg m p (F @ G) q \<longleftrightarrow> (\<exists>r. seg m p F r \<and> seg m r G q)"
  by (induction m p F q rule: seg.induct) auto

lemma seg_head: "seg m p F 0 \<Longrightarrow> p = (case F of [] \<Rightarrow> 0 | (a, s) # _ \<Rightarrow> a)"
  by (cases F) auto

lemma seg_frame:
  "seg m p F q \<Longrightarrow> \<forall>(a, s) \<in> set F. x + 8 \<le> a \<or> a + HOLE_SIZE \<le> x \<Longrightarrow> seg (store64 m x v) p F q"
  by (induction m p F q rule: seg.induct) (auto simp: hole_size_def hole_next_def load_store_other sizes)

lemma wide_append:
  "wide (F @ G) \<longleftrightarrow> wide F \<and> wide G \<and> (\<forall>(a, s) \<in> set F. \<forall>(b, t) \<in> set G. a + HOLE_SIZE \<le> b)"
  by (induction F rule: wide.induct) auto

lemma spaced_append:
  "spaced (F @ G) \<longleftrightarrow> spaced F \<and> spaced G \<and> (\<forall>(a, s) \<in> set F. \<forall>(b, t) \<in> set G. a + SIZE_FIELD + s < b)"
  by (induction F rule: spaced.induct) auto

lemma hole_simps [simp]:
  "v < 2 ^ 64 \<Longrightarrow> hole_size (set_size m a v) a = v"
  "v < 2 ^ 64 \<Longrightarrow> hole_next (set_next m a v) a = v"
  "hole_next (set_size m a v) a = hole_next m a"
  "hole_size (set_next m a v) a = hole_size m a"
  by (simp_all add: hole_size_def hole_next_def set_size_def set_next_def load_store_same load_store_other sizes)

lemma hole_other:
  assumes "a + HOLE_SIZE \<le> b \<or> b + HOLE_SIZE \<le> a"
  shows "hole_size (set_size m a v) b = hole_size m b" "hole_next (set_size m a v) b = hole_next m b"
    "hole_size (set_next m a v) b = hole_size m b" "hole_next (set_next m a v) b = hole_next m b"
  using assms by (auto simp: hole_size_def hole_next_def set_size_def set_next_def load_store_other sizes)

lemma seg_set:
  assumes "seg m p F q" "\<forall>(b, t) \<in> set F. a + HOLE_SIZE \<le> b \<or> b + HOLE_SIZE \<le> a"
  shows "seg (set_size m a v) p F q" "seg (set_next m a v) p F q"
  unfolding set_size_def set_next_def using assms(2)
  by (intro seg_frame [OF assms(1)]; fastforce simp: sizes)+

lemma seg_resize:
  assumes "seg m p (P @ (a, s) # Q) 0" "wide (P @ (a, s) # Q)" "v < 2 ^ 64"
  shows "seg (set_size m a v) p (P @ (a, v) # Q) 0"
proof -
  obtain "seg m p P a" "seg m (hole_next m a) Q 0" "a \<noteq> 0" using assms(1) by (auto simp: seg_append)
  moreover have "\<forall>(b, t) \<in> set P. a + HOLE_SIZE \<le> b \<or> b + HOLE_SIZE \<le> a" "\<forall>(b, t) \<in> set Q. a + HOLE_SIZE \<le> b \<or> b + HOLE_SIZE \<le> a"
    using assms(2) by (auto simp: wide_append)
  ultimately show ?thesis using assms(3) seg_set(1) by (simp add: seg_append)
qed

lemma seg_relink:
  assumes "seg m p P a" "seg m r Q 0" "a \<noteq> 0" "hole_size m a = s" "wide (P @ (a, s) # Q)"
  shows "seg (set_next m a r) p (P @ (a, s) # Q) 0"
proof -
  have "\<forall>(b, t) \<in> set P. a + HOLE_SIZE \<le> b \<or> b + HOLE_SIZE \<le> a" "\<forall>(b, t) \<in> set Q. a + HOLE_SIZE \<le> b \<or> b + HOLE_SIZE \<le> a"
    using assms(5) by (auto simp: wide_append)
  moreover have "r < 2 ^ 64" using seg_head [OF assms(2)] assms(5) by (cases Q) (auto simp: wide_append sizes)
  ultimately show ?thesis using assms seg_set(2) by (simp add: seg_append)
qed

subsection \<open>First fit\<close>

text \<open>The specification of \<open>getBlock\<close>.\<close>

fun first_fit :: "nat \<Rightarrow> block list \<Rightarrow> (block \<times> block list) option" where
  "first_fit n [] = None"
| "first_fit n (x # F) = (if snd x \<ge> n then Some (x, F)
     else map_option (\<lambda>(y, G). (y, x # G)) (first_fit n F))"

lemma first_fit_split:
  "first_fit n F = Some ((a, s), G) \<Longrightarrow> \<exists>P Q. F = P @ (a, s) # Q \<and> G = P @ Q \<and> n \<le> s \<and> (\<forall>(b, t) \<in> set P. t < n)"
proof (induction F arbitrary: G)
  case (Cons x F)
  show ?case
  proof (cases "snd x \<ge> n")
    case True
    then show ?thesis using Cons.prems by (intro exI [of _ "[]"] exI [of _ F]) auto
  next
    case False
    then obtain G' where "first_fit n F = Some ((a, s), G')" "G = x # G'" using Cons.prems by auto
    then obtain P Q where "F = P @ (a, s) # Q" "G = (x # P) @ Q" "n \<le> s" "\<forall>(b, t) \<in> set P. t < n"
      using Cons.IH by fastforce
    then show ?thesis using False by (intro exI [of _ "x # P"] exI [of _ Q]) auto
  qed
qed simp

lemma getBlock_loop_skip:
  "seg (mem hp) cur (P @ Q) 0 \<Longrightarrow> \<forall>(b, t) \<in> set P. t < n \<Longrightarrow>
    getBlock_loop hp n pred cur
      = getBlock_loop hp n (if P = [] then pred else fst (last P)) (case Q of [] \<Rightarrow> 0 | (a, s) # _ \<Rightarrow> a)"
proof (induction P arbitrary: pred cur)
  case Nil
  then show ?case using seg_head [of "mem hp" cur Q] by simp
next
  case (Cons x P)
  obtain a s where x: "x = (a, s)" by fastforce
  then show ?case using Cons by (subst getBlock_loop.simps) auto
qed

lemma getBlock_refines:
  assumes s: "seg (mem hp) (freeList hp) F 0" and w: "wide F"
  shows "case first_fit n F of
      None \<Rightarrow> getBlock hp n = Some (0, hp)
    | Some ((a, k), G) \<Rightarrow> a \<noteq> 0 \<and> (\<exists>m p. getBlock hp n = Some (a, hp\<lparr>mem := m, freeList := p\<rparr>)
        \<and> seg m p G 0 \<and> hole_size m a = k
        \<and> (\<forall>x. (\<forall>(b, t) \<in> set G. x < b \<or> b + HOLE_SIZE \<le> x) \<longrightarrow> m x = mem hp x))"
proof (cases "first_fit n F")
  case None
  then have "\<forall>(b, t) \<in> set F. t < n"
    by (induction F) (auto split: if_splits)
  then have "getBlock_loop hp n 0 (freeList hp) = getBlock_loop hp n (if F = [] then 0 else fst (last F)) 0"
    using getBlock_loop_skip [of hp "freeList hp" F "[]"] s by simp
  then show ?thesis using None by (simp add: getBlock_def getBlock_loop.simps)
next
  case (Some y)
  obtain a k G where y: "y = ((a, k), G)" by (metis prod.collapse)
  obtain P Q where f: "F = P @ (a, k) # Q" "G = P @ Q" "n \<le> k" "\<forall>(b, t) \<in> set P. t < n"
    using first_fit_split Some y by blast
  have g: "getBlock hp n = getBlock_loop hp n (if P = [] then 0 else fst (last P)) a"
    using getBlock_loop_skip [of hp "freeList hp" P "(a, k) # Q" n 0] s f by (simp add: getBlock_def)
  have a: "a \<noteq> 0" "hole_size (mem hp) a = k" "seg (mem hp) (freeList hp) P a" "seg (mem hp) (hole_next (mem hp) a) Q 0"
    using s f(1) by (auto simp: seg_append)
  show ?thesis
  proof (cases P rule: rev_cases)
    case Nil
    then have "getBlock hp n = Some (a, hp\<lparr>mem := mem hp, freeList := hole_next (mem hp) a\<rparr>)"
      using g a f(3) by (simp add: getBlock_loop.simps)
    moreover have "seg (mem hp) (hole_next (mem hp) a) G 0" using a(4) f(2) Nil by simp
    ultimately have "a \<noteq> 0 \<and> (\<exists>m p. getBlock hp n = Some (a, hp\<lparr>mem := m, freeList := p\<rparr>) \<and> seg m p G 0
        \<and> hole_size m a = k \<and> (\<forall>x. (\<forall>(b, t) \<in> set G. x < b \<or> b + HOLE_SIZE \<le> x) \<longrightarrow> m x = mem hp x))"
      using a(1,2) by blast
    then show ?thesis unfolding Some y by simp
  next
    case (snoc P' x)
    obtain b t where x: "x = (b, t)" by fastforce
    let ?m = "set_next (mem hp) b (hole_next (mem hp) a)"
    have b: "b \<noteq> 0" "hole_size (mem hp) b = t" "seg (mem hp) (freeList hp) P' b"
      using a(3) snoc x by (auto simp: seg_append)
    have w': "wide (P' @ (b, t) # Q)" using w f(1) snoc x by (auto simp: wide_append)
    have "getBlock hp n = Some (a, hp\<lparr>mem := ?m, freeList := freeList hp\<rparr>)"
      using g a(1,2) f(3) b(1) snoc x by (simp add: getBlock_loop.simps)
    moreover have "seg ?m (freeList hp) G 0"
      using seg_relink [OF b(3) a(4) b(1,2) w'] f(2) snoc x by simp
    moreover have "b + HOLE_SIZE \<le> a" using w f(1) snoc x by (auto simp: wide_append)
    then have "hole_size ?m a = k" using a(2) hole_other(3) by metis
    moreover have "?m z = mem hp z" if "\<forall>(c, u) \<in> set G. z < c \<or> c + HOLE_SIZE \<le> z" for z
      using that f(2) snoc x by (auto simp: set_next_def sizes intro!: store64_frame)
    ultimately have "a \<noteq> 0 \<and> (\<exists>m p. getBlock hp n = Some (a, hp\<lparr>mem := m, freeList := p\<rparr>) \<and> seg m p G 0
        \<and> hole_size m a = k \<and> (\<forall>x. (\<forall>(b, t) \<in> set G. x < b \<or> b + HOLE_SIZE \<le> x) \<longrightarrow> m x = mem hp x))"
      using a(1) by blast
    then show ?thesis unfolding Some y by simp
  qed
qed

subsection \<open>Ordered insertion\<close>

text \<open>The specification of \<open>returnBlock\<close>: insert in order, and join blocks that touch.\<close>

fun join :: "block \<Rightarrow> block list \<Rightarrow> block list" where
  "join (a, s) [] = [(a, s)]"
| "join (a, s) ((b, t) # F) = (if a + SIZE_FIELD + s = b then (a, s + t + SIZE_FIELD) # F else (a, s) # (b, t) # F)"

fun put_block :: "block \<Rightarrow> block list \<Rightarrow> block list" where
  "put_block x [] = [x]"
| "put_block x (y # F) = (if fst y < fst x then join y (put_block x F) else join x (y # F))"

text \<open>The bytes of a block, its header included; blocks apart.\<close>

definition region :: "block \<Rightarrow> nat set" where
  "region x = {fst x..<fst x + SIZE_FIELD + snd x}"

definition apart :: "block \<Rightarrow> block \<Rightarrow> bool" where
  "apart x y \<longleftrightarrow> region x \<inter> region y = {}"

lemma apart_order: "apart (a, s) (b, t) \<longleftrightarrow> a + SIZE_FIELD + s \<le> b \<or> b + SIZE_FIELD + t \<le> a"
proof
  assume "apart (a, s) (b, t)"
  then have "max a b \<notin> region (a, s) \<or> max a b \<notin> region (b, t)" by (auto simp: apart_def)
  then show "a + SIZE_FIELD + s \<le> b \<or> b + SIZE_FIELD + t \<le> a" by (auto simp: region_def max_def sizes split: if_splits)
qed (auto simp: apart_def region_def)

text \<open>A block that can be returned to the list.\<close>

definition returnable :: "block \<Rightarrow> block list \<Rightarrow> bool" where
  "returnable x F \<longleftrightarrow> 0 < fst x \<and> 8 \<le> snd x \<and> fst x + SIZE_FIELD + snd x \<le> 2 ^ 64 \<and> (\<forall>y \<in> set F. apart x y)"

lemma join_head:
  obtains k R where "join (a, s) F = (a, k) # R" "set R \<subseteq> set F"
proof (cases F)
  case (Cons y G)
  obtain b t where "y = (b, t)" by fastforce
  then show ?thesis using that [of "s + t + SIZE_FIELD" G] that [of s F] Cons
    by (cases "a + SIZE_FIELD + s = b") auto
qed (use that in simp)

lemma join_region: "\<Union> (region ` set (join x F)) = region x \<union> \<Union> (region ` set F)"
  by (cases "(x, F)" rule: join.cases) (auto simp: region_def sizes)

lemma put_block_region: "\<Union> (region ` set (put_block x F)) = region x \<union> \<Union> (region ` set F)"
  by (induction x F rule: put_block.induct) (auto simp: join_region)

lemma split_at:
  assumes "spaced F" "returnable (h, s) F"
  obtains P Q where "F = P @ Q" "\<forall>(a, t) \<in> set P. a + SIZE_FIELD + t \<le> h" "\<forall>(b, t) \<in> set Q. h + SIZE_FIELD + s \<le> b"
proof -
  have "\<exists>P Q. F = P @ Q \<and> (\<forall>(a, t) \<in> set P. a + SIZE_FIELD + t \<le> h) \<and> (\<forall>(b, t) \<in> set Q. h + SIZE_FIELD + s \<le> b)"
    using assms
  proof (induction F)
    case (Cons x F)
    obtain a t where x: "x = (a, t)" by fastforce
    have r: "returnable (h, s) F" "apart (h, s) (a, t)" using Cons.prems(2) x by (auto simp: returnable_def)
    show ?case
    proof (cases "a < h")
      case True
      obtain P Q where "F = P @ Q" "\<forall>(a, t) \<in> set P. a + SIZE_FIELD + t \<le> h" "\<forall>(b, t) \<in> set Q. h + SIZE_FIELD + s \<le> b"
        using Cons.IH r(1) Cons.prems(1) x by auto
      then show ?thesis using True r(2) x by (intro exI [of _ "x # P"] exI [of _ Q]) (auto simp: apart_order)
    next
      case False
      then have h: "h + SIZE_FIELD + s \<le> a" using r(2) by (auto simp: apart_order sizes)
      then have "\<forall>(b, u) \<in> set F. h + SIZE_FIELD + s \<le> b" using Cons.prems(1) x by fastforce
      then show ?thesis using h x by (intro exI [of _ "[]"] exI [of _ "x # F"]) auto
    qed
  qed simp
  then show ?thesis using that by blast
qed

lemma put_block_below:
  assumes "\<forall>(b, t) \<in> set Q. h + SIZE_FIELD + s \<le> b"
  shows "put_block (h, s) Q = join (h, s) Q"
  using assms by (cases Q) (auto simp: sizes)

lemma put_block_above:
  assumes "spaced (P @ (b, t) # Q)" "\<forall>(a, u) \<in> set (P @ [(b, t)]). a + SIZE_FIELD + u \<le> h" "\<forall>(c, u) \<in> set Q. h + SIZE_FIELD + s \<le> c"
  shows "put_block (h, s) (P @ (b, t) # Q) = P @ join (b, t) (join (h, s) Q)"
  using assms
proof (induction P)
  case Nil
  then show ?case using put_block_below [of Q h s] by (auto simp: sizes)
next
  case (Cons x P)
  obtain a u where x: "x = (a, u)" by fastforce
  have j: "join (a, u) (P @ join (b, t) (join (h, s) Q)) = (a, u) # P @ join (b, t) (join (h, s) Q)"
  proof (cases P)
    case Nil
    obtain k R where "join (b, t) (join (h, s) Q) = (b, k) # R" using join_head by metis
    then show ?thesis using Nil Cons.prems(1) x by auto
  next
    case (Cons y P')
    then show ?thesis using Cons.prems(1) x by (cases y) auto
  qed
  have "put_block (h, s) (P @ (b, t) # Q) = P @ join (b, t) (join (h, s) Q)"
    using Cons.IH Cons.prems x by simp
  moreover have "a < h" using Cons.prems(2) x by (auto simp: sizes)
  ultimately show ?case using j x by simp
qed

lemma spaced_join:
  assumes "spaced F" "0 < a" "8 \<le> s" "a + SIZE_FIELD + s \<le> 2 ^ 64" "\<forall>(b, t) \<in> set F. a + SIZE_FIELD + s \<le> b"
  shows "spaced (join (a, s) F)"
proof (cases F)
  case (Cons y G)
  obtain b t where y: "y = (b, t)" by fastforce
  have "\<forall>(c, u) \<in> set G. a + SIZE_FIELD + s < c" using assms(1,5) Cons y by (fastforce simp: sizes)
  then show ?thesis using assms Cons y by (fastforce simp: sizes)
qed (use assms in simp)

lemma put_block_spaced:
  assumes "spaced F" "returnable x F"
  shows "spaced (put_block x F)"
proof -
  obtain h s where x: "x = (h, s)" by fastforce
  obtain P Q where F: "F = P @ Q" and P: "\<forall>(a, t) \<in> set P. a + SIZE_FIELD + t \<le> h" and Q: "\<forall>(b, t) \<in> set Q. h + SIZE_FIELD + s \<le> b"
    using split_at assms unfolding x by metis
  have sp: "spaced P" "spaced Q" "\<forall>(a, t) \<in> set P. \<forall>(b, u) \<in> set Q. a + SIZE_FIELD + t < b"
    using assms(1) unfolding F spaced_append by blast+
  have j: "spaced (join (h, s) Q)" using assms(2) Q sp(2) unfolding x by (intro spaced_join) (auto simp: returnable_def)
  have above: "\<forall>(c, u) \<in> set (join (h, s) Q). h \<le> c"
    using Q by (rule_tac join_head [of h s Q]) (fastforce simp: sizes)
  show ?thesis
  proof (cases P rule: rev_cases)
    case Nil
    then show ?thesis using j put_block_below [OF Q] F x by simp
  next
    case (snoc P' y)
    obtain b t where y: "y = (b, t)" by fastforce
    have b: "0 < b" "8 \<le> t" "b + SIZE_FIELD + t \<le> h" "b + SIZE_FIELD + t \<le> 2 ^ 64"
      using sp(1) P snoc y by (auto simp: spaced_append)
    have J: "spaced (join (b, t) (join (h, s) Q))"
      using spaced_join [OF j b(1,2,4)] above b(3) by fastforce
    have "\<forall>(c, u) \<in> set (join (b, t) (join (h, s) Q)). b \<le> c"
      using above b(3) by (rule_tac join_head [of b t "join (h, s) Q"]) (fastforce simp: sizes)
    moreover have "\<forall>(a, u) \<in> set P'. a + SIZE_FIELD + u < b" using sp(1) snoc y by (auto simp: spaced_append)
    ultimately have "spaced (P' @ join (b, t) (join (h, s) Q))"
      using J sp(1) snoc y by (fastforce simp: spaced_append)
    moreover have "put_block (h, s) (P' @ (b, t) # Q) = P' @ join (b, t) (join (h, s) Q)"
      using put_block_above [of P' b t Q h s] assms(1) F P Q snoc y by simp
    ultimately show ?thesis using F snoc x y by simp
  qed
qed

subsection \<open>\<open>returnBlock\<close> refines ordered insertion\<close>

lemma spaced_bounds: "spaced F \<Longrightarrow> (a, t) \<in> set F \<Longrightarrow> 0 < a \<and> 8 \<le> t \<and> a + SIZE_FIELD + t \<le> 2 ^ 64"
  by (induction F rule: spaced.induct) auto

lemma wide_resize: "wide (P @ (a, s) # Q) \<Longrightarrow> wide (P @ (a, v) # Q)"
  by (auto simp: wide_append)

lemma wide_skip: "wide (P @ x # Q) \<Longrightarrow> wide (P @ Q)"
  by (cases x) (auto simp: wide_append)

lemma find_pred_refines:
  "seg m p (P @ Q) 0 \<Longrightarrow> \<forall>(a, t) \<in> set P. a < h \<Longrightarrow> \<forall>(c, u) \<in> set Q. h \<le> c \<Longrightarrow>
    find_pred m h pred p = Some (if P = [] then pred else fst (last P))"
proof (induction P arbitrary: p pred)
  case Nil
  then show ?case using seg_head [of m p Q]
    by (subst find_pred.simps) (auto split: list.splits)
next
  case (Cons x P)
  obtain a t where x: "x = (a, t)" by fastforce
  then show ?case using Cons by (subst find_pred.simps) auto
qed

lemma absorb:
  assumes s: "seg m p (P @ (a, s) # (c, u) # Q) 0" and w: "wide (P @ (a, s) # (c, u) # Q)" and v: "v < 2 ^ 64"
  shows "seg (set_next (set_size m a v) a (hole_next (set_size m a v) c)) p (P @ (a, v) # Q) 0"
proof -
  let ?m = "set_size m a v"
  have 1: "seg ?m p (P @ (a, v) # (c, u) # Q) 0" by (rule seg_resize [OF s w v])
  then have 2: "seg ?m p P a" "a \<noteq> 0" "hole_size ?m a = v" "seg ?m (hole_next ?m c) Q 0"
    by (auto simp: seg_append)
  have "wide (P @ (a, v) # Q)" using w by (auto simp: wide_append)
  then show ?thesis by (rule seg_relink [OF 2(1,4,2,3)])
qed

lemma absorb_next_refines:
  assumes s: "seg m p (P @ (h, s) # Q) 0" and w: "wide (P @ (h, s) # Q)"
    and e: "\<forall>(c, u) \<in> set Q. c + SIZE_FIELD + u \<le> 2 ^ 64"
  shows "seg (absorb_next m h) p (P @ join (h, s) Q) 0"
proof -
  have h: "h \<noteq> 0" "hole_size m h = s" "seg m (hole_next m h) Q 0" using s by (auto simp: seg_append)
  show ?thesis
  proof (cases Q)
    case Nil
    then show ?thesis using s h by (simp add: absorb_next_def)
  next
    case (Cons y R)
    obtain c u where y: "y = (c, u)" by fastforce
    have n: "hole_next m h = c" "c \<noteq> 0" "hole_size m c = u" using h(3) Cons y by auto
    show ?thesis
    proof (cases "h + SIZE_FIELD + s = c")
      case True
      then have v: "s + u + SIZE_FIELD < 2 ^ 64" using e Cons y h(1) by (auto simp: sizes)
      then show ?thesis using absorb [of m p P h s c u R "s + u + SIZE_FIELD"] s w True n h(2) Cons y
        by (simp add: absorb_next_def Let_def)
    next
      case False
      then show ?thesis using s n h(2) Cons y by (simp add: absorb_next_def)
    qed
  qed
qed

lemma absorb_into_refines:
  assumes s: "seg m p (P @ (b, t) # (h, s) # Q) 0" and w: "wide (P @ (b, t) # (h, s) # Q)"
    and e: "h + SIZE_FIELD + s \<le> 2 ^ 64"
  shows "seg (absorb_into m b h) p (P @ join (b, t) ((h, s) # Q)) 0"
proof -
  have b: "b \<noteq> 0" "hole_size m b = t" "hole_size m h = s" using s by (auto simp: seg_append)
  show ?thesis
  proof (cases "b + SIZE_FIELD + t = h")
    case True
    then have v: "t + s + SIZE_FIELD < 2 ^ 64" using e b(1) by (auto simp: sizes)
    then show ?thesis using absorb [OF s w v] True b by (simp add: absorb_into_def Let_def)
  next
    case False
    then show ?thesis using s b by (simp add: absorb_into_def)
  qed
qed

lemma link_refines:
  assumes s: "seg (mem hp) (freeList hp) (P @ Q) 0" and w: "wide (P @ (h, s) # Q)"
    and h: "0 < h" "hole_size (mem hp) h = s"
  shows "seg (mem (link_block hp h (if P = [] then 0 else fst (last P))))
    (freeList (link_block hp h (if P = [] then 0 else fst (last P)))) (P @ (h, s) # Q) 0"
proof (cases P rule: rev_cases)
  case Nil
  have q: "freeList hp < 2 ^ 64"
    using seg_head [of "mem hp" "freeList hp" Q] s w Nil by (cases Q) (auto simp: sizes)
  have "seg (set_next (mem hp) h (freeList hp)) (freeList hp) Q 0"
    using s w Nil by (intro seg_set) auto
  then show ?thesis using Nil h q by (simp add: link_block_def)
next
  case (snoc P' x)
  obtain b t where x: "x = (b, t)" by fastforce
  let ?q = "hole_next (mem hp) b" and ?m = "set_next (mem hp) h (hole_next (mem hp) b)"
  have b: "seg (mem hp) (freeList hp) P' b" "b \<noteq> 0" "hole_size (mem hp) b = t" "seg (mem hp) ?q Q 0"
    using s snoc x by (auto simp: seg_append)
  have q: "?q < 2 ^ 64" using seg_head [OF b(4)] w snoc x by (cases Q) (auto simp: wide_append sizes)
  have far: "\<forall>(c, u) \<in> set P'. h + HOLE_SIZE \<le> c \<or> c + HOLE_SIZE \<le> h" "\<forall>(c, u) \<in> set Q. h + HOLE_SIZE \<le> c \<or> c + HOLE_SIZE \<le> h"
    "b + HOLE_SIZE \<le> h" using w snoc x by (auto simp: wide_append)
  have m: "seg ?m (freeList hp) P' b" "seg ?m ?q Q 0" "hole_size ?m b = t"
    using seg_set(2) [OF b(1) far(1)] seg_set(2) [OF b(4) far(2)] hole_other(3) [of h b] far(3) b(3) by auto
  have "seg ?m h ((h, s) # Q) 0" using m(2) h q by simp
  then have "seg (set_next ?m b h) (freeList hp) (P' @ (b, t) # (h, s) # Q) 0"
    using seg_relink [OF m(1) _ b(2) m(3)] w snoc x by simp
  then show ?thesis using snoc x b(2) by (simp add: link_block_def Let_def)
qed

text \<open>What the routines leave alone.\<close>

lemma set_frame:
  "x < a \<or> a + HOLE_SIZE \<le> x \<Longrightarrow> set_size m a v x = m x" "x < a \<or> a + HOLE_SIZE \<le> x \<Longrightarrow> set_next m a v x = m x"
  by (auto simp: set_size_def set_next_def sizes intro!: store64_frame)

lemma absorb_frame:
  "x < h \<or> h + HOLE_SIZE \<le> x \<Longrightarrow> absorb_next m h x = m x"
  "x < b \<or> b + HOLE_SIZE \<le> x \<Longrightarrow> absorb_into m b h x = m x"
  by (simp_all add: absorb_next_def absorb_into_def Let_def set_frame)

lemma link_frame:
  "x < h \<or> h + HOLE_SIZE \<le> x \<Longrightarrow> b \<noteq> 0 \<longrightarrow> x < b \<or> b + HOLE_SIZE \<le> x \<Longrightarrow> mem (link_block hp h b) x = mem hp x"
  by (auto simp: link_block_def Let_def set_frame)

lemma returnBlock_refines:
  assumes s: "seg (mem hp) (freeList hp) F 0" "spaced F" and r: "returnable (h, k) F" and h: "hole_size (mem hp) h = k"
  obtains m p where "returnBlock hp h = Some (hp\<lparr>mem := m, freeList := p\<rparr>)" "seg m p (put_block (h, k) F) 0"
    "spaced (put_block (h, k) F)" "\<forall>x. x \<notin> region (h, k) \<union> \<Union> (region ` set F) \<longrightarrow> m x = mem hp x"
proof -
  obtain P Q where F: "F = P @ Q" and P: "\<forall>(a, t) \<in> set P. a + SIZE_FIELD + t \<le> h" and Q: "\<forall>(b, t) \<in> set Q. h + SIZE_FIELD + k \<le> b"
    using split_at s(2) r by metis
  have k: "0 < h" "8 \<le> k" "h + SIZE_FIELD + k \<le> 2 ^ 64" using r by (auto simp: returnable_def)
  have bd: "\<forall>(a, t) \<in> set F. 0 < a \<and> 8 \<le> t \<and> a + SIZE_FIELD + t \<le> 2 ^ 64" using spaced_bounds [OF s(2)] by blast
  have w: "wide (P @ (h, k) # Q)"
  proof -
    have "a + HOLE_SIZE \<le> h" if "(a, t) \<in> set P" for a t
      using bspec [OF P that] bspec [OF bd, of "(a, t)"] that F by (simp add: sizes)
    moreover have "h + HOLE_SIZE \<le> b" if "(b, t) \<in> set Q" for b t
      using bspec [OF Q that] k(2) by (simp add: sizes)
    ultimately show ?thesis using spaced_wide [OF s(2)] k unfolding F wide_append
      by (auto simp: sizes)
  qed
  let ?b = "if P = [] then 0 else fst (last P)"
  have fp: "find_pred (mem hp) h 0 (freeList hp) = Some ?b"
    using P Q s(1) unfolding F by (intro find_pred_refines [where Q = Q]) (auto simp: sizes)
  define hp1 where "hp1 = link_block hp h ?b"
  have 1: "seg (mem hp1) (freeList hp1) (P @ (h, k) # Q) 0"
    unfolding hp1_def using link_refines [OF s(1)[unfolded F] w k(1) h] .
  define hp2 where "hp2 = hp1\<lparr>mem := absorb_next (mem hp1) h\<rparr>"
  have 2: "seg (mem hp2) (freeList hp2) (P @ join (h, k) Q) 0"
    using absorb_next_refines [OF 1 w] bd F by (auto simp: hp2_def)
  define hp3 where "hp3 = (if ?b \<noteq> 0 then hp2\<lparr>mem := absorb_into (mem hp2) ?b h\<rparr> else hp2)"
  have rb: "returnBlock hp h = Some hp3"
    unfolding returnBlock_def fp by (simp add: hp1_def hp2_def hp3_def Let_def)
  have 3: "seg (mem hp3) (freeList hp3) (put_block (h, k) F) 0"
  proof (cases P rule: rev_cases)
    case Nil
    then show ?thesis using 2 put_block_below [OF Q] F by (simp add: hp3_def)
  next
    case (snoc P' x)
    obtain b t where x: "x = (b, t)" by fastforce
    have b0: "b \<noteq> 0" using bd F snoc x by auto
    obtain k' R where j: "join (h, k) Q = (h, k') # R" "set R \<subseteq> set Q" using join_head by metis
    have sj: "spaced ((h, k') # R)"
      using spaced_join [of Q h k] s(2) k Q F j(1) by (auto simp: spaced_append)
    then have e: "h + SIZE_FIELD + k' \<le> 2 ^ 64" by simp
    have bh: "wide (P' @ [(b, t)])" "\<forall>(a, u) \<in> set (P' @ [(b, t)]). \<forall>(c, v) \<in> insert (h, k') (set R). a + HOLE_SIZE \<le> c"
      using w j(2) unfolding snoc x wide_append by fastforce+
    have "wide ((P' @ [(b, t)]) @ (h, k') # R)"
      using bh spaced_wide [OF sj] by (fastforce simp add: wide_append)
    then have "wide (P' @ (b, t) # (h, k') # R)" by simp
    then have "seg (absorb_into (mem hp2) b h) (freeList hp2) (P' @ join (b, t) ((h, k') # R)) 0"
      using absorb_into_refines [OF _ _ e] 2 j snoc x by simp
    moreover have "put_block (h, k) F = P' @ join (b, t) ((h, k') # R)"
      using put_block_above [of P' b t Q h k] s(2) F P Q snoc x j by simp
    ultimately show ?thesis using b0 snoc x by (simp add: hp3_def)
  qed
  have "mem hp3 x = mem hp x" if x: "x \<notin> region (h, k) \<union> \<Union> (region ` set F)" for x
  proof -
    have xh: "x < h \<or> h + HOLE_SIZE \<le> x" using x k by (auto simp: region_def sizes)
    have "?b \<noteq> 0 \<longrightarrow> x < ?b \<or> ?b + HOLE_SIZE \<le> x"
    proof (cases P rule: rev_cases)
      case (snoc P' y)
      then have "y \<in> set F" using F by simp
      then have "x \<notin> region y" "8 \<le> snd y" using x bd by auto
      then show ?thesis using snoc by (auto simp: region_def sizes)
    qed simp
    moreover obtain b where b: "b = ?b" by simp
    ultimately have "b \<noteq> 0 \<longrightarrow> x < b \<or> b + HOLE_SIZE \<le> x" by simp
    then show ?thesis unfolding hp3_def hp2_def hp1_def b [symmetric]
      using xh link_frame [of x h b hp] absorb_frame by (cases "b = 0") simp_all
  qed
  moreover have "hp3 = hp\<lparr>mem := mem hp3, freeList := freeList hp3\<rparr>"
    by (simp add: hp3_def hp2_def hp1_def link_block_def Let_def)
  ultimately show ?thesis using that [of "freeList hp3" "mem hp3"] rb 3 put_block_spaced [OF s(2) r] by simp
qed

subsection \<open>The invariant of the allocator\<close>

text \<open>
  \<open>F\<close> is the list of holes and \<open>L\<close> the blocks that are allocated: all inside the address space,
  all apart, each with its size in its header.
\<close>

definition heap_ok :: "heap \<Rightarrow> block list \<Rightarrow> block list \<Rightarrow> bool" where
  "heap_ok hp F L \<longleftrightarrow> seg (mem hp) (freeList hp) F 0 \<and> spaced F
     \<and> (\<forall>(a, k) \<in> set L. 0 < a \<and> 8 \<le> k \<and> a + SIZE_FIELD + k \<le> 2 ^ 64 \<and> hole_size (mem hp) a = k)
     \<and> (\<forall>x \<in> set L. \<forall>y \<in> set F. apart x y) \<and> sorted_wrt apart L"

definition bytes_of :: "block list \<Rightarrow> nat set" where
  "bytes_of L = \<Union> (region ` set L)"

lemma hole_size_cong: "\<forall>x \<in> region (a, k). m' x = m x \<Longrightarrow> hole_size m' a = hole_size m a"
  unfolding hole_size_def load64_def region_def sizes
  by (intro arg_cong [where f = sum_list] map_cong) auto

lemma apart_all: "(\<forall>y \<in> set F. apart x y) \<longleftrightarrow> region x \<inter> bytes_of F = {}"
  by (auto simp: apart_def bytes_of_def)

lemma return_ok:
  assumes ok: "heap_ok hp F ((a, k) # L)"
  obtains hp' where "returnBlock hp a = Some hp'" "heap_ok hp' (put_block (a, k) F) L"
    "\<forall>x \<in> bytes_of L. mem hp' x = mem hp x" "nextBlock hp' = nextBlock hp"
proof -
  have f: "seg (mem hp) (freeList hp) F 0" "spaced F" "hole_size (mem hp) a = k" "returnable (a, k) F"
    using ok by (auto simp: heap_ok_def returnable_def)
  obtain m p where r: "returnBlock hp a = Some (hp\<lparr>mem := m, freeList := p\<rparr>)" "seg m p (put_block (a, k) F) 0"
    "spaced (put_block (a, k) F)" "\<forall>x. x \<notin> region (a, k) \<union> \<Union> (region ` set F) \<longrightarrow> m x = mem hp x"
    using returnBlock_refines [OF f(1,2,4,3)] by blast
  have d: "region x \<inter> region (a, k) = {}" "region x \<inter> bytes_of F = {}" if "x \<in> set L" for x
    using ok that unfolding heap_ok_def apart_all by (auto simp: apart_def)
  have same: "m z = mem hp z" if "x \<in> set L" "z \<in> region x" for x z
    using r(4) d [OF that(1)] that(2) unfolding bytes_of_def by blast
  have sz: "hole_size m b = hole_size (mem hp) b" if "(b, t) \<in> set L" for b t
    using hole_size_cong same [OF that] by blast
  have "\<forall>y \<in> set (put_block (a, k) F). apart x y" if "x \<in> set L" for x
    using d [OF that] put_block_region [of "(a, k)" F] unfolding apart_all bytes_of_def by auto
  then have "heap_ok (hp\<lparr>mem := m, freeList := p\<rparr>) (put_block (a, k) F) L"
    using ok r(2,3) sz by (auto simp: heap_ok_def)
  then show ?thesis using that r(1) same by (auto simp: bytes_of_def)
qed

text \<open>The block and the list that a split leaves.\<close>

definition split_size :: "nat \<Rightarrow> nat \<Rightarrow> nat" where
  "split_size n k = (if n + HOLE_SIZE \<le> k then n else k)"

definition split_rest :: "nat \<Rightarrow> nat \<Rightarrow> nat \<Rightarrow> block list \<Rightarrow> block list" where
  "split_rest n h k F = (if n + HOLE_SIZE \<le> k then put_block (h + SIZE_FIELD + n, k - n - SIZE_FIELD) F else F)"

lemma split_ok:
  assumes ok: "heap_ok hp F ((h, k) # L)" and n: "8 \<le> n" "n \<le> k" "n + HOLE_SIZE < 2 ^ 64"
  obtains hp' where "split_block hp h n = Some hp'" "heap_ok hp' (split_rest n h k F) ((h, split_size n k) # L)"
    "\<forall>x \<in> bytes_of L. mem hp' x = mem hp x" "nextBlock hp' = nextBlock hp"
proof (cases "n + HOLE_SIZE \<le> k")
  case False
  have "k < 2 ^ 64" "0 < h" "h + SIZE_FIELD + k \<le> 2 ^ 64" "hole_size (mem hp) h = k"
    using ok by (auto simp: heap_ok_def sizes)
  moreover have "\<not> wrap (n + HOLE_SIZE) \<le> k" using False n(3) by simp
  ultimately have "split_block hp h n = Some hp" by (simp add: split_block_def)
  then show ?thesis using that ok False by (simp add: split_rest_def split_size_def)
next
  case True
  let ?h2 = "h + SIZE_FIELD + n" and ?k2 = "k - n - SIZE_FIELD"
  have k: "0 < h" "8 \<le> k" "h + SIZE_FIELD + k \<le> 2 ^ 64" "hole_size (mem hp) h = k"
    using ok by (auto simp: heap_ok_def)
  let ?m1 = "set_size (mem hp) ?h2 ?k2"
  let ?m = "set_size ?m1 h n"
  have w: "wrap (n + HOLE_SIZE) = n + HOLE_SIZE" "minus64 (minus64 k n) SIZE_FIELD = ?k2"
    using True k(1,3) by (simp_all add: sizes)
  have sb: "split_block hp h n = returnBlock (hp\<lparr>mem := ?m\<rparr>) ?h2"
    using True k(4) w by (simp add: split_block_def Let_def)
  have far: "h + SIZE_FIELD + k \<le> b \<or> b + SIZE_FIELD + t \<le> h" "8 \<le> t" if "(b, t) \<in> set F" for b t
    using ok that spaced_bounds [of F b t] by (auto simp: heap_ok_def apart_order)
  have "(?h2 + HOLE_SIZE \<le> b \<or> b + HOLE_SIZE \<le> ?h2) \<and> (h + HOLE_SIZE \<le> b \<or> b + HOLE_SIZE \<le> h)" if "(b, t) \<in> set F" for b t
    using far [OF that] True by (auto simp: sizes)
  then have fr: "\<forall>(b, t) \<in> set F. ?h2 + HOLE_SIZE \<le> b \<or> b + HOLE_SIZE \<le> ?h2"
    "\<forall>(b, t) \<in> set F. h + HOLE_SIZE \<le> b \<or> b + HOLE_SIZE \<le> h" by blast+
  have s: "seg ?m (freeList hp) F 0"
    using seg_set(1) [OF seg_set(1) [OF _ fr(1)] fr(2)] ok by (simp add: heap_ok_def)
  have same: "?m x = mem hp x" if "x \<notin> region (h, k)" for x
    using that True set_frame(1) [of x ?h2 "mem hp" ?k2] set_frame(1) [of x h ?m1 n] by (auto simp: region_def sizes)
  have sL: "hole_size ?m b = t" if "(b, t) \<in> set L" for b t
  proof -
    have "apart (h, k) (b, t)" "hole_size (mem hp) b = t" using ok that by (auto simp: heap_ok_def)
    then show ?thesis using hole_size_cong [of b t ?m "mem hp"] same unfolding apart_def by blast
  qed
  have h2: "hole_size ?m ?h2 = ?k2" "hole_size ?m h = n"
    using hole_other(1) [of h ?h2 ?m1 n] True n k(1,3) by (simp_all add: sizes)
  have sub: "region (?h2, ?k2) \<subseteq> region (h, k)" "region (h, n) \<subseteq> region (h, k)" "region (?h2, ?k2) \<inter> region (h, n) = {}"
    using True by (auto simp: region_def sizes)
  have "heap_ok (hp\<lparr>mem := ?m\<rparr>) F ((?h2, ?k2) # (h, n) # L)"
    unfolding heap_ok_def
  proof (intro conjI)
    have ap: "apart (?h2, ?k2) y \<and> apart (h, n) y" if "apart (h, k) y" for y
      using that sub unfolding apart_def by blast
    have out: "\<forall>y \<in> set F. apart (h, k) y" "\<forall>y \<in> set L. apart (h, k) y" "\<forall>x \<in> set L. \<forall>y \<in> set F. apart x y"
      "sorted_wrt apart L" using ok by (auto simp: heap_ok_def)
    show "\<forall>x \<in> set ((?h2, ?k2) # (h, n) # L). \<forall>y \<in> set F. apart x y"
      using ap out(1,3) by (simp del: split_paired_All)
    show "sorted_wrt apart ((?h2, ?k2) # (h, n) # L)"
      using ap out(2,4) sub(3) by (simp add: apart_def)
    have "\<forall>(a, k) \<in> set L. 0 < a \<and> 8 \<le> k \<and> a + SIZE_FIELD + k \<le> 2 ^ 64"
      using ok by (auto simp: heap_ok_def)
    moreover have "8 \<le> ?k2" "?h2 + SIZE_FIELD + ?k2 \<le> 2 ^ 64" "h + SIZE_FIELD + n \<le> 2 ^ 64"
      using True k(3) by (simp_all add: sizes)
    ultimately show "\<forall>(a, k) \<in> set ((?h2, ?k2) # (h, n) # L). 0 < a \<and> 8 \<le> k \<and> a + SIZE_FIELD + k \<le> 2 ^ 64
        \<and> hole_size (mem (hp\<lparr>mem := ?m\<rparr>)) a = k"
      using sL h2 n(1) k(1) by auto
  qed (use s ok in \<open>simp_all add: heap_ok_def\<close>)
  then obtain hp' where hp': "returnBlock (hp\<lparr>mem := ?m\<rparr>) ?h2 = Some hp'" "heap_ok hp' (put_block (?h2, ?k2) F) ((h, n) # L)"
    "\<forall>x \<in> bytes_of ((h, n) # L). mem hp' x = ?m x" "nextBlock hp' = nextBlock hp"
    using return_ok by force
  note hp'(3)
  moreover have "?m x = mem hp x" if "x \<in> bytes_of L" for x
  proof -
    have "\<forall>y \<in> set L. apart (h, k) y" using ok by (simp add: heap_ok_def)
    then have "x \<notin> region (h, k)" using that unfolding bytes_of_def apart_def by blast
    then show ?thesis by (rule same)
  qed
  moreover have "bytes_of ((h, n) # L) = region (h, n) \<union> bytes_of L" by (simp add: bytes_of_def)
  ultimately have "\<forall>x \<in> bytes_of L. mem hp' x = mem hp x" by (metis UnI2)
  then show ?thesis using that sb True hp' by (simp add: split_rest_def split_size_def)
qed

subsection \<open>malloc and free\<close>

text \<open>What \<open>mmap\<close> promises: fresh pages inside the address space.\<close>

definition fresh_pages :: "(nat \<Rightarrow> nat \<Rightarrow> nat option) \<Rightarrow> block list \<Rightarrow> bool" where
  "fresh_pages mmap B \<longleftrightarrow> (\<forall>hint n a. mmap hint n = Some a \<longrightarrow>
     0 < a \<and> a + n \<le> 2 ^ 64 \<and> {a..<a + n} \<inter> bytes_of B = {})"

text \<open>The block a request gets, and the list of holes after it.\<close>

definition spec_malloc :: "nat \<Rightarrow> block list \<Rightarrow> (block \<times> block list) option" where
  "spec_malloc n F = (case first_fit n F of
       None \<Rightarrow> None
     | Some ((a, k), G) \<Rightarrow> Some ((a, split_size n k), split_rest n a k G))"

lemma request_size_bounds:
  assumes "n \<le> 2 ^ 62"
  shows "n \<le> request_size n" "8 \<le> request_size n" "request_size n \<le> n + 11"
proof -
  define s where "s = (if n < 8 then 8 else n)"
  have "s + 3 < 2 ^ 64" using assms by (auto simp: s_def)
  then have "request_size n = (s + 3) div 4 * 4" by (simp add: request_size_def s_def Let_def)
  moreover have "s \<le> (s + 3) div 4 * 4" "(s + 3) div 4 * 4 \<le> s + 3" by linarith+
  moreover have "n \<le> s" "8 \<le> s" "s \<le> n + 8" by (auto simp: s_def)
  ultimately show "n \<le> request_size n" "8 \<le> request_size n" "request_size n \<le> n + 11" by linarith+
qed

lemma page_request_bounds:
  assumes "n \<le> 2 ^ 63" "0 < ps" "ps \<le> 2 ^ 62"
  shows "n + SIZE_FIELD \<le> page_request ps n" "page_request ps n < 2 ^ 64"
proof -
  have "n + SIZE_FIELD + ps - 1 < 2 ^ 64" "n + SIZE_FIELD < 2 ^ 64" using assms by (auto simp: sizes)
  then have p: "page_request ps n = (n + SIZE_FIELD + ps - 1) div ps * ps" by (simp add: page_request_def Let_def)
  have "(n + SIZE_FIELD + ps - 1) div ps * ps + (n + SIZE_FIELD + ps - 1) mod ps = n + SIZE_FIELD + ps - 1" by simp
  moreover have "(n + SIZE_FIELD + ps - 1) mod ps < ps" using assms(2) by simp
  ultimately have "page_request ps n \<le> n + SIZE_FIELD + ps - 1" "n + SIZE_FIELD + ps - 1 < page_request ps n + ps"
    unfolding p by linarith+
  then show "n + SIZE_FIELD \<le> page_request ps n" "page_request ps n < 2 ^ 64"
    using assms by (auto simp: sizes)
qed

lemma spaced_remove: "spaced (P @ x # Q) \<Longrightarrow> spaced (P @ Q)"
  by (cases x) (auto simp: spaced_append)

lemma bytes_of_simps [simp]: "bytes_of [] = {}" "bytes_of (x # L) = region x \<union> bytes_of L"
  "bytes_of (L @ M) = bytes_of L \<union> bytes_of M"
  by (auto simp: bytes_of_def)

lemma region_header: "8 \<le> t \<Longrightarrow> x \<notin> region (b, t) \<Longrightarrow> x < b \<or> b + HOLE_SIZE \<le> x"
  by (auto simp: region_def sizes)

text \<open>Served from the list: the block is taken out, then split.\<close>

lemma taken_ok:
  assumes ok: "heap_ok hp F L" and ff: "first_fit n F = Some ((a, k), G)" and n: "0 < a"
    and m: "seg m p G 0" "hole_size m a = k" "\<forall>x. (\<forall>(b, t) \<in> set G. x < b \<or> b + HOLE_SIZE \<le> x) \<longrightarrow> m x = mem hp x"
  shows "heap_ok (hp\<lparr>mem := m, freeList := p\<rparr>) G ((a, k) # L) \<and> (\<forall>x \<in> bytes_of L. m x = mem hp x)"
proof -
  obtain P Q where f: "F = P @ (a, k) # Q" "G = P @ Q" using first_fit_split [OF ff] by blast
  have sp: "spaced F" "spaced G" using ok spaced_remove f by (auto simp: heap_ok_def)
  have ak: "8 \<le> k" "a + SIZE_FIELD + k \<le> 2 ^ 64" using spaced_bounds [OF sp(1), of a k] f(1) by auto
  have aG: "apart (a, k) y" if "y \<in> set G" for y
  proof -
    obtain b t where y: "y = (b, t)" by fastforce
    then show ?thesis using that sp(1) unfolding f by (fastforce simp: apart_order spaced_append)
  qed
  have LF: "\<forall>x \<in> set L. \<forall>y \<in> set F. apart x y" using ok by (simp add: heap_ok_def)
  have same: "m x = mem hp x" if "x \<in> bytes_of L" for x
  proof -
    obtain l where l: "l \<in> set L" "x \<in> region l" using \<open>x \<in> bytes_of L\<close> by (auto simp: bytes_of_def)
    have "x < b \<or> b + HOLE_SIZE \<le> x" if "(b, t) \<in> set G" for b t
    proof -
      have "(b, t) \<in> set F" using that f by auto
      then have "apart l (b, t)" "8 \<le> t" using LF l(1) spaced_bounds [OF sp(1)] by auto
      then show ?thesis using l(2) region_header [of t x b] unfolding apart_def by blast
    qed
    then show ?thesis using m(3) by blast
  qed
  have "hole_size m b = t" if "(b, t) \<in> set L" for b t
  proof -
    have "region (b, t) \<subseteq> bytes_of L" using that by (auto simp: bytes_of_def)
    then have "hole_size m b = hole_size (mem hp) b" using same by (intro hole_size_cong) blast
    then show ?thesis using ok that by (auto simp: heap_ok_def)
  qed
  moreover have "\<forall>x \<in> set L. apart (a, k) x" using LF f(1) by (auto simp: apart_def)
  ultimately show ?thesis using ok m(1,2) sp(2) ak aG n LF f same by (auto simp: heap_ok_def)
qed

lemma malloc_hit:
  assumes ok: "heap_ok hp F L" and n: "n0 \<le> 2 ^ 62" and s: "spec_malloc (request_size n0) F = Some ((a, k), F')"
  obtains hp' where "malloc mmap ps hp n0 = Some (a + SIZE_FIELD, hp')" "heap_ok hp' F' ((a, k) # L)"
    "n0 \<le> k" "\<forall>x \<in> bytes_of L. mem hp' x = mem hp x"
proof -
  let ?n = "request_size n0"
  note r = request_size_bounds [OF n]
  obtain k0 G where ff: "first_fit ?n F = Some ((a, k0), G)" "k = split_size ?n k0" "F' = split_rest ?n a k0 G"
    using s by (auto simp: spec_malloc_def split: option.splits)
  have k0: "?n \<le> k0" using first_fit_split [OF ff(1)] by blast
  have "seg (mem hp) (freeList hp) F 0" "wide F" using ok spaced_wide by (auto simp: heap_ok_def)
  from getBlock_refines [OF this, of ?n] ff(1) obtain m p where
    g: "a \<noteq> 0" "getBlock hp ?n = Some (a, hp\<lparr>mem := m, freeList := p\<rparr>)" and m: "seg m p G 0" "hole_size m a = k0"
    "\<forall>x. (\<forall>(b, t) \<in> set G. x < b \<or> b + HOLE_SIZE \<le> x) \<longrightarrow> m x = mem hp x" by auto
  have t: "heap_ok (hp\<lparr>mem := m, freeList := p\<rparr>) G ((a, k0) # L)" "\<forall>x \<in> bytes_of L. m x = mem hp x"
    using taken_ok [OF ok ff(1) _ m] g(1) by auto
  have "?n + HOLE_SIZE < 2 ^ 64" using r(3) n by (simp add: sizes)
  from split_ok [OF t(1) r(2) k0 this] obtain hp' where
    h: "split_block (hp\<lparr>mem := m, freeList := p\<rparr>) a ?n = Some hp'" "heap_ok hp' F' ((a, k) # L)"
    "\<forall>x \<in> bytes_of L. mem hp' x = m x" unfolding ff(2,3) by auto
  have "malloc mmap ps hp n0 = Some (a + SIZE_FIELD, hp')"
    using g h(1) by (simp add: malloc_def Let_def)
  moreover have "n0 \<le> k" using r(1) k0 by (simp add: ff(2) split_size_def)
  ultimately show ?thesis using that h t(2) by simp
qed

text \<open>A split keeps the bytes, and so does a request that the list serves.\<close>

lemma split_bytes:
  assumes "n \<le> k"
  shows "region (a, split_size n k) \<union> bytes_of (split_rest n a k G) = region (a, k) \<union> bytes_of G"
proof (cases "n + HOLE_SIZE \<le> k")
  case True
  then have "region (a, n) \<union> region (a + SIZE_FIELD + n, k - n - SIZE_FIELD) = region (a, k)"
    by (auto simp: region_def sizes)
  then show ?thesis using True put_block_region [of "(a + SIZE_FIELD + n, k - n - SIZE_FIELD)" G]
    by (simp add: split_size_def split_rest_def bytes_of_def Un_assoc [symmetric])
qed (simp add: split_size_def split_rest_def)

lemma spec_malloc_bytes:
  assumes "spec_malloc n F = Some ((a, k), F')"
  shows "region (a, k) \<union> bytes_of F' = bytes_of F"
proof -
  obtain k0 G where ff: "first_fit n F = Some ((a, k0), G)" "k = split_size n k0" "F' = split_rest n a k0 G"
    using assms by (auto simp: spec_malloc_def split: option.splits)
  obtain P Q where f: "F = P @ (a, k0) # Q" "G = P @ Q" "n \<le> k0" using first_fit_split [OF ff(1)] by blast
  show ?thesis using split_bytes [OF f(3), of a G] by (auto simp: ff(2,3) f(1,2))
qed

lemma malloc_miss:
  assumes ok: "heap_ok hp F L" and n: "n0 \<le> 2 ^ 62" "0 < ps" "ps \<le> 2 ^ 62"
    and s: "spec_malloc (request_size n0) F = None"
    and mm: "mmap (nextBlock hp) (page_request ps (request_size n0)) = Some a" and fr: "fresh_pages mmap (F @ L)"
  obtains hp' k F' where "malloc mmap ps hp n0 = Some (a + SIZE_FIELD, hp')" "heap_ok hp' F' ((a, k) # L)"
    "n0 \<le> k" "\<forall>x \<in> bytes_of L. mem hp' x = mem hp x"
    "region (a, k) \<union> bytes_of F' = {a..<a + page_request ps (request_size n0)} \<union> bytes_of F"
proof -
  let ?n = "request_size n0" and ?r = "page_request ps (request_size n0)"
  note r = request_size_bounds [OF n(1)]
  have n63: "?n \<le> 2 ^ 63" using r(3) n(1) by simp
  note q = page_request_bounds [OF n63 n(2,3)]
  have ff: "first_fit ?n F = None" using s by (auto simp: spec_malloc_def split: option.splits)
  have "seg (mem hp) (freeList hp) F 0" "wide F" using ok spaced_wide by (auto simp: heap_ok_def)
  from getBlock_refines [OF this, of ?n] ff have g: "getBlock hp ?n = Some (0, hp)" by simp
  have a: "0 < a" "a + ?r \<le> 2 ^ 64" "{a..<a + ?r} \<inter> bytes_of (F @ L) = {}"
    using fr mm unfolding fresh_pages_def by blast+
  let ?k = "?r - SIZE_FIELD" and ?m = "set_size (mem hp) a (?r - SIZE_FIELD)"
  let ?hp = "hp\<lparr>mem := ?m, nextBlock := nextBlock hp + ?r\<rparr>"
  have k: "?n \<le> ?k" "a + SIZE_FIELD + ?k = a + ?r" using q(1) by (simp_all add: sizes)
  have reg: "region (a, ?k) = {a..<a + ?r}" using k(2) by (simp add: region_def)
  have out: "x < a \<or> a + HOLE_SIZE \<le> x" if "x \<notin> region (a, ?k)" for x
    using that k r(2) by (intro region_header) auto
  have same: "\<forall>x \<in> bytes_of L. ?m x = mem hp x" 
  proof
    fix x assume "x \<in> bytes_of L"
    then have "x \<notin> region (a, ?k)" using a(3) unfolding reg by auto
    then show "?m x = mem hp x" by (intro set_frame(1) out)
  qed
  have "seg ?m (freeList hp) F 0"
  proof (rule seg_set(1))
    show "seg (mem hp) (freeList hp) F 0" using ok by (simp add: heap_ok_def)
    have "a + HOLE_SIZE \<le> b \<or> b + HOLE_SIZE \<le> a" if "(b, t) \<in> set F" for b t
    proof -
      have "region (b, t) \<subseteq> bytes_of (F @ L)" using that by (auto simp: bytes_of_def)
      then have "apart (a, ?k) (b, t)" using a(3) reg unfolding apart_def by blast
      moreover have "8 \<le> t" using spaced_bounds that ok by (auto simp: heap_ok_def)
      ultimately show ?thesis using k r(2) by (auto simp: apart_order sizes)
    qed
    then show "\<forall>(b, t) \<in> set F. a + HOLE_SIZE \<le> b \<or> b + HOLE_SIZE \<le> a" by blast
  qed
  moreover have "hole_size ?m b = t" if "(b, t) \<in> set L" for b t
  proof -
    have "region (b, t) \<subseteq> bytes_of L" using that by (auto simp: bytes_of_def)
    then have "hole_size ?m b = hole_size (mem hp) b" using same by (intro hole_size_cong) blast
    then show ?thesis using ok that by (auto simp: heap_ok_def)
  qed
  moreover have "apart (a, ?k) y" if "y \<in> set F \<union> set L" for y
    using that a(3) reg unfolding apart_def bytes_of_def by auto
  moreover have "hole_size ?m a = ?k" using q(2) by simp
  ultimately have "heap_ok ?hp F ((a, ?k) # L)" using ok a k r(2) by (auto simp: heap_ok_def)
  moreover have "?n + HOLE_SIZE < 2 ^ 64" using r(3) n(1) by (simp add: sizes)
  ultimately obtain hp' where h: "split_block ?hp a ?n = Some hp'" "heap_ok hp' (split_rest ?n a ?k F) ((a, split_size ?n ?k) # L)"
    "\<forall>x \<in> bytes_of L. mem hp' x = ?m x" using split_ok [of ?hp F a ?k L ?n] r(2) k(1) by force
  have "malloc mmap ps hp n0 = Some (a + SIZE_FIELD, hp')"
    using g h(1) mm q a(1) by (simp add: malloc_def Let_def sizes)
  moreover have "n0 \<le> split_size ?n ?k" using r(1) k(1) by (simp add: split_size_def)
  moreover have "region (a, split_size ?n ?k) \<union> bytes_of (split_rest ?n a ?k F) = {a..<a + ?r} \<union> bytes_of F"
    using split_bytes [OF k(1), of a F] reg by simp
  ultimately show ?thesis using that h same by metis
qed

subsection \<open>Writes of the client, and the copy of realloc\<close>

lemma payload_write:
  assumes ok: "heap_ok hp F ((b, k) # M)" and m: "\<forall>x. x \<notin> {b + SIZE_FIELD..<b + SIZE_FIELD + k} \<longrightarrow> m x = mem hp x"
  shows "heap_ok (hp\<lparr>mem := m\<rparr>) F ((b, k) # M)"
proof -
  have sub: "{b + SIZE_FIELD..<b + SIZE_FIELD + k} \<subseteq> region (b, k)" by (auto simp: region_def)
  have "hole_size m b = k"
  proof -
    have "hole_size m b = hole_size (mem hp) b"
      unfolding hole_size_def load64_def using m by (intro arg_cong [where f = sum_list] map_cong) (auto simp: sizes)
    then show ?thesis using ok by (simp add: heap_ok_def)
  qed
  moreover have same: "m x = mem hp x" if "apart (b, k) y" "x \<in> region y" for x y
    using that sub m unfolding apart_def by blast
  have "hole_size m c = t" if "(c, t) \<in> set M" for c t
  proof -
    have "apart (b, k) (c, t)" "hole_size (mem hp) c = t" using ok that by (auto simp: heap_ok_def)
    then show ?thesis using hole_size_cong [of c t m "mem hp"] same by metis
  qed
  moreover have "seg m p G q" if "seg (mem hp) p G q" "set G \<subseteq> set F" for p G q
    using that
  proof (induction "mem hp" p G q rule: seg.induct)
    case (2 p c t G q)
    have "(c, t) \<in> set F" using 2(3) by simp
    then have a: "apart (b, k) (c, t)" "8 \<le> t" using ok spaced_bounds by (auto simp: heap_ok_def)
    then have s: "\<forall>x \<in> region (c, t). m x = mem hp x" using same by blast
    then have "hole_next m c = hole_next (mem hp) c"
      unfolding hole_next_def load64_def using a(2)
      by (intro arg_cong [where f = sum_list] map_cong) (auto simp: sizes region_def)
    then show ?case using 2 hole_size_cong [OF s] by auto
  qed simp
  ultimately show ?thesis using ok by (auto simp: heap_ok_def)
qed

lemma copy_bytes_eq:
  assumes "p2 + n \<le> p1 \<or> p1 + n \<le> p2"
  shows "copy_bytes m p2 p1 n x = (if p2 \<le> x \<and> x < p2 + n then m (p1 + (x - p2)) else m x)"
  using assms by (induction n arbitrary: x) (auto simp: Let_def less_Suc_eq)

lemma apart_sym: "apart x y \<Longrightarrow> apart y x"
  by (auto simp: apart_def)

lemma heap_ok_swap: "heap_ok hp F (x # y # L) \<Longrightarrow> heap_ok hp F (y # x # L)"
  by (auto simp: heap_ok_def dest: apart_sym)

subsection \<open>free undoes malloc\<close>

lemma put_block_gap: "spaced (P @ (h, s) # Q) \<Longrightarrow> put_block (h, s) (P @ Q) = P @ (h, s) # Q"
proof (induction P)
  case Nil
  then show ?case by (cases Q) (auto simp: sizes)
next
  case (Cons x P)
  obtain a t where x: "x = (a, t)" by fastforce
  then have "put_block (h, s) (P @ Q) = P @ (h, s) # Q" "a + SIZE_FIELD + t < h" using Cons by (auto simp: spaced_append)
  moreover have "join (a, t) (P @ (h, s) # Q) = (a, t) # P @ (h, s) # Q"
    using Cons.prems x by (cases P) auto
  ultimately show ?case using x by simp
qed

lemma put_block_rejoin:
  "spaced (P @ (a, k) # Q) \<Longrightarrow> n + HOLE_SIZE \<le> k \<Longrightarrow>
    put_block (a, n) (P @ (a + SIZE_FIELD + n, k - n - SIZE_FIELD) # Q) = P @ (a, k) # Q"
proof (induction P)
  case Nil
  then show ?case by (simp add: sizes)
next
  case (Cons x P)
  obtain c t where x: "x = (c, t)" by fastforce
  then have "put_block (a, n) (P @ (a + SIZE_FIELD + n, k - n - SIZE_FIELD) # Q) = P @ (a, k) # Q" "c + SIZE_FIELD + t < a"
    using Cons by (auto simp: spaced_append)
  moreover have "join (c, t) (P @ (a, k) # Q) = (c, t) # P @ (a, k) # Q"
    using Cons.prems(1) x by (cases P) auto
  ultimately show ?case using x by simp
qed

lemma put_back:
  assumes F: "spaced F" and s: "spec_malloc n F = Some ((a, k), F')" and n: "8 \<le> n"
  shows "put_block (a, k) F' = F"
proof -
  obtain k0 G where ff: "first_fit n F = Some ((a, k0), G)" "k = split_size n k0" "F' = split_rest n a k0 G"
    using s by (auto simp: spec_malloc_def split: option.splits)
  obtain P Q where f: "F = P @ (a, k0) # Q" "G = P @ Q" using first_fit_split [OF ff(1)] by blast
  show ?thesis
  proof (cases "n + HOLE_SIZE \<le> k0")
    case True
    have "spaced (P @ (a + SIZE_FIELD + n, k0 - n - SIZE_FIELD) # Q)"
      using F n True unfolding f by (fastforce simp: spaced_append sizes)
    then have "F' = P @ (a + SIZE_FIELD + n, k0 - n - SIZE_FIELD) # Q"
      using put_block_gap True by (simp add: ff(3) split_rest_def f(2))
    then show ?thesis using put_block_rejoin [of P a k0 Q n] F True by (simp add: ff(2) split_size_def f(1))
  next
    case False
    then show ?thesis using put_block_gap [of P a k0 Q] F by (simp add: ff(2,3) split_size_def split_rest_def f)
  qed
qed

subsection \<open>Reports\<close>

definition hexChar :: "nat \<Rightarrow> char" where
  "hexChar d = ''0123456789ABCDEF'' ! d"

definition reportAddress :: "nat \<Rightarrow> string" where
  "reportAddress p = ''0x'' @ map (\<lambda>d. hexChar (p div 2 ^ (44 - d * 4) mod 16)) [0..<12]"

fun size_digits :: "nat \<Rightarrow> string" where
  "size_digits s = (if s \<noteq> 0 then hexChar (s mod 16) # size_digits (s div 16) else [])"

declare size_digits.simps [simp del]

text \<open>The loop that swaps the ends inwards.\<close>

function swap_ends :: "string \<Rightarrow> nat \<Rightarrow> nat \<Rightarrow> string" where
  "swap_ends str pos i = (if int i < int pos - int i - 1
     then swap_ends (str[i := str ! (pos - i - 1), pos - i - 1 := str ! i]) pos (i + 1) else str)"
  by pat_completeness auto
termination by (relation "measure (\<lambda>(str, pos, i). pos - i)") auto

declare swap_ends.simps [simp del]

definition reportSize :: "nat \<Rightarrow> string" where
  "reportSize s = (let str = size_digits s; str' = (if str = [] then ''0'' else str)
     in swap_ends str' (length str') 0)"

partial_function (option) reportFreeList :: "memory \<Rightarrow> nat \<Rightarrow> string option" where
  [code]: "reportFreeList m h = (if h = 0 then Some []
     else Option.bind (reportFreeList m (hole_next m h))
       (\<lambda>rest. Some (reportAddress h @ '' : '' @ reportSize (hole_size m h) @ NL @ rest)))"

text \<open>The report of a list of holes.\<close>

definition report_holes :: "block list \<Rightarrow> string" where
  "report_holes F = concat (map (\<lambda>(a, k). reportAddress a @ '' : '' @ reportSize k @ NL) F)"

lemma reportFreeList_refines: "seg m p F 0 \<Longrightarrow> reportFreeList m p = Some (report_holes F)"
proof (induction F arbitrary: p)
  case Nil
  then show ?case by (subst reportFreeList.simps) (simp add: report_holes_def)
next
  case (Cons x F)
  then show ?case by (cases x, subst reportFreeList.simps) (auto simp: report_holes_def)
qed

lemma swap_ends_nth:
  "length str = pos \<Longrightarrow> 2 * i \<le> pos \<Longrightarrow> j < pos \<Longrightarrow>
    length (swap_ends str pos i) = pos \<and>
    swap_ends str pos i ! j = (if i \<le> j \<and> j < pos - i then str ! (pos - 1 - j) else str ! j)"
proof (induction str pos i rule: swap_ends.induct)
  case (1 str pos i)
  let ?s = "str[i := str ! (pos - i - 1), pos - i - 1 := str ! i]"
  show ?case
  proof (cases "int i < int pos - int i - 1")
    case True
    have "length (swap_ends ?s pos (i + 1)) = pos \<and>
      swap_ends ?s pos (i + 1) ! j = (if i + 1 \<le> j \<and> j < pos - (i + 1) then ?s ! (pos - 1 - j) else ?s ! j)"
      using 1 True by simp
    moreover have "(if i + 1 \<le> j \<and> j < pos - (i + 1) then ?s ! (pos - 1 - j) else ?s ! j)
        = (if i \<le> j \<and> j < pos - i then str ! (pos - 1 - j) else str ! j)"
    proof (cases "j = i \<or> j = pos - i - 1")
      case c: True
      then show ?thesis using 1(2,3,4) True by (auto simp: nth_list_update)
    next
      case c: False
      then show ?thesis using 1(2,3,4) True by (auto simp: nth_list_update)
    qed
    ultimately show ?thesis using True by (subst (1 2) swap_ends.simps) simp
  next
    case False
    then have "j = pos - 1 - j" if "i \<le> j" "j < pos - i" using 1(3,4) that by linarith
    then show ?thesis using False 1(2) by (subst (1 2) swap_ends.simps) auto
  qed
qed

lemma swap_ends_rev: "swap_ends str (length str) 0 = rev str"
proof (cases "str = []")
  case True
  then show ?thesis by (subst swap_ends.simps) simp
next
  case False
  note n = swap_ends_nth [OF refl, of 0 str]
  show ?thesis
  proof (rule nth_equalityI)
    show l: "length (swap_ends str (length str) 0) = length (rev str)" using n [of 0] False by simp
    fix j assume "j < length (swap_ends str (length str) 0)"
    then have "j < length str" using l by simp
    then show "swap_ends str (length str) 0 ! j = rev str ! j" using n [of j] by (simp add: rev_nth)
  qed
qed

subsection \<open>Properties\<close>

lemma malloc_ok:
  assumes ok: "heap_ok hp F L" and n: "n0 \<le> 2 ^ 62" "0 < ps" "ps \<le> 2 ^ 62" and fr: "fresh_pages mmap (F @ L)"
  shows "\<exists>p hp'. malloc mmap ps hp n0 = Some (p, hp')
    \<and> (if p = 0 then hp' = hp \<and> mmap (nextBlock hp) (page_request ps (request_size n0)) = None
       else \<exists>F' k. n0 \<le> k \<and> heap_ok hp' F' ((p - SIZE_FIELD, k) # L))
    \<and> (\<forall>x \<in> bytes_of L. mem hp' x = mem hp x)"
proof (cases "spec_malloc (request_size n0) F")
  case (Some y)
  then obtain a k F' where "spec_malloc (request_size n0) F = Some ((a, k), F')" by (metis prod.collapse)
  from malloc_hit [OF ok n(1) this, of mmap ps] obtain hp' where h: "malloc mmap ps hp n0 = Some (a + SIZE_FIELD, hp')"
    "heap_ok hp' F' ((a, k) # L)" "n0 \<le> k" "\<forall>x \<in> bytes_of L. mem hp' x = mem hp x" .
  then show ?thesis by (auto simp: sizes)
next
  case None
  show ?thesis
  proof (cases "mmap (nextBlock hp) (page_request ps (request_size n0))")
    case (Some a)
    from malloc_miss [OF ok n None Some fr] obtain hp' k F' where h: "malloc mmap ps hp n0 = Some (a + SIZE_FIELD, hp')"
      "heap_ok hp' F' ((a, k) # L)" "n0 \<le> k" "\<forall>x \<in> bytes_of L. mem hp' x = mem hp x" .
    then show ?thesis by (auto simp: sizes)
  next
    case m: None
    have "first_fit (request_size n0) F = None" using None by (auto simp: spec_malloc_def split: option.splits)
    then have "getBlock hp (request_size n0) = Some (0, hp)"
      using getBlock_refines [of hp F "request_size n0"] ok spaced_wide by (auto simp: heap_ok_def)
    then show ?thesis using m by (simp add: malloc_def Let_def)
  qed
qed

text \<open>The heap before the first call, and an \<open>mmap\<close> that gives the hint.\<close>

definition heap_init :: "heap" where
  "heap_init = \<lparr>mem = (\<lambda>_. 0), freeList = 0, nextBlock = 0x600000000000\<rparr>"

definition hint_mmap :: "nat \<Rightarrow> nat \<Rightarrow> nat option" where
  "hint_mmap hint n = (if n = 0 \<or> hint = 0 \<or> hint + n > 2 ^ 47 then None else Some hint)"

lemma heap_init_ok: "heap_ok heap_init [] []"
  by (simp add: heap_ok_def heap_init_def)

lemma hint_mmap_fresh: "fresh_pages hint_mmap []"
  by (auto simp: fresh_pages_def hint_mmap_def split: if_splits)

text \<open>
  C2: For a request of at most \<open>2 ^ 62\<close> bytes, with pages of at most \<open>2 ^ 62\<close> bytes and an \<open>mmap\<close> that only
  gives out memory the heap does not use, \<open>malloc\<close> always returns. It returns NULL, with nothing changed, only when \<open>mmap\<close> fails; else
  a block of at least the bytes asked for, apart from every other block and every hole, and the
  list of holes stays ordered, coalesced and apart from what is allocated. No byte of a live
  block, its header included, is written. (For sizes near \<open>2 ^ 64\<close> the round-up wraps: \<open>malloc_overflow\<close>.)
\<close>

theorem malloc_correct:
  assumes ok: "heap_ok hp F L" and n: "n0 \<le> 2 ^ 62" "0 < ps" "ps \<le> 2 ^ 62" and fr: "fresh_pages mmap (F @ L)"
  shows "\<exists>p hp'. malloc mmap ps hp n0 = Some (p, hp')
    \<and> (if p = 0 then hp' = hp \<and> mmap (nextBlock hp) (page_request ps (request_size n0)) = None
       else \<exists>F' k. n0 \<le> k \<and> heap_ok hp' F' ((p - SIZE_FIELD, k) # L))
    \<and> (\<forall>x \<in> bytes_of L. mem hp' x = mem hp x)"
  by (rule malloc_ok [OF assms])

theorem malloc_correct_witness:
  "\<exists>p hp'. malloc hint_mmap 4096 heap_init 100 = Some (p, hp')
    \<and> (if p = 0 then hp' = heap_init \<and> hint_mmap (nextBlock heap_init) (page_request 4096 (request_size 100)) = None
       else \<exists>F' k. 100 \<le> k \<and> heap_ok hp' F' [(p - SIZE_FIELD, k)])
    \<and> (\<forall>x \<in> bytes_of []. mem hp' x = mem heap_init x)"
  by (rule malloc_correct [OF heap_init_ok]) (simp_all add: hint_mmap_fresh)

text \<open>
  C3: \<open>free\<close> of an allocated block always returns: it gives exactly the bytes of the block back to
  the ordered, coalesced list of holes and writes no byte of a block that stays allocated.
\<close>

theorem free_correct:
  assumes ok: "heap_ok hp F ((a, k) # L)"
  shows "\<exists>hp' F'. free hp (a + SIZE_FIELD) = Some hp' \<and> heap_ok hp' F' L
    \<and> bytes_of F' = region (a, k) \<union> bytes_of F \<and> (\<forall>x \<in> bytes_of L. mem hp' x = mem hp x)"
proof -
  obtain hp' where "returnBlock hp a = Some hp'" "heap_ok hp' (put_block (a, k) F) L"
    "\<forall>x \<in> bytes_of L. mem hp' x = mem hp x" using return_ok [OF ok] by metis
  then show ?thesis using put_block_region [of "(a, k)" F] by (auto simp: free_def sizes bytes_of_def)
qed

text \<open>
  Round trip: when a request is served from the list, freeing the block at once restores the
  list of holes exactly, whether or not the hole was split.
\<close>

theorem free_undoes_malloc:
  assumes ok: "heap_ok hp F L" and n: "n0 \<le> 2 ^ 62" and s: "first_fit (request_size n0) F \<noteq> None"
  shows "\<exists>p hp' hp''. malloc mmap ps hp n0 = Some (p, hp') \<and> free hp' p = Some hp'' \<and> heap_ok hp'' F L"
proof -
  obtain a k F' where sp: "spec_malloc (request_size n0) F = Some ((a, k), F')"
    using s by (auto simp: spec_malloc_def)
  from malloc_hit [OF ok n this, of mmap ps] obtain hp' where h: "malloc mmap ps hp n0 = Some (a + SIZE_FIELD, hp')"
    "heap_ok hp' F' ((a, k) # L)" by metis
  obtain hp'' where "returnBlock hp' a = Some hp''" "heap_ok hp'' (put_block (a, k) F') L" using return_ok [OF h(2)] by metis
  moreover have "put_block (a, k) F' = F"
    using put_back [OF _ sp request_size_bounds(2) [OF n]] ok by (simp add: heap_ok_def)
  ultimately show ?thesis using h(1) by (auto simp: free_def sizes)
qed

text \<open>A heap with one hole of 1000 bytes, for the witnesses.\<close>

definition heap_one :: heap where
  "heap_one = heap_init\<lparr>mem := set_next (set_size (\<lambda>_. 0) 4096 1000) 4096 0, freeList := 4096\<rparr>"

lemma heap_one_ok: "heap_ok heap_one [(4096, 1000)] []"
  by (simp add: heap_ok_def heap_one_def sizes)

theorem free_undoes_malloc_witness:
  "\<exists>p hp' hp''. malloc hint_mmap 4096 heap_one 100 = Some (p, hp') \<and> free hp' p = Some hp'' \<and> heap_ok hp'' [(4096, 1000)] []"
  by (rule free_undoes_malloc [OF heap_one_ok]) (simp_all add: request_size_def)

definition heap_live :: heap where
  "heap_live = heap_init\<lparr>mem := set_size (\<lambda>_. 0) 4096 40\<rparr>"

lemma heap_live_ok: "heap_ok heap_live [] [(4096, 40)]"
  by (simp add: heap_ok_def heap_live_def heap_init_def sizes)

theorem free_correct_witness:
  "\<exists>hp' F'. free heap_live (4096 + SIZE_FIELD) = Some hp' \<and> heap_ok hp' F' []
    \<and> bytes_of F' = region (4096, 40) \<union> bytes_of [] \<and> (\<forall>x \<in> bytes_of []. mem hp' x = mem heap_live x)"
  by (rule free_correct [OF heap_live_ok])

text \<open>
  C11: \<open>realloc\<close> of a block to a new size from 1 to \<open>2 ^ 62\<close> bytes, when fewer than \<open>2 ^ 31\<close> bytes are to be
  copied (the loop counts in an int), pages have at most \<open>2 ^ 62\<close> bytes and \<open>mmap\<close> only gives out memory the
  heap does not use: it returns NULL with nothing changed, or a block of at least that size that
  begins with the old bytes, as many as both sizes have; then every byte of the old block, its header
  included, is in the list of holes, which stays ordered and coalesced, and all other blocks are as
  before.
\<close>

theorem realloc_copies:
  assumes ok: "heap_ok hp F ((a, k) # L)" and n: "0 < n0" "n0 \<le> 2 ^ 62" "0 < ps" "ps \<le> 2 ^ 62" "min k n0 < 2 ^ 31"
    and fr: "fresh_pages mmap (F @ (a, k) # L)"
  shows "\<exists>p hp'. realloc mmap ps hp (a + SIZE_FIELD) n0 = Some (p, hp') \<and>
    (if p = 0 then hp' = hp
     else (\<exists>F' k'. n0 \<le> k' \<and> heap_ok hp' F' ((p - SIZE_FIELD, k') # L) \<and> region (a, k) \<subseteq> bytes_of F')
       \<and> (\<forall>i < min k n0. mem hp' (p + i) = mem hp (a + SIZE_FIELD + i))
       \<and> (\<forall>x \<in> bytes_of L. mem hp' x = mem hp x))"
proof -
  from malloc_ok [OF ok n(2-4) fr] obtain p hp1 where m: "malloc mmap ps hp n0 = Some (p, hp1)"
    "if p = 0 then hp1 = hp \<and> mmap (nextBlock hp) (page_request ps (request_size n0)) = None
     else \<exists>F' k'. n0 \<le> k' \<and> heap_ok hp1 F' ((p - SIZE_FIELD, k') # (a, k) # L)"
    "\<forall>x \<in> bytes_of ((a, k) # L). mem hp1 x = mem hp x" by blast
  show ?thesis
  proof (cases "p = 0")
    case True
    then show ?thesis using m n(1) by (simp add: realloc_def sizes)
  next
    case False
    then obtain F' k' where k': "n0 \<le> k'" "heap_ok hp1 F' ((p - SIZE_FIELD, k') # (a, k) # L)" using m(2) by auto
    define b where "b = p - SIZE_FIELD"
    have ok1: "heap_ok hp1 F' ((b, k') # (a, k) # L)" using k'(2) by (simp add: b_def)
    then have "0 < b" by (simp add: heap_ok_def)
    then have p: "p = b + SIZE_FIELD" by (simp add: b_def sizes)
    have ap: "apart (b, k') (a, k)" "\<forall>x \<in> set L. apart (b, k') x" "hole_size (mem hp1) a = k"
      using ok1 by (simp_all add: heap_ok_def)
    let ?sz = "min k n0"
    define m2 where "m2 = copy_bytes (mem hp1) p (a + SIZE_FIELD) ?sz"
    have "p + ?sz \<le> a + SIZE_FIELD \<or> a + SIZE_FIELD + ?sz \<le> p"
      using ap(1) k'(1) unfolding p apart_order by (auto simp: sizes min_def)
    then have m2: "m2 x = (if p \<le> x \<and> x < p + ?sz then mem hp1 (a + SIZE_FIELD + (x - p)) else mem hp1 x)" for x
      unfolding m2_def by (rule copy_bytes_eq)
    have "\<forall>x. x \<notin> {b + SIZE_FIELD..<b + SIZE_FIELD + k'} \<longrightarrow> m2 x = mem hp1 x"
      using k'(1) unfolding m2 p by auto
    from heap_ok_swap [OF payload_write [OF ok1 this]]
    obtain hp2 where r: "returnBlock (hp1\<lparr>mem := m2\<rparr>) a = Some hp2" "heap_ok hp2 (put_block (a, k) F') ((b, k') # L)"
      "\<forall>x \<in> bytes_of ((b, k') # L). mem hp2 x = m2 x" using return_ok by force
    have "realloc mmap ps hp (a + SIZE_FIELD) n0 = Some (p, hp2)"
    proof -
      have "realloc mmap ps hp (a + SIZE_FIELD) n0
          = map_option (\<lambda>hp2. (p, hp2)) (free (hp1\<lparr>mem := m2\<rparr>) (a + SIZE_FIELD))"
        using m(1) False n(1,5) ap(3) unfolding realloc_def m2_def
        by (cases "k < n0") (auto simp: Let_def min_def sizes split: if_splits)
      then show ?thesis using r(1) by (simp add: free_def sizes)
    qed
    moreover have "mem hp2 (p + i) = mem hp (a + SIZE_FIELD + i)" if "i < ?sz" for i
    proof -
      have "p + i \<in> region (b, k')" "a + SIZE_FIELD + i \<in> region (a, k)"
        using that k'(1) by (auto simp: region_def p)
      then show ?thesis using r(3) m(3) m2 [of "p + i"] that by auto
    qed
    moreover have "mem hp2 x = mem hp x" if x: "x \<in> bytes_of L" for x
    proof -
      have "x \<notin> region (b, k')" using ap(2) x unfolding bytes_of_def apart_def by blast
      then have "m2 x = mem hp1 x" using k'(1) unfolding m2 p by (auto simp: region_def)
      then show ?thesis using r(3) m(3) x by simp
    qed
    moreover have "region (a, k) \<subseteq> bytes_of (put_block (a, k) F')" using put_block_region [of "(a, k)" F'] by (auto simp: bytes_of_def)
    ultimately show ?thesis using False r(2) k'(1) unfolding b_def by auto
  qed
qed

definition page_mmap :: "nat \<Rightarrow> nat \<Rightarrow> nat option" where
  "page_mmap hint n = (if n = 0 \<or> n > 2 ^ 40 then None else Some 0x600000000000)"

theorem realloc_copies_witness:
  "\<exists>p hp'. realloc page_mmap 4096 heap_live (4096 + SIZE_FIELD) 100 = Some (p, hp') \<and>
    (if p = 0 then hp' = heap_live
     else (\<exists>F' k'. 100 \<le> k' \<and> heap_ok hp' F' [(p - SIZE_FIELD, k')] \<and> region (4096, 40) \<subseteq> bytes_of F')
       \<and> (\<forall>i < min 40 100. mem hp' (p + i) = mem heap_live (4096 + SIZE_FIELD + i))
       \<and> (\<forall>x \<in> bytes_of []. mem hp' x = mem heap_live x))"
  by (rule realloc_copies [OF heap_live_ok])
    (auto simp: fresh_pages_def page_mmap_def region_def sizes split: if_splits)

lemma return_to_empty:
  "freeList hp = 0 \<Longrightarrow> returnBlock hp h = Some (hp\<lparr>mem := set_next (mem hp) h 0, freeList := h\<rparr>)"
  by (simp add: returnBlock_def find_pred.simps link_block_def absorb_next_def Let_def)

text \<open>The first call: one page, split at the request.\<close>

lemma first_malloc:
  assumes "request_size n0 \<le> 8"
  shows "\<exists>hp'. malloc hint_mmap 4096 heap_init n0 = Some (0x600000000008, hp') \<and> hole_size (mem hp') 0x600000000000 = request_size n0"
proof -
  let ?n = "request_size n0" and ?h = "0x600000000000 :: nat"
  define m0 where "m0 = set_size (mem heap_init) ?h 4088"
  define m1 where "m1 = set_size (set_size m0 (?h + SIZE_FIELD + ?n) (4088 - ?n - SIZE_FIELD)) ?h ?n"
  have g: "getBlock heap_init ?n = Some (0, heap_init)" by (simp add: getBlock_def getBlock_loop.simps heap_init_def)
  have "page_request 4096 ?n = 4096"
  proof -
    have "(?n + 8 + 4096 - 1) div 4096 = 1" using assms by simp
    then show ?thesis using assms by (simp add: page_request_def sizes Let_def wrap_def)
  qed
  then have pr: "hint_mmap (nextBlock heap_init) (page_request 4096 ?n) = Some ?h"
    "minus64 (page_request 4096 ?n) SIZE_FIELD = 4088" by (simp_all add: hint_mmap_def heap_init_def sizes)
  let ?hp = "heap_init\<lparr>mem := m0, nextBlock := nextBlock heap_init + page_request 4096 ?n\<rparr>"
  have "wrap (?n + HOLE_SIZE) \<le> 4088" "hole_size m0 ?h = 4088" using assms by (simp_all add: sizes m0_def)
  moreover have "minus64 (minus64 4088 ?n) SIZE_FIELD = 4088 - ?n - SIZE_FIELD" using assms by (simp add: sizes)
  ultimately have "split_block ?hp ?h ?n = returnBlock (?hp\<lparr>mem := m1\<rparr>) (?h + SIZE_FIELD + ?n)"
    unfolding split_block_def m1_def by (simp add: Let_def)
  also have "\<dots> = Some (?hp\<lparr>mem := set_next m1 (?h + SIZE_FIELD + ?n) 0, freeList := ?h + SIZE_FIELD + ?n\<rparr>)"
    by (simp add: return_to_empty heap_init_def)
  finally have "malloc hint_mmap 4096 heap_init n0
      = Some (?h + SIZE_FIELD, ?hp\<lparr>mem := set_next m1 (?h + SIZE_FIELD + ?n) 0, freeList := ?h + SIZE_FIELD + ?n\<rparr>)"
    using g pr unfolding malloc_def m0_def by (simp add: Let_def)
  moreover have "hole_size (set_next m1 (?h + SIZE_FIELD + ?n) 0) ?h = ?n"
    unfolding m1_def hole_size_def set_next_def set_size_def sizes using assms
    by (subst load_store_other) (simp_all add: load_store_same)
  ultimately show ?thesis by (simp add: sizes)
qed

text \<open>
  Two overflows. \<open>malloc(SIZE_MAX)\<close> does not fail: the round-up wraps to 0 and it returns a
  block of no bytes. \<open>calloc(2 ^ 63, 2)\<close> does not fail: the product wraps to 0 and it returns a
  block of 8 bytes.
\<close>

theorem malloc_overflow:
  "(case malloc hint_mmap 4096 heap_init (2 ^ 64 - 1) of None \<Rightarrow> False
    | Some (p, hp') \<Rightarrow> p \<noteq> 0 \<and> hole_size (mem hp') (p - SIZE_FIELD) = 0)
   \<and> (case calloc hint_mmap 4096 heap_init (2 ^ 63) 2 of None \<Rightarrow> False
    | Some (p, hp') \<Rightarrow> p \<noteq> 0 \<and> hole_size (mem hp') (p - SIZE_FIELD) = 8)"
proof
  have "request_size (2 ^ 64 - 1) = 0" "request_size 0 = 8" by (simp_all add: request_size_def wrap_def)
  then obtain h1 h2 where
    1: "malloc hint_mmap 4096 heap_init (2 ^ 64 - 1) = Some (0x600000000008, h1)" "hole_size (mem h1) 0x600000000000 = 0"
    and 2: "malloc hint_mmap 4096 heap_init 0 = Some (0x600000000008, h2)" "hole_size (mem h2) 0x600000000000 = 8"
    using first_malloc [of "2 ^ 64 - 1"] first_malloc [of 0] by (metis le0 order_refl)
  show "case malloc hint_mmap 4096 heap_init (2 ^ 64 - 1) of None \<Rightarrow> False
    | Some (p, hp') \<Rightarrow> p \<noteq> 0 \<and> hole_size (mem hp') (p - SIZE_FIELD) = 0"
    unfolding 1(1) using 1(2) by (simp add: sizes)
  have "wrap (2 ^ 63 * 2) = 0" by (simp add: wrap_def)
  then show "case calloc hint_mmap 4096 heap_init (2 ^ 63) 2 of None \<Rightarrow> False
    | Some (p, hp') \<Rightarrow> p \<noteq> 0 \<and> hole_size (mem hp') (p - SIZE_FIELD) = 8"
    unfolding calloc_def using 2 by (simp add: sizes)
qed

definition hex_digit :: "char \<Rightarrow> nat" where
  "hex_digit c = (let n = of_char c :: nat in if n < 58 then n - 48 else n - 55)"

definition hex_value :: "string \<Rightarrow> nat" where
  "hex_value = foldl (\<lambda>v c. 16 * v + hex_digit c) 0"

lemma digits_hex:
  "hex_value (rev (size_digits s)) = s" "s < 16 ^ n \<Longrightarrow> length (size_digits s) \<le> n"
proof -
  have d: "hex_digit (hexChar k) = k" if "k < 16" for k
  proof -
    have "\<forall>k \<in> set [0..<16]. hex_digit (hexChar k) = k" by code_simp
    then show ?thesis using that by simp
  qed
  show "hex_value (rev (size_digits s)) = s"
  proof (induction s rule: size_digits.induct)
    case (1 s)
    then show ?case by (subst size_digits.simps) (auto simp: hex_value_def d)
  qed
  show "s < 16 ^ n \<Longrightarrow> length (size_digits s) \<le> n"
  proof (induction n arbitrary: s)
    case (Suc n)
    then have "s div 16 < 16 ^ n" by (simp add: less_mult_imp_div_less mult.commute)
    then show ?case using Suc.IH by (subst size_digits.simps) simp
  qed (simp add: size_digits.simps)
qed

text \<open>
  \<open>reportSize\<close> prints the size in hexadecimal: reading the digits back gives the size, and a
  64-bit size has at most 16 of them, so that the buffer of 20 is enough.
\<close>

theorem reportSize_hex:
  assumes "s < 2 ^ 64"
  shows "hex_value (reportSize s) = s \<and> length (reportSize s) \<le> 16 \<and> reportSize s \<noteq> []"
proof (cases "size_digits s")
  case Nil
  then have "s = 0" by (subst (asm) size_digits.simps) (simp split: if_splits)
  then show ?thesis using Nil by (simp add: reportSize_def swap_ends_rev [of "''0''", simplified] hex_value_def hex_digit_def)
next
  case (Cons c cs)
  then have "reportSize s = rev (size_digits s)" by (simp add: reportSize_def swap_ends_rev [of "c # cs", simplified])
  moreover have "length (size_digits s) \<le> 16" using digits_hex(2) [of s 16] assms by simp
  ultimately show ?thesis using digits_hex(1) [of s] Cons by simp
qed

theorem reportSize_hex_witness: "hex_value (reportSize 4096) = 4096 \<and> length (reportSize 4096) \<le> 16 \<and> reportSize 4096 \<noteq> []"
  by (rule reportSize_hex) simp

end
