(* ===== verification/Parking.thy ===== *)
theory Parking
  imports Exchange_Sort
begin

text \<open>
  The parking server of homework 6, \<open>assignments/hw6/parkingServer.c\<close>: a table of records under one
  mutex, and the commands park, leave, show and quit. Every command that reads or writes the
  table does so in one critical section, so a run of these commands for any number of clients is a
  list of lines in the order in which their sections run. Sockets and threads are the system's; how
  the threads cut their lines into words is in \<open>Parking_Server\<close>.

  The hourly rate is a finite positive \<open>float\<close>, a pair \<open>(m, e)\<close> for \<open>m * 2 ^ e\<close> with at most 24 bits in
  \<open>m\<close>; its products are rounded to 24 bits, half to even, as IEEE single precision does
  (overflow to infinity is left out: the exponent is unbounded).

  Proved: the table implements a map from plates to arrival times with a capacity, and every
  answer is the one of the map; show lists the map in order of arrival; what a fee is.
\<close>

subsection \<open>Single precision\<close>

type_synonym flt = "nat \<times> int"

fun extra_bits :: "nat \<Rightarrow> nat" where
  "extra_bits m = (if m < 2 ^ 24 then 0 else Suc (extra_bits (m div 2)))"

declare extra_bits.simps [simp del]

definition half_even :: "nat \<Rightarrow> nat \<Rightarrow> nat" where
  "half_even n d = (let q = n div d; r = n mod d in if 2 * r > d \<or> 2 * r = d \<and> odd q then q + 1 else q)"

definition flt_scale :: "flt \<Rightarrow> nat \<Rightarrow> flt" where
  "flt_scale x n = (let (m, e) = x; k = extra_bits (m * n) in (half_even (m * n) (2 ^ k), e + int k))"

definition flt_less :: "flt \<Rightarrow> flt \<Rightarrow> bool" where
  "flt_less x y = (let (m, e) = x; (n, f) = y; d = min e f in m * 2 ^ nat (e - d) < n * 2 ^ nat (f - d))"

text \<open>\<open>%.2f\<close>, \<open>%02d\<close> and \<open>%-15s\<close>.\<close>

definition pad2 :: "nat \<Rightarrow> string" where
  "pad2 n = (if n < 10 then ''0'' else []) @ show_nat n"

definition show_fixed2 :: "flt \<Rightarrow> string" where
  "show_fixed2 x = (let (m, e) = x;
     cents = (if e \<ge> 0 then m * 2 ^ nat e * 100 else half_even (m * 100) (2 ^ nat (- e)))
     in show_nat (cents div 100) @ ''.'' @ pad2 (cents mod 100))"

definition left15 :: "string \<Rightarrow> string" where
  "left15 s = s @ replicate (15 - length s) CHR '' ''"

subsection \<open>The table\<close>

definition MAX_PLATE_LEN :: nat where "MAX_PLATE_LEN = 9"

record ParkingRecord =
  plate :: buf
  arrivalTime :: int
  occupied :: bool

type_synonym parking_table = "ParkingRecord list"

fun plate_loop :: "string \<Rightarrow> nat \<Rightarrow> bool" where
  "plate_loop [] dashCount = True"
| "plate_loop (c # cs) dashCount =
     (if c = CHR ''-'' then (if dashCount + 1 > 1 then False else plate_loop cs (dashCount + 1))
      else if \<not> isdigit c \<and> \<not> isupper c then False
      else plate_loop cs dashCount)"

definition isValidPlate :: "string \<Rightarrow> bool" where
  "isValidPlate p = (if length p < 7 \<or> length p > 8 then False else plate_loop p 0)"

definition formatTime :: "int \<Rightarrow> string" where
  "formatTime seconds = (let s = nat seconds in
     take 15 (pad2 (s div 3600) @ '':'' @ pad2 (s mod 3600 div 60) @ '':'' @ pad2 (s mod 60)))"

text \<open>\<open>strtok(cmd, " ")\<close>, at most three tokens.\<close>

fun tokens :: "nat \<Rightarrow> string \<Rightarrow> string list" where
  "tokens 0 s = []"
| "tokens (Suc n) s = (case dropWhile (\<lambda>c. c = CHR '' '') s of
       [] \<Rightarrow> []
     | c # cs \<Rightarrow> takeWhile (\<lambda>c. c \<noteq> CHR '' '') (c # cs) # tokens n (dropWhile (\<lambda>c. c \<noteq> CHR '' '') (c # cs)))"

text \<open>The loops that look for the first record with a property.\<close>

fun first_index :: "('a \<Rightarrow> bool) \<Rightarrow> 'a list \<Rightarrow> nat option" where
  "first_index P [] = None"
| "first_index P (x # xs) = (if P x then Some 0 else map_option Suc (first_index P xs))"

definition has_plate :: "string \<Rightarrow> ParkingRecord \<Rightarrow> bool" where
  "has_plate p r \<longleftrightarrow> occupied r \<and> cstr (plate r) = p"

definition invalid_command :: string where "invalid_command = ''Invalid command'' @ NL"

definition park_car :: "parking_table \<Rightarrow> string \<Rightarrow> int \<Rightarrow> parking_table \<times> string" where
  "park_car T p arrival =
     (case first_index (has_plate p) T of
        Some _ \<Rightarrow> (T, invalid_command)
      | None \<Rightarrow>
          (case first_index (\<lambda>r. \<not> occupied r) T of
             None \<Rightarrow> (T, ''Parking full - no available spaces.'' @ NL)
           | Some i \<Rightarrow>
               (T[i := (T ! i)\<lparr>plate := (strncpy (plate (T ! i)) p (MAX_PLATE_LEN - 1))[MAX_PLATE_LEN - 1 := NUL],
                               arrivalTime := arrival, occupied := True\<rparr>], [])))"

definition parking_fee :: "flt \<Rightarrow> int \<Rightarrow> flt" where
  "parking_fee hourlyRate duration =
     (let hours = nat ((duration + 3599) div 3600);
          fee = flt_scale hourlyRate hours;
          maxFee = flt_scale hourlyRate 10
      in if flt_less maxFee fee then maxFee else fee)"

definition leave_car :: "flt \<Rightarrow> parking_table \<Rightarrow> string \<Rightarrow> int \<Rightarrow> parking_table \<times> string" where
  "leave_car hourlyRate T p leaveTime =
     (case first_index (has_plate p) T of
        None \<Rightarrow> (T, ''Plate number '' @ p @ '' not found in the parking lot.'' @ NL)
      | Some i \<Rightarrow>
          (if leaveTime < arrivalTime (T ! i) then (T, invalid_command)
           else (T[i := (T ! i)\<lparr>occupied := False, plate := (plate (T ! i))[0 := NUL], arrivalTime := 0\<rparr>],
                 ''Parking fee: $'' @ show_fixed2 (parking_fee hourlyRate (leaveTime - arrivalTime (T ! i))) @ NL)))"

definition arrives_before :: "ParkingRecord \<Rightarrow> ParkingRecord \<Rightarrow> bool" where
  "arrives_before x y \<longleftrightarrow> arrivalTime x < arrivalTime y"

definition show_line :: "string \<times> int \<Rightarrow> string" where
  "show_line x = left15 (fst x) @ formatTime (snd x) @ NL"

definition show_cars :: "parking_table \<Rightarrow> string" where
  "show_cars T = ''Plate Number    Time'' @ NL @
     concat (map (\<lambda>r. show_line (cstr (plate r), arrivalTime r)) (exch_sort arrives_before (filter occupied T)))"

definition prompt :: string where "prompt = ''cmd> ''"

text \<open>
  The body of the loop of \<open>handleClient\<close>, on the tokens of a line: the new table, what is written to
  the client, and whether the loop goes on. \<open>exec_line\<close> is the whole body on one \<open>fgets\<close> buffer for
  a client that \<open>strtok\<close> serves undisturbed; \<open>Parking_Server\<close> has the calls of \<open>strtok\<close> one by one.
\<close>

definition run_command :: "flt \<Rightarrow> parking_table \<Rightarrow> string list \<Rightarrow> parking_table \<times> string \<times> bool" where
  "run_command hourlyRate T args =
     (if length args = 0 then (T, invalid_command @ prompt, True)
      else if args ! 0 = ''quit'' then (T, [], False)
      else let r =
          (if args ! 0 = ''park'' then
             (if length args < 3 then (T, invalid_command)
              else let arrival = atoi (args ! 2) in
                if \<not> isValidPlate (args ! 1) \<or> arrival \<le> 0 \<or> arrival > 86400 then (T, invalid_command)
                else park_car T (args ! 1) arrival)
           else if args ! 0 = ''leave'' then
             (if length args < 3 then (T, invalid_command)
              else let leaveTime = atoi (args ! 2) in
                if \<not> isValidPlate (args ! 1) \<or> leaveTime \<le> 0 \<or> leaveTime > 86400 then (T, invalid_command)
                else leave_car hourlyRate T (args ! 1) leaveTime)
           else if args ! 0 = ''show'' then (T, show_cars T)
           else (T, invalid_command))
        in (fst r, snd r @ prompt, True))"

abbreviation strip_newline :: "string \<Rightarrow> string" where
  "strip_newline line \<equiv> takeWhile (\<lambda>c. c \<noteq> CHR 0x0D \<and> c \<noteq> CHR 0x0A) (cstr line)"

definition exec_line :: "flt \<Rightarrow> parking_table \<Rightarrow> string \<Rightarrow> parking_table \<times> string \<times> bool" where
  "exec_line hourlyRate T line =
     (let cmd = strip_newline line in
      if cmd = [] then (T, prompt, True) else run_command hourlyRate T (tokens 3 cmd))"

text \<open>A run: lines of all clients in the order of their critical sections, and the answers.\<close>

fun serve :: "flt \<Rightarrow> parking_table \<Rightarrow> string list \<Rightarrow> parking_table \<times> string list" where
  "serve hourlyRate T [] = (T, [])"
| "serve hourlyRate T (l # ls) = (let (T', out, go) = exec_line hourlyRate T l; (T'', outs) = serve hourlyRate T' ls
     in (T'', out # outs))"

text \<open>The start of \<open>main\<close>: \<open>rate_ok\<close> is the test on the rate; \<open>None\<close> is the usage message.\<close>

definition parking_start :: "string list \<Rightarrow> bool \<Rightarrow> parking_table option" where
  "parking_start args rate_ok =
     (if length args \<noteq> 2 then None
      else let parkingCapacity = atoi (args ! 0) in
        if parkingCapacity \<le> 0 \<or> \<not> rate_ok then None
        else Some (replicate (nat parkingCapacity)
          \<lparr>plate = replicate MAX_PLATE_LEN NUL, arrivalTime = 0, occupied = False\<rparr>))"

subsection \<open>The specification\<close>

text \<open>A lot is a map from plates to arrival times.\<close>

type_synonym lot = "string \<Rightarrow> int option"

datatype parking_request = Blank | Quit | Park string int | Leave string int | Show | Bad

definition valid_plate :: "string \<Rightarrow> bool" where
  "valid_plate p \<longleftrightarrow> (length p = 7 \<or> length p = 8)
     \<and> (\<forall>c \<in> set p. c = CHR ''-'' \<or> isdigit c \<or> isupper c) \<and> length (filter (\<lambda>c. c = CHR ''-'') p) \<le> 1"

definition parking_request_of :: "string \<Rightarrow> parking_request" where
  "parking_request_of line = (let cmd = takeWhile (\<lambda>c. c \<noteq> CHR 0x0D \<and> c \<noteq> CHR 0x0A) (cstr line) in
     if cmd = [] then Blank
     else case tokens 3 cmd of
         [] \<Rightarrow> Bad
       | a # as \<Rightarrow>
           if a = ''quit'' then Quit
           else if a = ''park'' \<or> a = ''leave'' then
             (case as of [p, t] \<Rightarrow>
                if valid_plate p \<and> 0 < atoi t \<and> atoi t \<le> 86400
                then (if a = ''park'' then Park p (atoi t) else Leave p (atoi t)) else Bad
              | _ \<Rightarrow> Bad)
           else if a = ''show'' then Show else Bad)"

fun lot_step :: "nat \<Rightarrow> lot \<Rightarrow> parking_request \<Rightarrow> lot" where
  "lot_step cap m (Park p t) = (if p \<in> dom m \<or> card (dom m) \<ge> cap then m else m(p \<mapsto> t))"
| "lot_step cap m (Leave p t) = (case m p of None \<Rightarrow> m | Some a \<Rightarrow> if t < a then m else m(p := None))"
| "lot_step cap m _ = m"

text \<open>The answers that are right.\<close>

definition shows_lot :: "lot \<Rightarrow> string \<Rightarrow> bool" where
  "shows_lot m out \<longleftrightarrow> (\<exists>rs. out = ''Plate Number    Time'' @ NL @ concat (map show_line rs)
     \<and> sorted (map snd rs) \<and> distinct (map fst rs) \<and> map_of rs = m)"

fun lot_answer :: "flt \<Rightarrow> nat \<Rightarrow> lot \<Rightarrow> parking_request \<Rightarrow> string \<Rightarrow> bool" where
  "lot_answer rate cap m Blank out = (out = prompt)"
| "lot_answer rate cap m Quit out = (out = [])"
| "lot_answer rate cap m Bad out = (out = invalid_command @ prompt)"
| "lot_answer rate cap m Show out = (\<exists>o'. out = o' @ prompt \<and> shows_lot m o')"
| "lot_answer rate cap m (Park p t) out = (out = (if p \<in> dom m then invalid_command
     else if card (dom m) \<ge> cap then ''Parking full - no available spaces.'' @ NL else []) @ prompt)"
| "lot_answer rate cap m (Leave p t) out = (out = (case m p of
       None \<Rightarrow> ''Plate number '' @ p @ '' not found in the parking lot.'' @ NL
     | Some a \<Rightarrow> if t < a then invalid_command
         else ''Parking fee: $'' @ show_fixed2 (parking_fee rate (t - a)) @ NL) @ prompt)"

fun lot_session :: "flt \<Rightarrow> nat \<Rightarrow> lot \<Rightarrow> string list \<Rightarrow> string list \<Rightarrow> bool" where
  "lot_session rate cap m [] outs = (outs = [])"
| "lot_session rate cap m (l # ls) outs = (case outs of
       [] \<Rightarrow> False
     | out # outs' \<Rightarrow> lot_answer rate cap m (parking_request_of l) out
         \<and> lot_session rate cap (lot_step cap m (parking_request_of l)) ls outs')"

text \<open>The table holds the lot.\<close>

definition holds_lot :: "parking_table \<Rightarrow> lot \<Rightarrow> bool" where
  "holds_lot T m \<longleftrightarrow>
     (\<forall>i < length T. \<forall>j < length T. occupied (T ! i) \<and> occupied (T ! j) \<and> cstr (plate (T ! i)) = cstr (plate (T ! j)) \<longrightarrow> i = j)
     \<and> (\<forall>p t. m p = Some t \<longleftrightarrow> (\<exists>i < length T. has_plate p (T ! i) \<and> arrivalTime (T ! i) = t))
     \<and> (\<forall>r \<in> set T. length (plate r) = MAX_PLATE_LEN)"

subsection \<open>Lemmas\<close>

lemma first_index_None: "first_index P xs = None \<longleftrightarrow> (\<forall>i < length xs. \<not> P (xs ! i))"
  by (induction xs) (auto simp: nth_Cons' less_Suc_eq_0_disj split: if_splits)

lemma first_index_Some: "first_index P xs = Some i \<Longrightarrow> i < length xs \<and> P (xs ! i)"
  by (induction xs arbitrary: i) (auto split: if_splits)

lemma plate_loop_iff:
  "d \<le> 1 \<Longrightarrow> plate_loop p d \<longleftrightarrow> (\<forall>c \<in> set p. c = CHR ''-'' \<or> isdigit c \<or> isupper c)
     \<and> d + length (filter (\<lambda>c. c = CHR ''-'') p) \<le> 1"
  by (induction p d rule: plate_loop.induct) auto

lemma isValidPlate_iff: "isValidPlate p = valid_plate p"
proof -
  have "length p < 7 \<or> length p > 8 \<longleftrightarrow> \<not> (length p = 7 \<or> length p = 8)" by linarith
  then show ?thesis using plate_loop_iff [of 0 p] by (simp add: isValidPlate_def valid_plate_def)
qed

lemma valid_plate_cstr:
  assumes "valid_plate p"
  shows "NUL \<notin> set p" "length p \<le> MAX_PLATE_LEN - 1"
proof -
  have "\<not> isdigit NUL" "\<not> isupper NUL" "NUL \<noteq> CHR ''-''" by (simp_all add: isdigit_def isupper_def)
  then show "NUL \<notin> set p" using assms unfolding valid_plate_def by blast
  show "length p \<le> MAX_PLATE_LEN - 1"
    using assms unfolding valid_plate_def MAX_PLATE_LEN_def by linarith
qed

lemma plate_stored:
  assumes "valid_plate p" "length b = MAX_PLATE_LEN"
  shows "cstr ((strncpy b p (MAX_PLATE_LEN - 1))[MAX_PLATE_LEN - 1 := NUL]) = p"
    "length ((strncpy b p (MAX_PLATE_LEN - 1))[MAX_PLATE_LEN - 1 := NUL]) = MAX_PLATE_LEN"
proof -
  let ?n = "MAX_PLATE_LEN - 1"
  note p = valid_plate_cstr [OF assms(1)]
  have s: "strncpy b p ?n = (p @ replicate (?n - length p) NUL) @ drop ?n b"
    using p by (simp add: strncpy_def cstr_id)
  have l: "length (p @ replicate (?n - length p) NUL) = ?n" using p(2) by simp
  obtain c where "drop ?n b = [c]" using assms(2)
    by (cases "drop ?n b") (auto simp: MAX_PLATE_LEN_def dest: arg_cong [where f = length])
  then have "(strncpy b p ?n)[?n := NUL] = p @ replicate (?n - length p) NUL @ [NUL]"
    unfolding s using list_update_append [of "p @ replicate (?n - length p) NUL" "[c]" ?n NUL] unfolding l by simp
  then show "cstr ((strncpy b p ?n)[?n := NUL]) = p"
    using p cstr_snoc_replicate [of p "?n - length p" "[NUL]"] cstr_append_NUL [of p "[]"] by (auto split: if_splits)
  show "length ((strncpy b p ?n)[?n := NUL]) = MAX_PLATE_LEN"
    using assms(2) by (simp add: length_strncpy)
qed

lemma holds_card: "holds_lot T m \<Longrightarrow> card (dom m) = card {i. i < length T \<and> occupied (T ! i)}"
proof -
  assume h: "holds_lot T m"
  let ?I = "{i. i < length T \<and> occupied (T ! i)}"
  have "dom m = (\<lambda>i. cstr (plate (T ! i))) ` ?I"
    using h by (auto simp: holds_lot_def has_plate_def dom_def image_iff)
  moreover have "inj_on (\<lambda>i. cstr (plate (T ! i))) ?I"
    using h by (auto simp: holds_lot_def inj_on_def)
  ultimately show ?thesis by (simp add: card_image)
qed

lemma holds_full: "holds_lot T m \<Longrightarrow> card (dom m) \<ge> length T \<longleftrightarrow> (\<forall>i < length T. occupied (T ! i))"
proof -
  assume h: "holds_lot T m"
  let ?I = "{i. i < length T \<and> occupied (T ! i)}"
  have fin: "finite {..<length T}" "?I \<subseteq> {..<length T}" by auto
  have "card ?I \<ge> length T \<longleftrightarrow> ?I = {..<length T}"
  proof
    assume "card ?I \<ge> length T"
    then have "card ?I = card {..<length T}" using card_mono [OF fin] by simp
    then show "?I = {..<length T}" by (rule card_subset_eq [OF fin])
  next
    assume e: "?I = {..<length T}"
    show "card ?I \<ge> length T" unfolding e by simp
  qed
  also have "\<dots> \<longleftrightarrow> (\<forall>i < length T. occupied (T ! i))" by auto
  finally show ?thesis using holds_card [OF h] by simp
qed

lemma holds_lotD:
  "holds_lot T m \<Longrightarrow> m p = Some t \<longleftrightarrow> (\<exists>i < length T. has_plate p (T ! i) \<and> arrivalTime (T ! i) = t)"
  by (simp add: holds_lot_def)

lemma has_plate_lot:
  assumes h: "holds_lot T m"
  shows "first_index (has_plate p) T = None \<longleftrightarrow> m p = None"
    "first_index (has_plate p) T = Some i \<Longrightarrow> i < length T \<and> has_plate p (T ! i) \<and> m p = Some (arrivalTime (T ! i))"
proof -
  have "m p = None \<longleftrightarrow> (\<forall>t. \<not> m p = Some t)" by simp
  also have "\<dots> \<longleftrightarrow> (\<forall>i < length T. \<not> has_plate p (T ! i))" unfolding holds_lotD [OF h] by blast
  finally show "first_index (has_plate p) T = None \<longleftrightarrow> m p = None" by (simp add: first_index_None)
  assume "first_index (has_plate p) T = Some i"
  then have i: "i < length T \<and> has_plate p (T ! i)" by (rule first_index_Some)
  then show "i < length T \<and> has_plate p (T ! i) \<and> m p = Some (arrivalTime (T ! i))"
    unfolding holds_lotD [OF h] by blast
qed

lemma park_refines:
  assumes h: "holds_lot T m" and p: "valid_plate p"
  shows "length (fst (park_car T p t)) = length T"
    "holds_lot (fst (park_car T p t)) (lot_step (length T) m (Park p t))"
    "lot_answer rate (length T) m (Park p t) (snd (park_car T p t) @ prompt)"
proof -
  have dup: "(\<exists>i. first_index (has_plate p) T = Some i) \<longleftrightarrow> p \<in> dom m"
    using has_plate_lot(1) [OF h, of p] by (cases "m p") auto
  have full: "first_index (\<lambda>r. \<not> occupied r) T = None \<longleftrightarrow> card (dom m) \<ge> length T"
    unfolding first_index_None holds_full [OF h] by simp
  show "length (fst (park_car T p t)) = length T" by (simp add: park_car_def split: option.splits)
  show "lot_answer rate (length T) m (Park p t) (snd (park_car T p t) @ prompt)"
    using dup full by (auto simp: park_car_def split: option.splits)
  show "holds_lot (fst (park_car T p t)) (lot_step (length T) m (Park p t))"
  proof (cases "first_index (has_plate p) T = None \<and> first_index (\<lambda>r. \<not> occupied r) T \<noteq> None")
    case False
    then have "fst (park_car T p t) = T" "lot_step (length T) m (Park p t) = m"
      using dup full by (auto simp: park_car_def split: option.splits)
    then show ?thesis using h by simp
  next
    case True
    then obtain i where i: "first_index (has_plate p) T = None" "first_index (\<lambda>r. \<not> occupied r) T = Some i" by auto
    let ?b = "(strncpy (plate (T ! i)) p (MAX_PLATE_LEN - 1))[MAX_PLATE_LEN - 1 := NUL]"
    let ?r = "(T ! i)\<lparr>plate := ?b, arrivalTime := t, occupied := True\<rparr>"
    have il: "i < length T" "\<not> occupied (T ! i)" using first_index_Some [OF i(2)] by auto
    have b: "cstr ?b = p" "length ?b = MAX_PLATE_LEN" using plate_stored [OF p] h il by (auto simp: holds_lot_def)
    have new: "\<not> has_plate p (T ! j)" if "j < length T" for j using i(1) that unfolding first_index_None by blast
    have "p \<notin> dom m" "\<not> card (dom m) \<ge> length T" using dup full i by auto
    then have "lot_step (length T) m (Park p t) = m(p \<mapsto> t)" "fst (park_car T p t) = T[i := ?r]"
      using i by (simp_all add: park_car_def)
    moreover have "holds_lot (T[i := ?r]) (m(p \<mapsto> t))"
      unfolding holds_lot_def
    proof (intro conjI allI impI)
      show "j = k" if "j < length (T[i := ?r])" "k < length (T[i := ?r])"
        "occupied (T[i := ?r] ! j) \<and> occupied (T[i := ?r] ! k) \<and> cstr (plate (T[i := ?r] ! j)) = cstr (plate (T[i := ?r] ! k))" for j k
        using that h new b(1) il by (auto simp: holds_lot_def nth_list_update has_plate_def split: if_splits)
      show "(m(p \<mapsto> t)) q = Some u \<longleftrightarrow> (\<exists>j < length (T[i := ?r]). has_plate q (T[i := ?r] ! j) \<and> arrivalTime (T[i := ?r] ! j) = u)" for q u
      proof (cases "q = p")
        case True
        then show ?thesis using new il b(1) by (auto simp: nth_list_update has_plate_def split: if_splits intro!: exI [of _ i])
      next
        case False
        have "has_plate q (T[i := ?r] ! j) \<and> arrivalTime (T[i := ?r] ! j) = u \<longleftrightarrow> has_plate q (T ! j) \<and> arrivalTime (T ! j) = u"
          if "j < length T" for j using that False il b(1) by (auto simp: nth_list_update has_plate_def)
        then show ?thesis using False h unfolding holds_lot_def by (simp del: not_less) blast
      qed
    qed (use h b(2) il in \<open>auto simp: holds_lot_def dest!: set_update_subset_insert [THEN subsetD]\<close>)
    ultimately show ?thesis by simp
  qed
qed

lemma leave_refines:
  assumes h: "holds_lot T m"
  shows "length (fst (leave_car rate T p t)) = length T"
    "holds_lot (fst (leave_car rate T p t)) (lot_step (length T) m (Leave p t))"
    "lot_answer rate (length T) m (Leave p t) (snd (leave_car rate T p t) @ prompt)"
proof -
  note fi = has_plate_lot [OF h, of p]
  show "length (fst (leave_car rate T p t)) = length T" by (simp add: leave_car_def split: option.splits)
  show "lot_answer rate (length T) m (Leave p t) (snd (leave_car rate T p t) @ prompt)"
  proof (cases "first_index (has_plate p) T")
    case None
    then show ?thesis using fi(1) by (simp add: leave_car_def)
  next
    case (Some i)
    then show ?thesis using fi(2) [OF Some] by (simp add: leave_car_def)
  qed
  show "holds_lot (fst (leave_car rate T p t)) (lot_step (length T) m (Leave p t))"
  proof (cases "first_index (has_plate p) T")
    case None
    then show ?thesis using fi(1) h by (simp add: leave_car_def)
  next
    case (Some i)
    note i = fi(2) [OF Some]
    show ?thesis
    proof (cases "t < arrivalTime (T ! i)")
      case True
      then show ?thesis using Some i h by (simp add: leave_car_def)
    next
      case False
      let ?r = "(T ! i)\<lparr>occupied := False, plate := (plate (T ! i))[0 := NUL], arrivalTime := 0\<rparr>"
      have "fst (leave_car rate T p t) = T[i := ?r]" "lot_step (length T) m (Leave p t) = m(p := None)"
        using Some i False by (simp_all add: leave_car_def)
      moreover have "holds_lot (T[i := ?r]) (m(p := None))"
        unfolding holds_lot_def
      proof (intro conjI allI impI)
        show "j = k" if "j < length (T[i := ?r])" "k < length (T[i := ?r])"
          "occupied (T[i := ?r] ! j) \<and> occupied (T[i := ?r] ! k) \<and> cstr (plate (T[i := ?r] ! j)) = cstr (plate (T[i := ?r] ! k))" for j k
          using that h i by (auto simp: holds_lot_def nth_list_update split: if_splits)
        have only: "j = i" if "j < length T" "has_plate p (T ! j)" for j
          using that i h by (auto simp: holds_lot_def has_plate_def)
        show "(m(p := None)) q = Some u \<longleftrightarrow> (\<exists>j < length (T[i := ?r]). has_plate q (T[i := ?r] ! j) \<and> arrivalTime (T[i := ?r] ! j) = u)" for q u
        proof -
          have "has_plate q (T[i := ?r] ! j) \<and> arrivalTime (T[i := ?r] ! j) = u
              \<longleftrightarrow> q \<noteq> p \<and> has_plate q (T ! j) \<and> arrivalTime (T ! j) = u" if "j < length T" for j
            using that i only [of j] by (auto simp: nth_list_update has_plate_def)
          then have "(\<exists>j < length (T[i := ?r]). has_plate q (T[i := ?r] ! j) \<and> arrivalTime (T[i := ?r] ! j) = u)
              \<longleftrightarrow> q \<noteq> p \<and> m q = Some u" unfolding holds_lotD [OF h] length_list_update by blast
          then show ?thesis by simp
        qed
      qed (use h i in \<open>auto simp: holds_lot_def dest!: set_update_subset_insert [THEN subsetD]\<close>)
      ultimately show ?thesis by simp
    qed
  qed
qed

text \<open>The sort of \<open>show\<close>: ordered by the key the comparison reads.\<close>

interpretation arrival: key_order arrives_before arrivalTime
  by unfold_locales (simp add: arrives_before_def)

lemma distinct_filter_map:
  "\<forall>i < length T. \<forall>j < length T. P (T ! i) \<and> P (T ! j) \<and> f (T ! i) = f (T ! j) \<longrightarrow> i = j \<Longrightarrow>
    distinct (map f (filter P T))"
proof (induction T)
  case (Cons x T)
  have "i = j" if "i < length T" "j < length T" "P (T ! i)" "P (T ! j)" "f (T ! i) = f (T ! j)" for i j
    using Cons.prems [rule_format, of "Suc i" "Suc j"] that by simp
  then have "distinct (map f (filter P T))" by (intro Cons.IH) blast
  moreover have "f x \<noteq> f (T ! j)" if "P x" "j < length T" "P (T ! j)" for j
    using Cons.prems [rule_format, of 0 "Suc j"] that by auto
  ultimately show ?case by (auto simp: in_set_conv_nth)
qed simp

lemma show_refines:
  assumes h: "holds_lot T m"
  shows "shows_lot m (show_cars T)"
proof -
  let ?e = "\<lambda>r. (cstr (plate r), arrivalTime r)"
  let ?S = "exch_sort arrives_before (filter occupied T)"
  let ?rs = "map ?e ?S"
  have "sorted (map snd ?rs)" using arrival.sorted_exch_sort [of "filter occupied T"] by (simp add: comp_def)
  moreover have d: "distinct (map fst ?rs)"
  proof -
    have "distinct (map (\<lambda>r. cstr (plate r)) (filter occupied T))"
      by (rule distinct_filter_map) (use h in \<open>simp add: holds_lot_def\<close>)
    moreover have "mset (map (\<lambda>r. cstr (plate r)) ?S) = mset (map (\<lambda>r. cstr (plate r)) (filter occupied T))"
      by (simp only: mset_map mset_exch_sort)
    ultimately have "distinct (map (\<lambda>r. cstr (plate r)) ?S)" using mset_eq_imp_distinct_iff by blast
    then show ?thesis by (simp add: comp_def)
  qed
  moreover have "map_of ?rs = m"
  proof
    fix p
    have "map_of ?rs p = Some t \<longleftrightarrow> m p = Some t" for t
    proof -
      have "map_of ?rs p = Some t \<longleftrightarrow> (p, t) \<in> set ?rs" using d by simp
      also have "\<dots> \<longleftrightarrow> (\<exists>r \<in> set T. has_plate p r \<and> arrivalTime r = t)" by (auto simp: has_plate_def)
      also have "\<dots> \<longleftrightarrow> (\<exists>i < length T. has_plate p (T ! i) \<and> arrivalTime (T ! i) = t)"
        by (metis in_set_conv_nth)
      finally show ?thesis unfolding holds_lotD [OF h] .
    qed
    then show "map_of ?rs p = m p" by (cases "m p"; cases "map_of ?rs p") auto
  qed
  moreover have "show_cars T = ''Plate Number    Time'' @ NL @ concat (map show_line ?rs)"
    by (simp add: show_cars_def comp_def)
  ultimately show ?thesis unfolding shows_lot_def by blast
qed

lemma tokens_length: "length (tokens n s) \<le> n"
proof (induction n arbitrary: s)
  case (Suc n)
  then show ?case by (cases "dropWhile (\<lambda>c. c = CHR '' '') s") (auto simp del: dropWhile_eq_Nil_conv)
qed simp

lemma exec_line_refines:
  assumes h: "holds_lot T m"
  shows "length (fst (exec_line rate T l)) = length T"
    "holds_lot (fst (exec_line rate T l)) (lot_step (length T) m (parking_request_of l))"
    "lot_answer rate (length T) m (parking_request_of l) (fst (snd (exec_line rate T l)))"
proof -
  define cmd where "cmd = takeWhile (\<lambda>c. c \<noteq> CHR 0x0D \<and> c \<noteq> CHR 0x0A) (cstr l)"
  let ?out = "exec_line rate T l" and ?r = "parking_request_of l"
  have "length (fst ?out) = length T \<and> holds_lot (fst ?out) (lot_step (length T) m ?r)
      \<and> lot_answer rate (length T) m ?r (fst (snd ?out))"
  proof (cases "cmd = [] \<or> tokens 3 cmd = []")
    case True
    then show ?thesis using h unfolding exec_line_def run_command_def parking_request_of_def cmd_def [symmetric]
      by (cases "cmd = []") simp_all
  next
    case False
    then obtain a as where t: "tokens 3 cmd = a # as" by (cases "tokens 3 cmd") auto
    have "length as \<le> 2" using tokens_length [of 3 cmd] t by simp
    then consider "as = []" | p where "as = [p]" | p t where "as = [p, t]"
      by (cases as; cases "tl as"; cases "tl (tl as)") auto
    then show ?thesis
    proof cases
      case 3
      note L = leave_refines [OF h, of rate p]
      show ?thesis
      proof (cases "valid_plate p")
        case True
        note P = park_refines [OF h True]
        show ?thesis using h False t 3 P L show_refines [OF h] True isValidPlate_iff [of p]
          unfolding exec_line_def run_command_def parking_request_of_def cmd_def [symmetric]
          by (simp add: Let_def not_less not_le del: lot_answer.simps(5,6) lot_step.simps(1,2))
      next
        case bad: False
        show ?thesis using h False t 3 show_refines [OF h] bad isValidPlate_iff [of p]
          unfolding exec_line_def run_command_def parking_request_of_def cmd_def [symmetric]
          by (simp add: Let_def)
      qed
    qed (use h False t show_refines [OF h] in
      \<open>simp_all add: exec_line_def run_command_def parking_request_of_def cmd_def [symmetric] Let_def\<close>)
  qed
  then show "length (fst ?out) = length T" "holds_lot (fst ?out) (lot_step (length T) m ?r)"
    "lot_answer rate (length T) m ?r (fst (snd ?out))" by blast+
qed

lemma serve_refines:
  "holds_lot T m \<Longrightarrow> lot_session rate (length T) m ls (snd (serve rate T ls))
    \<and> holds_lot (fst (serve rate T ls)) (foldl (\<lambda>m l. lot_step (length T) m (parking_request_of l)) m ls)
    \<and> length (fst (serve rate T ls)) = length T"
proof (induction ls arbitrary: T m)
  case (Cons l ls)
  obtain T' out go where e: "exec_line rate T l = (T', out, go)" by (metis prod.collapse)
  have 1: "length T' = length T" "holds_lot T' (lot_step (length T) m (parking_request_of l))"
    "lot_answer rate (length T) m (parking_request_of l) out"
    using exec_line_refines [OF Cons.prems, of rate l] e by simp_all
  show ?case using Cons.IH [OF 1(2)] 1 e by (simp add: case_prod_beta)
qed simp

lemma start_holds: "parking_start args ok = Some T \<Longrightarrow> holds_lot T (\<lambda>_. None) \<and> int (length T) = atoi (args ! 0) \<and> T \<noteq> []"
  by (auto simp: parking_start_def Let_def holds_lot_def has_plate_def split: if_splits)

subsection \<open>Properties\<close>

text \<open>
  From its start the table is the abstract lot: whatever lines are executed one after the other,
  every answer is the one of a map from plates to
  arrival times that holds at most as many cars as there are spaces: no plate twice, no car in a
  full lot, leaving frees exactly the car's space, and \<open>show\<close> lists the whole lot once, in order
  of arrival.
\<close>

theorem server_is_lot:
  assumes "parking_start args ok = Some T"
  shows "lot_session rate (nat (atoi (args ! 0))) (\<lambda>_. None) ls (snd (serve rate T ls))
    \<and> holds_lot (fst (serve rate T ls))
        (foldl (\<lambda>m l. lot_step (nat (atoi (args ! 0))) m (parking_request_of l)) (\<lambda>_. None) ls)"
proof -
  have "nat (atoi (args ! 0)) = length T" using start_holds [OF assms] by linarith
  then show ?thesis using serve_refines [of T "\<lambda>_. None" rate ls] start_holds [OF assms] by simp
qed

definition demo_lines :: "string list" where
  "demo_lines = [''park ABC-1234 100'' @ NL, ''park XYZ9876 50'' @ NL, ''park ABC-1234 200'' @ NL, ''show'' @ NL]"

theorem server_is_lot_witness:
  "\<exists>T. parking_start [''2'', ''2.50''] True = Some T \<and>
    lot_session (5, - 1) 2 (\<lambda>_. None) demo_lines (snd (serve (5, - 1) T demo_lines)) \<and>
    last (snd (serve (5, - 1) T demo_lines)) = ''Plate Number    Time'' @ NL @ ''XYZ9876        00:00:50'' @ NL @ ''ABC-1234       00:01:40'' @ NL @ prompt"
proof -
  have a: "atoi ''2'' = 2" by code_simp
  then obtain T where T: "parking_start [''2'', ''2.50''] True = Some T" by (simp add: parking_start_def)
  have "case parking_start [''2'', ''2.50''] True of None \<Rightarrow> False
    | Some T \<Rightarrow> last (snd (serve (5, - 1) T demo_lines)) = ''Plate Number    Time'' @ NL @ ''XYZ9876        00:00:50'' @ NL @ ''ABC-1234       00:01:40'' @ NL @ prompt" by code_simp
  then have "last (snd (serve (5, - 1) T demo_lines)) = ''Plate Number    Time'' @ NL @ ''XYZ9876        00:00:50'' @ NL @ ''ABC-1234       00:01:40'' @ NL @ prompt" using T by simp
  moreover have "lot_session (5, - 1) 2 (\<lambda>_. None) demo_lines (snd (serve (5, - 1) T demo_lines))"
    using server_is_lot [OF T, of "(5, - 1)" demo_lines] a by simp
  ultimately show ?thesis using T by blast
qed

text \<open>
  The fee is the rate times the hours begun, but never more than ten hours: exactly, when the
  products need no rounding.
\<close>

theorem parking_fee_correct:
  assumes d: "0 \<le> duration" "duration \<le> 86400" and m: "m * 24 < 2 ^ 24"
  shows "parking_fee (m, e) duration = (m * min 10 (nat ((duration + 3599) div 3600)), e)"
proof -
  let ?h = "nat ((duration + 3599) div 3600)"
  have h: "?h \<le> 24" using d by simp
  have s: "flt_scale (m, e) n = (m * n, e)" if "n \<le> 24" for n
  proof -
    have "m * n \<le> m * 24" using that by simp
    then have "m * n < 2 ^ 24" using m by linarith
    then have "extra_bits (m * n) = 0" by (subst extra_bits.simps) simp
    then show ?thesis by (simp add: flt_scale_def half_even_def Let_def)
  qed
  show ?thesis
  proof (cases "m * 10 < m * ?h")
    case True
    then have "min 10 ?h = 10" by simp
    then show ?thesis using True s [OF h] s [of 10] by (simp add: parking_fee_def flt_less_def Let_def)
  next
    case False
    then have "m * ?h = m * min 10 ?h" by (cases "m = 0") (auto simp: min_def)
    then show ?thesis using False s [OF h] s [of 10] by (simp add: parking_fee_def flt_less_def Let_def)
  qed
qed

theorem parking_fee_correct_witness: "parking_fee (5, - 1) 7200 = (5 * min 10 (nat ((7200 + 3599) div 3600)), - 1)"
  by (rule parking_fee_correct) simp_all

end
