(* ===== verification/Matchmaker.thy ===== *)
theory Matchmaker
  imports Prelude
begin

text \<open>
  The matchmaking monitor of homework 5, \<open>assignments/hw5/matchmaker.c\<close>. All of its state is under
  one mutex, so what a call does between taking the mutex and giving it up, in
  \<open>pthread_mutex_unlock\<close> or in \<open>pthread_cond_wait\<close>, is one step. A \<open>Player\<close> is a node of the
  waiting list, addressed by a number; \<open>None\<close> as a pointer is NULL. A step that follows NULL, or
  whose search of the list does not end, has the result \<open>None\<close>. Skills are small enough for
  their difference to be an \<open>int\<close>.

  Proved: a match is mutual and within the gap, whatever the schedule; without spurious wakeups
  no two players who could play each other both wait, and the end of the monitor frees every node
  of the list once; what goes wrong with a spurious wakeup and in the second game. \<open>stopMatchmaking\<close>
  walks the list and signals every condition in it, or does not end where the list is cyclic.
\<close>

record Player =
  player_name :: string
  skill :: int
  opponent :: "nat option"
  matched :: bool
  done_flag :: bool
  next_waiting :: "nat option"

text \<open>Where a player's thread is; the monitor's variables.\<close>

datatype phase = Outside | InFind | Playing | Refused | InDone | Finished

record monitor =
  players :: "nat \<Rightarrow> Player"
  skill_range :: int
  skill_gap :: int
  matchmaking_stopped :: bool
  game_in_progress :: bool
  waiting_list :: "nat option"
  playing_pair :: "nat option \<times> nat option"
  done_count :: int
  announced :: "string list"
  phase_of :: "nat \<Rightarrow> phase"

definition initMonitor :: "int \<Rightarrow> int \<Rightarrow> monitor \<Rightarrow> monitor" where
  "initMonitor rng gap s = s\<lparr>skill_range := rng, skill_gap := gap, matchmaking_stopped := False,
     game_in_progress := False, waiting_list := None, done_count := 0\<rparr>"

definition compatible :: "int \<Rightarrow> Player \<Rightarrow> Player \<Rightarrow> bool" where
  "compatible gap a b \<longleftrightarrow> skill a \<noteq> skill b \<and> \<bar>skill a - skill b\<bar> \<le> gap"

definition upd :: "nat \<Rightarrow> (Player \<Rightarrow> Player) \<Rightarrow> monitor \<Rightarrow> monitor" where
  "upd p f s = s\<lparr>players := (players s)(p := f (players s p))\<rparr>"

definition go_to :: "nat \<Rightarrow> phase \<Rightarrow> monitor \<Rightarrow> monitor" where
  "go_to p ph s = s\<lparr>phase_of := (phase_of s)(p := ph)\<rparr>"

text \<open>The search of \<open>findMatch\<close>: the node found and the one before it.\<close>

partial_function (option) find_search ::
    "(nat \<Rightarrow> Player) \<Rightarrow> int \<Rightarrow> nat \<Rightarrow> nat option \<Rightarrow> nat option \<Rightarrow> (nat option \<times> nat option) option" where
  [code]: "find_search ps gap self prev cur = (case cur of
       None \<Rightarrow> Some (prev, None)
     | Some c \<Rightarrow>
         if \<not> matched (ps c) \<and> compatible gap (ps self) (ps c) then Some (prev, Some c)
         else find_search ps gap self (Some c) (next_waiting (ps c)))"

definition make_match :: "nat \<Rightarrow> nat option \<Rightarrow> nat \<Rightarrow> monitor \<Rightarrow> monitor" where
  "make_match self prev c s =
     (let s1 = upd self (\<lambda>p. p\<lparr>matched := True, opponent := Some c\<rparr>) s;
          s2 = upd c (\<lambda>p. p\<lparr>matched := True, opponent := Some self\<rparr>) s1;
          s3 = (case prev of
                  None \<Rightarrow> s2\<lparr>waiting_list := next_waiting (players s2 c)\<rparr>
                | Some q \<Rightarrow> upd q (\<lambda>p. p\<lparr>next_waiting := next_waiting (players s2 c)\<rparr>) s2)
      in s3\<lparr>playing_pair := (Some self, Some c), game_in_progress := True,
            announced := announced s3 @ [''Playing: '' @ player_name (players s3 self) @ '' vs '' @ player_name (players s3 c)]\<rparr>)"

text \<open>
  One turn of the loop of \<open>findMatch\<close>: search; when still unmatched, link \<open>self\<close> in front and
  wait; else leave the loop and return \<open>matched\<close>.
\<close>

definition find_round :: "nat \<Rightarrow> monitor \<Rightarrow> monitor option" where
  "find_round self s =
     (case find_search (players s) (skill_gap s) self None (waiting_list s) of
        None \<Rightarrow> None
      | Some (prev, found) \<Rightarrow>
          let s1 = (case found of None \<Rightarrow> s | Some c \<Rightarrow> make_match self prev c s) in
          if \<not> matched (players s1 self) \<and> \<not> matchmaking_stopped s1
          then Some (go_to self InFind ((upd self (\<lambda>p. p\<lparr>next_waiting := waiting_list s1\<rparr>) s1)\<lparr>waiting_list := Some self\<rparr>))
          else Some (go_to self (if matched (players s1 self) then Playing else Refused) s1))"

definition findMatch :: "nat \<Rightarrow> string \<Rightarrow> int \<Rightarrow> monitor \<Rightarrow> monitor option" where
  "findMatch self name sk s =
     (if matchmaking_stopped s then Some (go_to self Refused s)
      else find_round self (upd self (\<lambda>p. \<lparr>player_name = take 63 (cstr name), skill = sk, opponent = None,
             matched = False, done_flag = False, next_waiting = None\<rparr>) s))"

text \<open>\<open>pthread_cond_wait\<close> of \<open>findMatch\<close> returns: the loop test, and another turn.\<close>

definition find_wake :: "nat \<Rightarrow> monitor \<Rightarrow> monitor option" where
  "find_wake self s =
     (if \<not> matched (players s self) \<and> \<not> matchmaking_stopped s then find_round self s
      else Some (go_to self (if matched (players s self) then Playing else Refused) s))"

text \<open>\<open>donePlaying\<close>, called by the thread of player \<open>t\<close>, and the return of its wait.\<close>

definition donePlaying :: "nat \<Rightarrow> monitor \<Rightarrow> monitor option" where
  "donePlaying t s =
     (case fst (playing_pair s) of
        None \<Rightarrow> None
      | Some p0 \<Rightarrow>
          (case (if \<not> done_flag (players s p0) then Some p0 else snd (playing_pair s)) of
             None \<Rightarrow> None
           | Some self \<Rightarrow>
               let s1 = (upd self (\<lambda>p. p\<lparr>done_flag := True\<rparr>) s)\<lparr>done_count := done_count s + 1\<rparr> in
               if done_count s1 < 2 then Some (go_to t InDone s1)
               else Some (go_to t Finished (s1\<lparr>game_in_progress := False\<rparr>))))"

definition done_wake :: "nat \<Rightarrow> monitor \<Rightarrow> monitor option" where
  "done_wake t s = Some (if done_count s < 2 then s else go_to t Finished s)"

text \<open>
  \<open>stopMatchmaking\<close> walks along the waiting list and signals every player in it; the result of the
  walk has them in their order. On a list that is a cycle the walk does not end, and the mutex is
  never given up.
\<close>

partial_function (option) signal_waiting :: "(nat \<Rightarrow> Player) \<Rightarrow> nat option \<Rightarrow> nat list option" where
  [code]: "signal_waiting ps cur = (case cur of
       None \<Rightarrow> Some []
     | Some c \<Rightarrow> Option.bind (signal_waiting ps (next_waiting (ps c))) (\<lambda>signalled. Some (c # signalled)))"

definition stopMatchmaking :: "monitor \<Rightarrow> monitor option" where
  "stopMatchmaking s = map_option (\<lambda>signalled. s\<lparr>matchmaking_stopped := True\<rparr>) (signal_waiting (players s) (waiting_list s))"

lemma stopMatchmaking_result: "stopMatchmaking s = Some s' \<Longrightarrow> s' = s\<lparr>matchmaking_stopped := True\<rparr>"
  by (auto simp: stopMatchmaking_def)

text \<open>
  The steps. A player calls \<open>findMatch\<close> once (a thread that plays again is a new player), then
  \<open>donePlaying\<close>. \<open>spurious\<close> says whether a wait may return when nobody signalled it: the
  waiter is then neither matched nor told to stop.
\<close>

inductive mon_step :: "bool \<Rightarrow> monitor \<Rightarrow> monitor \<Rightarrow> bool" for spurious where
  find: "phase_of s p = Outside \<Longrightarrow> findMatch p name sk s = Some s' \<Longrightarrow> mon_step spurious s s'"
| wake: "phase_of s p = InFind \<Longrightarrow> spurious \<or> matched (players s p) \<or> matchmaking_stopped s \<Longrightarrow>
     find_wake p s = Some s' \<Longrightarrow> mon_step spurious s s'"
| finish: "phase_of s p = Playing \<Longrightarrow> donePlaying p s = Some s' \<Longrightarrow> mon_step spurious s s'"
| finish_wake: "phase_of s p = InDone \<Longrightarrow> done_wake p s = Some s' \<Longrightarrow> mon_step spurious s s'"
| stop: "stopMatchmaking s = Some s' \<Longrightarrow> mon_step spurious s s'"

definition blank :: monitor where
  "blank = \<lparr>players = (\<lambda>_. \<lparr>player_name = [], skill = 0, opponent = None, matched = False,
       done_flag = False, next_waiting = None\<rparr>),
     skill_range = 0, skill_gap = 0, matchmaking_stopped = False, game_in_progress = False,
     waiting_list = None, playing_pair = (None, None), done_count = 0, announced = [], phase_of = (\<lambda>_. Outside)\<rparr>"

inductive mon_reach :: "bool \<Rightarrow> int \<Rightarrow> int \<Rightarrow> monitor \<Rightarrow> bool" for spurious rng gap where
  init: "mon_reach spurious rng gap (initMonitor rng gap blank)"
| step: "mon_reach spurious rng gap s \<Longrightarrow> mon_step spurious s s' \<Longrightarrow> mon_reach spurious rng gap s'"

lemmas monitor_ops = find_round_def findMatch_def find_wake_def donePlaying_def done_wake_def stopMatchmaking_def
  make_match_def upd_def go_to_def Let_def

subsection \<open>Matches are mutual\<close>

definition mutual :: "int \<Rightarrow> monitor \<Rightarrow> bool" where
  "mutual gap s \<longleftrightarrow> skill_gap s = gap
     \<and> (\<forall>p q. opponent (players s p) = Some q \<longrightarrow> opponent (players s q) = Some p
         \<and> compatible gap (players s p) (players s q))
     \<and> (\<forall>p. matched (players s p) \<longleftrightarrow> opponent (players s p) \<noteq> None)
     \<and> (\<forall>p. phase_of s p \<in> {Playing, InDone, Finished} \<longrightarrow> matched (players s p))
     \<and> (\<forall>p. phase_of s p = Outside \<longrightarrow> \<not> matched (players s p))"

lemma find_search_found:
  assumes "find_search ps gap self prev cur = Some (prev', Some c)"
  shows "\<not> matched (ps c) \<and> compatible gap (ps self) (ps c)"
proof -
  have "\<forall>c'. snd (prev', Some c) = Some c' \<longrightarrow> \<not> matched (ps c') \<and> compatible gap (ps self) (ps c')"
    by (rule find_search.raw_induct [where P = "\<lambda>ps gap self prev cur r.
        \<forall>c. snd r = Some c \<longrightarrow> \<not> matched (ps c) \<and> compatible gap (ps self) (ps c)", OF _ assms])
      (auto split: option.splits if_splits)
  then show ?thesis by simp
qed

lemma compatible_sym: "compatible gap a b \<longleftrightarrow> compatible gap b a"
  by (auto simp: compatible_def)

lemma compatible_irrefl: "\<not> compatible gap a a"
  by (simp add: compatible_def)

text \<open>What a match does to the players, and what it leaves.\<close>

lemma make_match_players:
  assumes "self \<noteq> c"
  shows "opponent (players (make_match self prev c s) p) = (if p = self then Some c else if p = c then Some self else opponent (players s p))"
    "matched (players (make_match self prev c s) p) = (p = self \<or> p = c \<or> matched (players s p))"
    "skill (players (make_match self prev c s) p) = skill (players s p)"
    "phase_of (make_match self prev c s) = phase_of s" "skill_gap (make_match self prev c s) = skill_gap s"
    "matchmaking_stopped (make_match self prev c s) = matchmaking_stopped s"
    "next_waiting (players (make_match self prev c s) p)
      = (if prev = Some p then next_waiting (players s c) else next_waiting (players s p))"
    "waiting_list (make_match self prev c s) = (if prev = None then next_waiting (players s c) else waiting_list s)"
  using assms by (auto simp: make_match_def upd_def Let_def split: option.splits)

lemma go_to_simps [simp]:
  "players (go_to p ph s) = players s" "skill_gap (go_to p ph s) = skill_gap s"
  "matchmaking_stopped (go_to p ph s) = matchmaking_stopped s" "waiting_list (go_to p ph s) = waiting_list s"
  "phase_of (go_to p ph s) = (phase_of s)(p := ph)"
  by (simp_all add: go_to_def)

lemma compatible_cong: "skill a = skill a' \<Longrightarrow> skill b = skill b' \<Longrightarrow> compatible gap a b = compatible gap a' b'"
  by (simp add: compatible_def)

text \<open>A turn of the loop for an unmatched player in or entering \<open>findMatch\<close>.\<close>

lemma find_round_cases:
  assumes r: "find_round self s = Some s'" and u: "\<not> matched (players s self)"
  shows "(\<exists>prev c. find_search (players s) (skill_gap s) self None (waiting_list s) = Some (prev, Some c)
        \<and> s' = go_to self Playing (make_match self prev c s))
    \<or> (\<exists>prev. find_search (players s) (skill_gap s) self None (waiting_list s) = Some (prev, None)
        \<and> (if matchmaking_stopped s then s' = go_to self Refused s
           else s' = go_to self InFind ((upd self (\<lambda>p. p\<lparr>next_waiting := waiting_list s\<rparr>) s)\<lparr>waiting_list := Some self\<rparr>)))"
proof -
  obtain prev found where f: "find_search (players s) (skill_gap s) self None (waiting_list s) = Some (prev, found)"
    using r by (auto simp: find_round_def split: option.splits)
  show ?thesis
  proof (cases found)
    case None
    then show ?thesis using f r u by (auto simp: find_round_def Let_def split: if_splits)
  next
    case (Some c)
    have "self \<noteq> c" using find_search_found [of "players s" "skill_gap s" self None "waiting_list s" prev c] f Some compatible_irrefl by auto
    then show ?thesis using f r Some by (auto simp: find_round_def Let_def make_match_players split: if_splits)
  qed
qed

lemma mutualD:
  assumes "mutual gap s"
  shows "opponent (players s p) = Some q \<Longrightarrow> opponent (players s q) = Some p"
    "opponent (players s p) = Some q \<Longrightarrow> compatible gap (players s p) (players s q)"
    "matched (players s p) \<longleftrightarrow> opponent (players s p) \<noteq> None" "skill_gap s = gap"
    "phase_of s p \<in> {Playing, InDone, Finished} \<Longrightarrow> matched (players s p)"
    "phase_of s p = Outside \<Longrightarrow> \<not> matched (players s p)"
  using assms unfolding mutual_def by blast+

lemma mutual_cong:
  assumes m: "mutual gap s"
    and e: "\<And>p. opponent (players s' p) = opponent (players s p)" "\<And>p. matched (players s' p) = matched (players s p)"
      "\<And>p. skill (players s' p) = skill (players s p)" "skill_gap s' = skill_gap s"
    and ph: "\<And>p. phase_of s' p \<in> {Playing, InDone, Finished} \<Longrightarrow> matched (players s p)"
      "\<And>p. phase_of s' p = Outside \<Longrightarrow> phase_of s p = Outside"
  shows "mutual gap s'"
proof -
  have c: "compatible gap (players s' p) (players s' q) = compatible gap (players s p) (players s q)" for p q
    by (rule compatible_cong) (rule e(3))+
  show ?thesis unfolding mutual_def e c
  proof (intro conjI allI impI)
    fix p q assume o: "opponent (players s p) = Some q"
    show "opponent (players s q) = Some p" by (rule mutualD(1) [OF m o])
    show "compatible gap (players s p) (players s q)" by (rule mutualD(2) [OF m o])
  next
    fix p
    show "matched (players s p) \<longleftrightarrow> opponent (players s p) \<noteq> None" by (rule mutualD(3) [OF m])
    show "matched (players s p)" if "phase_of s' p \<in> {Playing, InDone, Finished}" by (rule ph(1) [OF that])
    show "\<not> matched (players s p)" if "phase_of s' p = Outside" by (rule mutualD(6) [OF m ph(2) [OF that]])
  qed (rule mutualD(4) [OF m])
qed

text \<open>The nodes of the list belong to players that have called \<open>findMatch\<close>.\<close>

definition linked :: "monitor \<Rightarrow> bool" where
  "linked s \<longleftrightarrow> (\<forall>q. waiting_list s = Some q \<longrightarrow> phase_of s q \<noteq> Outside)
     \<and> (\<forall>p q. next_waiting (players s p) = Some q \<longrightarrow> phase_of s q \<noteq> Outside)"

lemma find_search_linked:
  assumes "find_search ps gap self prev cur = Some (prev', Some c)"
    and "\<forall>q. cur = Some q \<longrightarrow> Q q" "\<forall>p q. next_waiting (ps p) = Some q \<longrightarrow> Q q"
  shows "Q c"
proof -
  define P where "P ps gap self prev cur r \<longleftrightarrow>
      (\<forall>q. cur = Some q \<longrightarrow> Q q) \<longrightarrow> (\<forall>p q. next_waiting (ps p) = Some q \<longrightarrow> Q q) \<longrightarrow>
      (case snd r of None \<Rightarrow> True | Some c' \<Rightarrow> Q c')"
    for ps :: "nat \<Rightarrow> Player" and gap :: int and self :: nat and prev cur :: "nat option" and r :: "nat option \<times> nat option"
  have "P ps gap self prev cur (prev', Some c)"
  proof (rule find_search.raw_induct [where P = P, OF _ assms(1)])
    fix f ps gap self prev cur r
    assume IH: "\<And>ps gap self prev cur r. f ps gap self prev cur = Some r \<Longrightarrow> P ps gap self prev cur r"
      and b: "(case cur of None \<Rightarrow> Some (prev, None)
        | Some c \<Rightarrow> if \<not> matched (ps c) \<and> compatible gap (ps self) (ps c) then Some (prev, Some c)
            else f ps gap self (Some c) (next_waiting (ps c))) = Some r"
    show "P ps gap self prev cur r"
    proof (cases cur)
      case None
      then show ?thesis using b by (auto simp: P_def)
    next
      case (Some x)
      show ?thesis
      proof (cases "\<not> matched (ps x) \<and> compatible gap (ps self) (ps x)")
        case True
        then show ?thesis using b Some by (auto simp: P_def)
      next
        case False
        then have "P ps gap self (Some x) (next_waiting (ps x)) r" using b Some by (intro IH) auto
        then show ?thesis unfolding P_def by blast
      qed
    qed
  qed
  then show ?thesis using assms(2,3) by (simp add: P_def)
qed

lemma linked_round:
  assumes "find_round self s = Some s'" "\<not> matched (players s self)" "linked s"
  shows "linked s'"
  using find_round_cases [OF assms(1,2)]
proof
  assume "\<exists>prev c. find_search (players s) (skill_gap s) self None (waiting_list s) = Some (prev, Some c)
      \<and> s' = go_to self Playing (make_match self prev c s)"
  then obtain prev c where f: "find_search (players s) (skill_gap s) self None (waiting_list s) = Some (prev, Some c)"
    and s': "s' = go_to self Playing (make_match self prev c s)" by blast
  have "self \<noteq> c" using find_search_found [OF f] compatible_irrefl by auto
  note mm = make_match_players [OF this, of prev s]
  show ?thesis using assms(3) unfolding linked_def s' by (auto simp: mm split: if_splits)
next
  assume "\<exists>prev. find_search (players s) (skill_gap s) self None (waiting_list s) = Some (prev, None)
        \<and> (if matchmaking_stopped s then s' = go_to self Refused s
           else s' = go_to self InFind ((upd self (\<lambda>p. p\<lparr>next_waiting := waiting_list s\<rparr>) s)\<lparr>waiting_list := Some self\<rparr>))"
  then show ?thesis using assms(3) unfolding linked_def by (auto simp: upd_def split: if_splits)
qed

lemma linked_step:
  assumes "mon_step sp s s'" "linked s"
  shows "linked s'"
  using assms(1)
proof cases
  case (find p name sk)
  let ?s = "upd p (\<lambda>p. \<lparr>player_name = take 63 (cstr name), skill = sk, opponent = None, matched = False,
    done_flag = False, next_waiting = None\<rparr>) s"
  have "linked ?s" "\<not> matched (players ?s p)" using assms(2) by (auto simp: linked_def upd_def)
  then show ?thesis using find linked_round [of p ?s s'] assms(2)
    by (auto simp: findMatch_def linked_def split: if_splits)
next
  case (wake p)
  then show ?thesis using linked_round [of p s s'] assms(2) by (auto simp: find_wake_def linked_def split: if_splits)
next
  case (finish p)
  then show ?thesis using assms(2)
    by (auto simp: donePlaying_def linked_def upd_def go_to_def Let_def split: option.splits if_splits)
next
  case (finish_wake p)
  then show ?thesis using assms(2) by (auto simp: done_wake_def linked_def split: if_splits)
next
  case stop
  then show ?thesis using assms(2) by (auto simp: linked_def dest!: stopMatchmaking_result)
qed

lemma mutual_round:
  assumes m: "mutual gap s" "linked s" and u: "\<not> matched (players s self)" and r: "find_round self s = Some s'"
    and ph: "phase_of s self \<in> {Outside, InFind}"
  shows "mutual gap s'"
  using find_round_cases [OF r u]
proof
  assume "\<exists>prev c. find_search (players s) (skill_gap s) self None (waiting_list s) = Some (prev, Some c)
      \<and> s' = go_to self Playing (make_match self prev c s)"
  then obtain prev c where f: "find_search (players s) (skill_gap s) self None (waiting_list s) = Some (prev, Some c)"
    and s': "s' = go_to self Playing (make_match self prev c s)" by blast
  have c: "\<not> matched (players s c)" "compatible gap (players s self) (players s c)" "self \<noteq> c"
    using find_search_found [OF f] mutualD(4) [OF m(1)] compatible_irrefl by auto
  have out: "phase_of s c \<noteq> Outside" by (rule find_search_linked [OF f]) (use m(2) in \<open>auto simp: linked_def\<close>)
  have un: "opponent (players s self) = None" "opponent (players s c) = None"
    using mutualD(3) [OF m(1)] u c(1) by auto
  note mm = make_match_players [OF c(3), of prev s]
  have comp: "compatible gap (players s' p) (players s' q) = compatible gap (players s p) (players s q)" for p q
    by (rule compatible_cong) (simp_all add: s' mm(3))
  show ?thesis unfolding mutual_def comp
  proof (intro conjI allI impI)
    fix p q assume "opponent (players s' p) = Some q"
    then have o: "(if p = self then Some c else if p = c then Some self else opponent (players s p)) = Some q"
      by (simp add: s' mm(1))
    have old: "opponent (players s q) = Some p" "q \<noteq> self" "q \<noteq> c" if "p \<noteq> self" "p \<noteq> c"
    proof -
      show "opponent (players s q) = Some p" using o that mutualD(1) [OF m(1), of p q] by simp
      then show "q \<noteq> self" "q \<noteq> c" using un by auto
    qed
    show "opponent (players s' q) = Some p"
      using o old c(3) by (simp add: s' mm(1) split: if_splits)
    show "compatible gap (players s p) (players s q)"
      using o mutualD(2) [OF m(1), of p q] c(2) compatible_sym [of gap "players s self"] by (simp split: if_splits)
  next
    fix p
    show "matched (players s' p) \<longleftrightarrow> opponent (players s' p) \<noteq> None"
      using mutualD(3) [OF m(1)] by (simp add: s' mm(1,2))
    show "matched (players s' p)" if "phase_of s' p \<in> {Playing, InDone, Finished}"
      using that mutualD(5) [OF m(1), of p] by (auto simp: s' mm(2,4) split: if_splits)
    show "\<not> matched (players s' p)" if "phase_of s' p = Outside"
      using that mutualD(6) [OF m(1), of p] out by (auto simp: s' mm(2,4) split: if_splits)
  qed (use mutualD(4) [OF m(1)] in \<open>simp add: s' mm(5)\<close>)
next
  assume "\<exists>prev. find_search (players s) (skill_gap s) self None (waiting_list s) = Some (prev, None)
        \<and> (if matchmaking_stopped s then s' = go_to self Refused s
           else s' = go_to self InFind ((upd self (\<lambda>p. p\<lparr>next_waiting := waiting_list s\<rparr>) s)\<lparr>waiting_list := Some self\<rparr>))"
  then have s': "s' = go_to self Refused s
      \<or> s' = go_to self InFind ((upd self (\<lambda>p. p\<lparr>next_waiting := waiting_list s\<rparr>) s)\<lparr>waiting_list := Some self\<rparr>)"
    by (auto split: if_splits)
  show ?thesis
    by (rule mutual_cong [OF m(1)]) (use s' u mutualD(5) [OF m(1)] ph in \<open>auto simp: upd_def split: if_splits\<close>)
qed

lemma mutual_step:
  assumes "mon_step sp s s'" "mutual gap s" "linked s"
  shows "mutual gap s'"
  using assms(1)
proof cases
  case (find p name sk)
  let ?new = "\<lparr>player_name = take 63 (cstr name), skill = sk, opponent = None, matched = False, done_flag = False, next_waiting = None\<rparr>"
  let ?s = "upd p (\<lambda>_. ?new) s"
  note m = mutualD [OF assms(2)]
  have out: "\<not> matched (players s p)" "opponent (players s p) = None" using m(6) [OF find(1)] m(3) by auto
  have no: "opponent (players s q) \<noteq> Some p" for q using m(1) [of q p] out(2) by (metis option.distinct(1))
  show ?thesis
  proof (cases "matchmaking_stopped s")
    case True
    then have "s' = go_to p Refused s" using find by (simp add: findMatch_def)
    then show ?thesis by (intro mutual_cong [OF assms(2)]) (use m(5) in \<open>auto split: if_splits\<close>)
  next
    case False
    have n: "opponent (players ?s q) = opponent (players s q)" "matched (players ?s q) = matched (players s q)"
      "phase_of ?s = phase_of s" "skill_gap ?s = skill_gap s" for q using out by (auto simp: upd_def)
    have c: "compatible gap (players ?s q) (players ?s r) = compatible gap (players s q) (players s r)"
      if "opponent (players s q) = Some r" for q r
    proof -
      have "q \<noteq> p" "r \<noteq> p" using that no out(2) by auto
      then show ?thesis by (simp add: upd_def)
    qed
    have "mutual gap ?s" unfolding mutual_def n
    proof (intro conjI allI impI)
      fix q r assume o: "opponent (players s q) = Some r"
      show "opponent (players s r) = Some q" by (rule m(1) [OF o])
      show "compatible gap (players ?s q) (players ?s r)" unfolding c [OF o] by (rule m(2) [OF o])
    next
      fix q
      show "matched (players s q) \<longleftrightarrow> opponent (players s q) \<noteq> None" by (rule m(3))
      show "matched (players s q)" if "phase_of s q \<in> {Playing, InDone, Finished}" by (rule m(5) [OF that])
      show "\<not> matched (players s q)" if "phase_of s q = Outside" by (rule m(6) [OF that])
    qed (rule m(4))
    moreover have "linked ?s" using assms(3) by (simp add: linked_def upd_def)
    ultimately show ?thesis using find False mutual_round [of gap ?s p s'] out n by (simp add: findMatch_def)
  qed
next
  case (wake p)
  show ?thesis
  proof (cases "\<not> matched (players s p) \<and> \<not> matchmaking_stopped s")
    case True
    then show ?thesis using mutual_round [OF assms(2,3), of p s'] wake by (simp add: find_wake_def)
  next
    case False
    then have "s' = go_to p (if matched (players s p) then Playing else Refused) s"
      using wake by (auto simp: find_wake_def)
    then show ?thesis by (intro mutual_cong [OF assms(2)]) (use mutualD(5) [OF assms(2)] in \<open>auto split: if_splits\<close>)
  qed
next
  case (finish p)
  show ?thesis
    by (rule mutual_cong [OF assms(2)])
      (use finish mutualD(5) [OF assms(2)] in
        \<open>auto simp: donePlaying_def upd_def go_to_def Let_def split: option.splits if_splits\<close>)
next
  case (finish_wake p)
  show ?thesis
    by (rule mutual_cong [OF assms(2)])
      (use finish_wake mutualD(5) [OF assms(2)] in \<open>auto simp: done_wake_def split: if_splits\<close>)
next
  case stop
  show ?thesis
    by (rule mutual_cong [OF assms(2)]) (use stopMatchmaking_result [OF stop] mutualD(5) [OF assms(2)] in auto)
qed

lemma mutual_reach: "mon_reach sp rng gap s \<Longrightarrow> mutual gap s \<and> linked s"
proof (induction rule: mon_reach.induct)
  case init
  show ?case by (simp add: mutual_def linked_def initMonitor_def blank_def)
qed (simp add: mutual_step linked_step)

subsection \<open>The waiting list\<close>

text \<open>\<open>xs\<close> are the nodes from a pointer on.\<close>

fun wchain :: "(nat \<Rightarrow> Player) \<Rightarrow> nat option \<Rightarrow> nat list \<Rightarrow> bool" where
  "wchain ps cur [] = (cur = None)"
| "wchain ps cur (x # xs) = (cur = Some x \<and> wchain ps (next_waiting (ps x)) xs)"

text \<open>
  Without spurious wakeups: the list holds each waiting unmatched player once, and no two on it
  could play each other.
\<close>

definition waiting_ok :: "monitor \<Rightarrow> nat list \<Rightarrow> bool" where
  "waiting_ok s xs \<longleftrightarrow> wchain (players s) (waiting_list s) xs \<and> distinct xs
     \<and> (\<forall>x \<in> set xs. \<not> matched (players s x) \<and> phase_of s x \<noteq> Outside)
     \<and> (\<forall>x \<in> set xs. \<forall>y \<in> set xs. \<not> compatible (skill_gap s) (players s x) (players s y))
     \<and> (\<not> matchmaking_stopped s \<longrightarrow> (\<forall>p. phase_of s p = InFind \<and> \<not> matched (players s p) \<longrightarrow> p \<in> set xs))"

lemma wchain_cong: "(\<And>x. x \<in> set xs \<Longrightarrow> next_waiting (ps' x) = next_waiting (ps x)) \<Longrightarrow> wchain ps' cur xs = wchain ps cur xs"
  by (induction xs arbitrary: cur) auto

text \<open>The search on a list: the first compatible node, and the one before it.\<close>

lemma find_search_chain:
  "wchain ps cur xs \<Longrightarrow> \<forall>x \<in> set xs. \<not> matched (ps x) \<Longrightarrow>
    (\<forall>x \<in> set xs. \<not> compatible gap (ps self) (ps x)) \<and> (\<exists>q. find_search ps gap self prev cur = Some (q, None))
    \<or> (\<exists>ys c zs. xs = ys @ c # zs \<and> compatible gap (ps self) (ps c)
        \<and> find_search ps gap self prev cur = Some (if ys = [] then prev else Some (last ys), Some c))"
proof (induction xs arbitrary: prev cur)
  case Nil
  then show ?case by (simp add: find_search.simps)
next
  case (Cons x xs)
  show ?case
  proof (cases "compatible gap (ps self) (ps x)")
    case True
    then have "find_search ps gap self prev cur = Some (prev, Some x)"
      using Cons.prems by (subst find_search.simps) simp
    then show ?thesis using True by (intro disjI2 exI [of _ "[]"] exI [of _ x] exI [of _ xs]) simp
  next
    case False
    have f: "find_search ps gap self prev cur = find_search ps gap self (Some x) (next_waiting (ps x))"
      using Cons.prems False by (subst find_search.simps) simp
    have "wchain ps (next_waiting (ps x)) xs" "\<forall>x \<in> set xs. \<not> matched (ps x)" using Cons.prems by simp_all
    from Cons.IH [OF this, of "Some x"] show ?thesis
    proof
      assume "(\<forall>x \<in> set xs. \<not> compatible gap (ps self) (ps x))
        \<and> (\<exists>q. find_search ps gap self (Some x) (next_waiting (ps x)) = Some (q, None))"
      then show ?thesis using False f by auto
    next
      assume "\<exists>ys c zs. xs = ys @ c # zs \<and> compatible gap (ps self) (ps c)
        \<and> find_search ps gap self (Some x) (next_waiting (ps x)) = Some (if ys = [] then Some x else Some (last ys), Some c)"
      then obtain ys c zs where "xs = ys @ c # zs" "compatible gap (ps self) (ps c)"
        "find_search ps gap self (Some x) (next_waiting (ps x)) = Some (if ys = [] then Some x else Some (last ys), Some c)" by blast
      then show ?thesis using f
        by (intro disjI2 exI [of _ "x # ys"] exI [of _ c] exI [of _ zs]) auto
    qed
  qed
qed

text \<open>Taking a node out of the list.\<close>

lemma wchain_remove:
  assumes "wchain ps cur (ys @ c # zs)" "distinct (ys @ c # zs)"
    and "ps' = (if ys = [] then ps else ps(last ys := (ps (last ys))\<lparr>next_waiting := next_waiting (ps c)\<rparr>))"
  shows "wchain ps' (if ys = [] then next_waiting (ps c) else cur) (ys @ zs)"
  using assms
proof (induction ys arbitrary: cur)
  case (Cons y ys)
  show ?case
  proof (cases "ys = []")
    case True
    have "wchain ps' (next_waiting (ps c)) zs = wchain ps (next_waiting (ps c)) zs"
      using Cons.prems(2,3) True by (intro wchain_cong) auto
    then show ?thesis using Cons.prems True by simp
  next
    case False
    have "y \<noteq> last ys" using Cons.prems(2) False by auto
    then show ?thesis using Cons False by simp
  qed
qed simp

lemma waiting_round:
  assumes w: "waiting_ok s xs" and u: "\<not> matched (players s self)" "self \<notin> set xs"
    and r: "find_round self s = Some s'"
  shows "\<exists>xs'. waiting_ok s' xs'"
proof -
  have c: "wchain (players s) (waiting_list s) xs" "distinct xs" "\<forall>x \<in> set xs. \<not> matched (players s x) \<and> phase_of s x \<noteq> Outside"
    "\<forall>x \<in> set xs. \<forall>y \<in> set xs. \<not> compatible (skill_gap s) (players s x) (players s y)"
    "\<not> matchmaking_stopped s \<Longrightarrow> phase_of s p = InFind \<Longrightarrow> \<not> matched (players s p) \<Longrightarrow> p \<in> set xs" for p
    using w by (auto simp: waiting_ok_def)
  have un: "\<forall>x \<in> set xs. \<not> matched (players s x)" using c(3) by blast
  from find_search_chain [OF c(1) un, of "skill_gap s" self None] show ?thesis
  proof
    assume "(\<forall>x \<in> set xs. \<not> compatible (skill_gap s) (players s self) (players s x))
      \<and> (\<exists>q. find_search (players s) (skill_gap s) self None (waiting_list s) = Some (q, None))"
    then obtain q where nc: "\<forall>x \<in> set xs. \<not> compatible (skill_gap s) (players s self) (players s x)"
      and f: "find_search (players s) (skill_gap s) self None (waiting_list s) = Some (q, None)" by blast
    show ?thesis
    proof (cases "matchmaking_stopped s")
      case True
      then have "s' = go_to self Refused s" using r f u by (simp add: find_round_def)
      then have "waiting_ok s' xs" using w u(2) True by (auto simp: waiting_ok_def)
      then show ?thesis by blast
    next
      case False
      let ?s = "(upd self (\<lambda>p. p\<lparr>next_waiting := waiting_list s\<rparr>) s)\<lparr>waiting_list := Some self\<rparr>"
      have s': "s' = go_to self InFind ?s" using r f u False by (simp add: find_round_def)
      have same: "compatible gap (players s' x) (players s' y) = compatible gap (players s x) (players s y)"
        "matched (players s' x) = matched (players s x)" for x y gap
        by (auto simp: s' upd_def compatible_def)
      have "wchain (players s') (waiting_list s) xs"
        using c(1) u(2) by (subst wchain_cong [of xs "players s'" "players s"]) (auto simp: s' upd_def)
      then have "wchain (players s') (waiting_list s') (self # xs)" by (simp add: s' upd_def)
      moreover have "\<forall>x \<in> set (self # xs). \<forall>y \<in> set (self # xs). \<not> compatible (skill_gap s') (players s' x) (players s' y)"
        using nc c(4) compatible_irrefl compatible_sym unfolding same by (auto simp: s' upd_def)
      moreover have "\<forall>x \<in> set (self # xs). \<not> matched (players s' x) \<and> phase_of s' x \<noteq> Outside"
        using u c(3) unfolding same by (auto simp: s' upd_def)
      moreover have "p \<in> set (self # xs)" if "phase_of s' p = InFind" "\<not> matched (players s' p)" for p
        using that c(5) [OF False, of p] unfolding same by (auto simp: s' upd_def split: if_splits)
      ultimately have "waiting_ok s' (self # xs)" using c(2) u(2) by (simp add: waiting_ok_def)
      then show ?thesis by blast
    qed
  next
    assume "\<exists>ys d zs. xs = ys @ d # zs \<and> compatible (skill_gap s) (players s self) (players s d)
      \<and> find_search (players s) (skill_gap s) self None (waiting_list s) = Some (if ys = [] then None else Some (last ys), Some d)"
    then obtain ys d zs where x: "xs = ys @ d # zs"
      and f: "find_search (players s) (skill_gap s) self None (waiting_list s) = Some (if ys = [] then None else Some (last ys), Some d)"
      by blast
    have sd: "self \<noteq> d" using u(2) x by auto
    let ?prev = "if ys = [] then None else Some (last ys)"
    note mm = make_match_players [OF sd, of ?prev s]
    have s': "s' = go_to self Playing (make_match self ?prev d s)"
      using r f mm by (simp add: find_round_def Let_def)
    define ps where "ps = (if ys = [] then players s
      else (players s)(last ys := (players s (last ys))\<lparr>next_waiting := next_waiting (players s d)\<rparr>))"
    have "wchain ps (if ys = [] then next_waiting (players s d) else waiting_list s) (ys @ zs)"
      by (rule wchain_remove [OF _ _ ps_def]) (use c(1,2) x in simp_all)
    moreover have "next_waiting (players s' z) = next_waiting (ps z)" for z by (auto simp: s' mm ps_def)
    ultimately have "wchain (players s') (waiting_list s') (ys @ zs)"
      using wchain_cong [of "ys @ zs" "players s'" ps "waiting_list s'"] by (simp add: s' mm split: if_splits)
    then have wc: "wchain (players s') (waiting_list s') (ys @ zs)" .
    have sub: "z \<in> set xs" "z \<noteq> d" "z \<noteq> self" if "z \<in> set (ys @ zs)" for z using that u(2) c(2) x by auto
    have cp: "compatible gap (players s' a) (players s' b) = compatible gap (players s a) (players s b)" for a b gap
      by (rule compatible_cong) (simp_all add: s' mm)
    have "waiting_ok s' (ys @ zs)" unfolding waiting_ok_def cp
    proof (intro conjI ballI impI allI)
      show "wchain (players s') (waiting_list s') (ys @ zs)" by (rule wc)
      show "distinct (ys @ zs)" using c(2) x by simp
      fix z assume z: "z \<in> set (ys @ zs)"
      show "\<not> matched (players s' z)" "phase_of s' z \<noteq> Outside"
        using c(3) sub [OF z] by (auto simp: s' mm)
      show "\<not> compatible (skill_gap s') (players s z) (players s y)" if "y \<in> set (ys @ zs)" for y
        using c(4) sub(1) [OF z] sub(1) [OF that] by (simp add: s' mm)
    next
      fix p assume "\<not> matchmaking_stopped s'" "phase_of s' p = InFind \<and> \<not> matched (players s' p)"
      then show "p \<in> set (ys @ zs)" using c(5) [of p] x by (auto simp: s' mm split: if_splits)
    qed
    then show ?thesis by blast
  qed
qed

lemma waiting_cong:
  assumes w: "waiting_ok s xs"
    and e: "\<And>p. matched (players s' p) = matched (players s p)" "\<And>p. skill (players s' p) = skill (players s p)"
      "\<And>p. next_waiting (players s' p) = next_waiting (players s p)" "skill_gap s' = skill_gap s"
      "waiting_list s' = waiting_list s"
    and ph: "\<And>p. phase_of s p \<noteq> Outside \<Longrightarrow> phase_of s' p \<noteq> Outside"
      "\<And>p. \<not> matchmaking_stopped s' \<Longrightarrow> phase_of s' p = InFind \<Longrightarrow> \<not> matchmaking_stopped s \<and> phase_of s p = InFind"
  shows "waiting_ok s' xs"
proof -
  have c: "compatible gap (players s' p) (players s' q) = compatible gap (players s p) (players s q)" for p q gap
    by (rule compatible_cong) (rule e(2))+
  have "wchain (players s') (waiting_list s) xs = wchain (players s) (waiting_list s) xs"
    by (rule wchain_cong) (rule e(3))
  then show ?thesis using w ph unfolding waiting_ok_def c e by blast
qed

lemma waiting_step:
  assumes "mon_step False s s'" "mutual gap s" "waiting_ok s xs"
  shows "\<exists>xs'. waiting_ok s' xs'"
  using assms(1)
proof cases
  case (find p name sk)
  let ?s = "upd p (\<lambda>p. \<lparr>player_name = take 63 (cstr name), skill = sk, opponent = None, matched = False,
    done_flag = False, next_waiting = None\<rparr>) s"
  have p: "p \<notin> set xs" using assms(3) find(1) by (auto simp: waiting_ok_def)
  have n: "players ?s x = players s x" if "x \<in> set xs" for x using that p by (auto simp: upd_def)
  have "wchain (players ?s) (waiting_list s) xs = wchain (players s) (waiting_list s) xs"
    by (rule wchain_cong) (simp add: n)
  then have w: "waiting_ok ?s xs" using assms(3) find(1) n by (auto simp: waiting_ok_def upd_def split: if_splits)
  show ?thesis
  proof (cases "matchmaking_stopped s")
    case True
    then have "s' = go_to p Refused s" using find by (simp add: findMatch_def)
    then have "waiting_ok s' xs" using assms(3) p True by (auto simp: waiting_ok_def)
    then show ?thesis by blast
  next
    case False
    then show ?thesis using waiting_round [OF w _ p, of s'] find by (simp add: findMatch_def upd_def)
  qed
next
  case (wake p)
  then have "s' = go_to p (if matched (players s p) then Playing else Refused) s" "matched (players s p) \<or> matchmaking_stopped s"
    by (auto simp: find_wake_def)
  then have "waiting_ok s' xs" using assms(3) by (auto simp: waiting_ok_def split: if_splits)
  then show ?thesis by blast
next
  case (finish p)
  have "waiting_ok s' xs"
    by (rule waiting_cong [OF assms(3)])
      (use finish in \<open>auto simp: donePlaying_def upd_def go_to_def Let_def split: option.splits if_splits\<close>)
  then show ?thesis by blast
next
  case (finish_wake p)
  then have "waiting_ok s' xs" using assms(3) mutualD(5) [OF assms(2), of p]
    by (auto simp: done_wake_def waiting_ok_def split: if_splits)
  then show ?thesis by blast
next
  case stop
  then have "waiting_ok s' xs" using assms(3) by (auto simp: waiting_ok_def dest!: stopMatchmaking_result)
  then show ?thesis by blast
qed

lemma waiting_reach: "mon_reach False rng gap s \<Longrightarrow> \<exists>xs. waiting_ok s xs"
proof (induction rule: mon_reach.induct)
  case init
  have "waiting_ok (initMonitor rng gap blank) []" by (simp add: waiting_ok_def initMonitor_def blank_def)
  then show ?case by blast
next
  case (step s s')
  then show ?case using waiting_step mutual_reach by blast
qed

text \<open>Runs to try out, as lists of calls and returns from waits.\<close>

datatype mon_call = Finds nat string int | Wakes nat | Finishes nat | Finish_wakes nat

fun mon_exec :: "bool \<Rightarrow> mon_call \<Rightarrow> monitor \<Rightarrow> monitor option" where
  "mon_exec sp (Finds p n k) s = (if phase_of s p = Outside then findMatch p n k s else None)"
| "mon_exec sp (Wakes p) s = (if phase_of s p = InFind \<and> (sp \<or> matched (players s p) \<or> matchmaking_stopped s)
     then find_wake p s else None)"
| "mon_exec sp (Finishes p) s = (if phase_of s p = Playing then donePlaying p s else None)"
| "mon_exec sp (Finish_wakes p) s = (if phase_of s p = InDone then done_wake p s else None)"

fun mon_run :: "bool \<Rightarrow> mon_call list \<Rightarrow> monitor \<Rightarrow> monitor option" where
  "mon_run sp [] s = Some s"
| "mon_run sp (c # cs) s = (case mon_exec sp c s of None \<Rightarrow> None | Some s' \<Rightarrow> mon_run sp cs s')"

lemma mon_exec_step: "mon_exec sp c s = Some s' \<Longrightarrow> mon_step sp s s'"
  by (cases c) (auto split: if_splits intro: mon_step.intros)

lemma mon_run_reach: "mon_run sp cs s = Some s' \<Longrightarrow> mon_reach sp rng gap s \<Longrightarrow> mon_reach sp rng gap s'"
  by (induction cs arbitrary: s) (auto split: option.splits dest: mon_exec_step mon_reach.step)

lemma find_search_cycle:
  assumes "next_waiting (ps a) = Some a" "matched (ps a) \<or> \<not> compatible gap (ps self) (ps a)"
  shows "find_search ps gap self prev (Some a) = None"
proof (rule ccontr)
  assume "find_search ps gap self prev (Some a) \<noteq> None"
  then obtain r where r: "find_search ps gap self prev (Some a) = Some r" by blast
  define P where "P ps' gap' self' prev' cur' r' \<longleftrightarrow> \<not> (ps' = ps \<and> gap' = gap \<and> self' = self \<and> cur' = Some a)"
    for ps' :: "nat \<Rightarrow> Player" and gap' :: int and self' :: nat and prev' cur' :: "nat option" and r' :: "nat option \<times> nat option"
  have "P ps gap self prev (Some a) r"
    by (rule find_search.raw_induct [where P = P, OF _ r])
      (use assms in \<open>auto simp: P_def split: option.splits if_splits\<close>)
  then show False by (simp add: P_def)
qed

subsection \<open>Properties\<close>

text \<open>
  C6: When \<open>findMatch\<close> returns true the match is mutual and fair: the player has one opponent,
  whose opponent it is, and their skills differ by at least one and at most the gap; whatever the
  schedule, spurious wakeups included.
\<close>

theorem match_is_mutual:
  assumes "mon_reach sp rng gap s" "phase_of s p = Playing"
  shows "\<exists>q. opponent (players s p) = Some q \<and> opponent (players s q) = Some p \<and> p \<noteq> q
    \<and> 0 < \<bar>skill (players s p) - skill (players s q)\<bar> \<and> \<bar>skill (players s p) - skill (players s q)\<bar> \<le> gap"
proof -
  note m = mutualD [OF conjunct1 [OF mutual_reach [OF assms(1)]]]
  have "matched (players s p)" using m(5) assms(2) by simp
  then obtain q where q: "opponent (players s p) = Some q" using m(3) by blast
  have "compatible gap (players s p) (players s q)" by (rule m(2) [OF q])
  then have "p \<noteq> q" "0 < \<bar>skill (players s p) - skill (players s q)\<bar>" "\<bar>skill (players s p) - skill (players s q)\<bar> \<le> gap"
    by (auto simp: compatible_def)
  then show ?thesis using q m(1) [OF q] by blast
qed

definition first_game :: "mon_call list" where
  "first_game = [Finds 0 ''A'' 1, Finds 1 ''B'' 2, Wakes 0]"

lemma first_game_run:
  "\<exists>s. mon_run False first_game (initMonitor 10 2 blank) = Some s \<and> phase_of s 0 = Playing \<and> phase_of s 1 = Playing"
proof -
  have "case mon_run False first_game (initMonitor 10 2 blank) of None \<Rightarrow> False
    | Some s \<Rightarrow> phase_of s 0 = Playing \<and> phase_of s 1 = Playing" by code_simp
  then show ?thesis by (auto split: option.splits)
qed

theorem match_is_mutual_witness:
  "\<exists>s q. mon_run False first_game (initMonitor 10 2 blank) = Some s \<and> opponent (players s 0) = Some q
     \<and> opponent (players s q) = Some 0"
proof -
  obtain s where s: "mon_run False first_game (initMonitor 10 2 blank) = Some s" "phase_of s 0 = Playing"
    using first_game_run by blast
  show ?thesis using match_is_mutual [OF mon_run_reach [OF s(1) mon_reach.init] s(2)] s(1) by blast
qed

text \<open>
  C14: Without spurious wakeups no match is missed: until matchmaking stops, two players that both
  wait in \<open>findMatch\<close> unmatched could not play each other.
\<close>

theorem no_missed_match:
  assumes "mon_reach False rng gap s" "\<not> matchmaking_stopped s"
    and "phase_of s p = InFind" "\<not> matched (players s p)" "phase_of s q = InFind" "\<not> matched (players s q)"
  shows "\<not> compatible gap (players s p) (players s q)"
proof -
  obtain xs where "waiting_ok s xs" using waiting_reach [OF assms(1)] by blast
  moreover have "skill_gap s = gap" using mutualD(4) mutual_reach [OF assms(1)] by blast
  ultimately show ?thesis using assms(2-6) unfolding waiting_ok_def by blast
qed

theorem no_missed_match_witness:
  "\<exists>s. mon_run False [Finds 0 ''A'' 1, Finds 1 ''B'' 9] (initMonitor 10 2 blank) = Some s
     \<and> \<not> compatible 2 (players s 0) (players s 1)"
proof -
  have "case mon_run False [Finds 0 ''A'' 1, Finds 1 ''B'' 9] (initMonitor 10 2 blank) of None \<Rightarrow> False
    | Some s \<Rightarrow> \<not> matchmaking_stopped s \<and> phase_of s 0 = InFind \<and> \<not> matched (players s 0)
        \<and> phase_of s 1 = InFind \<and> \<not> matched (players s 1)" by code_simp
  then obtain s where s: "mon_run False [Finds 0 ''A'' 1, Finds 1 ''B'' 9] (initMonitor 10 2 blank) = Some s"
    "\<not> matchmaking_stopped s" "phase_of s 0 = InFind" "\<not> matched (players s 0)" "phase_of s 1 = InFind" "\<not> matched (players s 1)"
    by (auto split: option.splits)
  have "\<not> compatible 2 (players s 0) (players s 1)"
    by (rule no_missed_match [OF mon_run_reach [OF s(1) mon_reach.init] s(2-6)])
  then show ?thesis using s(1) by blast
qed

text \<open>
  C40: Two faults. A spurious wakeup links a waiting player to itself, and the next call that does
  not match it searches the list for ever, holding the mutex. And \<open>done_count\<close> is never reset:
  in the second game the first player to call \<open>donePlaying\<close> returns while the opponent is still
  playing.
\<close>

theorem monitor_faults:
  "(\<exists>s. mon_reach True 10 2 s \<and> findMatch 1 ''B'' 9 s = None)
   \<and> (\<exists>s s' p q. mon_reach False 10 2 s \<and> phase_of s p = Playing \<and> opponent (players s p) = Some q
        \<and> donePlaying p s = Some s' \<and> phase_of s' p = Finished \<and> phase_of s' q = Playing)"
proof
  have "case mon_run True [Finds 0 ''A'' 1, Wakes 0] (initMonitor 10 2 blank) of None \<Rightarrow> False
    | Some s \<Rightarrow> \<not> matchmaking_stopped s \<and> waiting_list s = Some 0 \<and> next_waiting (players s 0) = Some 0
        \<and> skill (players s 0) = 1 \<and> skill_gap s = 2" by code_simp
  then obtain s where s: "mon_run True [Finds 0 ''A'' 1, Wakes 0] (initMonitor 10 2 blank) = Some s"
    "\<not> matchmaking_stopped s" "waiting_list s = Some 0" "next_waiting (players s 0) = Some 0" "skill (players s 0) = 1" "skill_gap s = 2"
    by (auto split: option.splits)
  have "findMatch 1 ''B'' 9 s = None"
    using s(2-6) by (simp add: findMatch_def find_round_def upd_def find_search_cycle compatible_def)
  then show "\<exists>s. mon_reach True 10 2 s \<and> findMatch 1 ''B'' 9 s = None"
    using mon_run_reach [OF s(1) mon_reach.init] by blast
next
  let ?run = "first_game @ [Finishes 0, Finishes 1, Finish_wakes 0, Finds 2 ''C'' 5, Finds 3 ''D'' 6, Wakes 2]"
  have "case mon_run False ?run (initMonitor 10 2 blank) of None \<Rightarrow> False
    | Some s \<Rightarrow> phase_of s 2 = Playing \<and> opponent (players s 2) = Some 3
       \<and> (case donePlaying 2 s of None \<Rightarrow> False | Some s' \<Rightarrow> phase_of s' 2 = Finished \<and> phase_of s' 3 = Playing)"
    by code_simp
  then obtain s s' where s: "mon_run False ?run (initMonitor 10 2 blank) = Some s" "phase_of s 2 = Playing"
    "opponent (players s 2) = Some 3" "donePlaying 2 s = Some s'" "phase_of s' 2 = Finished" "phase_of s' 3 = Playing"
    by (auto split: option.splits)
  then show "\<exists>s s' p q. mon_reach False 10 2 s \<and> phase_of s p = Playing \<and> opponent (players s p) = Some q
      \<and> donePlaying p s = Some s' \<and> phase_of s' p = Finished \<and> phase_of s' q = Playing"
    using mon_run_reach [OF s(1) mon_reach.init] by blast
qed

subsection \<open>The end of the monitor\<close>

lemma signal_waiting_chain: "wchain ps cur xs \<Longrightarrow> signal_waiting ps cur = Some xs"
proof (induction xs arbitrary: cur)
  case Nil
  then show ?case by (simp add: signal_waiting.simps)
next
  case (Cons x xs)
  then show ?case by (subst signal_waiting.simps) auto
qed

text \<open>
  Without spurious wakeups \<open>stopMatchmaking\<close> comes back, and it has signalled every player that
  waited unmatched; after a spurious wakeup it may walk around the list for ever.
\<close>

theorem stop_signals_waiting:
  assumes "mon_reach False rng gap s" "\<not> matchmaking_stopped s"
  shows "stopMatchmaking s = Some (s\<lparr>matchmaking_stopped := True\<rparr>)
    \<and> (\<exists>xs. signal_waiting (players s) (waiting_list s) = Some xs \<and> {p. phase_of s p = InFind \<and> \<not> matched (players s p)} \<subseteq> set xs)"
proof -
  obtain xs where w: "waiting_ok s xs" using waiting_reach [OF assms(1)] by blast
  then have "signal_waiting (players s) (waiting_list s) = Some xs" by (simp add: signal_waiting_chain waiting_ok_def)
  then show ?thesis using w assms(2) unfolding waiting_ok_def stopMatchmaking_def by auto
qed

lemma signal_waiting_cycle:
  assumes "next_waiting (ps a) = Some a"
  shows "signal_waiting ps (Some a) = None"
proof (rule ccontr)
  assume "signal_waiting ps (Some a) \<noteq> None"
  then obtain r where r: "signal_waiting ps (Some a) = Some r" by blast
  have "length r = Suc (length r)"
  proof -
    obtain q where "signal_waiting ps (Some a) = Some q" "r = a # q"
      using r assms by (subst (asm) signal_waiting.simps) (auto split: bind_splits)
    then show ?thesis using r by simp
  qed
  then show False by simp
qed

theorem stop_hangs: "\<exists>s. mon_reach True 10 2 s \<and> stopMatchmaking s = None"
proof -
  have "case mon_run True [Finds 0 ''A'' 1, Wakes 0] (initMonitor 10 2 blank) of None \<Rightarrow> False
    | Some s \<Rightarrow> waiting_list s = Some 0 \<and> next_waiting (players s 0) = Some 0" by code_simp
  then obtain s where s: "mon_run True [Finds 0 ''A'' 1, Wakes 0] (initMonitor 10 2 blank) = Some s"
    "waiting_list s = Some 0" "next_waiting (players s 0) = Some 0"
    by (auto split: option.splits)
  then have "stopMatchmaking s = None" by (simp add: stopMatchmaking_def signal_waiting_cycle)
  then show ?thesis using mon_run_reach [OF s(1) mon_reach.init] by blast
qed

text \<open>
  \<open>destroyMonitor\<close> frees the nodes from the front of the list on; the result has them in this order.
  \<open>None\<close> is a read of a node that is already freed.
\<close>

partial_function (option) destroy_nodes :: "(nat \<Rightarrow> Player) \<Rightarrow> nat list \<Rightarrow> nat option \<Rightarrow> nat list option" where
  [code]: "destroy_nodes ps freed cur = (case cur of
       None \<Rightarrow> Some freed
     | Some c \<Rightarrow> if c \<in> set freed then None else destroy_nodes ps (freed @ [c]) (next_waiting (ps c)))"

definition destroyMonitor :: "monitor \<Rightarrow> nat list option" where
  "destroyMonitor s = destroy_nodes (players s) [] (waiting_list s)"

lemma destroy_nodes_chain:
  "wchain ps cur xs \<Longrightarrow> distinct (freed @ xs) \<Longrightarrow> destroy_nodes ps freed cur = Some (freed @ xs)"
proof (induction xs arbitrary: freed cur)
  case Nil
  then show ?case by (simp add: destroy_nodes.simps)
next
  case (Cons x xs)
  then have "destroy_nodes ps (freed @ [x]) (next_waiting (ps x)) = Some ((freed @ [x]) @ xs)" by (intro Cons.IH) auto
  then show ?case using Cons.prems by (subst destroy_nodes.simps) simp
qed

text \<open>
  Without spurious wakeups \<open>destroyMonitor\<close> comes back, frees no node twice and reads none that is
  freed, and frees exactly nodes of players that were never matched, among them every player that
  still waits. The nodes of matched players are not freed.
\<close>

theorem destroy_frees_unmatched:
  assumes "mon_reach False rng gap s"
  shows "\<exists>xs. destroyMonitor s = Some xs \<and> distinct xs \<and> (\<forall>x \<in> set xs. \<not> matched (players s x) \<and> phase_of s x \<noteq> Outside)
    \<and> (\<not> matchmaking_stopped s \<longrightarrow> {p. phase_of s p = InFind \<and> \<not> matched (players s p)} \<subseteq> set xs)"
proof -
  obtain xs where w: "waiting_ok s xs" using waiting_reach [OF assms] by blast
  then have "destroyMonitor s = Some xs"
    using destroy_nodes_chain [of "players s" "waiting_list s" xs "[]"] by (simp add: destroyMonitor_def waiting_ok_def)
  then show ?thesis using w unfolding waiting_ok_def by blast
qed

theorem destroy_frees_unmatched_witness:
  "\<exists>s. mon_run False (first_game @ [Finds 2 ''C'' 5, Finds 3 ''D'' 9]) (initMonitor 10 2 blank) = Some s \<and> destroyMonitor s = Some [3, 2]
     \<and> (\<exists>xs. destroyMonitor s = Some xs \<and> distinct xs)"
proof -
  let ?run = "first_game @ [Finds 2 ''C'' 5, Finds 3 ''D'' 9]"
  have "case mon_run False ?run (initMonitor 10 2 blank) of None \<Rightarrow> False | Some s \<Rightarrow> destroyMonitor s = Some [3, 2]" by code_simp
  then obtain s where s: "mon_run False ?run (initMonitor 10 2 blank) = Some s" "destroyMonitor s = Some [3, 2]" by (auto split: option.splits)
  then show ?thesis using destroy_frees_unmatched [OF mon_run_reach [OF s(1) mon_reach.init]] by blast
qed

text \<open>After a spurious wakeup the list is a cycle, and \<open>destroyMonitor\<close> reads a node it has freed.\<close>

theorem destroy_reads_freed: "\<exists>s. mon_reach True 10 2 s \<and> destroyMonitor s = None"
proof -
  have "case mon_run True [Finds 0 ''A'' 1, Wakes 0] (initMonitor 10 2 blank) of None \<Rightarrow> False
    | Some s \<Rightarrow> destroyMonitor s = None" by code_simp
  then obtain s where "mon_run True [Finds 0 ''A'' 1, Wakes 0] (initMonitor 10 2 blank) = Some s" "destroyMonitor s = None"
    by (auto split: option.splits)
  then show ?thesis using mon_run_reach [OF _ mon_reach.init] by blast
qed

end
