(* ===== verification/Fat12.thy ===== *)
theory Fat12
  imports Prelude "HOL-Library.Word"
begin

text \<open>
  The two programs of exercise 18 that print the directory tree of a FAT12 floppy image,
  \<open>exercises/ex18/floppyDir.c\<close> and \<open>floppyDirNew.c\<close>. An image is a file: a length and its bytes.
  Both programs have the same walk of the directories and differ in how they read the FAT and in
  what they say about damage, so \<open>walk\<close> is defined once, over a \<open>reader\<close> that holds these
  parts and the image. The file pointer \<open>ptr\<close> is explicit where entries are read one after another. The result
  of a walk is what it prints and whether the program has exited; \<open>None\<close> is a walk that never
  returns. A read is short only at the end of the file.

  Proved: the decoding of the FAT, the formatting of names, that an image which holds a tree is
  listed as that tree, and where the programs fail.
\<close>

unbundle bit_operations_syntax

type_synonym byte = "8 word"

record disk =
  fsize :: nat
  fbyte :: "nat \<Rightarrow> byte"

definition SSIZE :: nat where "SSIZE = 512"
definition DSIZE :: nat where "DSIZE = 32"
definition FAT_START :: nat where "FAT_START = 512"
definition CHAIN_END :: nat where "CHAIN_END = 4095"
definition SECTORS :: nat where "SECTORS = 14"
definition BAD_SECTOR :: nat where "BAD_SECTOR = 0xFF7"
definition EOC_MARKER_START :: nat where "EOC_MARKER_START = 0xFF8"
definition BYTE_OFFSET :: nat where "BYTE_OFFSET = (1 + 2 * 9) * SSIZE"
definition DATA_START :: nat where "DATA_START = BYTE_OFFSET + SECTORS * SSIZE"

lemmas disk_layout = SSIZE_def DSIZE_def FAT_START_def CHAIN_END_def SECTORS_def BAD_SECTOR_def
  EOC_MARKER_START_def BYTE_OFFSET_def DATA_START_def

text \<open>\<open>fread\<close> of \<open>n\<close> bytes at a position of the file; \<open>None\<close> when it is short.\<close>

definition fread :: "disk \<Rightarrow> nat \<Rightarrow> nat \<Rightarrow> byte list option" where
  "fread d pos n = (if pos + n \<le> fsize d then Some (map (fbyte d) [pos..<pos + n]) else None)"

text \<open>What is written, in order: to the standard output and to the standard error.\<close>

datatype event = Out string | Err string

subsection \<open>The FAT\<close>

text \<open>\<open>getFat12\<close> of \<open>floppyDir.c\<close>: \<open>None\<close> when it fails, and what it says then.\<close>

definition getFat12 :: "disk \<Rightarrow> nat \<Rightarrow> event list \<times> nat option" where
  "getFat12 d idx = (let offset = idx div 2 * 3 in
     case fread d (FAT_START + offset) 3 of
       None \<Rightarrow> ([Out (''Can't read fat entry at: '' @ show_int (int idx) @ NL)], None)
     | Some b \<Rightarrow>
         let pair = ucast (b ! 0) OR push_bit 8 (ucast (b ! 1)) OR push_bit 16 (ucast (b ! 2)) :: 32 word
         in ([], Some (if odd idx then unat (drop_bit 12 pair) else unat (pair AND 0xFFF))))"

text \<open>\<open>getFat12\<close> of \<open>floppyDirNew.c\<close>.\<close>

definition getFat12_new :: "disk \<Rightarrow> nat \<Rightarrow> event list \<times> nat option" where
  "getFat12_new d idx = (let offset = idx + idx div 2 in
     case fread d (FAT_START + offset) 3 of
       None \<Rightarrow> ([Err (''Warning: Unexpected EOF reading FAT entry for cluster '' @ show_int (int idx) @ NL)],
                Some CHAIN_END)
     | Some b \<Rightarrow>
         let val1 = ucast (b ! 0) :: 32 word; val2 = ucast (b ! 1); val3 = ucast (b ! 2)
         in ([], Some (unat (if odd idx then drop_bit 4 (val2 AND 0xF0) OR push_bit 4 val3
                             else val1 OR push_bit 8 (val2 AND 0x0F)))))"

subsection \<open>A directory entry\<close>

definition byte_char :: "byte \<Rightarrow> char" where
  "byte_char b = char_of (unat b)"

text \<open>The loops that turn trailing blanks of \<open>name\<close> and \<open>ext\<close> into NULs.\<close>

fun trim_blanks :: "nat \<Rightarrow> buf \<Rightarrow> buf" where
  "trim_blanks 0 b = b"
| "trim_blanks (Suc j) b = (if b ! j = CHR '' '' then trim_blanks j (b[j := NUL]) else b)"

definition fullName :: "byte list \<Rightarrow> string" where
  "fullName e =
     (let name = trim_blanks 8 (strncpy (replicate 9 NUL) (map byte_char (take 8 e)) 8);
          ext = trim_blanks 3 (strncpy (replicate 4 NUL) (map byte_char (take 3 (drop 8 e))) 3)
      in take 12 (if ext ! 0 \<noteq> NUL then cstr name @ ''.'' @ cstr ext else cstr name))"

definition startCluster :: "byte list \<Rightarrow> nat" where
  "startCluster e = unat (ucast (e ! 26) OR push_bit 8 (ucast (e ! 27)) :: 32 word)"

definition entry_size :: "byte list \<Rightarrow> int" where
  "entry_size e = sint (ucast (e ! 28) OR push_bit 8 (ucast (e ! 29)) OR push_bit 16 (ucast (e ! 30))
     OR push_bit 24 (ucast (e ! 31)) :: 32 word)"

text \<open>Deleted entries, volume labels, long names, and the entries \<open>.\<close> and \<open>..\<close> are passed over.\<close>

definition skipped :: "byte list \<Rightarrow> bool" where
  "skipped e \<longleftrightarrow> e ! 0 = 0xE5 \<or> e ! 11 AND 0x08 \<noteq> 0 \<or> e ! 11 = 0x0F \<or> e ! 0 = 0x2E"

definition isDir :: "byte list \<Rightarrow> bool" where
  "isDir e \<longleftrightarrow> e ! 11 AND 0x10 = 0x10"

definition pad_left :: "nat \<Rightarrow> string \<Rightarrow> string" where
  "pad_left n s = replicate (n - length s) CHR '' '' @ s"

definition pad_right :: "nat \<Rightarrow> string \<Rightarrow> string" where
  "pad_right n s = s @ replicate (n - length s) CHR '' ''"

definition entry_line :: "nat \<Rightarrow> string \<Rightarrow> string \<Rightarrow> string" where
  "entry_line depth name what =
     concat (replicate depth ''    '') @ pad_right 12 name @ '' '' @ pad_left 10 what @ NL"

subsection \<open>The walk\<close>

text \<open>
  Where the walk is: about to seek to a sector of the root directory or to a cluster, or at the
  entry number \<open>i\<close> of one, with the file pointer at \<open>ptr\<close>.
\<close>

datatype place = InRoot nat | InCluster nat

datatype position = RootSector nat | Cluster nat | Entry place nat nat

record reader =
  image :: disk
  fat :: "nat \<Rightarrow> event list \<times> nat option"
  bad_start :: "string \<Rightarrow> nat \<Rightarrow> event list"

partial_function (option) walk :: "reader \<Rightarrow> nat \<Rightarrow> position \<Rightarrow> (event list \<times> bool) option" where
  [code]: "walk R depth pos = (case pos of
     RootSector n \<Rightarrow>
       if n < SECTORS then walk R depth (Entry (InRoot n) 0 (BYTE_OFFSET + n * SSIZE)) else Some ([], False)
   | Cluster c \<Rightarrow>
       if c < EOC_MARKER_START \<and> 2 \<le> c \<and> c \<noteq> BAD_SECTOR
       then walk R depth (Entry (InCluster c) 0 (DATA_START + (c - 2) * SSIZE)) else Some ([], False)
   | Entry p i ptr \<Rightarrow>
       if \<not> i < SSIZE div DSIZE then
         (case p of
            InRoot n \<Rightarrow> walk R depth (RootSector (n + 1))
          | InCluster c \<Rightarrow>
              (case snd (fat R c) of
                 None \<Rightarrow> Some (fst (fat R c), True)
               | Some c' \<Rightarrow>
                   Option.bind (walk R depth (Cluster c')) (\<lambda>r. Some (fst (fat R c) @ fst r, snd r))))
       else (case fread (image R) ptr DSIZE of
         None \<Rightarrow> Some ([], False)
       | Some e \<Rightarrow>
           if e ! 0 = 0 then Some ([], False)
           else if skipped e then walk R depth (Entry p (i + 1) (ptr + DSIZE))
           else if isDir e then
             (if 2 \<le> startCluster e then
                Option.bind (walk R (depth + 1) (Cluster (startCluster e))) (\<lambda>sub.
                  if snd sub then Some (Out (entry_line depth (fullName e) ''DIR'') # fst sub, True)
                  else Option.bind (walk R depth (Entry p (i + 1) (ptr + DSIZE))) (\<lambda>r.
                    Some (Out (entry_line depth (fullName e) ''DIR'') # fst sub @ fst r, snd r)))
              else
                Option.bind (walk R depth (Entry p (i + 1) (ptr + DSIZE))) (\<lambda>r.
                  Some (Out (entry_line depth (fullName e) ''DIR'') # bad_start R (fullName e) (startCluster e) @ fst r, snd r)))
           else
             Option.bind (walk R depth (Entry p (i + 1) (ptr + DSIZE))) (\<lambda>r.
               Some (Out (entry_line depth (fullName e) (show_int (entry_size e))) # fst r, snd r))))"

text \<open>The two programs.\<close>

definition floppyDir_reader :: "disk \<Rightarrow> reader" where
  "floppyDir_reader d = \<lparr>image = d, fat = getFat12 d, bad_start = (\<lambda>_ _. [])\<rparr>"

definition reportDirectory :: "disk \<Rightarrow> nat \<Rightarrow> int \<Rightarrow> (event list \<times> bool) option" where
  "reportDirectory d depth sec =
     (if sec < 0 then walk (floppyDir_reader d) depth (RootSector 0)
      else if sec \<ge> 2 then walk (floppyDir_reader d) depth (Cluster (nat sec))
      else Some ([], False))"

definition floppyDirNew_reader :: "disk \<Rightarrow> reader" where
  "floppyDirNew_reader d = \<lparr>image = d, fat = getFat12_new d, bad_start = (\<lambda>name c. if c \<noteq> 0
     then [Err (''Warning: Directory '' @ [CHR 0x27] @ name @ [CHR 0x27] @ '' points to invalid cluster '' @ show_int (int c) @ NL)] else [])\<rparr>"

text \<open>
  Its loops over the root directory and over the clusters of a subdirectory. The first indents by three
  blanks instead of four; the root is only listed at depth 0, where that makes no difference.
\<close>

definition report_root_new :: "disk \<Rightarrow> nat \<Rightarrow> (event list \<times> bool) option" where
  "report_root_new d depth = walk (floppyDirNew_reader d) depth (RootSector 0)"

definition report_subdirectory_new :: "disk \<Rightarrow> nat \<Rightarrow> nat \<Rightarrow> (event list \<times> bool) option" where
  "report_subdirectory_new d depth cluster = walk (floppyDirNew_reader d) depth (Cluster cluster)"

definition reportDirectory_new :: "disk \<Rightarrow> nat \<Rightarrow> int \<Rightarrow> (event list \<times> bool) option" where
  "reportDirectory_new d depth sec =
     (if sec = -1 then report_root_new d depth
      else if sec \<ge> 2 then report_subdirectory_new d depth (nat sec)
      else if sec \<noteq> 0 then Some ([Err (''Warning: Invalid starting sector/cluster '' @ show_int sec
        @ '' for directory listing.'' @ NL)], False)
      else Some ([], False))"

fun out_text :: "event list \<Rightarrow> string" where
  "out_text [] = []"
| "out_text (Out s # es) = s @ out_text es"
| "out_text (Err s # es) = out_text es"

fun err_text :: "event list \<Rightarrow> string" where
  "err_text [] = []"
| "err_text (Out s # es) = err_text es"
| "err_text (Err s # es) = s @ err_text es"

definition finish_walk :: "(event list \<times> bool) option \<Rightarrow> outcome option" where
  "finish_walk r = map_option (\<lambda>(es, ex). exits (out_text es) (err_text es)
     (if ex then EXIT_FAILURE else EXIT_SUCCESS)) r"

text \<open>\<open>main\<close>: \<open>fopen\<close> is what the file system has under a path.\<close>

definition floppyDir_main :: "(string \<Rightarrow> disk option) \<Rightarrow> string list \<Rightarrow> outcome option" where
  "floppyDir_main fopen args =
     (if length args \<noteq> 1 then Some (exits (''usage: floppyDir <floppy-image>'' @ NL) '''' EXIT_FAILURE)
      else case fopen (args ! 0) of
        None \<Rightarrow> Some (exits (''Can't open file: '' @ args ! 0 @ NL) '''' EXIT_FAILURE)
      | Some d \<Rightarrow> finish_walk (reportDirectory d 0 (-12)))"

definition floppyDirNew_main :: "(string \<Rightarrow> disk option) \<Rightarrow> string list \<Rightarrow> outcome option" where
  "floppyDirNew_main fopen args =
     (if length args \<noteq> 1 then Some (exits '''' (''usage: floppyDir <floppy-image>'' @ NL) EXIT_FAILURE)
      else case fopen (args ! 0) of
        None \<Rightarrow> Some (exits '''' (''Can't open file: '' @ args ! 0 @ NL) EXIT_FAILURE)
      | Some d \<Rightarrow> finish_walk (reportDirectory_new d 0 (-1)))"

subsection \<open>The steps of the walk\<close>

lemma walk_root_sector:
  "walk R depth (RootSector n)
     = (if n < SECTORS then walk R depth (Entry (InRoot n) 0 (BYTE_OFFSET + n * SSIZE)) else Some ([], False))"
  by (subst walk.simps) simp

lemma walk_cluster:
  "walk R depth (Cluster c)
     = (if c < EOC_MARKER_START \<and> 2 \<le> c \<and> c \<noteq> BAD_SECTOR
        then walk R depth (Entry (InCluster c) 0 (DATA_START + (c - 2) * SSIZE)) else Some ([], False))"
  by (subst walk.simps) simp

lemma walk_next_root: "\<not> i < SSIZE div DSIZE \<Longrightarrow> walk R depth (Entry (InRoot n) i ptr) = walk R depth (RootSector (n + 1))"
  by (subst walk.simps) simp

lemma walk_next_cluster:
  "\<not> i < SSIZE div DSIZE \<Longrightarrow> fat R c = ([], Some c') \<Longrightarrow> walk R depth (Entry (InCluster c) i ptr) = walk R depth (Cluster c')"
  by (subst walk.simps) (simp add: option.case_eq_if bind_eq_Some_conv split: Option.bind_split)

lemma walk_entry:
  assumes "i < SSIZE div DSIZE" "fread (image R) ptr DSIZE = Some e"
  shows "e ! 0 = 0 \<Longrightarrow> walk R depth (Entry p i ptr) = Some ([], False)"
    and "e ! 0 \<noteq> 0 \<Longrightarrow> skipped e \<Longrightarrow> walk R depth (Entry p i ptr) = walk R depth (Entry p (i + 1) (ptr + DSIZE))"
    and "e ! 0 \<noteq> 0 \<Longrightarrow> \<not> skipped e \<Longrightarrow> \<not> isDir e \<Longrightarrow> walk R depth (Entry p i ptr)
      = Option.bind (walk R depth (Entry p (i + 1) (ptr + DSIZE)))
          (\<lambda>r. Some (Out (entry_line depth (fullName e) (show_int (entry_size e))) # fst r, snd r))"
    and "e ! 0 \<noteq> 0 \<Longrightarrow> \<not> skipped e \<Longrightarrow> isDir e \<Longrightarrow> startCluster e < 2 \<Longrightarrow> walk R depth (Entry p i ptr)
      = Option.bind (walk R depth (Entry p (i + 1) (ptr + DSIZE)))
          (\<lambda>r. Some (Out (entry_line depth (fullName e) ''DIR'') # bad_start R (fullName e) (startCluster e) @ fst r, snd r))"
    and "e ! 0 \<noteq> 0 \<Longrightarrow> \<not> skipped e \<Longrightarrow> isDir e \<Longrightarrow> 2 \<le> startCluster e \<Longrightarrow> walk R depth (Entry p i ptr)
      = Option.bind (walk R (depth + 1) (Cluster (startCluster e))) (\<lambda>sub.
          if snd sub then Some (Out (entry_line depth (fullName e) ''DIR'') # fst sub, True)
          else Option.bind (walk R depth (Entry p (i + 1) (ptr + DSIZE)))
            (\<lambda>r. Some (Out (entry_line depth (fullName e) ''DIR'') # fst sub @ fst r, snd r)))"
  using assms by (subst walk.simps, simp)+

subsection \<open>An image that holds a tree\<close>

text \<open>
  The tree of files, and its listing. A directory that the walk does not descend into (its start
  cluster is 0 or 1) is a directory without entries.
\<close>

datatype file_tree = File string int | Dir string "file_tree list"

fun tree_lines :: "nat \<Rightarrow> file_tree \<Rightarrow> string list" where
  "tree_lines depth (File n sz) = [entry_line depth n (show_int sz)]"
| "tree_lines depth (Dir n ts) = entry_line depth n ''DIR'' # concat (map (tree_lines (depth + 1)) ts)"

abbreviation dir_lines :: "nat \<Rightarrow> file_tree list \<Rightarrow> string list" where
  "dir_lines depth ts \<equiv> concat (map (tree_lines depth) ts)"

text \<open>The chain of clusters that the FAT gives a directory, and where the entries of a directory are.\<close>

inductive fat_chain :: "(nat \<Rightarrow> event list \<times> nat option) \<Rightarrow> nat \<Rightarrow> nat list \<Rightarrow> bool" for f where
  last: "\<not> (c < EOC_MARKER_START \<and> 2 \<le> c \<and> c \<noteq> BAD_SECTOR) \<Longrightarrow> fat_chain f c []"
| link: "c < EOC_MARKER_START \<Longrightarrow> 2 \<le> c \<Longrightarrow> c \<noteq> BAD_SECTOR \<Longrightarrow> f c = ([], Some c') \<Longrightarrow> fat_chain f c' cs \<Longrightarrow>
    fat_chain f c (c # cs)"

definition slots :: "nat \<Rightarrow> nat \<Rightarrow> nat list" where
  "slots start k = map (\<lambda>i. start + i * DSIZE) [0..<k]"

definition root_slots :: "nat list" where
  "root_slots = concat (map (\<lambda>n. slots (BYTE_OFFSET + n * SSIZE) (SSIZE div DSIZE)) [0..<SECTORS])"

definition chain_slots :: "nat list \<Rightarrow> nat list" where
  "chain_slots cs = concat (map (\<lambda>c. slots (DATA_START + (c - 2) * SSIZE) (SSIZE div DSIZE)) cs)"

text \<open>The slots hold the entries of these trees.\<close>

inductive holds_dir :: "reader \<Rightarrow> nat list \<Rightarrow> file_tree list \<Rightarrow> bool" for R where
  full: "holds_dir R [] []"
| end_mark: "fread (image R) s DSIZE = Some e \<Longrightarrow> e ! 0 = 0 \<Longrightarrow> holds_dir R (s # ss) []"
| skip: "fread (image R) s DSIZE = Some e \<Longrightarrow> e ! 0 \<noteq> 0 \<Longrightarrow> skipped e \<Longrightarrow> holds_dir R ss ts \<Longrightarrow> holds_dir R (s # ss) ts"
| a_file: "fread (image R) s DSIZE = Some e \<Longrightarrow> e ! 0 \<noteq> 0 \<Longrightarrow> \<not> skipped e \<Longrightarrow> \<not> isDir e \<Longrightarrow> holds_dir R ss ts \<Longrightarrow>
    holds_dir R (s # ss) (File (fullName e) (entry_size e) # ts)"
| a_dir: "fread (image R) s DSIZE = Some e \<Longrightarrow> e ! 0 \<noteq> 0 \<Longrightarrow> \<not> skipped e \<Longrightarrow> isDir e \<Longrightarrow> 2 \<le> startCluster e \<Longrightarrow>
    fat_chain (fat R) (startCluster e) cs \<Longrightarrow> holds_dir R (chain_slots cs) sub \<Longrightarrow> holds_dir R ss ts \<Longrightarrow>
    holds_dir R (s # ss) (Dir (fullName e) sub # ts)"
| empty_dir: "fread (image R) s DSIZE = Some e \<Longrightarrow> e ! 0 \<noteq> 0 \<Longrightarrow> \<not> skipped e \<Longrightarrow> isDir e \<Longrightarrow> startCluster e < 2 \<Longrightarrow>
    bad_start R (fullName e) (startCluster e) = [] \<Longrightarrow> holds_dir R ss ts \<Longrightarrow>
    holds_dir R (s # ss) (Dir (fullName e) [] # ts)"

text \<open>The slots that are still to come when the walk is at an entry.\<close>

inductive to_come :: "reader \<Rightarrow> position \<Rightarrow> nat list \<Rightarrow> bool" for R where
  in_root: "i \<le> SSIZE div DSIZE \<Longrightarrow> to_come R (Entry (InRoot n) i ptr)
    (slots ptr (SSIZE div DSIZE - i) @ concat (map (\<lambda>n. slots (BYTE_OFFSET + n * SSIZE) (SSIZE div DSIZE)) [n + 1..<SECTORS]))"
| in_cluster: "i \<le> SSIZE div DSIZE \<Longrightarrow> fat R c = ([], Some c') \<Longrightarrow> fat_chain (fat R) c' cs \<Longrightarrow>
    to_come R (Entry (InCluster c) i ptr) (slots ptr (SSIZE div DSIZE - i) @ chain_slots cs)"

lemma slots_Suc: "slots start (Suc k) = start # slots (start + DSIZE) k"
  by (simp add: slots_def map_upt_Suc algebra_simps del: upt_Suc)

lemma slots_0 [simp]: "slots start 0 = []"
  by (simp add: slots_def)

text \<open>Inside a sector the next slot is at the file pointer.\<close>

lemma to_come_inside:
  assumes "to_come R (Entry p i ptr) ss" "i < SSIZE div DSIZE"
  shows "\<exists>ss'. ss = ptr # ss' \<and> to_come R (Entry p (i + 1) (ptr + DSIZE)) ss'"
proof -
  obtain k where k: "SSIZE div DSIZE - i = Suc k" "SSIZE div DSIZE - (i + 1) = k"
    using assms(2) by (cases "SSIZE div DSIZE - i") auto
  from assms(1) show ?thesis
  proof cases
    case (in_root n)
    then show ?thesis
      using to_come.in_root [of "i + 1" R n "ptr + DSIZE"] assms(2) k by (simp add: slots_Suc)
  next
    case (in_cluster c c' cs)
    then show ?thesis
      using to_come.in_cluster [of "i + 1" R c c' cs "ptr + DSIZE"] assms(2) k by (simp add: slots_Suc)
  qed
qed

text \<open>At the end of a sector the walk goes to the next one, when slots are left.\<close>

lemma to_come_sector_end:
  assumes "to_come R (Entry p i ptr) ss" "\<not> i < SSIZE div DSIZE"
  shows "(ss = [] \<and> walk R depth (Entry p i ptr) = Some ([], False))
    \<or> (\<exists>p' ptr'. walk R depth (Entry p i ptr) = walk R depth (Entry p' 0 ptr') \<and> to_come R (Entry p' 0 ptr') ss)"
  using assms(1)
proof cases
  case (in_root n)
  have w: "walk R depth (Entry p i ptr) = walk R depth (RootSector (n + 1))"
    using in_root assms(2) by (simp add: walk_next_root)
  show ?thesis
  proof (cases "n + 1 < SECTORS")
    case True
    then have "ss = slots (BYTE_OFFSET + (n + 1) * SSIZE) (SSIZE div DSIZE)
        @ concat (map (\<lambda>n. slots (BYTE_OFFSET + n * SSIZE) (SSIZE div DSIZE)) [n + 1 + 1..<SECTORS])"
      using in_root assms(2) by (simp add: upt_conv_Cons)
    then have "to_come R (Entry (InRoot (n + 1)) 0 (BYTE_OFFSET + (n + 1) * SSIZE)) ss"
      using to_come.in_root [of 0 R "n + 1" "BYTE_OFFSET + (n + 1) * SSIZE"] by simp
    then show ?thesis using w True walk_root_sector [of R depth "n + 1"] by auto
  next
    case False
    then show ?thesis using in_root assms(2) w walk_root_sector [of R depth "n + 1"] by simp
  qed
next
  case (in_cluster c c' cs)
  have w: "walk R depth (Entry p i ptr) = walk R depth (Cluster c')"
    using in_cluster assms(2) by (simp add: walk_next_cluster)
  have "fat_chain (fat R) c' cs" by fact
  then show ?thesis
  proof cases
    case last
    then have "walk R depth (Cluster c') = Some ([], False)" by (auto simp: walk_cluster)
    then show ?thesis using in_cluster assms(2) w last by (simp add: chain_slots_def)
  next
    case (link c'' cs')
    then have "to_come R (Entry (InCluster c') 0 (DATA_START + (c' - 2) * SSIZE)) ss"
      using to_come.in_cluster [of 0 R c' c'' cs' "DATA_START + (c' - 2) * SSIZE"] in_cluster assms(2)
      by (simp add: chain_slots_def)
    then show ?thesis using w link walk_cluster [of R depth c'] by auto
  qed
qed

text \<open>Walk and tree.\<close>

lemma walk_lists:
  assumes "holds_dir R ss ts"
  shows "\<forall>depth p i ptr. to_come R (Entry p i ptr) ss \<longrightarrow>
    walk R depth (Entry p i ptr) = Some (map Out (dir_lines depth ts), False)"
proof -
  text \<open>It is enough to look at entries inside a sector.\<close>
  have inside: "walk R depth (Entry p i ptr) = Some (map Out (dir_lines depth ts), False)"
    if t: "to_come R (Entry p i ptr) (s # ss)"
      and "\<And>p i ptr ss'. i < SSIZE div DSIZE \<Longrightarrow> ptr = s \<Longrightarrow> to_come R (Entry p (i + 1) (s + DSIZE)) ss \<Longrightarrow>
        walk R depth (Entry p i ptr) = Some (map Out (dir_lines depth ts), False)"
    for depth p i ptr s ss ts
  proof (cases "i < SSIZE div DSIZE")
    case True
    then show ?thesis using to_come_inside [OF t] that(2) by auto
  next
    case False
    then obtain p' ptr' where w: "walk R depth (Entry p i ptr) = walk R depth (Entry p' 0 ptr')"
        and t': "to_come R (Entry p' 0 ptr') (s # ss)"
      using to_come_sector_end [OF t, of depth] by auto
    have "0 < SSIZE div DSIZE" by (simp add: disk_layout)
    then show ?thesis using w to_come_inside [OF t'] that(2) by auto
  qed
  show ?thesis
    using assms
  proof (induction rule: holds_dir.induct)
    case full
    have "walk R depth (Entry p i ptr) = Some (map Out (dir_lines depth []), False)"
      if t: "to_come R (Entry p i ptr) []" for depth p i ptr
    proof (cases "i < SSIZE div DSIZE")
      case True
      then show ?thesis using to_come_inside [OF t] by simp
    next
      case False
      then obtain p' ptr' where "walk R depth (Entry p i ptr) = Some ([], False) \<or> to_come R (Entry p' 0 ptr') []"
        using to_come_sector_end [OF t, of depth] by auto
      moreover have "\<not> to_come R (Entry p' 0 ptr') []"
        using to_come_inside [of R p' 0 ptr' "[]"] by (auto simp: disk_layout)
      ultimately show ?thesis by simp
    qed
    then show ?case by blast
  next
    case (end_mark s e ss)
    then show ?case by (intro allI impI, elim inside) (simp add: walk_entry(1))
  next
    case (skip s e ss ts)
    then show ?case by (intro allI impI, elim inside) (simp add: walk_entry(2))
  next
    case (a_file s e ss ts)
    then show ?case by (intro allI impI, elim inside) (simp add: walk_entry(3))
  next
    case (a_dir s e cs sub ss ts)
    have sub: "walk R (depth + 1) (Cluster (startCluster e)) = Some (map Out (dir_lines (depth + 1) sub), False)" for depth
    proof (cases cs)
      case Nil
      then have out: "\<not> (startCluster e < EOC_MARKER_START \<and> 2 \<le> startCluster e \<and> startCluster e \<noteq> BAD_SECTOR)"
        using a_dir.hyps(6) by (auto elim: fat_chain.cases)
      have "holds_dir R [] sub" using a_dir.hyps(7) Nil by (simp add: chain_slots_def)
      then have "sub = []" by (auto elim: holds_dir.cases)
      then show ?thesis using out by (auto simp: walk_cluster)
    next
      case (Cons c cs')
      have ch: "fat_chain (fat R) (startCluster e) (c # cs')" using a_dir.hyps(6) Cons by simp
      then obtain c' where c': "c = startCluster e" "fat R c = ([], Some c')" "fat_chain (fat R) c' cs'"
          "c < EOC_MARKER_START" "2 \<le> c" "c \<noteq> BAD_SECTOR"
        by (auto elim: fat_chain.cases)
      have "to_come R (Entry (InCluster c) 0 (DATA_START + (c - 2) * SSIZE)) (chain_slots cs)"
        using to_come.in_cluster [of 0 R c c' cs' "DATA_START + (c - 2) * SSIZE"] c' Cons by (simp add: chain_slots_def)
      then show ?thesis using a_dir.IH(1) c' by (simp add: walk_cluster)
    qed
    show ?case using a_dir.hyps a_dir.IH(2) sub by (intro allI impI, elim inside) (simp add: walk_entry(5))
  next
    case (empty_dir s e ss ts)
    then show ?case by (intro allI impI, elim inside) (simp add: walk_entry(4))
  qed
qed

lemma walk_lists_root:
  assumes "holds_dir R root_slots ts"
  shows "walk R 0 (RootSector 0) = Some (map Out (dir_lines 0 ts), False)"
proof -
  have "root_slots = slots BYTE_OFFSET (SSIZE div DSIZE) @ concat (map (\<lambda>n. slots (BYTE_OFFSET + n * SSIZE) (SSIZE div DSIZE)) [0 + 1..<SECTORS])"
    by (simp add: root_slots_def SECTORS_def upt_rec [of 0])
  then have "to_come R (Entry (InRoot 0) 0 BYTE_OFFSET) root_slots"
    using to_come.in_root [of 0 R 0 BYTE_OFFSET] by simp
  then show ?thesis using walk_lists [OF assms] by (simp add: walk_root_sector SECTORS_def)
qed

text \<open>A directory whose first entry is itself: the walk goes down for ever.\<close>

lemma walk_cycle:
  assumes c: "c < EOC_MARKER_START" "2 \<le> c" "c \<noteq> BAD_SECTOR"
    and e: "fread (image R) (DATA_START + (c - 2) * SSIZE) DSIZE = Some e" "e ! 0 \<noteq> 0" "\<not> skipped e" "isDir e" "startCluster e = c"
  shows "walk R depth (Cluster c) = None"
proof (rule ccontr)
  have z: "0 < SSIZE div DSIZE" by (simp add: disk_layout)
  assume "walk R depth (Cluster c) \<noteq> None"
  then obtain r where "walk R depth (Cluster c) = Some r" by auto
  let ?P = "\<lambda>R' depth pos r. R' = R \<longrightarrow> pos \<noteq> Cluster c \<and> (\<forall>p. pos \<noteq> Entry p 0 (DATA_START + (c - 2) * SSIZE))"
  from \<open>walk R depth (Cluster c) = Some r\<close> have "?P R depth (Cluster c) r"
    apply (rule walk.raw_induct [where P = ?P, rotated])
    subgoal premises prems for w R' depth pos r
    proof (intro impI conjI allI notI)
      assume "R' = R" "pos = Cluster c"
      then have "w R depth (Entry (InCluster c) 0 (DATA_START + (c - 2) * SSIZE)) = Some r"
        using prems(2) c by simp
      then show False using prems(1) by blast
    next
      fix p
      assume "R' = R" "pos = Entry p 0 (DATA_START + (c - 2) * SSIZE)"
      then obtain sub where "w R (depth + 1) (Cluster c) = Some sub"
        using prems(2) c e z by (auto simp: bind_eq_Some_conv)
      then show False using prems(1) by blast
    qed
    done
  then show False by simp
qed

subsection \<open>Reading the FAT\<close>

text \<open>
  The FAT as FAT12 lays it out: two entries of 12 bits in three bytes. \<open>fat_written d f n\<close>: the
  image holds the entries \<open>f 0\<close>, \dots, \<open>f (n - 1)\<close>.
\<close>

definition fat_byte :: "(nat \<Rightarrow> nat) \<Rightarrow> nat \<Rightarrow> nat" where
  "fat_byte f j = (let k = j div 3 in
     if j mod 3 = 0 then f (2 * k) mod 256
     else if j mod 3 = 1 then f (2 * k) div 256 + 16 * (f (2 * k + 1) mod 16)
     else f (2 * k + 1) div 16)"

definition fat_written :: "disk \<Rightarrow> (nat \<Rightarrow> nat) \<Rightarrow> nat \<Rightarrow> bool" where
  "fat_written d f n \<longleftrightarrow> even n \<and> FAT_START + n div 2 * 3 \<le> fsize d
     \<and> (\<forall>idx < n. f idx < 4096) \<and> (\<forall>j < n div 2 * 3. unat (fbyte d (FAT_START + j)) = fat_byte f j)"

lemma or_push_bit_nat: "a < 2 ^ n \<Longrightarrow> a OR push_bit n b = a + 2 ^ n * (b :: nat)"
proof -
  assume "a < 2 ^ n"
  then have t: "take_bit n a = a" by (simp add: take_bit_nat_eq_self)
  have "\<not> bit a m" if "n \<le> m" for m
    using that bit_take_bit_iff [of n a m] t by simp
  then have "a AND push_bit n b = 0"
    by (intro bit_eqI) (auto simp: bit_simps)
  then have "a OR push_bit n b = a + push_bit n b" by (simp only: disjunctive_add_eq_or)
  then show ?thesis by (simp add: push_bit_eq_mult mult.commute)
qed

text \<open>Three bytes as the pair of entries that the first program reads.\<close>

lemma unat_ucast_byte: "unat (ucast (b :: byte) :: 32 word) = unat b"
  by (simp add: unsigned_ucast_eq take_bit_nat_eq_self order.strict_trans [OF unsigned_less])

lemma unat_pair:
  "unat (ucast b0 OR push_bit 8 (ucast b1) OR push_bit 16 (ucast b2) :: 32 word)
     = unat (b0 :: byte) + 256 * unat (b1 :: byte) + 65536 * unat (b2 :: byte)"
proof -
  have b: "unat b0 < 256" "unat b1 < 256" "unat b2 < 256"
    using unsigned_less [of b0] unsigned_less [of b1] unsigned_less [of b2] by simp_all
  have "unat (push_bit 8 (ucast b1) :: 32 word) = take_bit 32 (push_bit 8 (unat b1))"
    by (simp only: unsigned_push_bit_eq unat_ucast_byte) simp
  then have p1: "unat (push_bit 8 (ucast b1) :: 32 word) = push_bit 8 (unat b1)"
    using b by (simp only: push_bit_eq_mult) (simp add: take_bit_nat_eq_self)
  have "unat (push_bit 16 (ucast b2) :: 32 word) = take_bit 32 (push_bit 16 (unat b2))"
    by (simp only: unsigned_push_bit_eq unat_ucast_byte) simp
  then have p2: "unat (push_bit 16 (ucast b2) :: 32 word) = push_bit 16 (unat b2)"
    using b by (simp only: push_bit_eq_mult) (simp add: take_bit_nat_eq_self)
  have "unat b0 OR push_bit 8 (unat b1) = unat b0 + 256 * unat b1"
    using or_push_bit_nat [of "unat b0" 8 "unat b1"] b by simp
  moreover have "(unat b0 + 256 * unat b1) OR push_bit 16 (unat b2) = unat b0 + 256 * unat b1 + 65536 * unat b2"
    using or_push_bit_nat [of "unat b0 + 256 * unat b1" 16 "unat b2"] b by simp
  ultimately show ?thesis
    by (simp only: unsigned_or_eq p1 p2 unat_ucast_byte or.assoc [symmetric])
qed

lemma fread_Some: "pos + n \<le> fsize d \<Longrightarrow> fread d pos n = Some (map (fbyte d) [pos..<pos + n])"
  by (simp add: fread_def)

lemma and_mask_nat: "(a :: nat) AND 4095 = a mod 4096"
  using take_bit_eq_mask [of 12 a] by (simp add: take_bit_eq_mod mask_eq_exp_minus_1)

lemma three_bytes: "[x, y, z] ! 0 = x" "[x, y, z] ! 1 = y" "[x, y, z] ! 2 = z"
  by simp_all

lemma fread_three: "pos + 3 \<le> fsize d \<Longrightarrow> fread d pos 3 = Some [fbyte d pos, fbyte d (pos + 1), fbyte d (pos + 2)]"
  by (simp add: fread_Some upt_rec numeral_eq_Suc)

lemma decode_pair:
  fixes b0 b1 b2 :: byte
  defines "pair \<equiv> ucast b0 OR push_bit 8 (ucast b1) OR push_bit 16 (ucast b2) :: 32 word"
  shows "unat (drop_bit 12 pair) = (unat b0 + 256 * unat b1 + 65536 * unat b2) div 4096"
    and "unat (pair AND 0xFFF) = (unat b0 + 256 * unat b1 + 65536 * unat b2) mod 4096"
proof -
  have p: "unat pair = unat b0 + 256 * unat b1 + 65536 * unat b2"
    unfolding pair_def by (rule unat_pair)
  have "unat (drop_bit 12 pair) = unat pair div 2 ^ 12"
    by (simp only: drop_bit_eq_div [where 'a = nat] unat_drop_bit_eq)
  then show "unat (drop_bit 12 pair) = (unat b0 + 256 * unat b1 + 65536 * unat b2) div 4096"
    using p by simp
  have "unat (pair AND 0xFFF) = unat pair AND unat (0xFFF :: 32 word)"
    by (rule unsigned_and_eq)
  then show "unat (pair AND 0xFFF) = (unat b0 + 256 * unat b1 + 65536 * unat b2) mod 4096"
    using p and_mask_nat by simp
qed

lemma getFat12_eq:
  assumes "FAT_START + idx div 2 * 3 + 3 \<le> fsize d"
    and "b = (\<lambda>k. unat (fbyte d (FAT_START + idx div 2 * 3 + k)))"
  shows "getFat12 d idx = ([], Some (if odd idx then (b 0 + 256 * b 1 + 65536 * b 2) div 4096
      else (b 0 + 256 * b 1 + 65536 * b 2) mod 4096))"
  unfolding getFat12_def Let_def fread_three [OF assms(1)] option.case three_bytes decode_pair
  by (simp add: assms(2))

lemma decode_new:
  fixes b0 b1 b2 :: byte
  defines "v1 \<equiv> ucast b0 :: 32 word" and "v2 \<equiv> ucast b1" and "v3 \<equiv> ucast b2"
  shows "unat (drop_bit 4 (v2 AND 0xF0) OR push_bit 4 v3) = unat b1 div 16 + 16 * unat b2"
    and "unat (v1 OR push_bit 8 (v2 AND 0x0F)) = unat b0 + 256 * (unat b1 mod 16)"
proof -
  have b: "unat b0 < 256" "unat b1 < 256" "unat b2 < 256"
    using unsigned_less [of b0] unsigned_less [of b1] unsigned_less [of b2] by simp_all
  have u: "unat v1 = unat b0" "unat v2 = unat b1" "unat v3 = unat b2"
    unfolding v1_def v2_def v3_def by (rule unat_ucast_byte)+
  have m: "a AND 15 = a mod 16" for a :: nat
    using take_bit_eq_mask [of 4 a] by (simp add: take_bit_eq_mod mask_eq_exp_minus_1)
  have "unat (drop_bit 4 (v2 AND 0xF0)) = drop_bit 4 (unat v2 AND 240)"
    by (subst unat_drop_bit_eq) (simp add: unsigned_and_eq)
  also have "\<dots> = drop_bit 4 (unat v2) AND 15"
    by (simp add: drop_bit_and)
  also have "\<dots> = unat b1 div 16"
    using b by (simp add: m u drop_bit_eq_div)
  finally have hi: "unat (drop_bit 4 (v2 AND 0xF0)) = unat b1 div 16" .
  have "unat (push_bit 4 v3) = take_bit 32 (push_bit 4 (unat v3))"
    by (simp only: unsigned_push_bit_eq) simp
  then have "unat (push_bit 4 v3) = push_bit 4 (unat b2)"
    using b by (simp only: push_bit_eq_mult u) (simp add: take_bit_nat_eq_self)
  then show "unat (drop_bit 4 (v2 AND 0xF0) OR push_bit 4 v3) = unat b1 div 16 + 16 * unat b2"
    using or_push_bit_nat [of "unat b1 div 16" 4 "unat b2"] b by (simp only: unsigned_or_eq hi) simp
  have lo: "unat (v2 AND 0x0F) = unat b1 mod 16"
    using m [of "unat v2"] u by (simp only: unsigned_and_eq) simp
  have "unat (push_bit 8 (v2 AND 0x0F)) = take_bit 32 (push_bit 8 (unat (v2 AND 0x0F)))"
    by (simp only: unsigned_push_bit_eq) simp
  then have "unat (push_bit 8 (v2 AND 0x0F)) = push_bit 8 (unat b1 mod 16)"
    using b by (simp only: push_bit_eq_mult lo) (simp add: take_bit_nat_eq_self)
  then show "unat (v1 OR push_bit 8 (v2 AND 0x0F)) = unat b0 + 256 * (unat b1 mod 16)"
    using or_push_bit_nat [of "unat b0" 8 "unat b1 mod 16"] b by (simp only: unsigned_or_eq u) simp
qed

lemma getFat12_new_eq:
  assumes "FAT_START + (idx + idx div 2) + 3 \<le> fsize d"
    and "b = (\<lambda>k. unat (fbyte d (FAT_START + (idx + idx div 2) + k)))"
  shows "getFat12_new d idx = ([], Some (if odd idx then b 1 div 16 + 16 * b 2 else b 0 + 256 * (b 1 mod 16)))"
proof (cases "odd idx")
  case True
  then show ?thesis
    unfolding getFat12_new_def Let_def fread_three [OF assms(1)] option.case three_bytes if_P [OF True] decode_new
    by (simp add: assms(2))
next
  case False
  then show ?thesis
    unfolding getFat12_new_def Let_def fread_three [OF assms(1)] option.case three_bytes if_not_P [OF False] decode_new
    by (simp add: assms(2))
qed

text \<open>What the two programs read where the FAT was written in the layout.\<close>

lemma fat_bytes:
  assumes "fat_written d f n" "j < n div 2 * 3"
  shows "unat (fbyte d (FAT_START + j)) = fat_byte f j"
  using assms by (simp add: fat_written_def)

lemma fat_pair:
  assumes w: "fat_written d f n" and k: "2 * k < n"
  defines "b \<equiv> (\<lambda>j. unat (fbyte d (FAT_START + 3 * k + j)))"
  shows "b 0 = f (2 * k) mod 256" "b 1 = f (2 * k) div 256 + 16 * (f (2 * k + 1) mod 16)" "b 2 = f (2 * k + 1) div 16"
proof -
  have "even n" using w by (simp add: fat_written_def)
  then have "3 * k + j < n div 2 * 3" if "j < 3" for j
    using k that by auto
  then have b: "b j = fat_byte f (3 * k + j)" if "j < 3" for j
    using fat_bytes [OF w, of "3 * k + j"] that by (simp add: b_def add.assoc)
  have "(3 * k + 1) div 3 = k" "(3 * k + 2) div 3 = k" "(3 * k + 1) mod 3 = 1" "(3 * k + 2) mod 3 = 2" by presburger+
  then show "b 0 = f (2 * k) mod 256" "b 1 = f (2 * k) div 256 + 16 * (f (2 * k + 1) mod 16)" "b 2 = f (2 * k + 1) div 16"
    by (simp_all add: b fat_byte_def Let_def)
qed

lemma fat_fits:
  assumes w: "fat_written d f n" and i: "idx < n"
  shows "FAT_START + idx div 2 * 3 + 3 \<le> fsize d" "f idx < 4096"
proof -
  have "even n" "FAT_START + n div 2 * 3 \<le> fsize d" using w by (simp_all add: fat_written_def)
  moreover have "idx div 2 + 1 \<le> n div 2" using \<open>even n\<close> i by presburger
  ultimately show "FAT_START + idx div 2 * 3 + 3 \<le> fsize d" by linarith
  show "f idx < 4096" using w i by (simp add: fat_written_def)
qed

lemma pair_sum: "f0 mod 256 + 256 * (f0 div 256 + 16 * (f1 mod 16)) + 65536 * (f1 div 16) = f0 + 4096 * (f1 :: nat)"
proof -
  have "r0 + 256 * (q0 + 16 * r1) + 65536 * q1 = f0 + 4096 * f1" if "r0 + 256 * q0 = f0" "r1 + 16 * q1 = f1" for r0 r1 q0 q1
    using that by auto
  from this [OF mod_mult_div_eq mod_mult_div_eq] show ?thesis .
qed

text \<open>
  C35: \<open>getFat12\<close> of \<open>floppyDir.c\<close> is the inverse of the FAT12 layout: where two 12-bit entries
  are packed into three bytes it returns each entry, even and odd.
\<close>
theorem getFat12_reads:
  assumes "fat_written d f n" "idx < n"
  shows "getFat12 d idx = ([], Some (f idx))"
proof -
  let ?k = "idx div 2"
  have k: "2 * ?k < n" using assms(2) by linarith
  have e: "FAT_START + idx div 2 * 3 = FAT_START + 3 * ?k" by simp
  have f: "f (2 * ?k) < 4096" using fat_fits(2) [OF assms(1) k] .
  have r: "getFat12 d idx = ([], Some (if odd idx then (f (2 * ?k) + 4096 * f (2 * ?k + 1)) div 4096
      else (f (2 * ?k) + 4096 * f (2 * ?k + 1)) mod 4096))"
    unfolding getFat12_eq [OF fat_fits(1) [OF assms] refl] e fat_pair [OF assms(1) k] pair_sum ..
  show ?thesis
  proof (cases "odd idx")
    case True
    then have "2 * ?k + 1 = idx" by simp
    then show ?thesis using r f True by simp
  next
    case False
    then have "2 * ?k = idx" by simp
    then show ?thesis using r f False by simp
  qed
qed

text \<open>
  \<open>getFat12\<close> of \<open>floppyDirNew.c\<close> agrees with it on even entries only: an odd entry comes
  back as its own highest four bits below the low eight bits of the entry after it.
\<close>
theorem getFat12_new_reads:
  assumes "fat_written d f n" "idx + 1 < n"
  shows "getFat12_new d idx = ([], Some (if odd idx then f idx div 256 + 16 * (f (idx + 1) mod 256) else f idx))"
proof -
  let ?k = "idx div 2"
  have k: "2 * ?k < n" using assms(2) by linarith
  have n: "FAT_START + n div 2 * 3 \<le> fsize d" "even n" using assms(1) by (simp_all add: fat_written_def)
  show ?thesis
  proof (cases "odd idx")
    case True
    then have i: "idx = 2 * ?k + 1" by simp
    have k1: "2 * (?k + 1) < n" using i assms(2) by presburger
    have s: "FAT_START + (idx + idx div 2) = FAT_START + 3 * ?k + 1" using i by presburger
    have fits: "FAT_START + (idx + idx div 2) + 3 \<le> fsize d" using n k1 s by auto
    have "unat (fbyte d (FAT_START + 3 * ?k + 2)) = f (2 * ?k + 1) div 16"
      "unat (fbyte d (FAT_START + 3 * (?k + 1) + 0)) = f (2 * (?k + 1)) mod 256"
      using fat_pair(3) [OF assms(1) k] fat_pair(1) [OF assms(1) k1] by simp_all
    moreover have "FAT_START + 3 * ?k + 1 + 1 = FAT_START + 3 * ?k + 2"
      "FAT_START + 3 * ?k + 1 + 2 = FAT_START + 3 * (?k + 1) + 0" by simp_all
    moreover have "f (2 * ?k + 1) div 16 div 16 = f (2 * ?k + 1) div 256" by (simp add: div_mult2_eq [symmetric])
    moreover have "2 * (?k + 1) = idx + 1" "2 * ?k + 1 = idx" using i by presburger+
    ultimately show ?thesis
      unfolding getFat12_new_eq [OF fits refl] s using True by (simp only: if_True not_False_eq_True)
  next
    case False
    then have i: "idx = 2 * ?k" by simp
    have s: "FAT_START + (idx + idx div 2) = FAT_START + 3 * ?k" using i by presburger
    have "FAT_START + idx div 2 * 3 + 3 \<le> fsize d" using fat_fits(1) [OF assms(1), of idx] assms(2) by simp
    then have fits: "FAT_START + (idx + idx div 2) + 3 \<le> fsize d" using s by simp
    have f: "f idx < 4096" using fat_fits(2) [OF assms(1), of idx] assms(2) by simp
    have "f idx mod 256 + 256 * ((f idx div 256 + 16 * (f (idx + 1) mod 16)) mod 16) = f idx"
      using f div_mult_mod_eq [of "f idx" 256] by (simp add: less_mult_imp_div_less)
    then show ?thesis
      using False i fat_pair(1,2) [OF assms(1) k] unfolding getFat12_new_eq [OF fits refl] s by simp
  qed
qed

subsection \<open>Names\<close>

definition char_byte :: "char \<Rightarrow> byte" where
  "char_byte c = word_of_nat (of_char c)"

text \<open>A name of up to eight characters and an extension of up to three, filled up with blanks.\<close>

definition blank_fill :: "nat \<Rightarrow> string \<Rightarrow> byte list" where
  "blank_fill n s = map char_byte (s @ replicate (n - length s) CHR '' '')"

definition short_name :: "nat \<Rightarrow> string \<Rightarrow> bool" where
  "short_name n s \<longleftrightarrow> length s \<le> n \<and> NUL \<notin> set s \<and> (s \<noteq> [] \<longrightarrow> last s \<noteq> CHR '' '')"

lemma byte_char_byte [simp]: "byte_char (char_byte c) = c"
proof -
  have "(of_char c :: nat) < 256" by (rule nat_of_char_less_256)
  then show ?thesis by (simp add: byte_char_def char_byte_def unat_of_nat)
qed

lemma byte_chars [simp]: "map byte_char (map char_byte s) = s"
  by (simp add: comp_def)

lemma trim_blanks_pad:
  "s \<noteq> [] \<longrightarrow> last s \<noteq> CHR '' '' \<Longrightarrow>
    trim_blanks (length s + k) (s @ replicate k CHR '' '' @ replicate m NUL) = s @ replicate (k + m) NUL"
proof (induction k arbitrary: m)
  case 0
  show ?case
  proof (cases s rule: rev_cases)
    case (snoc xs x)
    then show ?thesis using 0 by (simp add: nth_append)
  qed simp
next
  case (Suc k)
  let ?b = "s @ replicate (Suc k) CHR '' '' @ replicate m NUL"
  have b: "?b = (s @ replicate k CHR '' '') @ CHR '' '' # replicate m NUL"
    by (simp add: replicate_app_Cons_same)
  have "?b ! (length s + k) = CHR '' ''"
    unfolding b using nth_append_length [of "s @ replicate k CHR '' ''" "CHR '' ''" "replicate m NUL"] by simp
  moreover have "?b[length s + k := NUL] = s @ replicate k CHR '' '' @ replicate (Suc m) NUL"
    unfolding b using list_update_length [of "s @ replicate k CHR '' ''" "CHR '' ''" "replicate m NUL" NUL] by simp
  ultimately show ?case using Suc.IH [of "Suc m"] Suc.prems by (simp add: replicate_app_Cons_same del: replicate_Suc)
qed

text \<open>The buffer of a name after the copy and the loop.\<close>

lemma trimmed_field:
  assumes "short_name n s"
  shows "trim_blanks n (strncpy (replicate (Suc n) NUL) (map byte_char (blank_fill n s)) n) = s @ replicate (Suc n - length s) NUL"
proof -
  let ?p = "s @ replicate (n - length s) CHR '' ''"
  have l: "length ?p = n" "NUL \<notin> set ?p" using assms by (auto simp: short_name_def)
  have "drop n (replicate (Suc n) NUL) = replicate 1 NUL" by (simp only: drop_replicate) simp
  then have "strncpy (replicate (Suc n) NUL) ?p n = ?p @ replicate 1 NUL"
    using l by (simp add: strncpy_def cstr_id del: replicate_Suc)
  moreover have "trim_blanks n (?p @ replicate 1 NUL) = s @ replicate (Suc n - length s) NUL"
    using trim_blanks_pad [of s "n - length s" 1] assms by (simp add: short_name_def Suc_diff_le)
  ultimately show ?thesis by (simp add: blank_fill_def comp_def)
qed

lemma fullName_stored:
  assumes "short_name 8 stem" "short_name 3 ext"
  shows "fullName (blank_fill 8 stem @ blank_fill 3 ext @ attributes) = (if ext = [] then stem else stem @ ''.'' @ ext)"
proof -
  let ?e = "blank_fill 8 stem @ blank_fill 3 ext @ attributes"
  have l: "length (blank_fill 8 stem) = 8" "length (blank_fill 3 ext) = 3"
    using assms by (simp_all add: blank_fill_def short_name_def)
  then have f: "take 8 ?e = blank_fill 8 stem" "take 3 (drop 8 ?e) = blank_fill 3 ext" by simp_all
  have nine: "replicate 9 NUL = replicate (Suc 8) NUL" "replicate 4 NUL = replicate (Suc 3) NUL" by simp_all
  have c: "cstr (stem @ replicate (Suc 8 - length stem) NUL) = stem" "cstr (ext @ replicate (Suc 3 - length ext) NUL) = ext"
    using assms cstr_snoc_replicate [of stem "Suc 8 - length stem" "[]"] cstr_snoc_replicate [of ext "Suc 3 - length ext" "[]"]
    by (simp_all add: short_name_def)
  have x: "(ext @ replicate (Suc 3 - length ext) NUL) ! 0 \<noteq> NUL \<longleftrightarrow> ext \<noteq> []"
    using assms(2) by (cases ext) (auto simp: short_name_def)
  show ?thesis
    unfolding fullName_def Let_def f nine trimmed_field [OF assms(1)] trimmed_field [OF assms(2)] c x
    using assms by (auto simp: short_name_def)
qed

text \<open>
  The name printed is the name stored: the stem without its filling blanks, and when there is
  an extension a dot and the extension. It always fits the 13 characters of \<open>fullName\<close>.
\<close>
theorem fullName_correct:
  assumes "short_name 8 stem" "short_name 3 ext"
  shows "fullName (blank_fill 8 stem @ blank_fill 3 ext @ attributes) = (if ext = [] then stem else stem @ ''.'' @ ext)"
  by (rule fullName_stored [OF assms])

theorem fullName_correct_witness:
  "fullName (blank_fill 8 ''HELLO'' @ blank_fill 3 ''C'' @ [0x20]) = ''HELLO.C''"
  using fullName_correct [of "''HELLO''" "''C''" "[0x20]"] by (simp add: short_name_def)

subsection \<open>What the programs print\<close>

lemma out_text_Out: "out_text (map Out ls) = concat ls" "err_text (map Out ls) = []"
  by (induction ls) simp_all

text \<open>
  C16: When the image holds a tree, its root directory in the root sectors and every other
  directory along a chain of the FAT that ends, \<open>floppyDir\<close> returns, with success, and has
  printed exactly the tree: every file and directory once, in the order of the entries, each
  directory's content after its line and four blanks further in.
\<close>
theorem floppyDir_lists_tree:
  assumes "fopen path = Some d" "holds_dir (floppyDir_reader d) root_slots ts"
  shows "floppyDir_main fopen [path] = Some (exits (concat (dir_lines 0 ts)) [] EXIT_SUCCESS)"
proof -
  have "reportDirectory d 0 (-12) = Some (map Out (dir_lines 0 ts), False)"
    using walk_lists_root [OF assms(2)] by (simp add: reportDirectory_def)
  then show ?thesis using assms(1) by (simp add: floppyDir_main_def finish_walk_def out_text_Out)
qed

text \<open>
  A directory whose first entry leads back to itself makes both programs descend for ever:
  \<open>reportDirectory\<close> on it never returns.
\<close>
theorem cyclic_directory_hangs:
  assumes "c < EOC_MARKER_START" "2 \<le> c" "c \<noteq> BAD_SECTOR"
    and "fread d (DATA_START + (c - 2) * SSIZE) DSIZE = Some e" "e ! 0 \<noteq> 0" "\<not> skipped e" "isDir e" "startCluster e = c"
  shows "reportDirectory d depth (int c) = None \<and> reportDirectory_new d depth (int c) = None"
  using walk_cycle [of c "floppyDir_reader d" e depth] walk_cycle [of c "floppyDirNew_reader d" e depth] assms
  by (simp add: reportDirectory_def reportDirectory_new_def report_subdirectory_new_def floppyDir_reader_def floppyDirNew_reader_def)

subsection \<open>Examples\<close>

fun patch :: "(nat \<times> byte list) list \<Rightarrow> nat \<Rightarrow> byte" where
  "patch [] i = 0"
| "patch ((s, bs) # ps) i = (if s \<le> i \<and> i < s + length bs then bs ! (i - s) else patch ps i)"

definition patched :: "(nat \<times> byte list) list \<Rightarrow> disk" where
  "patched ps = \<lparr>fsize = 32768, fbyte = patch ps\<rparr>"

definition new_entry :: "string \<Rightarrow> string \<Rightarrow> byte \<Rightarrow> byte \<Rightarrow> byte \<Rightarrow> byte list" where
  "new_entry stem ext attr start sz =
     blank_fill 8 stem @ blank_fill 3 ext @ attr # replicate 14 0 @ [start, 0, sz, 0, 0, 0]"

definition demo_disk :: disk where
  "demo_disk = patched [(9728, new_entry ''SUB'' [] 0x10 2 0), (16896, new_entry ''A'' ''TXT'' 0 3 5), (515, [0xFF, 0x0F, 0])]"

lemma fread_entry:
  assumes "pos + 32 \<le> fsize d" "length bs = 32" "\<And>k. k < 32 \<Longrightarrow> fbyte d (pos + k) = bs ! k"
  shows "fread d pos DSIZE = Some bs"
  using assms by (auto simp: fread_Some DSIZE_def intro!: nth_equalityI)

lemma length_new_entry: "length stem \<le> 8 \<Longrightarrow> length ext \<le> 3 \<Longrightarrow> length (new_entry stem ext attr start sz) = 32"
  by (simp add: new_entry_def blank_fill_def)

lemma demo_freads:
  "fread demo_disk 9728 DSIZE = Some (new_entry ''SUB'' [] 0x10 2 0)"
  "fread demo_disk 16896 DSIZE = Some (new_entry ''A'' ''TXT'' 0 3 5)"
  by (rule fread_entry; simp add: demo_disk_def patched_def length_new_entry)+

lemma new_entry_facts:
  "startCluster (new_entry ''SUB'' [] 0x10 2 0) = 2" "isDir (new_entry ''SUB'' [] 0x10 2 0)" "\<not> skipped (new_entry ''SUB'' [] 0x10 2 0)"
  "\<not> isDir (new_entry ''A'' ''TXT'' 0 3 5)" "\<not> skipped (new_entry ''A'' ''TXT'' 0 3 5)" "entry_size (new_entry ''A'' ''TXT'' 0 3 5) = 5"
  "new_entry ''SUB'' [] 0x10 2 0 ! 0 \<noteq> 0" "new_entry ''A'' ''TXT'' 0 3 5 ! 0 \<noteq> 0"
  "fullName (new_entry ''SUB'' [] 0x10 2 0) = ''SUB''" "fullName (new_entry ''A'' ''TXT'' 0 3 5) = ''A.TXT''"
  by code_simp+

lemma demo_fat: "getFat12 demo_disk 2 = ([], Some 4095)"
proof -
  have "FAT_START + 2 div 2 * 3 + 3 \<le> fsize demo_disk" by (simp add: demo_disk_def patched_def FAT_START_def)
  then show ?thesis
    by (subst getFat12_eq [OF _ refl]) (simp_all add: demo_disk_def patched_def FAT_START_def)
qed

lemma demo_slots:
  "\<exists>r. root_slots = 9728 # 9760 # r" "\<exists>r. chain_slots [2] = 16896 # 16928 # r"
proof -
  have s: "slots start 16 = start # (start + 32) # slots (start + 64) 14" for start
    using slots_Suc [of start 15] slots_Suc [of "start + 32" 14] by (simp add: DSIZE_def add.commute)
  have z: "SSIZE div DSIZE = 16" by (simp add: disk_layout)
  have "root_slots = slots BYTE_OFFSET 16 @ concat (map (\<lambda>n. slots (BYTE_OFFSET + n * SSIZE) 16) [1..<SECTORS])"
    by (simp add: root_slots_def z SECTORS_def upt_rec [of 0])
  then show "\<exists>r. root_slots = 9728 # 9760 # r" by (simp add: s BYTE_OFFSET_def SSIZE_def) blast
  show "\<exists>r. chain_slots [2] = 16896 # 16928 # r" by (simp add: chain_slots_def z s disk_layout)
qed

lemma demo_holds: "holds_dir (floppyDir_reader demo_disk) root_slots [Dir ''SUB'' [File ''A.TXT'' 5]]"
proof -
  let ?R = "floppyDir_reader demo_disk"
  have i: "image ?R = demo_disk" "fat ?R = getFat12 demo_disk" by (simp_all add: floppyDir_reader_def)
  have zero: "\<exists>e. fread demo_disk s DSIZE = Some e \<and> e ! 0 = 0" if "s = 9760 \<or> s = 16928" for s
    using that by (auto simp: fread_def demo_disk_def patched_def length_new_entry DSIZE_def)
  have ends: "holds_dir ?R (s # r) []" if "s = 9760 \<or> s = 16928" for s r
    using zero [OF that] holds_dir.end_mark [of ?R s] i by auto
  have "fat_chain (fat ?R) 2 [2]"
    using fat_chain.link [of 2 "fat ?R" 4095 "[]"] fat_chain.last [of 4095 "fat ?R"] i demo_fat by (simp add: disk_layout)
  moreover obtain r where "chain_slots [2] = 16896 # 16928 # r" using demo_slots(2) by blast
  then have "holds_dir ?R (chain_slots [2]) [File ''A.TXT'' 5]"
    using holds_dir.a_file [of ?R 16896 _ "16928 # r" "[]"] ends i demo_freads new_entry_facts by simp
  moreover obtain r' where "root_slots = 9728 # 9760 # r'" using demo_slots(1) by blast
  ultimately show ?thesis
    using holds_dir.a_dir [of ?R 9728 _ "[2]" "[File ''A.TXT'' 5]" "9760 # r'" "[]"] ends i demo_freads new_entry_facts by simp
qed

theorem floppyDir_lists_tree_witness:
  "floppyDir_main (\<lambda>_. Some demo_disk) [''disk'']
     = Some (exits (''SUB                 DIR'' @ NL @ ''    A.TXT                 5'' @ NL) [] EXIT_SUCCESS)"
proof -
  have "concat (dir_lines 0 [Dir ''SUB'' [File ''A.TXT'' 5]]) = ''SUB                 DIR'' @ NL @ ''    A.TXT                 5'' @ NL"
    by code_simp
  then show ?thesis
    using floppyDir_lists_tree [of "\<lambda>_. Some demo_disk" "''disk''" demo_disk, OF refl demo_holds] by (simp only:)
qed

definition looped_disk :: disk where
  "looped_disk = patched [(16896, new_entry ''SUB'' [] 0x10 2 0)]"

theorem cyclic_directory_hangs_witness: "reportDirectory looped_disk 0 2 = None"
proof -
  have "fread looped_disk 16896 DSIZE = Some (new_entry ''SUB'' [] 0x10 2 0)"
    by (rule fread_entry; simp add: looped_disk_def patched_def length_new_entry)
  then show ?thesis
    using cyclic_directory_hangs [of 2 looped_disk "new_entry ''SUB'' [] 0x10 2 0" 0] new_entry_facts
    by (simp add: disk_layout)
qed

text \<open>A FAT written in the layout.\<close>

definition fat_disk :: "(nat \<Rightarrow> nat) \<Rightarrow> nat \<Rightarrow> disk" where
  "fat_disk f n = \<lparr>fsize = FAT_START + n div 2 * 3, fbyte = (\<lambda>i. word_of_nat (fat_byte f (i - FAT_START)))\<rparr>"

lemma fat_disk_written:
  assumes "even n" "\<And>idx. f idx < 4096"
  shows "fat_written (fat_disk f n) f n"
proof -
  have "fat_byte f j < 256" for j
  proof -
    have "f (2 * (j div 3)) div 256 < 16" "f (2 * (j div 3) + 1) div 16 < 256"
      using assms(2) [of "2 * (j div 3)"] assms(2) [of "2 * (j div 3) + 1"] by (simp_all add: less_mult_imp_div_less)
    moreover have "f (2 * (j div 3) + 1) mod 16 < 16" by simp
    then have "f (2 * (j div 3) + 1) mod 16 \<le> 15" by linarith
    ultimately show ?thesis by (auto simp: fat_byte_def Let_def)
  qed
  then show ?thesis using assms by (simp add: fat_written_def fat_disk_def unat_of_nat)
qed

theorem getFat12_reads_witness: "getFat12 (fat_disk (\<lambda>i. i mod 4096 div 2 + 7) 8) 3 = ([], Some 8)"
  using getFat12_reads [of "fat_disk (\<lambda>i. i mod 4096 div 2 + 7) 8" _ 8 3, OF fat_disk_written]
  by (auto simp: less_mult_imp_div_less)

theorem getFat12_new_reads_witness: "getFat12_new (fat_disk (\<lambda>i. i mod 4096 div 2 + 7) 8) 3 = ([], Some 144)"
  using getFat12_new_reads [of "fat_disk (\<lambda>i. i mod 4096 div 2 + 7) 8" _ 8 3, OF fat_disk_written]
  by (auto simp: less_mult_imp_div_less)

end
