(* ===== verification/Node_Paths.thy ===== *)
theory Node_Paths
  imports Prelude
begin

text \<open>
  Linked nodes in a memory that gives every address its \<open>next\<close> pointer, NULL being 0. A path is
  the nodes met from one pointer until another: a list is a path to NULL.
\<close>

fun path :: "(nat \<Rightarrow> nat) \<Rightarrow> nat \<Rightarrow> nat list \<Rightarrow> nat \<Rightarrow> bool" where
  "path nxt a [] b \<longleftrightarrow> a = b"
| "path nxt a (n # ns) b \<longleftrightarrow> a = n \<and> n \<noteq> 0 \<and> path nxt (nxt n) ns b"

lemma path_append [simp]: "path nxt a (xs @ ys) b \<longleftrightarrow> (\<exists>c. path nxt a xs c \<and> path nxt c ys b)"
  by (induction xs arbitrary: a) auto

lemma path_cong: "(\<And>x. x \<in> set ns \<Longrightarrow> nxt' x = nxt x) \<Longrightarrow> path nxt' a ns b = path nxt a ns b"
  by (induction ns arbitrary: a) auto

lemma path_not_NULL: "path nxt a ns b \<Longrightarrow> 0 \<notin> set ns"
  by (induction ns arbitrary: a) auto

lemma path_upd [simp]: "n \<notin> set ns \<Longrightarrow> path (nxt(n := v)) a ns b = path nxt a ns b"
  by (rule path_cong) auto

lemma path_frame: "path nxt a ns b \<Longrightarrow> \<forall>x\<in>set ns. nxt' x = nxt x \<Longrightarrow> path nxt' a ns b"
  using path_cong [of ns nxt' nxt a b] by blast

text \<open>A path to the last node, whose pointer is changed.\<close>

lemma path_relast:
  assumes "path nxt a ns 0" "distinct ns" "ns \<noteq> []"
  shows "path (nxt(last ns := c)) a ns c"
proof (cases ns rule: rev_cases)
  case (snoc xs x)
  then show ?thesis using assms by auto
qed (use assms in simp)

text \<open>A node set at the end of a path continues it; the first node of a path is where it starts.\<close>

lemma path_snoc: "path nxt a ns c \<Longrightarrow> c \<noteq> 0 \<Longrightarrow> c \<notin> set ns \<Longrightarrow> path (nxt(c := b)) a (ns @ [c]) b"
  by simp

lemma path_hd: "path nxt a ns 0 \<Longrightarrow> ns \<noteq> [] \<Longrightarrow> a = hd ns \<and> a \<noteq> 0"
  by (cases ns) auto

end
