(* ===== verification/Sorts.thy ===== *)
theory Sorts
  imports Exchange_Sort Node_Paths
begin

text \<open>
  The sorting exercises: quicksort on an array, \<open>exercises/ex15/array.c\<close>, and on a linked list,
  \<open>exercises/ex15/linked.c\<close>.

  An access outside the array is the result \<open>None\<close>. A linked list is a memory: \<open>val\<close> and
  \<open>next\<close> of every node, by address, NULL being 0; that a loop over it ends is proved.
  \<open>rand\<close> and \<open>malloc\<close> are inputs: the values drawn and the addresses given.

  Proved: both quicksorts return and sort, the one on nodes is stable and relinks exactly the
  nodes of its list; the two programs print the same.
\<close>

subsection \<open>Quicksort on an array\<close>

text \<open>
  The body of the partition loop, on the part of the array that starts at \<open>base\<close>: \<open>lower\<close> is the
  index of the last value less than the pivot.
\<close>

definition part_step :: "nat \<Rightarrow> int \<Rightarrow> nat \<Rightarrow> (nat \<times> int list) option \<Rightarrow> (nat \<times> int list) option" where
  "part_step base pivot i st = Option.bind st (\<lambda>(lower, seq).
     if \<not> base + i < length seq then None
     else if seq ! (base + i) < pivot then
       (if base + lower + 1 < length seq
        then let temp = seq ! (base + lower + 1)
             in Some (lower + 1, seq[base + lower + 1 := seq ! (base + i), base + i := temp])
        else None)
     else Some (lower, seq))"

definition array_partition :: "int list \<Rightarrow> nat \<Rightarrow> nat \<Rightarrow> (nat \<times> int list) option" where
  "array_partition seq base n =
     (if \<not> base < length seq then None
      else let pivot = seq ! base in
        Option.bind (fold (part_step base pivot) [1..<n] (Some (0, seq))) (\<lambda>(lower, seq1).
          if base + lower < length seq1
          then Some (lower, seq1[base := seq1 ! (base + lower), base + lower := pivot]) else None))"

lemma part_step_lower:
  "fold (part_step base pivot) js (Some (lower, seq)) = Some (lower', seq') \<Longrightarrow> lower' \<le> lower + length js"
proof (induction "js" arbitrary: lower seq)
  case (Cons i js)
  have n: "fold (part_step base pivot) js None = None" for "js"
    by (induction "js") (simp_all add: part_step_def)
  obtain l1 s1 where s: "part_step base pivot i (Some (lower, seq)) = Some (l1, s1)"
    using Cons.prems n by (cases "part_step base pivot i (Some (lower, seq))") auto
  then have "l1 \<le> lower + 1" by (auto simp: part_step_def Let_def split: if_splits)
  moreover have "lower' \<le> l1 + length js" using Cons s by simp
  ultimately show ?case by simp
qed simp

lemma array_partition_lower:
  assumes "array_partition seq base n = Some (lower, seq')" "1 < n"
  shows "lower < n"
proof -
  obtain seq1 where "fold (part_step base (seq ! base)) [1..<n] (Some (0, seq)) = Some (lower, seq1)"
    using assms(1) by (auto simp: array_partition_def bind_eq_Some_conv Let_def split: if_splits)
  then show ?thesis using part_step_lower assms(2) by fastforce
qed

function sort_array :: "int list \<Rightarrow> nat \<Rightarrow> nat \<Rightarrow> int list option" where
  "sort_array seq base n =
     (if n \<le> 1 then Some seq
      else case array_partition seq base n of
        None \<Rightarrow> None
      | Some (lower, seq1) \<Rightarrow>
          (case sort_array seq1 base lower of
             None \<Rightarrow> None
           | Some seq2 \<Rightarrow> sort_array seq2 (base + lower + 1) (n - lower - 1)))"
  by pat_completeness auto
termination
  by (relation "measure (\<lambda>(seq, base, n). n)") (auto dest: array_partition_lower)

declare sort_array.simps [simp del]

text \<open>The loop: less than the pivot, not less, still to come.\<close>

lemma swap_in_list:
  "(A @ g # B @ x # R)[length A := x, length A + 1 + length B := g] = A @ x # B @ g # R"
  by (simp add: list_update_append)

lemma part_loop:
  assumes "i = 1 + length ls + length gs" "\<forall>x\<in>set ls. x < p" "\<forall>x\<in>set gs. p \<le> x"
  shows "\<exists>ls' gs'. fold (part_step (length pre) p) [i..<i + length todo] (Some (length ls, pre @ p # ls @ gs @ todo @ post))
      = Some (length ls', pre @ p # ls' @ gs' @ post)
    \<and> (\<forall>x\<in>set ls'. x < p) \<and> (\<forall>x\<in>set gs'. p \<le> x) \<and> mset (ls' @ gs') = mset (ls @ gs @ todo)"
  using assms
proof (induction todo arbitrary: i ls gs)
  case Nil
  then show ?case by auto
next
  case (Cons x todo)
  let ?seq = "pre @ p # ls @ gs @ (x # todo) @ post"
  have at: "?seq ! (length pre + i) = x" "length pre + i < length ?seq"
    using nth_append_length [of "pre @ p # ls @ gs" x "todo @ post"] Cons.prems(1) by (simp_all add: ac_simps)
  have up: "[i..<i + length (x # todo)] = i # [i + 1..<i + 1 + length todo]"
    by (subst upt_conv_Cons) simp_all
  show ?case
  proof (cases "x < p")
    case False
    then have "part_step (length pre) p i (Some (length ls, ?seq)) = Some (length ls, pre @ p # ls @ (gs @ [x]) @ todo @ post)"
      using at by (simp add: part_step_def)
    then show ?thesis
      using Cons.IH [of "i + 1" ls "gs @ [x]"] Cons.prems False unfolding up by (auto simp: not_less ac_simps)
  next
    case True
    define gs1 where "gs1 = (case gs of [] \<Rightarrow> [] | g # gs' \<Rightarrow> gs' @ [g])"
    have gs1: "length gs1 = length gs" "set gs1 = set gs" "mset gs1 = mset gs"
      by (cases gs; simp add: gs1_def)+
    have "part_step (length pre) p i (Some (length ls, ?seq)) = Some (length (ls @ [x]), pre @ p # (ls @ [x]) @ gs1 @ todo @ post)"
    proof (cases gs)
      case Nil
      then have "i = 1 + length ls" "gs1 = []" using Cons.prems(1) by (simp_all add: gs1_def)
      then show ?thesis using at True Nil list_update_id [of ?seq "length pre + i"] by (simp add: part_step_def Let_def)
    next
      case (Cons g gs')
      have s: "?seq = (pre @ p # ls) @ g # gs' @ x # todo @ post" using Cons by simp
      have i: "length pre + i = length (pre @ p # ls) + 1 + length gs'" "length pre + length ls + 1 = length (pre @ p # ls)"
        using Cons \<open>i = 1 + length ls + length gs\<close> by simp_all
      have g: "?seq ! (length pre + length ls + 1) = g"
        unfolding s i(2) by (rule nth_append_length)
      have "?seq[length pre + length ls + 1 := x, length pre + i := g] = (pre @ p # ls) @ x # gs' @ g # todo @ post"
        unfolding s i by (rule swap_in_list)
      then show ?thesis using at True g Cons by (simp add: part_step_def Let_def gs1_def)
    qed
    then show ?thesis
      using Cons.IH [of "i + 1" "ls @ [x]" gs1] Cons.prems True gs1 unfolding up by (auto simp: ac_simps)
  qed
qed

lemma array_partition_correct:
  assumes "seg \<noteq> []"
  shows "\<exists>ls gs. array_partition (pre @ seg @ post) (length pre) (length seg) = Some (length ls, pre @ ls @ hd seg # gs @ post)
    \<and> (\<forall>x\<in>set ls. x < hd seg) \<and> (\<forall>x\<in>set gs. hd seg \<le> x) \<and> mset (ls @ hd seg # gs) = mset seg"
proof -
  obtain p todo where s: "seg = p # todo" using assms by (cases seg) auto
  obtain ls gs where l: "fold (part_step (length pre) p) [1..<1 + length todo] (Some (0, pre @ p # todo @ post))
      = Some (length ls, pre @ p # ls @ gs @ post)" "\<forall>x\<in>set ls. x < p" "\<forall>x\<in>set gs. p \<le> x"
      "mset (ls @ gs) = mset todo"
    using part_loop [of 1 "[]" "[]" p pre todo post] by auto
  have "\<exists>ls'. (pre @ p # ls @ gs @ post)[length pre := (pre @ p # ls @ gs @ post) ! (length pre + length ls), length pre + length ls := p]
      = pre @ ls' @ p # gs @ post \<and> length ls' = length ls \<and> mset ls' = mset ls"
  proof (cases ls rule: rev_cases)
    case (snoc ls1 x)
    have "(pre @ p # ls @ gs @ post) ! (length pre + length ls) = x"
      using nth_append_length [of "pre @ p # ls1" x "gs @ post"] snoc by simp
    then have "(pre @ p # ls @ gs @ post)[length pre := (pre @ p # ls @ gs @ post) ! (length pre + length ls), length pre + length ls := p]
        = pre @ (x # ls1) @ p # gs @ post"
      using swap_in_list [of pre p ls1 x "gs @ post"] snoc by simp
    then show ?thesis using snoc by (intro exI [of _ "x # ls1"]) simp
  qed auto
  then obtain ls' where ls': "(pre @ p # ls @ gs @ post)[length pre := (pre @ p # ls @ gs @ post) ! (length pre + length ls), length pre + length ls := p]
      = pre @ ls' @ p # gs @ post" "length ls' = length ls" "mset ls' = mset ls" by blast
  have "array_partition (pre @ seg @ post) (length pre) (length seg) = Some (length ls', pre @ ls' @ p # gs @ post)"
    using l(1) ls' by (simp add: array_partition_def s)
  moreover have "set ls' = set ls" using ls'(3) by (rule mset_eq_setD)
  ultimately show ?thesis using l ls'(3) s by (intro exI [of _ ls'] exI [of _ gs]) auto
qed

text \<open>The sort, on a part of an array: that part sorted, the rest as it was.\<close>

lemma sort_array_correct:
  "sort_array (pre @ seg @ post) (length pre) (length seg) = Some (pre @ sort seg @ post)"
proof (induction "length seg" arbitrary: pre seg post rule: less_induct)
  case less
  show ?case
  proof (cases "length seg \<le> 1")
    case True
    then have "sort seg = seg" by (cases seg) auto
    then show ?thesis using True by (subst sort_array.simps) simp
  next
    case False
    then have "seg \<noteq> []" by auto
    then obtain ls gs where p: "array_partition (pre @ seg @ post) (length pre) (length seg) = Some (length ls, pre @ ls @ hd seg # gs @ post)"
        "\<forall>x\<in>set ls. x < hd seg" "\<forall>x\<in>set gs. hd seg \<le> x" "mset (ls @ hd seg # gs) = mset seg"
      using array_partition_correct by blast
    have len: "length seg = length ls + 1 + length gs"
      using mset_eq_length [OF p(4)] by simp
    have "sort seg = sort ls @ hd seg # sort gs"
    proof (rule properties_for_sort)
      show "mset (sort ls @ hd seg # sort gs) = mset seg" using p(4) by simp
      show "sorted (sort ls @ hd seg # sort gs)" using p(2,3) by (fastforce simp: sorted_append)
    qed
    moreover have "sort_array (pre @ ls @ hd seg # gs @ post) (length pre) (length ls) = Some (pre @ sort ls @ hd seg # gs @ post)"
      using less [of ls pre "hd seg # gs @ post"] len by simp
    moreover have "sort_array ((pre @ sort ls @ [hd seg]) @ gs @ post) (length (pre @ sort ls @ [hd seg])) (length gs)
        = Some ((pre @ sort ls @ [hd seg]) @ sort gs @ post)"
      using less [of gs "pre @ sort ls @ [hd seg]" post] len by simp
    ultimately show ?thesis
      using False p(1) len by (subst sort_array.simps) auto
  qed
qed

subsection \<open>Quicksort on a linked list\<close>

record node_list =
  head :: nat
  tail :: nat

abbreviation empty_list :: node_list where
  "empty_list \<equiv> \<lparr>head = 0, tail = 0\<rparr>"

text \<open>A node goes to the end of a list.\<close>

definition append_node :: "nat \<Rightarrow> (nat \<Rightarrow> nat) \<Rightarrow> node_list \<Rightarrow> (nat \<Rightarrow> nat) \<times> node_list" where
  "append_node c nxt l =
     (if tail l \<noteq> 0 then (nxt(tail l := c), l\<lparr>tail := c\<rparr>) else (nxt, l\<lparr>head := c, tail := c\<rparr>))"

partial_function (option) split_loop ::
    "(nat \<Rightarrow> int) \<Rightarrow> nat \<Rightarrow> (nat \<Rightarrow> nat) \<Rightarrow> node_list \<Rightarrow> node_list \<Rightarrow> nat \<Rightarrow> ((nat \<Rightarrow> nat) \<times> node_list \<times> node_list) option" where
  [code]: "split_loop val pivot nxt lesser grtr c =
     (if c = 0 then Some (nxt, lesser, grtr)
      else if val c < val pivot
      then split_loop val pivot (fst (append_node c (nxt(c := 0)) lesser)) (snd (append_node c (nxt(c := 0)) lesser)) grtr (nxt c)
      else split_loop val pivot (fst (append_node c (nxt(c := 0)) grtr)) lesser (snd (append_node c (nxt(c := 0)) grtr)) (nxt c))"

text \<open>Lesser, pivot, greater.\<close>

definition relink :: "nat \<Rightarrow> (nat \<Rightarrow> nat) \<Rightarrow> node_list \<Rightarrow> node_list \<Rightarrow> (nat \<Rightarrow> nat) \<times> node_list" where
  "relink pivot nxt lesser grtr =
     (let nxt1 = (if head lesser \<noteq> 0 then nxt(tail lesser := pivot) else nxt)
      in (nxt1(pivot := head grtr),
          \<lparr>head = (if head lesser \<noteq> 0 then head lesser else pivot),
           tail = (if tail grtr \<noteq> 0 then tail grtr else pivot)\<rparr>))"

partial_function (option) sort_list :: "(nat \<Rightarrow> int) \<Rightarrow> (nat \<Rightarrow> nat) \<Rightarrow> node_list \<Rightarrow> ((nat \<Rightarrow> nat) \<times> node_list) option" where
  [code]: "sort_list val nxt l =
     (if head l = 0 \<or> nxt (head l) = 0 then Some (nxt, l)
      else Option.bind (split_loop val (head l) nxt empty_list empty_list (nxt (head l))) (\<lambda>parts.
        Option.bind (sort_list val (fst parts) (fst (snd parts))) (\<lambda>lesser.
          Option.bind (sort_list val (fst lesser) (snd (snd parts))) (\<lambda>grtr.
            Some (relink (head l) (fst grtr) (snd lesser) (snd grtr))))))"

text \<open>The nodes of a list: a path of pointers from the head to NULL, and the tail at its end.\<close>

definition is_list :: "(nat \<Rightarrow> nat) \<Rightarrow> node_list \<Rightarrow> nat list \<Rightarrow> bool" where
  "is_list nxt l ns \<longleftrightarrow> path nxt (head l) ns 0 \<and> distinct ns \<and> tail l = (if ns = [] then 0 else last ns)"

lemma is_list_Nil: "is_list nxt l [] \<longleftrightarrow> head l = 0 \<and> tail l = 0"
  by (auto simp: is_list_def)

lemma is_list_cong: "(\<And>x. x \<in> set ns \<Longrightarrow> nxt' x = nxt x) \<Longrightarrow> is_list nxt' l ns = is_list nxt l ns"
  using path_cong [of ns nxt' nxt "head l" 0] by (simp add: is_list_def)

lemma is_list_upd [simp]: "n \<notin> set ns \<Longrightarrow> is_list (nxt(n := v)) l ns = is_list nxt l ns"
  by (rule is_list_cong) auto

lemma is_list_frame: "is_list nxt l ns \<Longrightarrow> \<forall>x\<in>set ns. nxt' x = nxt x \<Longrightarrow> is_list nxt' l ns"
  using is_list_cong [of ns nxt' nxt l] by blast

lemma append_node_is_list:
  assumes "is_list nxt l ns" "nxt c = 0" "c \<noteq> 0" "c \<notin> set ns" "append_node c nxt l = (nxt', l')"
  shows "is_list nxt' l' (ns @ [c]) \<and> (\<forall>x. x \<notin> set ns \<longrightarrow> nxt' x = nxt x)"
proof (cases "ns = []")
  case True
  then show ?thesis using assms by (auto simp: is_list_def append_node_def)
next
  case False
  then have m: "last ns \<in> set ns" by simp
  moreover have "0 \<notin> set ns" "tail l = last ns"
    using assms(1) False path_not_NULL [of nxt "head l" ns 0] by (simp_all add: is_list_def)
  ultimately have t: "tail l = last ns" "last ns \<noteq> 0" "last ns \<noteq> c" using assms(4) by metis+
  have "path (nxt(last ns := c)) (head l) ns c"
    using assms(1) False by (intro path_relast) (simp_all add: is_list_def)
  then show ?thesis
    using assms t False by (auto simp: is_list_def append_node_def)
qed

text \<open>The partition takes the nodes apart, in order, and changes no other node.\<close>

lemma split_loop_correct:
  assumes "is_list nxt l ls" "is_list nxt g gs" "path nxt c ns 0" "distinct (ls @ gs @ ns)"
  shows "\<exists>nxt' l' g'. split_loop val pivot nxt l g c = Some (nxt', l', g')
    \<and> is_list nxt' l' (ls @ filter (\<lambda>n. val n < val pivot) ns) \<and> is_list nxt' g' (gs @ filter (\<lambda>n. \<not> val n < val pivot) ns)
    \<and> (\<forall>x. x \<notin> set (ls @ gs @ ns) \<longrightarrow> nxt' x = nxt x)"
  using assms
proof (induction ns arbitrary: nxt l g c ls gs)
  case Nil
  then show ?case by (subst split_loop.simps) simp
next
  case (Cons n ns)
  have n: "c = n" "n \<noteq> 0" "path nxt (nxt n) ns 0" "n \<notin> set ls" "n \<notin> set gs" "n \<notin> set ns" "distinct (ls @ gs @ ns)"
    using Cons.prems by auto
  let ?nxt = "nxt(n := 0)"
  have l: "is_list ?nxt l ls" "is_list ?nxt g gs" "path ?nxt (nxt n) ns 0"
    using Cons.prems(1,2) n by simp_all
  show ?case
  proof (cases "val n < val pivot")
    case True
    obtain nxt1 l1 where a: "append_node n ?nxt l = (nxt1, l1)" by (cases "append_node n ?nxt l") auto
    have a1: "is_list nxt1 l1 (ls @ [n])" "\<forall>x. x \<notin> set ls \<longrightarrow> nxt1 x = ?nxt x"
      using append_node_is_list [OF l(1) _ n(2,4) a] by auto
    have b1: "is_list nxt1 g gs" "path nxt1 (nxt n) ns 0" "distinct ((ls @ [n]) @ gs @ ns)"
      using is_list_frame [OF l(2), of nxt1] path_frame [OF l(3), of nxt1] a1(2) Cons.prems(4) n(1) by auto
    obtain nxt' l' g' where "split_loop val pivot nxt1 l1 g (nxt n) = Some (nxt', l', g')"
        "is_list nxt' l' ((ls @ [n]) @ filter (\<lambda>n. val n < val pivot) ns)" "is_list nxt' g' (gs @ filter (\<lambda>n. \<not> val n < val pivot) ns)"
        "\<forall>x. x \<notin> set ((ls @ [n]) @ gs @ ns) \<longrightarrow> nxt' x = nxt1 x"
      using Cons.IH [OF a1(1) b1] by blast
    then show ?thesis
      using True n a a1 by (subst split_loop.simps) (auto simp: a)
  next
    case False
    obtain nxt1 g1 where a: "append_node n ?nxt g = (nxt1, g1)" by (cases "append_node n ?nxt g") auto
    have a1: "is_list nxt1 g1 (gs @ [n])" "\<forall>x. x \<notin> set gs \<longrightarrow> nxt1 x = ?nxt x"
      using append_node_is_list [OF l(2) _ n(2,5) a] by auto
    have b1: "is_list nxt1 l ls" "path nxt1 (nxt n) ns 0" "distinct (ls @ (gs @ [n]) @ ns)"
      using is_list_frame [OF l(1), of nxt1] path_frame [OF l(3), of nxt1] a1(2) Cons.prems(4) n(1) by auto
    obtain nxt' l' g' where "split_loop val pivot nxt1 l g1 (nxt n) = Some (nxt', l', g')"
        "is_list nxt' l' (ls @ filter (\<lambda>n. val n < val pivot) ns)" "is_list nxt' g' ((gs @ [n]) @ filter (\<lambda>n. \<not> val n < val pivot) ns)"
        "\<forall>x. x \<notin> set (ls @ (gs @ [n]) @ ns) \<longrightarrow> nxt' x = nxt1 x"
      using Cons.IH [OF b1(1) a1(1) b1(2,3)] by blast
    then show ?thesis
      using False n a a1 by (subst split_loop.simps) (auto simp: a)
  qed
qed

text \<open>Sorting the parts is sorting the whole, equal keys in their order.\<close>

lemma sort_key_parts:
  "sort_key f (p # xs) = sort_key f (filter (\<lambda>x. f x < f p) xs) @ p # sort_key f (filter (\<lambda>x. \<not> f x < f p) xs)"
  (is "_ = ?ys")
proof (rule properties_for_sort_key)
  show "mset ?ys = mset (p # xs)" using multiset_partition [of "mset xs" "\<lambda>x. f x < f p"] by simp
  show "sorted (map f ?ys)" by (fastforce simp: sorted_append)
  show "filter (\<lambda>x. f k = f x) ?ys = filter (\<lambda>x. f k = f x) (p # xs)" for k
  proof -
    have s: "filter (\<lambda>x. c = f x) (sort_key f zs) = filter (\<lambda>x. c = f x) zs" for c zs
      using sort_key_stable [of f c zs] by (simp add: eq_commute)
    show ?thesis
    proof (cases "f k < f p")
      case True
      then have "filter (\<lambda>x. f k = f x) (filter (\<lambda>x. \<not> f x < f p) xs) = []"
        "filter (\<lambda>x. f k = f x) (filter (\<lambda>x. f x < f p) xs) = filter (\<lambda>x. f k = f x) xs"
        by (auto simp: filter_empty_conv intro: filter_cong)
      then show ?thesis using less_imp_neq [OF True] by (simp add: s)
    next
      case False
      then have "filter (\<lambda>x. f k = f x) (filter (\<lambda>x. f x < f p) xs) = []"
        "filter (\<lambda>x. f k = f x) (filter (\<lambda>x. \<not> f x < f p) xs) = filter (\<lambda>x. f k = f x) xs"
        by (auto simp: filter_empty_conv intro: filter_cong)
      then show ?thesis using False by (cases "f k = f p") (simp_all add: s)
    qed
  qed
qed

text \<open>The two parts and the pivot become one list again.\<close>

lemma relink_is_list:
  assumes "is_list nxt lesser ls" "is_list nxt grtr gs" "distinct (ls @ p # gs)" "p \<noteq> 0" "relink p nxt lesser grtr = (nxt', l')"
  shows "is_list nxt' l' (ls @ p # gs) \<and> (\<forall>x. x \<notin> set (ls @ p # gs) \<longrightarrow> nxt' x = nxt x)"
proof -
  let ?nxt1 = "if head lesser \<noteq> 0 then nxt(tail lesser := p) else nxt"
  have "0 \<notin> set gs" using assms(2) path_not_NULL [of nxt "head grtr" gs 0] by (simp add: is_list_def)
  then have "gs \<noteq> [] \<longrightarrow> last gs \<noteq> 0" by (metis last_in_set)
  then have h: "head lesser \<noteq> 0 \<longleftrightarrow> ls \<noteq> []" "tail grtr \<noteq> 0 \<longleftrightarrow> gs \<noteq> []"
    using assms(1,2) by (cases ls; simp add: is_list_def)+
  have t: "gs \<noteq> [] \<longrightarrow> tail grtr = last gs" "ls \<noteq> [] \<longrightarrow> tail lesser = last ls \<and> last ls \<in> set ls"
    using assms(1,2) by (auto simp: is_list_def)
  have g: "path ?nxt1 (head grtr) gs 0"
  proof (cases "ls = []")
    case False
    then have "last ls \<notin> set gs" using assms(3) last_in_set [OF False] by (auto simp del: last_in_set)
    then show ?thesis using assms(2) t(2) False by (auto simp: is_list_def)
  qed (use assms(2) h(1) in \<open>simp add: is_list_def\<close>)
  have l: "path ?nxt1 (if ls \<noteq> [] then head lesser else p) ls p"
    using assms(1) h(1) t(2) path_relast [of nxt "head lesser" ls p] by (auto simp: is_list_def)
  have e: "nxt' = ?nxt1(p := head grtr)" "l' = \<lparr>head = (if ls \<noteq> [] then head lesser else p), tail = (if gs \<noteq> [] then last gs else p)\<rparr>"
    using assms(5) h t(1) by (auto simp: relink_def Let_def)
  have "p \<notin> set ls" "p \<notin> set gs" using assms(3) by auto
  then have "path nxt' (if ls \<noteq> [] then head lesser else p) (ls @ p # gs) 0"
    using l g assms(4) unfolding e by auto
  moreover have "\<forall>x. x \<notin> set (ls @ p # gs) \<longrightarrow> nxt' x = nxt x"
    using t(2) h(1) unfolding e by auto
  ultimately show ?thesis using assms(3) by (auto simp: is_list_def e)
qed

lemma sort_list_correct:
  assumes "is_list nxt l ns"
  shows "\<exists>nxt' l'. sort_list val nxt l = Some (nxt', l') \<and> is_list nxt' l' (sort_key val ns) \<and> (\<forall>x. x \<notin> set ns \<longrightarrow> nxt' x = nxt x)"
  using assms
proof (induction "length ns" arbitrary: ns nxt l rule: less_induct)
  case less
  show ?case
  proof (cases "head l = 0 \<or> nxt (head l) = 0")
    case True
    have "length ns \<le> 1"
    proof (rule ccontr)
      assume "\<not> length ns \<le> 1"
      then obtain a b xs where "ns = a # b # xs" by (cases ns; cases "tl ns") auto
      then show False using less.prems True by (auto simp: is_list_def)
    qed
    then have "sort_key val ns = ns" by (cases ns) auto
    then show ?thesis using True less.prems by (subst sort_list.simps) auto
  next
    case False
    then obtain p rest where ns: "ns = p # rest" using less.prems by (cases ns) (auto simp: is_list_def)
    let ?ls = "filter (\<lambda>n. val n < val p) rest" and ?gs = "filter (\<lambda>n. \<not> val n < val p) rest"
    have p: "head l = p" "p \<noteq> 0" "path nxt (nxt p) rest 0" "distinct rest" "p \<notin> set rest"
      using less.prems ns by (auto simp: is_list_def)
    obtain n1 l1 g1 where s1: "split_loop val p nxt empty_list empty_list (nxt p) = Some (n1, l1, g1)"
        "is_list n1 l1 ?ls" "is_list n1 g1 ?gs" "\<forall>x. x \<notin> set rest \<longrightarrow> n1 x = nxt x"
      using split_loop_correct [of nxt empty_list "[]" empty_list "[]" "nxt p" rest val p] p by (auto simp: is_list_Nil)
    have "length ?ls < length ns" "length ?gs < length ns"
      using ns by (simp_all add: le_imp_less_Suc)
    then obtain n2 l2 where s2: "sort_list val n1 l1 = Some (n2, l2)" "is_list n2 l2 (sort_key val ?ls)" "\<forall>x. x \<notin> set ?ls \<longrightarrow> n2 x = n1 x"
      using less.hyps [of ?ls n1 l1] s1(2) by auto
    have "is_list n2 g1 ?gs" using is_list_frame [OF s1(3), of n2] s2(3) by auto
    then obtain n3 g3 where s3: "sort_list val n2 g1 = Some (n3, g3)" "is_list n3 g3 (sort_key val ?gs)" "\<forall>x. x \<notin> set ?gs \<longrightarrow> n3 x = n2 x"
      using less.hyps [of ?gs n2 g1] \<open>length ?gs < length ns\<close> by auto
    have l2: "is_list n3 l2 (sort_key val ?ls)" using is_list_frame [OF s2(2), of n3] s3(3) by auto
    obtain n4 l4 where r: "relink p n3 l2 g3 = (n4, l4)" by (cases "relink p n3 l2 g3") auto
    have d: "distinct (sort_key val ?ls @ p # sort_key val ?gs)" using p(4,5) by auto
    have "is_list n4 l4 (sort_key val ns)" "\<forall>x. x \<notin> set ns \<longrightarrow> n4 x = n3 x"
      using relink_is_list [OF l2 s3(2) d p(2) r] sort_key_parts [of val p rest] ns by auto
    moreover have "\<forall>x. x \<notin> set ns \<longrightarrow> n3 x = nxt x" using s1(4) s2(3) s3(3) ns by auto
    moreover have "sort_list val nxt l = Some (n4, l4)"
      using False s1(1) s2(1) s3(1) r p(1) by (subst sort_list.simps) simp
    ultimately show ?thesis by auto
  qed
qed

subsection \<open>The two programs\<close>

text \<open>The number of values: \<open>None\<close> is the usage message.\<close>

definition parse_n :: "string list \<Rightarrow> nat option" where
  "parse_n args = (case args of
       [] \<Rightarrow> Some 10
     | [a] \<Rightarrow> (case sscanf_d a of None \<Rightarrow> None | Some n \<Rightarrow> if n < 0 then None else Some (nat n))
     | _ \<Rightarrow> None)"

definition usage :: outcome where
  "usage = exits [] (''usage: array <n>'' @ NL) EXIT_FAILURE"

definition array_main :: "(nat \<Rightarrow> int) \<Rightarrow> string list \<Rightarrow> outcome option" where
  "array_main rand args = (case parse_n args of
       None \<Rightarrow> Some usage
     | Some n \<Rightarrow> map_option (\<lambda>seq. exits (concat (map (\<lambda>v. show_int v @ NL) seq)) [] 0)
         (sort_array (map rand [0..<n]) 0 n))"

fun build_list :: "(nat \<Rightarrow> nat) \<Rightarrow> (nat \<Rightarrow> int) \<Rightarrow> nat \<Rightarrow> (nat \<Rightarrow> int) \<times> (nat \<Rightarrow> nat) \<times> node_list" where
  "build_list addr rand 0 = (\<lambda>_. 0, \<lambda>_. 0, empty_list)"
| "build_list addr rand (Suc i) =
     (let (val, nxt, l) = build_list addr rand i; (nxt', l') = append_node (addr i) (nxt(addr i := 0)) l
      in (val(addr i := rand i), nxt', l'))"

partial_function (option) print_nodes :: "(nat \<Rightarrow> int) \<Rightarrow> (nat \<Rightarrow> nat) \<Rightarrow> nat \<Rightarrow> string option" where
  [code]: "print_nodes val nxt n = (if n = 0 then Some []
     else Option.bind (print_nodes val nxt (nxt n)) (\<lambda>r. Some (show_int (val n) @ NL @ r)))"

partial_function (option) free_nodes :: "(nat \<Rightarrow> nat) \<Rightarrow> nat \<Rightarrow> nat list option" where
  [code]: "free_nodes nxt n = (if n = 0 then Some [] else Option.bind (free_nodes nxt (nxt n)) (\<lambda>r. Some (n # r)))"

text \<open>What it prints, and the nodes it frees.\<close>

definition linked_main :: "(nat \<Rightarrow> nat) \<Rightarrow> (nat \<Rightarrow> int) \<Rightarrow> string list \<Rightarrow> (outcome \<times> nat list) option" where
  "linked_main addr rand args = (case parse_n args of
       None \<Rightarrow> Some (usage, [])
     | Some n \<Rightarrow> (case build_list addr rand n of (val, nxt, l) \<Rightarrow>
         Option.bind (sort_list val nxt l) (\<lambda>(nxt', l').
           Option.bind (print_nodes val nxt' (head l')) (\<lambda>out.
             Option.bind (free_nodes nxt' (head l')) (\<lambda>freed. Some (exits out [] 0, freed))))))"

lemma build_list_correct:
  assumes "inj addr" "\<forall>i. addr i \<noteq> 0" "build_list addr rand n = (val, nxt, l)"
  shows "is_list nxt l (map addr [0..<n]) \<and> map val (map addr [0..<n]) = map rand [0..<n]"
  using assms(3)
proof (induction n arbitrary: val nxt l)
  case 0
  then show ?case by (auto simp: is_list_Nil)
next
  case (Suc n)
  obtain val0 nxt0 l0 where b: "build_list addr rand n = (val0, nxt0, l0)" by (cases "build_list addr rand n") auto
  have IH: "is_list nxt0 l0 (map addr [0..<n])" "map val0 (map addr [0..<n]) = map rand [0..<n]" using Suc.IH [OF b] by auto
  have new: "addr n \<notin> set (map addr [0..<n])" using inj_eq [OF assms(1)] by auto
  obtain nxt1 l1 where a: "append_node (addr n) (nxt0(addr n := 0)) l0 = (nxt1, l1)" by (cases "append_node (addr n) (nxt0(addr n := 0)) l0") auto
  have "is_list (nxt0(addr n := 0)) l0 (map addr [0..<n])" using IH(1) new by simp
  from append_node_is_list [OF this _ _ new a] assms(2) have "is_list nxt1 l1 (map addr [0..<n] @ [addr n])" by auto
  moreover have "nxt = nxt1" "l = l1" "val = val0(addr n := rand n)" using Suc.prems b a by auto
  moreover have "map (val0(addr n := rand n)) (map addr [0..<n]) = map rand [0..<n]"
    by (simp only: map_fun_upd [OF new] IH(2))
  ultimately show ?case by (simp del: map_map fun_upd_apply add: fun_upd_same)
qed

lemma nodes_visited:
  assumes "path nxt n ns 0"
  shows "print_nodes val nxt n = Some (concat (map (\<lambda>v. show_int v @ NL) (map val ns)))" "free_nodes nxt n = Some ns"
  using assms
proof (induction ns arbitrary: n)
  case Nil
  { case 1 then show ?case using Nil by (subst print_nodes.simps) simp }
  { case 2 then show ?case using Nil by (subst free_nodes.simps) simp }
next
  case (Cons a ns)
  { case 1 then show ?case using Cons by (subst print_nodes.simps) simp }
  { case 2 then show ?case using Cons by (subst free_nodes.simps) simp }
qed

lemma map_sort_key: "map f (sort_key f xs) = sort (map f xs)"
  by (rule properties_for_sort [symmetric]) simp_all

lemma linked_main_prints:
  assumes "inj addr" "\<forall>i. addr i \<noteq> 0" "parse_n args = Some n"
  shows "\<exists>freed. linked_main addr rand args = Some (exits (concat (map (\<lambda>v. show_int v @ NL) (sort (map rand [0..<n])))) [] 0, freed)
    \<and> mset freed = mset (map addr [0..<n])"
proof -
  obtain val nxt l where b: "build_list addr rand n = (val, nxt, l)" by (cases "build_list addr rand n") auto
  let ?ns = "map addr [0..<n]"
  have l: "is_list nxt l ?ns" "map val ?ns = map rand [0..<n]" using build_list_correct [OF assms(1,2) b] by auto
  obtain nxt' l' where s: "sort_list val nxt l = Some (nxt', l')" "is_list nxt' l' (sort_key val ?ns)"
    using sort_list_correct [OF l(1), of val] by blast
  have p: "path nxt' (head l') (sort_key val ?ns) 0" using s(2) by (simp add: is_list_def)
  show ?thesis
    using nodes_visited(1) [OF p, of val] nodes_visited(2) [OF p] map_sort_key [of val ?ns] l(2) b s(1) assms(3)
    by (simp add: linked_main_def del: map_map)
qed

lemma array_main_prints:
  "array_main rand args = Some (case parse_n args of None \<Rightarrow> usage
     | Some n \<Rightarrow> exits (concat (map (\<lambda>v. show_int v @ NL) (sort (map rand [0..<n])))) [] 0)"
  using sort_array_correct [of "[]" "map rand [0..<n]" "[]" for n] by (simp add: array_main_def split: option.split)

text \<open>
  The quicksort on an array returns, for any values, with the whole array sorted, and no
  access is outside it.
\<close>
theorem sort_array_sorts: "sort_array seq 0 (length seq) = Some (sort seq)"
  using sort_array_correct [of "[]" seq "[]"] by simp

text \<open>
  C17: The quicksort on a linked list returns, for every list of distinct nodes, with the same
  nodes relinked in order of their values, equal values in their old order, head and tail right,
  and no other node changed.
\<close>
theorem sort_list_sorts:
  assumes "is_list nxt l ns"
  shows "\<exists>nxt' l'. sort_list val nxt l = Some (nxt', l') \<and> is_list nxt' l' (sort_key val ns)
    \<and> (\<forall>x. x \<notin> set ns \<longrightarrow> nxt' x = nxt x)"
  using assms by (rule sort_list_correct)

theorem sort_list_sorts_witness:
  "\<exists>nxt' l'. sort_list (\<lambda>n. if n = 8 then 5 else 3) (\<lambda>n. if n = 8 then 4 else if n = 4 then 6 else 0) \<lparr>head = 8, tail = 6\<rparr> = Some (nxt', l')
     \<and> is_list nxt' l' [4, 6, 8]"
  using sort_list_sorts [of "\<lambda>n. if n = 8 then 4 else if n = 4 then 6 else 0" "\<lparr>head = 8, tail = 6\<rparr>" "[8, 4, 6]"
      "\<lambda>n. if n = 8 then 5 else 3"]
  by (auto simp: is_list_def)

text \<open>
  C18: \<open>array\<close> and \<open>linked\<close> are the same program to their user: on the same arguments and the same
  random values both return, and when the arguments give a number of values both print these values
  sorted, one on a line, and end with 0; otherwise both write the usage message and end with the
  status of a failure. And \<open>linked\<close> frees every node it allocated exactly once. The nodes are at
  different addresses, none of them NULL: \<open>malloc\<close> succeeds.
\<close>
theorem array_linked_agree:
  assumes "inj addr" "\<forall>i. addr i \<noteq> 0"
  shows "\<exists>out freed. array_main rand args = Some out \<and> linked_main addr rand args = Some (out, freed)
    \<and> (case parse_n args of
        None \<Rightarrow> out = exits [] (''usage: array <n>'' @ NL) EXIT_FAILURE \<and> freed = []
      | Some n \<Rightarrow> out = exits (concat (map (\<lambda>v. show_int v @ NL) (sort (map rand [0..<n])))) [] 0
          \<and> mset freed = mset (map addr [0..<n]))"
proof (cases "parse_n args")
  case None
  then show ?thesis by (simp add: array_main_def linked_main_def usage_def)
next
  case (Some n)
  then show ?thesis using linked_main_prints [OF assms Some, of rand] array_main_prints [of rand args] by auto
qed

theorem array_linked_agree_witness:
  "\<exists>freed. linked_main (\<lambda>i. 16 * i + 32) (\<lambda>i. - int i) [''3''] = Some (exits (''-2'' @ NL @ ''-1'' @ NL @ ''0'' @ NL) [] 0, freed)"
proof -
  have "parse_n [''3''] = Some 3" by code_simp
  moreover have "concat (map (\<lambda>v. show_int v @ NL) (sort (map (\<lambda>i. - int i) [0..<3]))) = ''-2'' @ NL @ ''-1'' @ NL @ ''0'' @ NL"
    by code_simp
  ultimately show ?thesis
    using array_linked_agree [of "\<lambda>i. 16 * i + 32" "\<lambda>i. - int i" "[''3'']"] by (auto simp: inj_def)
qed

end
