(* ===== verification/Critical.thy ===== *)
theory Critical
  imports Node_Paths
begin

text \<open>
  The critical-section exercise, \<open>exercises/ex08/critical.c\<close>: threads that take nodes from the head
  of a shared linked list, count, and put them back at its tail, under a spin lock made of
  \<open>__sync_lock_test_and_set\<close>. Every access to shared memory is a step: the lock itself is part of
  the model, and what is proved is that it makes the critical sections critical.

  \<open>cstep\<close> is the next step of a thread; \<open>None\<close> is a dereference of NULL. Addresses are numbers,
  \<open>malloc\<close> gives \<open>addr i\<close>. The increment of a counter is a read and a write, and a counter is an int
  that wraps. \<open>crit_run\<close> keeps beside a run the nodes that were put back at the tail, in their order;
  the program does not have this list.

  Proved: mutual exclusion; with fewer threads than nodes no step faults, and when all threads have
  returned the report counts every node that was ever on the list, and every time one was put back.
\<close>

definition LIST_LEN :: nat where "LIST_LEN = 100"

text \<open>Where a thread is, and the node in its hands; \<open>dequeueNode\<close>, the increment, \<open>enqueueNode\<close>.\<close>

datatype cycle_pc =
    Test
  | Spin_dequeue | Read_head | Set_head nat | Release_dequeue nat
  | Count nat | Store_count nat int
  | Spin_enqueue nat | Link_tail nat | Set_tail nat | End_node nat | Release_enqueue nat
  | Returned

record crit =
  lock :: bool
  qhead :: nat
  qtail :: nat
  qnext :: "nat \<Rightarrow> nat"
  counter :: "nat \<Rightarrow> int"
  running :: bool
  cpc :: "nat \<Rightarrow> cycle_pc"

definition goto :: "nat \<Rightarrow> cycle_pc \<Rightarrow> crit \<Rightarrow> crit" where
  "goto t p s = s\<lparr>cpc := (cpc s)(t := p)\<rparr>"

text \<open>\<open>lockTestAndSet\<close>: one turn of its loop. The lock is set in any case; it was free or not.\<close>

definition lockTestAndSet :: "nat \<Rightarrow> cycle_pc \<Rightarrow> crit \<Rightarrow> crit" where
  "lockTestAndSet t p s = (if lock s then s\<lparr>lock := True\<rparr> else goto t p (s\<lparr>lock := True\<rparr>))"

definition cstep :: "nat \<Rightarrow> crit \<Rightarrow> crit option" where
  "cstep t s = (case cpc s t of
       Test \<Rightarrow> Some (goto t (if running s then Spin_dequeue else Returned) s)
     | Spin_dequeue \<Rightarrow> Some (lockTestAndSet t Read_head s)
     | Read_head \<Rightarrow> Some (goto t (Set_head (qhead s)) s)
     | Set_head n \<Rightarrow> if qhead s = 0 then None else Some (goto t (Release_dequeue n) (s\<lparr>qhead := qnext s (qhead s)\<rparr>))
     | Release_dequeue n \<Rightarrow> Some (goto t (Count n) (s\<lparr>lock := False\<rparr>))
     | Count n \<Rightarrow> if n = 0 then None else Some (goto t (Store_count n (counter s n)) s)
     | Store_count n v \<Rightarrow> if n = 0 then None
         else Some (goto t (Spin_enqueue n) (s\<lparr>counter := (counter s)(n := to_int32 (v + 1))\<rparr>))
     | Spin_enqueue n \<Rightarrow> Some (lockTestAndSet t (Link_tail n) s)
     | Link_tail n \<Rightarrow> if qtail s = 0 then None else Some (goto t (Set_tail n) (s\<lparr>qnext := (qnext s)(qtail s := n)\<rparr>))
     | Set_tail n \<Rightarrow> Some (goto t (End_node n) (s\<lparr>qtail := n\<rparr>))
     | End_node n \<Rightarrow> if n = 0 then None else Some (goto t (Release_enqueue n) (s\<lparr>qnext := (qnext s)(n := 0)\<rparr>))
     | Release_enqueue n \<Rightarrow> Some (goto t Test (s\<lparr>lock := False\<rparr>))
     | Returned \<Rightarrow> Some s)"

text \<open>\<open>main\<close>: the list, the threads, and later the order to stop.\<close>

fun make_list :: "(nat \<Rightarrow> nat) \<Rightarrow> nat \<Rightarrow> crit \<Rightarrow> crit" where
  "make_list addr 0 s = s"
| "make_list addr (Suc i) s =
     (let s1 = make_list addr i s; node = addr i;
          s2 = s1\<lparr>counter := (counter s1)(node := 0)\<rparr>;
          s3 = (if qtail s2 = 0 then s2\<lparr>qtail := node\<rparr> else s2)
      in s3\<lparr>qnext := (qnext s3)(node := qhead s3), qhead := node\<rparr>)"

definition crit_init :: "(nat \<Rightarrow> nat) \<Rightarrow> nat \<Rightarrow> crit" where
  "crit_init addr tcount = make_list addr LIST_LEN
     \<lparr>lock = False, qhead = 0, qtail = 0, qnext = (\<lambda>_. 0), counter = (\<lambda>_. 0), running = True,
      cpc = (\<lambda>t. if t < tcount then Test else Returned)\<rparr>"

inductive crit_reach :: "(nat \<Rightarrow> nat) \<Rightarrow> nat \<Rightarrow> crit \<Rightarrow> bool" for addr tcount where
  init: "crit_reach addr tcount (crit_init addr tcount)"
| step: "crit_reach addr tcount s \<Longrightarrow> t < tcount \<Longrightarrow> cpc s t \<noteq> Returned \<Longrightarrow> cstep t s = Some s' \<Longrightarrow> crit_reach addr tcount s'"
| stop: "crit_reach addr tcount s \<Longrightarrow> crit_reach addr tcount (s\<lparr>running := False\<rparr>)"

text \<open>The same runs, with the nodes put back so far.\<close>

definition put_back :: "nat \<Rightarrow> crit \<Rightarrow> nat list" where
  "put_back t s = (case cpc s t of End_node n \<Rightarrow> [n] | _ \<Rightarrow> [])"

inductive crit_run :: "(nat \<Rightarrow> nat) \<Rightarrow> nat \<Rightarrow> nat list \<Rightarrow> crit \<Rightarrow> bool" for addr tcount where
  start: "crit_run addr tcount [] (crit_init addr tcount)"
| turn: "crit_run addr tcount puts s \<Longrightarrow> t < tcount \<Longrightarrow> cpc s t \<noteq> Returned \<Longrightarrow> cstep t s = Some s' \<Longrightarrow>
    crit_run addr tcount (puts @ put_back t s) s'"
| order: "crit_run addr tcount puts s \<Longrightarrow> crit_run addr tcount puts (s\<lparr>running := False\<rparr>)"

lemma crit_run_reach: "crit_run addr tcount puts s \<Longrightarrow> crit_reach addr tcount s"
  by (induction rule: crit_run.induct) (blast intro: crit_reach.intros)+

text \<open>Every state that can be reached is the end of such a run.\<close>

lemma crit_reach_run: "crit_reach addr tcount s \<Longrightarrow> \<exists>puts. crit_run addr tcount puts s"
  by (induction rule: crit_reach.induct) (blast intro: crit_run.intros)+

text \<open>The count at the end: the nodes, and the sum of their counters.\<close>

partial_function (option) count_nodes :: "(nat \<Rightarrow> nat) \<Rightarrow> (nat \<Rightarrow> int) \<Rightarrow> nat \<Rightarrow> (nat \<times> int) option" where
  [code]: "count_nodes nxt cnt p = (if p = 0 then Some (0, 0)
     else Option.bind (count_nodes nxt cnt (nxt p)) (\<lambda>r. Some (fst r + 1, snd r + cnt p)))"

lemma count_nodes_path:
  "path nxt p ns 0 \<Longrightarrow> count_nodes nxt cnt p = Some (length ns, sum_list (map cnt ns))"
proof (induction ns arbitrary: p)
  case Nil
  then show ?case by (subst count_nodes.simps) simp
next
  case (Cons n ns)
  then show ?case by (subst count_nodes.simps) simp
qed

subsection \<open>The invariant\<close>

fun in_cs :: "cycle_pc \<Rightarrow> bool" where
  "in_cs Read_head = True" | "in_cs (Set_head n) = True" | "in_cs (Release_dequeue n) = True"
| "in_cs (Link_tail n) = True" | "in_cs (Set_tail n) = True" | "in_cs (End_node n) = True"
| "in_cs (Release_enqueue n) = True" | "in_cs _ = False"

text \<open>The node in the hands of a thread: out of the list, or not yet in it.\<close>

fun in_hand :: "cycle_pc \<Rightarrow> nat option" where
  "in_hand (Release_dequeue n) = Some n" | "in_hand (Count n) = Some n" | "in_hand (Store_count n v) = Some n" | "in_hand (Spin_enqueue n) = Some n"
| "in_hand (Link_tail n) = Some n" | "in_hand (Set_tail n) = Some n" | "in_hand (End_node n) = Some n"
| "in_hand _ = None"

text \<open>The list as the thread in the critical section has it.\<close>

definition queue :: "crit \<Rightarrow> nat list \<Rightarrow> bool" where
  "queue s ns \<longleftrightarrow> ns \<noteq> [] \<and> path (qnext s) (qhead s) ns 0 \<and> qtail s = last ns"

fun queue_at :: "cycle_pc \<Rightarrow> crit \<Rightarrow> nat list \<Rightarrow> bool" where
  "queue_at (Set_head n) s ns \<longleftrightarrow> queue s ns \<and> qhead s = n"
| "queue_at (Set_tail n) s ns \<longleftrightarrow> ns \<noteq> [] \<and> path (qnext s) (qhead s) ns n \<and> qtail s = last ns"
| "queue_at (End_node n) s ns \<longleftrightarrow> ns \<noteq> [] \<and> path (qnext s) (qhead s) ns n \<and> qtail s = n"
| "queue_at _ s ns \<longleftrightarrow> queue s ns"

definition excl :: "crit \<Rightarrow> bool" where
  "excl s \<longleftrightarrow> (\<forall>t. in_cs (cpc s t) \<longrightarrow> lock s) \<and> (\<forall>t u. in_cs (cpc s t) \<longrightarrow> in_cs (cpc s u) \<longrightarrow> t = u)"

definition hands :: "crit \<Rightarrow> nat set" where
  "hands s = {n. \<exists>t. in_hand (cpc s t) = Some n}"

definition hands_ok :: "crit \<Rightarrow> nat list \<Rightarrow> bool" where
  "hands_ok s ns \<longleftrightarrow> (\<forall>t u n. in_hand (cpc s t) = Some n \<longrightarrow> in_hand (cpc s u) = Some n \<longrightarrow> t = u)
     \<and> hands s \<inter> set ns = {} \<and> distinct ns"

definition shape :: "crit \<Rightarrow> nat list \<Rightarrow> bool" where
  "shape s ns \<longleftrightarrow> (\<forall>t. in_cs (cpc s t) \<longrightarrow> queue_at (cpc s t) s ns) \<and> ((\<forall>t. \<not> in_cs (cpc s t)) \<longrightarrow> queue s ns)"

definition crit_inv :: "nat set \<Rightarrow> nat \<Rightarrow> crit \<Rightarrow> bool" where
  "crit_inv nodes tcount s \<longleftrightarrow> excl s \<and> (\<forall>t\<ge>tcount. cpc s t = Returned)
     \<and> (\<exists>ns. hands_ok s ns \<and> shape s ns \<and> hands s \<union> set ns = nodes)"

lemma queue_at_cong:
  "qnext s' = qnext s \<Longrightarrow> qhead s' = qhead s \<Longrightarrow> qtail s' = qtail s \<Longrightarrow> queue_at p s' ns = queue_at p s ns"
  by (cases p) (simp_all add: queue_def)

lemma shape_inside: "excl s \<Longrightarrow> in_cs (cpc s t) \<Longrightarrow> queue_at (cpc s t) s ns \<Longrightarrow> shape s ns"
  unfolding shape_def excl_def by metis

lemma shape_outside: "\<forall>u. \<not> in_cs (cpc s u) \<Longrightarrow> queue s ns \<Longrightarrow> shape s ns"
  by (simp add: shape_def)

lemma shape_other:
  assumes "shape s ns" "\<not> in_cs (cpc s t)" "\<not> in_cs p" "cpc s' = (cpc s)(t := p)"
    "qnext s' = qnext s" "qhead s' = qhead s" "qtail s' = qtail s"
  shows "shape s' ns"
proof -
  have i: "in_cs (cpc s' u) = in_cs (cpc s u)" "in_cs (cpc s u) \<Longrightarrow> cpc s' u = cpc s u" for u
    using assms(2-4) by auto
  have "queue s' ns = queue s ns" using assms(5-7) by (simp add: queue_def)
  then show ?thesis using assms(1) queue_at_cong [OF assms(5-7)] by (simp add: shape_def i)
qed

lemma hands_same:
  assumes "in_hand p = in_hand (cpc s t)" "cpc s' = (cpc s)(t := p)"
  shows "hands s' = hands s" "hands_ok s' ns = hands_ok s ns"
proof -
  have e: "in_hand (cpc s' u) = in_hand (cpc s u)" for u using assms by simp
  show "hands s' = hands s" "hands_ok s' ns = hands_ok s ns"
    by (simp_all add: hands_def hands_ok_def e)
qed

text \<open>The three kinds of steps that keep the list: outside, into and out of a critical section.\<close>

lemma inv_outside:
  assumes "crit_inv nodes tc s" "t < tc" "\<not> in_cs (cpc s t)" "\<not> in_cs p" "in_hand p = in_hand (cpc s t)"
    "cpc s' = (cpc s)(t := p)" "qnext s' = qnext s" "qhead s' = qhead s" "qtail s' = qtail s" "lock s \<longrightarrow> lock s'"
  shows "crit_inv nodes tc s'"
proof -
  obtain ns where ns: "hands_ok s ns" "shape s ns" "hands s \<union> set ns = nodes" using assms(1) by (auto simp: crit_inv_def)
  have "shape s' ns" using shape_other [OF ns(2) assms(3,4,6-9)] .
  moreover have "excl s'" using assms by (auto simp: crit_inv_def excl_def)
  moreover have "\<forall>u\<ge>tc. cpc s' u = Returned" using assms by (auto simp: crit_inv_def)
  ultimately show ?thesis using ns hands_same [OF assms(5,6)] by (auto simp: crit_inv_def)
qed

lemma inv_acquire:
  assumes "crit_inv nodes tc s" "t < tc" "\<not> lock s" "p = Read_head \<or> (\<exists>n. p = Link_tail n)" "in_hand p = in_hand (cpc s t)"
    "cpc s' = (cpc s)(t := p)" "qnext s' = qnext s" "qhead s' = qhead s" "qtail s' = qtail s" "lock s'"
  shows "crit_inv nodes tc s'"
proof -
  obtain ns where ns: "hands_ok s ns" "shape s ns" "hands s \<union> set ns = nodes" using assms(1) by (auto simp: crit_inv_def)
  have free: "\<forall>u. \<not> in_cs (cpc s u)" using assms(1,3) by (auto simp: crit_inv_def excl_def)
  then have "queue s ns" using ns(2) by (simp add: shape_def)
  then have "queue_at p s' ns" using assms(4,7-9) by (auto simp: queue_def)
  moreover have x: "excl s'" using free assms(6,10) by (auto simp: excl_def split: if_splits)
  ultimately have "shape s' ns" using shape_inside [OF x, of t ns] assms(4,6) by auto
  moreover have "\<forall>u\<ge>tc. cpc s' u = Returned" using assms by (auto simp: crit_inv_def)
  ultimately show ?thesis using x ns hands_same [OF assms(5,6)] by (auto simp: crit_inv_def)
qed

lemma inv_inside:
  assumes "crit_inv nodes tc s" "t < tc" "in_cs (cpc s t)" "in_cs p" "cpc s' = (cpc s)(t := p)" "lock s' = lock s"
    "hands_ok s' ns'" "queue_at p s' ns'" "hands s' \<union> set ns' = nodes"
  shows "crit_inv nodes tc s'"
proof -
  have x: "excl s'" using assms(1,3-6) by (auto simp: crit_inv_def excl_def split: if_splits)
  moreover have "shape s' ns'" using shape_inside [OF x, of t ns'] assms(4,5,8) by simp
  moreover have "\<forall>u\<ge>tc. cpc s' u = Returned" using assms by (auto simp: crit_inv_def)
  ultimately show ?thesis using assms(7,9) by (auto simp: crit_inv_def)
qed

lemma inv_release:
  assumes "crit_inv nodes tc s" "t < tc" "in_cs (cpc s t)" "\<not> in_cs p" "in_hand p = in_hand (cpc s t)"
    "\<And>ns. queue_at (cpc s t) s ns \<longleftrightarrow> queue s ns"
    "cpc s' = (cpc s)(t := p)" "qnext s' = qnext s" "qhead s' = qhead s" "qtail s' = qtail s"
  shows "crit_inv nodes tc s'"
proof -
  obtain ns where ns: "hands_ok s ns" "shape s ns" "hands s \<union> set ns = nodes" using assms(1) by (auto simp: crit_inv_def)
  have free: "\<forall>u. \<not> in_cs (cpc s' u)" using assms(1,3,4,7) by (auto simp: crit_inv_def excl_def)
  have "queue s ns" using ns(2) assms(3,6) by (auto simp: shape_def)
  then have "shape s' ns" using shape_outside [OF free, of ns] assms(8-10) by (simp add: queue_def)
  moreover have "excl s'" using free by (simp add: excl_def)
  moreover have "\<forall>u\<ge>tc. cpc s' u = Returned" using assms by (auto simp: crit_inv_def)
  ultimately show ?thesis using ns hands_same [OF assms(5,7)] by (auto simp: crit_inv_def)
qed

text \<open>The list never runs empty while there are more nodes than threads.\<close>

lemma hands_bound:
  assumes "crit_inv nodes tc s" "t < tc" "in_hand (cpc s t) = None"
  shows "finite (hands s) \<and> card (hands s) \<le> tc - 1"
proof -
  have "hands s \<subseteq> (\<lambda>u. the (in_hand (cpc s u))) ` ({..<tc} - {t})"
  proof
    fix n assume "n \<in> hands s"
    then obtain u where u: "in_hand (cpc s u) = Some n" by (auto simp: hands_def)
    then have "u \<noteq> t" using assms(3) by auto
    moreover have "u < tc" using u assms(1) not_less [of u tc] by (auto simp: crit_inv_def)
    ultimately show "n \<in> (\<lambda>u. the (in_hand (cpc s u))) ` ({..<tc} - {t})" using u by force
  qed
  then have "card (hands s) \<le> card ({..<tc} - {t})" "finite (hands s)"
    by (auto intro: surj_card_le finite_subset)
  then show ?thesis using assms(2) by simp
qed

lemma hands_take:
  assumes "hands_ok s (n # ns)" "in_hand (cpc s t) = None" "in_hand p = Some n" "cpc s' = (cpc s)(t := p)"
  shows "hands_ok s' ns \<and> hands s' = insert n (hands s)"
proof -
  have n: "in_hand (cpc s u) \<noteq> Some n" for u using assms(1) by (auto simp: hands_ok_def hands_def)
  have i: "in_hand (cpc s' u) = (if u = t then Some n else in_hand (cpc s u))" for u using assms(3,4) by simp
  have h: "hands s' = insert n (hands s)"
  proof (rule set_eqI)
    fix m
    show "m \<in> hands s' \<longleftrightarrow> m \<in> insert n (hands s)" 
      unfolding hands_def mem_Collect_eq insert_iff i using assms(2) by (metis option.inject option.distinct(1))
  qed
  have "u = v" if "in_hand (cpc s' u) = Some m" "in_hand (cpc s' v) = Some m" for u v m
    using that n assms(1) by (auto simp: i hands_ok_def split: if_splits)
  then show ?thesis using h assms(1) by (auto simp: hands_ok_def)
qed

lemma hands_put:
  assumes "hands_ok s ns" "in_hand (cpc s t) = Some n" "in_hand p = None" "cpc s' = (cpc s)(t := p)"
  shows "hands_ok s' (ns @ [n]) \<and> hands s = insert n (hands s')"
proof -
  have u: "in_hand (cpc s u) = Some n \<longleftrightarrow> u = t" for u using assms(1,2) by (auto simp: hands_ok_def)
  have i: "in_hand (cpc s' u) = (if u = t then None else in_hand (cpc s u))" for u using assms(3,4) by simp
  have m: "n \<in> hands s" using assms(2) by (auto simp: hands_def)
  have n: "n \<notin> hands s'" by (auto simp: hands_def i u)
  have h: "hands s = insert n (hands s')"
  proof (rule set_eqI)
    fix m
    show "m \<in> hands s \<longleftrightarrow> m \<in> insert n (hands s')" 
      unfolding hands_def mem_Collect_eq insert_iff i using u by (metis option.inject option.distinct(1))
  qed
  have "v = w" if "in_hand (cpc s' v) = Some k" "in_hand (cpc s' w) = Some k" for v w k
    using that assms(1) by (auto simp: i hands_ok_def split: if_splits)
  then show ?thesis using h n m assms(1) by (auto simp: hands_ok_def)
qed

lemma crit_invD:
  assumes "crit_inv nodes tc s"
  obtains ns where "hands_ok s ns" "shape s ns" "hands s \<union> set ns = nodes" "excl s"
  using assms by (auto simp: crit_inv_def)

lemma shapeD: "shape s ns \<Longrightarrow> in_cs (cpc s t) \<Longrightarrow> queue_at (cpc s t) s ns"
  by (simp add: shape_def)

lemma hands_in: "in_hand (cpc s t) = Some n \<Longrightarrow> n \<in> hands s"
  by (auto simp: hands_def)

lemma step_Set_head:
  assumes i: "crit_inv nodes tc s" and t: "t < tc" "cpc s t = Set_head n" and c: "finite nodes" "tc < card nodes"
  shows "qhead s \<noteq> 0 \<and> crit_inv nodes tc (goto t (Release_dequeue n) (s\<lparr>qhead := qnext s (qhead s)\<rparr>))"
proof -
  let ?s' = "goto t (Release_dequeue n) (s\<lparr>qhead := qnext s (qhead s)\<rparr>)"
  obtain ns where ns: "hands_ok s ns" "shape s ns" "hands s \<union> set ns = nodes" "excl s" using i by (rule crit_invD)
  have q: "queue s ns" "qhead s = n" using shapeD [OF ns(2), of t] t(2) by auto
  have "finite (hands s)" "card (hands s) \<le> tc - 1" using hands_bound [OF i t(1)] t(2) by auto
  moreover have "card nodes = card (hands s) + length ns"
    using ns(1,3) card_Un_disjoint [of "hands s" "set ns"] \<open>finite (hands s)\<close> by (auto simp: hands_ok_def distinct_card)
  ultimately have "2 \<le> length ns" using c(2) t(1) by linarith
  then obtain m rest where e: "ns = n # m # rest" "n \<noteq> 0"
    using q by (cases ns; cases "tl ns") (auto simp: queue_def)
  have h: "hands_ok ?s' (m # rest) \<and> hands ?s' = insert n (hands s)"
    using hands_take [of s n "m # rest" t "Release_dequeue n" ?s'] ns(1) e t(2) by (simp add: goto_def)
  have "crit_inv nodes tc ?s'"
  proof (rule inv_inside [OF i t(1)])
    show "queue_at (Release_dequeue n) ?s' (m # rest)" using q e by (simp add: queue_def goto_def)
    show "hands ?s' \<union> set (m # rest) = nodes" using h ns(3) e by auto
  qed (use h t in \<open>auto simp: goto_def\<close>)
  then show ?thesis using q e by simp
qed

lemma step_Link_tail:
  assumes i: "crit_inv nodes tc s" and t: "t < tc" "cpc s t = Link_tail n"
  shows "qtail s \<noteq> 0 \<and> crit_inv nodes tc (goto t (Set_tail n) (s\<lparr>qnext := (qnext s)(qtail s := n)\<rparr>))"
proof -
  let ?s' = "goto t (Set_tail n) (s\<lparr>qnext := (qnext s)(qtail s := n)\<rparr>)"
  obtain ns where ns: "hands_ok s ns" "shape s ns" "hands s \<union> set ns = nodes" "excl s" using i by (rule crit_invD)
  have q: "ns \<noteq> []" "path (qnext s) (qhead s) ns 0" "qtail s = last ns" "distinct ns"
    using shapeD [OF ns(2), of t] t(2) ns(1) by (auto simp: queue_def hands_ok_def)
  have h: "hands ?s' = hands s" "hands_ok ?s' ns" using hands_same [of "Set_tail n" s t ?s'] ns(1) t(2) by (simp_all add: goto_def)
  have "crit_inv nodes tc ?s'"
  proof (rule inv_inside [OF i t(1)])
    show "queue_at (Set_tail n) ?s' ns" using path_relast [OF q(2,4,1)] q by (simp add: goto_def)
  qed (use h ns t in \<open>auto simp: goto_def\<close>)
  then show ?thesis using path_not_NULL [OF q(2)] last_in_set [OF q(1)] q(3) by metis
qed

lemma step_Set_tail:
  assumes i: "crit_inv nodes tc s" and t: "t < tc" "cpc s t = Set_tail n"
  shows "crit_inv nodes tc (goto t (End_node n) (s\<lparr>qtail := n\<rparr>))"
proof -
  let ?s' = "goto t (End_node n) (s\<lparr>qtail := n\<rparr>)"
  obtain ns where ns: "hands_ok s ns" "shape s ns" "hands s \<union> set ns = nodes" "excl s" using i by (rule crit_invD)
  have h: "hands ?s' = hands s" "hands_ok ?s' ns" using hands_same [of "End_node n" s t ?s'] ns(1) t(2) by (simp_all add: goto_def)
  show ?thesis
  proof (rule inv_inside [OF i t(1)])
    show "queue_at (End_node n) ?s' ns" using shapeD [OF ns(2), of t] t(2) by (simp add: goto_def)
  qed (use h ns t in \<open>auto simp: goto_def\<close>)
qed

lemma step_End_node:
  assumes i: "crit_inv nodes tc s" and t: "t < tc" "cpc s t = End_node n" and z: "0 \<notin> nodes"
  shows "n \<noteq> 0 \<and> crit_inv nodes tc (goto t (Release_enqueue n) (s\<lparr>qnext := (qnext s)(n := 0)\<rparr>))"
proof -
  let ?s' = "goto t (Release_enqueue n) (s\<lparr>qnext := (qnext s)(n := 0)\<rparr>)"
  obtain ns where ns: "hands_ok s ns" "shape s ns" "hands s \<union> set ns = nodes" "excl s" using i by (rule crit_invD)
  have q: "ns \<noteq> []" "path (qnext s) (qhead s) ns n" "qtail s = n" using shapeD [OF ns(2), of t] t(2) by auto
  have n: "n \<in> hands s" "n \<notin> set ns" "n \<noteq> 0" using hands_in [of s t n] t(2) ns(1,3) z by (auto simp: hands_ok_def)
  have h: "hands_ok ?s' (ns @ [n]) \<and> hands s = insert n (hands ?s')"
    using hands_put [of s ns t n "Release_enqueue n" ?s'] ns(1) t(2) by (simp add: goto_def)
  have "crit_inv nodes tc ?s'"
  proof (rule inv_inside [OF i t(1)])
    show "queue_at (Release_enqueue n) ?s' (ns @ [n])" using path_snoc [OF q(2) n(3,2)] q(3) by (simp add: queue_def goto_def)
    show "hands ?s' \<union> set (ns @ [n]) = nodes" using h ns(3) by auto
  qed (use h t in \<open>auto simp: goto_def\<close>)
  then show ?thesis using n by simp
qed

lemma cstep_inv:
  assumes i: "crit_inv nodes tc s" and t: "t < tc" and nodes: "finite nodes" "tc < card nodes" "0 \<notin> nodes"
  shows "\<exists>s'. cstep t s = Some s' \<and> crit_inv nodes tc s'"
proof -
  have inh: "n \<noteq> 0" if "in_hand (cpc s t) = Some n" for n
    using i nodes(3) hands_in [OF that] by (auto simp: crit_inv_def)
  show ?thesis
  proof (cases "cpc s t")
    case Test
    then show ?thesis using inv_outside [OF i t, of "if running s then Spin_dequeue else Returned"] by (auto simp: cstep_def goto_def)
  next
    case Spin_dequeue
    then show ?thesis
      using inv_outside [OF i t, of Spin_dequeue "s\<lparr>lock := True\<rparr>"] fun_upd_triv [of "cpc s" t] inv_acquire [OF i t, of Read_head "lockTestAndSet t Read_head s"]
      by (cases "lock s") (auto simp: cstep_def goto_def lockTestAndSet_def)
  next
    case Read_head
    obtain ns where ns: "hands_ok s ns" "shape s ns" "hands s \<union> set ns = nodes" "excl s" using i by (rule crit_invD)
    let ?s' = "goto t (Set_head (qhead s)) s"
    have "hands ?s' = hands s" "hands_ok ?s' ns" using hands_same [of "Set_head (qhead s)" s t ?s'] ns(1) Read_head by (simp_all add: goto_def)
    then have "crit_inv nodes tc ?s'"
      using inv_inside [OF i t, of "Set_head (qhead s)" ?s' ns] shapeD [OF ns(2), of t] ns Read_head by (simp add: goto_def queue_def)
    then show ?thesis using Read_head by (simp add: cstep_def)
  next
    case (Set_head n)
    then show ?thesis using step_Set_head [OF i t Set_head nodes(1,2)] by (simp add: cstep_def)
  next
    case (Release_dequeue n)
    then show ?thesis using inv_release [OF i t, of "Count n"] by (auto simp: cstep_def goto_def)
  next
    case (Count n)
    then show ?thesis using inv_outside [OF i t, of "Store_count n (counter s n)"] inh by (auto simp: cstep_def goto_def)
  next
    case (Store_count n v)
    then show ?thesis using inv_outside [OF i t, of "Spin_enqueue n"] inh by (auto simp: cstep_def goto_def)
  next
    case (Spin_enqueue n)
    then show ?thesis
      using inv_outside [OF i t, of "Spin_enqueue n" "s\<lparr>lock := True\<rparr>"] fun_upd_triv [of "cpc s" t] inv_acquire [OF i t, of "Link_tail n" "lockTestAndSet t (Link_tail n) s"]
      by (cases "lock s") (auto simp: cstep_def goto_def lockTestAndSet_def)
  next
    case (Link_tail n)
    then show ?thesis using step_Link_tail [OF i t Link_tail] by (simp add: cstep_def)
  next
    case (Set_tail n)
    then show ?thesis using step_Set_tail [OF i t Set_tail] by (simp add: cstep_def)
  next
    case (End_node n)
    then show ?thesis using step_End_node [OF i t End_node nodes(3)] by (simp add: cstep_def)
  next
    case (Release_enqueue n)
    then show ?thesis using inv_release [OF i t, of "Test"] by (auto simp: cstep_def goto_def)
  next
    case Returned
    then show ?thesis using i by (simp add: cstep_def)
  qed
qed

subsection \<open>The start\<close>

lemma make_list_keeps:
  "lock (make_list addr n s) = lock s" "cpc (make_list addr n s) = cpc s" "running (make_list addr n s) = running s"
  by (induction n) (simp_all add: Let_def)

lemma make_list_Suc:
  "qnext (make_list addr (Suc n) s) = (qnext (make_list addr n s))(addr n := qhead (make_list addr n s))"
  "qhead (make_list addr (Suc n) s) = addr n"
  "qtail (make_list addr (Suc n) s) = (if qtail (make_list addr n s) = 0 then addr n else qtail (make_list addr n s))"
  "counter (make_list addr (Suc n) s) = (counter (make_list addr n s))(addr n := 0)"
  by (simp_all add: Let_def)

lemma make_list_path:
  assumes "inj addr" "\<forall>i. addr i \<noteq> 0" "qhead s = 0" "qtail s = 0"
  shows "path (qnext (make_list addr n s)) (qhead (make_list addr n s)) (rev (map addr [0..<n])) 0
    \<and> qtail (make_list addr n s) = (if n = 0 then 0 else addr 0)"
proof (induction n)
  case (Suc n)
  have "addr n \<notin> set (rev (map addr [0..<n]))" using inj_eq [OF assms(1)] by auto
  then have "path (qnext (make_list addr (Suc n) s)) (qhead (make_list addr n s)) (rev (map addr [0..<n])) 0"
    using Suc unfolding make_list_Suc by (subst path_upd) simp_all
  moreover have "qnext (make_list addr (Suc n) s) (addr n) = qhead (make_list addr n s)" by (simp add: make_list_Suc(1) del: make_list.simps)
  moreover have "addr 0 \<noteq> 0" "addr n \<noteq> 0" using assms(2) by blast+
  moreover have "qtail (make_list addr 0 s) = 0" using assms(4) by simp
  ultimately show ?case using Suc by (auto simp: make_list_Suc(2,3) simp del: make_list.simps)
qed (simp add: assms)

lemma crit_init_inv:
  assumes "inj addr" "\<forall>i. addr i \<noteq> 0"
  shows "crit_inv (addr ` {..<LIST_LEN}) tcount (crit_init addr tcount)"
proof -
  let ?s = "crit_init addr tcount" and ?ns = "rev (map addr [0..<LIST_LEN])"
  have p: "cpc ?s t = (if t < tcount then Test else Returned)" for t by (simp add: crit_init_def make_list_keeps)
  have "last ?ns = addr 0" by (simp add: last_rev LIST_LEN_def hd_map)
  moreover have "?ns \<noteq> []" by (simp add: LIST_LEN_def)
  ultimately have q: "queue ?s ?ns"
    using make_list_path [OF assms, of "\<lparr>lock = False, qhead = 0, qtail = 0, qnext = (\<lambda>_. 0), counter = (\<lambda>_. 0), running = True,
      cpc = (\<lambda>t. if t < tcount then Test else Returned)\<rparr>" LIST_LEN]
    by (simp add: queue_def crit_init_def LIST_LEN_def)
  have h: "hands ?s = {}" by (auto simp: hands_def p)
  have d: "distinct ?ns" using inj_on_subset [OF assms(1) subset_UNIV] by (simp add: distinct_map)
  have "hands_ok ?s ?ns" using d h by (simp add: hands_ok_def p)
  moreover have "shape ?s ?ns" using q by (simp add: shape_def p)
  moreover have "excl ?s" by (simp add: excl_def p)
  ultimately show ?thesis using h by (auto simp: crit_inv_def p lessThan_atLeast0 intro!: exI [of _ ?ns])
qed

lemma crit_reach_inv:
  assumes "inj addr" "\<forall>i. addr i \<noteq> 0" "tcount < LIST_LEN" "crit_reach addr tcount s"
  shows "crit_inv (addr ` {..<LIST_LEN}) tcount s"
  using assms(4)
proof induction
  case init
  show ?case using assms(1,2) by (rule crit_init_inv)
next
  case (step s t s')
  have "card (addr ` {..<LIST_LEN}) = LIST_LEN" using inj_on_subset [OF assms(1) subset_UNIV] by (simp add: card_image)
  moreover have "0 \<notin> addr ` {..<LIST_LEN}" using assms(2) by (metis imageE)
  ultimately obtain s1 where "cstep t s = Some s1" "crit_inv (addr ` {..<LIST_LEN}) tcount s1"
    using cstep_inv [OF step.IH step.hyps(2)] assms(3) by auto
  then show ?case using step.hyps(4) by simp
next
  case (stop s)
  have "queue_at p (s\<lparr>running := False\<rparr>) ns = queue_at p s ns" "queue (s\<lparr>running := False\<rparr>) ns = queue s ns" for p ns
    by (rule queue_at_cong) (simp_all add: queue_def)
  then show ?case using stop.IH by (simp add: crit_inv_def excl_def hands_ok_def hands_def shape_def)
qed

text \<open>
  C20: The spin lock of \<open>critical.c\<close> works: in any interleaving of the single accesses, with fewer
  threads than nodes, at most one thread is between taking and releasing the lock, and no thread
  ever dereferences NULL.
\<close>
theorem critical_safe:
  assumes "inj addr" "\<forall>i. addr i \<noteq> 0" "tcount < LIST_LEN" "crit_reach addr tcount s" "t < tcount"
  shows "cstep t s \<noteq> None \<and> (in_cs (cpc s t) \<and> in_cs (cpc s u) \<longrightarrow> t = u)"
proof -
  have i: "crit_inv (addr ` {..<LIST_LEN}) tcount s" using assms(1-4) by (rule crit_reach_inv)
  have "card (addr ` {..<LIST_LEN}) = LIST_LEN" using inj_on_subset [OF assms(1) subset_UNIV] by (simp add: card_image)
  moreover have "0 \<notin> addr ` {..<LIST_LEN}" using assms(2) by (metis imageE)
  ultimately have "\<exists>s'. cstep t s = Some s'" using cstep_inv [OF i assms(5)] assms(3) by auto
  moreover have "excl s" using i by (simp add: crit_inv_def)
  ultimately show ?thesis by (auto simp: excl_def)
qed

theorem critical_safe_witness: "cstep 1 (crit_init Suc 2) \<noteq> None"
  using critical_safe [of Suc 2 "crit_init Suc 2" 1 0] crit_reach.init [of Suc 2] by (simp add: LIST_LEN_def)

subsection \<open>The counts\<close>

text \<open>The node that a thread has counted and not yet put back.\<close>

fun counted :: "cycle_pc \<Rightarrow> nat option" where
  "counted (Spin_enqueue n) = Some n" | "counted (Link_tail n) = Some n" | "counted (Set_tail n) = Some n"
| "counted (End_node n) = Some n" | "counted _ = None"

definition pending :: "crit \<Rightarrow> nat \<Rightarrow> int" where
  "pending s n = (if \<exists>t. counted (cpc s t) = Some n then 1 else 0)"

definition count_inv :: "nat list \<Rightarrow> crit \<Rightarrow> bool" where
  "count_inv puts s \<longleftrightarrow> (\<forall>n. counter s n = to_int32 (int (count_list puts n) + pending s n))
     \<and> (\<forall>t n v. cpc s t = Store_count n v \<longrightarrow> v = counter s n)"

lemma counted_in_hand: "counted p = Some n \<Longrightarrow> in_hand p = Some n"
  by (cases p) auto

lemma counted_alone:
  assumes "hands_ok s ns" "in_hand (cpc s t) = Some n" "counted (cpc s u) = Some n"
  shows "u = t"
  using assms counted_in_hand [of "cpc s u" n] by (auto simp: hands_ok_def)

lemma pending_step:
  assumes "hands_ok s ns" "cpc s' = (cpc s)(t := p)" "\<And>n. counted p = Some n \<Longrightarrow> in_hand (cpc s t) = Some n"
  shows "pending s' n = (if counted p = Some n then 1 else if counted (cpc s t) = Some n then 0 else pending s n)"
proof (cases "counted p = Some n")
  case True
  then show ?thesis using assms(2) by (auto simp: pending_def)
next
  case False
  have "u = t" if "counted (cpc s t) = Some n" "counted (cpc s u) = Some n" for u
    using counted_alone [OF assms(1) counted_in_hand that(2)] that(1) by auto
  then show ?thesis using False assms(2) unfolding pending_def by (auto; metis)
qed

text \<open>A step that writes no counter, and neither counts nor puts back.\<close>

lemma count_quiet:
  assumes "hands_ok s ns" "count_inv puts s" "cpc s' = (cpc s)(t := p)" "counter s' = counter s"
    "counted p = counted (cpc s t)" "\<And>n v. p = Store_count n v \<Longrightarrow> v = counter s n"
  shows "count_inv puts s'"
proof -
  have "pending s' n = pending s n" for n
    using pending_step [OF assms(1,3), of n] assms(5) counted_in_hand by (auto simp: pending_def)
  then show ?thesis using assms(2-4,6) by (auto simp: count_inv_def)
qed

lemma count_store:
  assumes "hands_ok s ns" "count_inv puts s" "cpc s t = Store_count n v"
  shows "count_inv puts (goto t (Spin_enqueue n) (s\<lparr>counter := (counter s)(n := to_int32 (v + 1))\<rparr>))"
proof -
  let ?s' = "goto t (Spin_enqueue n) (s\<lparr>counter := (counter s)(n := to_int32 (v + 1))\<rparr>)"
  have "u = t" if "counted (cpc s u) = Some n" for u using counted_alone [OF assms(1) _ that, of t] assms(3) by simp
  then have z: "pending s n = 0" using assms(3) by (auto simp: pending_def)
  have "v = counter s n" using assms(2,3) unfolding count_inv_def by blast
  then have "v = to_int32 (int (count_list puts n))" using assms(2) z by (simp add: count_inv_def)
  moreover have "pending ?s' m = (if m = n then 1 else pending s m)" for m
    using pending_step [OF assms(1), of ?s' t "Spin_enqueue n" m] assms(3) by (simp add: goto_def)
  moreover have "w = counter ?s' m" if c: "cpc ?s' u = Store_count m w" for u m w
  proof -
    have "u \<noteq> t" "cpc s u = Store_count m w" using c by (auto simp: goto_def split: if_splits)
    moreover from this have "m \<noteq> n" using assms(1,3) by (auto simp: hands_ok_def)
    moreover have "w = counter s m" using assms(2) \<open>cpc s u = Store_count m w\<close> unfolding count_inv_def by blast
    ultimately show ?thesis by (simp add: goto_def)
  qed
  ultimately show ?thesis using assms(2) by (auto simp: count_inv_def goto_def to_int32_add)
qed

lemma count_put_back:
  assumes "hands_ok s ns" "count_inv puts s" "cpc s t = End_node n"
  shows "count_inv (puts @ [n]) (goto t (Release_enqueue n) (s\<lparr>qnext := (qnext s)(n := 0)\<rparr>))"
proof -
  let ?s' = "goto t (Release_enqueue n) (s\<lparr>qnext := (qnext s)(n := 0)\<rparr>)"
  have "pending ?s' m = (if m = n then 0 else pending s m)" for m
    using pending_step [OF assms(1), of ?s' t "Release_enqueue n" m] assms(3) by (simp add: goto_def)
  moreover have "counted (cpc s t) = Some n" using assms(3) by simp
  then have "pending s n = 1" unfolding pending_def by (metis (full_types))
  ultimately show ?thesis using assms(2) by (auto simp: count_inv_def goto_def)
qed

lemma count_inv_step:
  assumes "hands_ok s ns" "count_inv puts s" "cstep t s = Some s'"
  shows "count_inv (puts @ put_back t s) s'"
proof (cases "cpc s t")
  case (Store_count n v)
  then show ?thesis using count_store [OF assms(1,2) Store_count] assms(3)
    by (simp add: cstep_def put_back_def split: if_splits)
next
  case (End_node n)
  then show ?thesis using count_put_back [OF assms(1,2) End_node] assms(3)
    by (simp add: cstep_def put_back_def split: if_splits)
qed (use assms(3) fun_upd_triv [of "cpc s" t] in \<open>auto simp: cstep_def put_back_def goto_def lockTestAndSet_def split: if_splits
      intro!: count_quiet [OF assms(1,2), where t = t]\<close>)

lemma make_list_counter: "counter s = (\<lambda>_. 0) \<Longrightarrow> counter (make_list addr n s) = (\<lambda>_. 0)"
  by (induction n) (auto simp: make_list_Suc simp del: make_list.simps(2))

lemma crit_run_counts:
  assumes "inj addr" "\<forall>i. addr i \<noteq> 0" "tcount < LIST_LEN" "crit_run addr tcount puts s"
  shows "count_inv puts s \<and> set puts \<subseteq> addr ` {..<LIST_LEN}"
  using assms(4)
proof induction
  case start
  show ?case by (auto simp: count_inv_def pending_def crit_init_def make_list_counter make_list_keeps to_int32_id)
next
  case (turn puts s t s')
  obtain ns where ns: "hands_ok s ns" "hands s \<union> set ns = addr ` {..<LIST_LEN}"
    using crit_reach_inv [OF assms(1-3) crit_run_reach [OF turn.hyps(1)]] by (rule crit_invD)
  have "set (put_back t s) \<subseteq> hands s" using hands_in [of s t] by (cases "cpc s t") (simp_all add: put_back_def)
  then show ?case using count_inv_step [OF ns(1) _ turn.hyps(4)] turn.IH ns(2) by auto
next
  case (order puts s)
  have "pending (s\<lparr>running := False\<rparr>) = pending s" by (simp add: pending_def fun_eq_iff)
  moreover have "count_inv puts s" "set puts \<subseteq> addr ` {..<LIST_LEN}" using order.IH by blast+
  moreover have "cpc (s\<lparr>running := False\<rparr>) = cpc s" "counter (s\<lparr>running := False\<rparr>) = counter s" by simp_all
  ultimately show ?case unfolding count_inv_def by (metis (no_types))
qed

lemma sum_count_list: "distinct xs \<Longrightarrow> set puts \<subseteq> set xs \<Longrightarrow> (\<Sum>x\<leftarrow>xs. int (count_list puts x)) = int (length puts)"
proof -
  assume a: "distinct xs" "set puts \<subseteq> set xs"
  have "(\<Sum>x\<leftarrow>xs. int (count_list puts x)) = int (\<Sum>x\<in>set xs. count_list puts x)"
    using a(1) by (simp add: sum_list_distinct_conv_sum_set)
  also have "(\<Sum>x\<in>set xs. count_list puts x) = (\<Sum>x\<in>set puts. count_list puts x)"
    by (rule sum.mono_neutral_right) (use a(2) in \<open>auto simp: count_list_0_iff\<close>)
  finally show ?thesis using sum_count_set [of puts "set puts"] by simp
qed

text \<open>
  C19: When all threads have returned, the report of \<open>main\<close> ends and counts all 100 nodes, each
  once; the counter of each node is the number of times the node was put back at the tail, and the
  total printed is the number of times any node was: no node and no count is lost. The number of
  threads is below 100, and nodes were put back fewer than \<open>2 ^ 31\<close> times in all, so that no counter
  wraps.
\<close>
theorem critical_keeps_nodes:
  assumes "inj addr" "\<forall>i. addr i \<noteq> 0" "tcount < LIST_LEN" "crit_run addr tcount puts s" "\<forall>t. cpc s t = Returned"
    "length puts < 2 ^ 31"
  shows "count_nodes (qnext s) (counter s) (qhead s) = Some (LIST_LEN, int (length puts))
    \<and> (\<forall>n. counter s n = int (count_list puts n))"
proof -
  obtain ns where ns: "hands_ok s ns" "shape s ns" "hands s \<union> set ns = addr ` {..<LIST_LEN}"
    using crit_reach_inv [OF assms(1-3) crit_run_reach [OF assms(4)]] by (rule crit_invD)
  have "hands s = {}" using assms(5) by (simp add: hands_def)
  then have s: "set ns = addr ` {..<LIST_LEN}" "distinct ns" using ns by (simp_all add: hands_ok_def)
  have inj: "inj_on addr {..<LIST_LEN}" using inj_on_subset [OF assms(1) subset_UNIV] .
  have c: "counter s n = int (count_list puts n)" for n
    using crit_run_counts [OF assms(1-4)] assms(5,6) count_le_length [of puts n]
    by (simp add: count_inv_def pending_def to_int32_id)
  have "path (qnext s) (qhead s) ns 0" using ns(2) assms(5) by (simp add: shape_def queue_def)
  moreover have "length ns = LIST_LEN" using s distinct_card [of ns] card_image [OF inj] by simp
  moreover have "sum_list (map (counter s) ns) = int (length puts)"
    using sum_count_list [OF s(2), of puts] crit_run_counts [OF assms(1-4)] s(1) by (simp add: c cong: map_cong)
  ultimately show ?thesis using c by (simp add: count_nodes_path)
qed

text \<open>A thread that runs alone, for at most \<open>k\<close> steps.\<close>

fun solo :: "nat \<Rightarrow> crit \<Rightarrow> (nat list \<times> crit) option" where
  "solo 0 s = Some ([], s)"
| "solo (Suc k) s = (if cpc s 0 = Returned then Some ([], s)
     else (case cstep 0 s of None \<Rightarrow> None
       | Some s' \<Rightarrow> map_option (\<lambda>(puts, e). (put_back 0 s @ puts, e)) (solo k s')))"

lemma solo_run: "crit_run addr tcount puts s \<Longrightarrow> 0 < tcount \<Longrightarrow> solo k s = Some (l, e) \<Longrightarrow> crit_run addr tcount (puts @ l) e"
proof (induction k arbitrary: puts s l)
  case (Suc k)
  show ?case
  proof (cases "cpc s 0 = Returned")
    case False
    then obtain s' l' where s: "cstep 0 s = Some s'" "solo k s' = Some (l', e)" "l = put_back 0 s @ l'"
      using Suc.prems(3) by (auto split: option.splits)
    from Suc.IH [OF crit_run.turn [OF Suc.prems(1,2) False s(1)] Suc.prems(2) s(2)] s(3) show ?thesis by simp
  qed (use Suc.prems in simp)
qed simp

text \<open>One thread takes the node at the head, counts it and puts it back; then it is told to stop.\<close>

theorem critical_keeps_nodes_witness:
  "\<exists>s. crit_run Suc 1 [100] s \<and> count_nodes (qnext s) (counter s) (qhead s) = Some (LIST_LEN, 1) \<and> counter s 100 = 1"
proof -
  have "case solo 12 (crit_init Suc 1) of None \<Rightarrow> False | Some (l, s) \<Rightarrow> l = [100] \<and> cpc s 0 = Test"
    by code_simp
  then obtain s where s: "solo 12 (crit_init Suc 1) = Some ([100], s)" "cpc s 0 = Test" by (auto split: option.splits)
  let ?s = "s\<lparr>running := False\<rparr>" and ?e = "goto 0 Returned (s\<lparr>running := False\<rparr>)"
  have "crit_run Suc 1 [100] ?s" using crit_run.order [OF solo_run [OF crit_run.start _ s(1)]] by simp
  moreover have "solo 1 ?s = Some ([], ?e)" using s(2) by (simp add: cstep_def put_back_def numeral_eq_Suc)
  ultimately have r: "crit_run Suc 1 [100] ?e" using solo_run [of Suc 1 "[100]" ?s 1 "[]" ?e] by simp
  have "crit_inv (Suc ` {..<LIST_LEN}) 1 ?e" using crit_reach_inv [OF _ _ _ crit_run_reach [OF r]] by (simp add: LIST_LEN_def)
  then have "cpc ?e t = Returned" for t by (cases "t = 0") (auto simp: crit_inv_def goto_def)
  then show ?thesis using critical_keeps_nodes [of Suc 1 "[100]" ?e] r by (auto simp: LIST_LEN_def)
qed

end
