(* ===== verification/Exclude.thy ===== *)
theory Exclude
  imports Prelude
begin

text \<open>
  The line filter, \<open>assignments/hw1/exclude.c\<close>: it copies a file line by line and leaves one line
  out. The input is the list of the chunks that \<open>read\<close> delivers, of whatever sizes; input and
  output are different files. \<open>None\<close> is an access outside \<open>wholeFile\<close> or a signed overflow.

  Proved: what ends up in the output file, for any chunks, and when the arguments are refused.
\<close>

definition LINES_LIMIT :: nat where "LINES_LIMIT = 1000"

definition LINE_LIMIT :: nat where "LINE_LIMIT = 1000"

text \<open>A file that is open for writing: it was not truncated, \<open>write\<close> replaces what is at the offset.\<close>

record outfile =
  bytes :: string
  offset :: nat

definition write_to :: "outfile \<Rightarrow> string \<Rightarrow> outfile" where
  "write_to f s = \<lparr>bytes = take (offset f) (bytes f) @ s @ drop (offset f + length s) (bytes f),
     offset = offset f + length s\<rparr>"

definition usage_msg :: string where
  "usage_msg = ''usage: <input-file> <output-file> <line-number>'' @ NL"

definition usage :: outcome where "usage = exits [] usage_msg 1"

text \<open>\<open>string_to_int\<close>; the left value is the call of \<open>usage\<close>.\<close>

fun string_to_int_from :: "int \<Rightarrow> string \<Rightarrow> (outcome + int) option" where
  "string_to_int_from out [] = Some (Inr out)"
| "string_to_int_from out (c # str) =
     (if \<not> isdigit c then Some (Inl usage)
      else let out1 = out * 10; out2 = out1 + digit_val c
        in if out1 \<ge> 2 ^ 31 \<or> out2 \<ge> 2 ^ 31 then None else string_to_int_from out2 str)"

definition string_to_int :: "string \<Rightarrow> (outcome + int) option" where
  "string_to_int str = string_to_int_from 0 str"

text \<open>The loops of \<open>main\<close>: the line being filled, the position in it, the lines, the output.\<close>

record exclude_state =
  line_no :: nat
  pos :: nat
  wholeFile :: "nat \<Rightarrow> nat \<Rightarrow> char"
  outHandle :: outfile

definition put_byte :: "int \<Rightarrow> char \<Rightarrow> exclude_state \<Rightarrow> exclude_state option" where
  "put_byte excludedLineIdx c s = (let j = line_no s; h = pos s in
     if j < LINES_LIMIT \<and> h < LINE_LIMIT then
       (let line = (wholeFile s j)(h := c);
            s1 = s\<lparr>wholeFile := (wholeFile s)(j := line), pos := h + 1\<rparr>
        in Some (if c = CHR 0x0A
          then s1\<lparr>line_no := j + 1, pos := 0,
            outHandle := (if int j \<noteq> excludedLineIdx then write_to (outHandle s) (map line [0..<h + 1]) else outHandle s)\<rparr>
          else s1))
     else None)"

fun put_buffer :: "int \<Rightarrow> string \<Rightarrow> exclude_state \<Rightarrow> exclude_state option" where
  "put_buffer idx [] s = Some s"
| "put_buffer idx (c # cs) s = Option.bind (put_byte idx c s) (put_buffer idx cs)"

fun read_loop :: "int \<Rightarrow> string list \<Rightarrow> exclude_state \<Rightarrow> exclude_state option" where
  "read_loop idx [] s = Some s"
| "read_loop idx (buffer # chunks) s =
     (if buffer = [] then Some s else Option.bind (put_buffer idx buffer s) (read_loop idx chunks))"

text \<open>
  \<open>main\<close>, given what the two files hold when they could be opened; the result has the contents of
  the output file.
\<close>

definition exclude_main :: "string list \<Rightarrow> string list option \<Rightarrow> string option \<Rightarrow> (outcome \<times> string option) option" where
  "exclude_main argv input output =
     (if length argv < 4 \<or> input = None \<or> output = None then Some (usage, output)
      else case string_to_int (argv ! 3) of
          None \<Rightarrow> None
        | Some (Inl u) \<Rightarrow> Some (u, output)
        | Some (Inr excludedLine) \<Rightarrow>
            if excludedLine \<le> 0 then Some (usage, output)
            else map_option (\<lambda>s. (exits [] [] 0, Some (bytes (outHandle s))))
              (read_loop (excludedLine - 1) (the input)
                \<lparr>line_no = 0, pos = 0, wholeFile = (\<lambda>_ _. NUL), outHandle = \<lparr>bytes = the output, offset = 0\<rparr>\<rparr>))"

subsection \<open>The number\<close>

lemma string_to_int_append:
  "string_to_int_from a (s @ t) = (case string_to_int_from a s of Some (Inr v) \<Rightarrow> string_to_int_from v t | r \<Rightarrow> r)"
  by (induction s arbitrary: a) (auto simp: Let_def)

lemma string_to_int_show: "int n < 2 ^ 31 \<Longrightarrow> string_to_int_from 0 (show_nat n) = Some (Inr (int n))"
proof (induction n rule: show_nat.induct)
  case (1 n)
  have d: "isdigit (char_of (48 + k :: nat))" "digit_val (char_of (48 + k :: nat)) = int k" if "k < 10" for k
    using that by (simp_all add: isdigit_def digit_val_def)
  show ?case
  proof (cases "n < 10")
    case True
    then show ?thesis using d [of n] by (subst show_nat.simps) (simp add: Let_def)
  next
    case False
    then have "string_to_int_from 0 (show_nat (n div 10)) = Some (Inr (int (n div 10)))" using 1 by auto
    moreover have "int (n div 10) * 10 + int (n mod 10) = int n" "int (n div 10) * 10 \<le> int n" by presburger+
    ultimately show ?thesis using False 1(2) d [of "n mod 10"]
      by (subst show_nat.simps) (auto simp: string_to_int_append Let_def)
  qed
qed

subsection \<open>The copy\<close>

lemma put_buffer_append: "put_buffer idx (xs @ ys) s = Option.bind (put_buffer idx xs s) (put_buffer idx ys)"
  by (induction xs arbitrary: s) (auto split: bind_split)

lemma read_loop_concat: "[] \<notin> set chunks \<Longrightarrow> read_loop idx chunks s = put_buffer idx (concat chunks) s"
proof (induction chunks arbitrary: s)
  case (Cons c cs)
  then have "read_loop idx cs = put_buffer idx (concat cs)" by (intro ext) simp
  then show ?case using Cons.prems by (auto simp: put_buffer_append)
qed simp

text \<open>An output file into which \<open>w\<close> was written.\<close>

definition written :: "string \<Rightarrow> string \<Rightarrow> outfile" where
  "written old w = \<lparr>bytes = w @ drop (length w) old, offset = length w\<rparr>"

lemma write_to_written: "write_to (written old w) s = written old (w @ s)"
  by (simp add: write_to_def written_def add.commute)

definition row :: "exclude_state \<Rightarrow> string" where
  "row s = map (wholeFile s (line_no s)) [0..<pos s]"

lemma put_byte_in_line:
  assumes "c \<noteq> CHR 0x0A" "line_no s < LINES_LIMIT" "pos s < LINE_LIMIT"
  shows "\<exists>s'. put_byte idx c s = Some s' \<and> line_no s' = line_no s \<and> pos s' = Suc (pos s)
    \<and> row s' = row s @ [c] \<and> outHandle s' = outHandle s"
  using assms by (auto simp: put_byte_def row_def Let_def)

lemma put_buffer_in_line:
  assumes "CHR 0x0A \<notin> set l" "line_no s < LINES_LIMIT" "pos s + length l \<le> LINE_LIMIT"
  shows "\<exists>s'. put_buffer idx l s = Some s' \<and> line_no s' = line_no s \<and> pos s' = pos s + length l
    \<and> row s' = row s @ l \<and> outHandle s' = outHandle s"
  using assms
proof (induction l arbitrary: s)
  case (Cons c l)
  obtain s1 where s1: "put_byte idx c s = Some s1" "line_no s1 = line_no s" "pos s1 = Suc (pos s)"
      "row s1 = row s @ [c]" "outHandle s1 = outHandle s"
    using put_byte_in_line [of c s idx] Cons.prems by auto
  then show ?case using Cons.IH [of s1] Cons.prems by auto
qed simp

definition line_of :: "int \<Rightarrow> nat \<Rightarrow> string \<Rightarrow> string" where
  "line_of idx j l = (if int j = idx then [] else l @ NL)"

lemma put_buffer_line:
  assumes "CHR 0x0A \<notin> set l" "line_no s < LINES_LIMIT" "length l < LINE_LIMIT" "pos s = 0" "outHandle s = written old w"
  shows "\<exists>s'. put_buffer idx (l @ NL) s = Some s' \<and> line_no s' = Suc (line_no s) \<and> pos s' = 0
    \<and> outHandle s' = written old (w @ line_of idx (line_no s) l)"
proof -
  obtain s1 where s1: "put_buffer idx l s = Some s1" "line_no s1 = line_no s" "pos s1 = length l"
      "row s1 = l" "outHandle s1 = written old w"
    using put_buffer_in_line [of l s idx] assms by (auto simp: row_def)
  have "map (wholeFile s1 (line_no s)) [0..<length l] = l" using s1(2-4) by (simp add: row_def)
  then show ?thesis using s1 assms(2,3)
    by (auto simp: put_buffer_append put_byte_def Let_def write_to_written line_of_def)
qed

text \<open>What the lines from number \<open>j\<close> on leave in the output.\<close>

fun kept_lines :: "int \<Rightarrow> nat \<Rightarrow> string list \<Rightarrow> string" where
  "kept_lines idx j [] = []"
| "kept_lines idx j (l # ls) = line_of idx j l @ kept_lines idx (Suc j) ls"

lemma put_buffer_lines:
  assumes "\<forall>l\<in>set ls. CHR 0x0A \<notin> set l \<and> length l < LINE_LIMIT" "line_no s + length ls \<le> LINES_LIMIT"
    "pos s = 0" "outHandle s = written old w"
  shows "\<exists>s'. put_buffer idx (concat (map (\<lambda>l. l @ NL) ls)) s = Some s' \<and> line_no s' = line_no s + length ls \<and> pos s' = 0
    \<and> outHandle s' = written old (w @ kept_lines idx (line_no s) ls)"
  using assms
proof (induction ls arbitrary: s w)
  case (Cons l ls)
  obtain s1 where s1: "put_buffer idx (l @ NL) s = Some s1" "line_no s1 = Suc (line_no s)" "pos s1 = 0"
      "outHandle s1 = written old (w @ line_of idx (line_no s) l)"
    using put_buffer_line [of l s old w idx] Cons.prems by auto
  have "put_buffer idx (concat (map (\<lambda>l. l @ NL) (l # ls))) s = put_buffer idx (concat (map (\<lambda>l. l @ NL) ls)) s1"
    using s1(1) put_buffer_append [of idx "l @ NL" "concat (map (\<lambda>l. l @ NL) ls)" s] by simp
  then show ?case using Cons.IH [of s1 "w @ line_of idx (line_no s) l"] Cons.prems s1(2-4) by simp
qed simp

lemma kept_lines_after: "idx < int j \<Longrightarrow> kept_lines idx j ls = concat (map (\<lambda>l. l @ NL) ls)"
  by (induction ls arbitrary: j) (simp_all add: line_of_def)

lemma kept_lines_eq:
  "kept_lines (int (j + k)) j ls = concat (map (\<lambda>l. l @ NL) (take k ls @ drop (Suc k) ls))"
proof (induction ls arbitrary: j k)
  case (Cons l ls)
  show ?case
  proof (cases k)
    case 0
    then show ?thesis by (simp add: line_of_def kept_lines_after)
  next
    case (Suc m)
    then show ?thesis using Cons [of "Suc j" m] by (simp add: line_of_def)
  qed
qed simp

text \<open>
  C22: \<open>exclude.c\<close> with the number \<open>n\<close> writes exactly the lines of the input other than the \<open>n\<close>-th, in
  their order, at the start of the output, however \<open>read\<close> cuts the input, and ends with 0; text after
  the last newline is not copied, and the output keeps its old bytes behind what was written. This
  holds for inputs that fit the array \<open>wholeFile\<close>: at most 1000 lines, an unfinished last one
  included, each of at most 999 characters before its newline (1000 for an unfinished one). Both
  files can be opened and \<open>n\<close> is a number from 1 to \<open>2 ^ 31 - 1\<close>.
\<close>
theorem exclude_correct:
  fixes ls :: "string list" and old :: string and n :: nat
  defines "result \<equiv> concat (map (\<lambda>l. l @ NL) (take (n - 1) ls @ drop n ls))"
  assumes "0 < n" "int n < 2 ^ 31" "concat chunks = concat (map (\<lambda>l. l @ NL) ls) @ rest" "[] \<notin> set chunks"
    "\<forall>l\<in>set ls. CHR 0x0A \<notin> set l \<and> length l < LINE_LIMIT" "CHR 0x0A \<notin> set rest" "length rest \<le> LINE_LIMIT"
    "length ls + (if rest = [] then 0 else 1) \<le> LINES_LIMIT"
  shows "exclude_main [p, i, out, show_nat n] (Some chunks) (Some old) = Some (exits [] [] 0, Some (result @ drop (length result) old))"
proof -
  let ?s0 = "\<lparr>line_no = 0, pos = 0, wholeFile = (\<lambda>_ _. NUL), outHandle = \<lparr>bytes = old, offset = 0\<rparr>\<rparr>"
  have "outHandle ?s0 = written old []" by (simp add: written_def)
  then obtain s1 where s1: "put_buffer (int n - 1) (concat (map (\<lambda>l. l @ NL) ls)) ?s0 = Some s1" "line_no s1 = length ls"
      "pos s1 = 0" "outHandle s1 = written old (kept_lines (int n - 1) 0 ls)"
    using put_buffer_lines [of ls ?s0 old "[]" "int n - 1"] assms(6,9) by auto
  have "\<exists>s2. put_buffer (int n - 1) rest s1 = Some s2 \<and> outHandle s2 = outHandle s1"
    using put_buffer_in_line [of rest s1 "int n - 1"] assms(7-9) s1(2,3) by (cases "rest = []") auto
  moreover have "kept_lines (int n - 1) 0 ls = result"
    using kept_lines_eq [of 0 "n - 1" ls] assms(2) by (simp add: result_def of_nat_diff)
  ultimately show ?thesis
    using s1(1,4) string_to_int_show [OF assms(3)] assms(2)
    by (auto simp: exclude_main_def string_to_int_def read_loop_concat [OF assms(5)] assms(4) put_buffer_append written_def)
qed

theorem exclude_correct_witness:
  "exclude_main [''exclude'', ''in'', ''out'', ''2''] (Some [''a'' @ NL @ ''b'', NL @ ''c'' @ NL, ''d'']) (Some ''012345'')
    = Some (exits [] [] 0, Some (''a'' @ NL @ ''c'' @ NL @ ''45''))"
proof -
  have "show_nat 2 = ''2''" by code_simp
  then show ?thesis
    using exclude_correct [of 2 "[''a'' @ NL @ ''b'', NL @ ''c'' @ NL, ''d'']" "[''a'', ''b'', ''c'']" "''d''" "''exclude''" "''in''" "''out''" "''012345''"]
    by (simp add: LINE_LIMIT_def LINES_LIMIT_def)
qed

text \<open>
  \<open>exclude.c\<close> refuses to run, and leaves the output as it is, when an argument is missing, a file
  cannot be opened, or the number is zero or has something else than digits.
\<close>
theorem exclude_refuses:
  assumes "length argv < 4 \<or> input = None \<or> output = None \<or> set (argv ! 3) \<subseteq> {CHR ''0''}
    \<or> (length (argv ! 3) \<le> 9 \<and> (\<exists>c\<in>set (argv ! 3). \<not> isdigit c))"
  shows "exclude_main argv input output = Some (usage, output)"
proof -
  have z: "string_to_int_from 0 s = Some (Inr 0)" if "set s \<subseteq> {CHR ''0''}" for s
    using that by (induction s) (simp_all add: isdigit_def digit_val_def Let_def)
  have u: "string_to_int_from a s = Some (Inl usage)"
    if "0 \<le> a" "a < 10 ^ m" "m + length s \<le> 9" "\<exists>c\<in>set s. \<not> isdigit c" for s a m
    using that
  proof (induction s arbitrary: a m)
    case (Cons c s)
    show ?case
    proof (cases "isdigit c")
      case True
      then have d: "0 \<le> digit_val c" "digit_val c \<le> 9" by (auto simp: isdigit_def digit_val_def)
      then have b: "a * 10 + digit_val c < 10 ^ Suc m" using Cons.prems(2) by simp
      moreover have "(10::int) ^ Suc m \<le> 10 ^ 9" using Cons.prems(3) by (intro power_increasing) auto
      ultimately have "\<not> (a * 10 \<ge> 2 ^ 31 \<or> a * 10 + digit_val c \<ge> 2 ^ 31)" using d(1) by simp
      then show ?thesis using Cons.IH [of "a * 10 + digit_val c" "Suc m"] Cons.prems b d True by (auto simp: Let_def)
    qed simp
  qed simp
  have "length argv < 4 \<or> input = None \<or> output = None \<or> string_to_int_from 0 (argv ! 3) = Some (Inr 0)
      \<or> string_to_int_from 0 (argv ! 3) = Some (Inl usage)"
    using assms z [of "argv ! 3"] u [of 0 0 "argv ! 3"] by fastforce
  then show ?thesis by (elim disjE) (simp_all add: exclude_main_def string_to_int_def)
qed

theorem exclude_refuses_witness:
  "exclude_main [''exclude'', ''in'', ''out'', ''1x''] (Some [NL]) (Some []) = Some (usage, Some [])"
  by (rule exclude_refuses) (simp add: isdigit_def)

end
