(* ===== verification/C_Files.thy ===== *)
theory C_Files
  imports Prelude
begin

text \<open>
  Text files in the C library: \<open>fgets\<close> and the lines a file is read as, \<open>sscanf\<close> on a list of
  conversions, the widths of \<open>printf\<close>. A file is its characters, without NUL. The lemmas on \<open>scan\<close>
  peel one conversion off and keep the rest of the input; the collection \<open>scanf\<close> has them.
\<close>

named_theorems scanf \<open>one conversion of sscanf on its printed form\<close>

subsection \<open>Lines\<close>

fun fgets :: "nat \<Rightarrow> string \<Rightarrow> string" where
  "fgets 0 inp = []"
| "fgets (Suc n) [] = []"
| "fgets (Suc n) (c # cs) = c # (if c = CHR 0x0A then [] else fgets n cs)"

lemma fgets_prefix: "fgets n inp = take (length (fgets n inp)) inp" "length (fgets n inp) \<le> n"
  by (induction n inp rule: fgets.induct) auto

lemma fgets_nonempty: "0 < n \<Longrightarrow> inp \<noteq> [] \<Longrightarrow> fgets n inp \<noteq> []"
  by (cases n; cases inp) auto

text \<open>What successive calls of \<open>fgets(line, bufsize, fp)\<close> deliver.\<close>

function file_lines :: "nat \<Rightarrow> string \<Rightarrow> string list" where
  "file_lines bufsize inp = (if inp = [] \<or> bufsize < 2 then [] else
     let line = fgets (bufsize - 1) inp in line # file_lines bufsize (drop (length line) inp))"
  by pat_completeness auto
termination
proof (relation "measure (\<lambda>(bufsize, inp). length inp)")
  fix bufsize and inp line :: string assume "\<not> (inp = [] \<or> bufsize < 2)" "line = fgets (bufsize - 1) inp"
  then have "line \<noteq> []" "inp \<noteq> []" by (simp_all add: fgets_nonempty)
  then show "((bufsize, drop (length line) inp), bufsize, inp) \<in> measure (\<lambda>(bufsize, inp). length inp)" by simp
qed simp

declare file_lines.simps [simp del]

lemma file_lines_Nil [simp]: "file_lines bufsize [] = []"
  by (simp add: file_lines.simps)

lemma file_lines_short: "line \<in> set (file_lines bufsize inp) \<Longrightarrow> line \<noteq> [] \<and> length line \<le> bufsize - 1"
proof (induction bufsize inp rule: file_lines.induct)
  case (1 bufsize inp)
  show ?case
  proof (cases "inp = [] \<or> bufsize < 2")
    case True
    then show ?thesis using 1(2) by (subst (asm) file_lines.simps) auto
  next
    case False
    then have "line = fgets (bufsize - 1) inp \<or> line \<in> set (file_lines bufsize (drop (length (fgets (bufsize - 1) inp)) inp))"
      using 1(2) by (subst (asm) file_lines.simps) (simp add: Let_def)
    moreover have "fgets (bufsize - 1) inp \<noteq> []" using False by (simp add: fgets_nonempty)
    ultimately show ?thesis using 1(1) [OF False refl] fgets_prefix(2) [of "bufsize - 1" inp] by metis
  qed
qed

lemma file_lines_line:
  assumes "CHR 0x0A \<notin> set l" "length l + 1 < bufsize"
  shows "file_lines bufsize (l @ CHR 0x0A # rest) = (l @ NL) # file_lines bufsize rest"
proof -
  have "fgets n (l @ CHR 0x0A # rest) = l @ NL" if "length l < n" for n
    using assms(1) that
  proof (induction l arbitrary: n)
    case Nil
    then show ?case by (cases n) simp_all
  next
    case (Cons c l)
    then show ?case by (cases n) auto
  qed
  then have "fgets (bufsize - 1) (l @ CHR 0x0A # rest) = l @ NL" using assms(2) by simp
  then show ?thesis using assms(2) by (subst file_lines.simps) (simp add: Let_def)
qed

text \<open>A file of lines that each fit into the buffer is read line by line.\<close>

lemma file_lines_concat:
  "\<forall>l\<in>set ls. CHR 0x0A \<notin> set l \<and> length l + 1 < bufsize \<Longrightarrow> file_lines bufsize (concat (map (\<lambda>l. l @ NL) ls)) = map (\<lambda>l. l @ NL) ls"
  by (induction ls) (simp_all add: file_lines_line)

definition starts_with :: "string \<Rightarrow> string \<Rightarrow> bool" where
  "starts_with p line \<longleftrightarrow> take (length p) line = p"

lemma starts_with_append [simp]: "starts_with p (p @ r)"
  by (simp add: starts_with_def)

subsection \<open>\<open>sscanf\<close>\<close>

text \<open>
  A format: a character that has to match, white space, a number of 32 or 64 bits, a word of at most
  \<open>w\<close> characters, a single character. The result is the list of the values assigned before the first
  conversion that fails.
\<close>

datatype conversion = Lit char | Blank | Num nat | Str nat | Chr

datatype scanned = Number int | Text string | Character char

definition lits :: "string \<Rightarrow> conversion list" where "lits s = map Lit s"

text \<open>The library reads a number as a \<open>long\<close>, saturating, and stores it at its width.\<close>

definition store_num :: "nat \<Rightarrow> int \<Rightarrow> int" where
  "store_num w x = (if w = 32 then to_int32 (sat_long x) else sat_long x)"

definition scan_number :: "string \<Rightarrow> (int \<times> string) option" where
  "scan_number s = (let neg = (s \<noteq> [] \<and> hd s = CHR ''-'');
       t = (if s \<noteq> [] \<and> (hd s = CHR ''-'' \<or> hd s = CHR ''+'') then tl s else s)
     in if t \<noteq> [] \<and> isdigit (hd t)
        then Some ((if neg then - digits_val 0 t else digits_val 0 t), dropWhile isdigit t) else None)"

fun scan :: "conversion list \<Rightarrow> string \<Rightarrow> scanned list" where
  "scan [] s = []"
| "scan (Lit c # f) s = (if s \<noteq> [] \<and> hd s = c then scan f (tl s) else [])"
| "scan (Blank # f) s = scan f (dropWhile isspace s)"
| "scan (Num w # f) s = (case scan_number (dropWhile isspace s) of None \<Rightarrow> []
     | Some (x, rest) \<Rightarrow> Number (store_num w x) # scan f rest)"
| "scan (Str w # f) s = (let t = dropWhile isspace s; word = take w (takeWhile (\<lambda>c. \<not> isspace c) t)
     in if word = [] then [] else Text word # scan f (drop (length word) t))"
| "scan (Chr # f) s = (if s = [] then [] else Character (hd s) # scan f (tl s))"

lemma scan_lits [scanf]: "scan (lits p @ f) (p @ s) = scan f s"
  by (induction p) (simp_all add: lits_def)

lemma digits_val_snoc: "isdigit d \<Longrightarrow> digits_val a (s @ d # r) = (if \<forall>c\<in>set s. isdigit c then digits_val (10 * digits_val a s + digit_val d) r else digits_val a s)"
  by (induction s arbitrary: a) auto

lemma digits_val_stop: "r = [] \<or> \<not> isdigit (hd r) \<Longrightarrow> digits_val a r = a"
  by (cases r) auto

lemma digit_char: "k < 10 \<Longrightarrow> isdigit (char_of (48 + k :: nat)) \<and> digit_val (char_of (48 + k :: nat)) = int k"
  by (simp add: isdigit_def digit_val_def)

lemma show_nat_digits: "(\<forall>c\<in>set (show_nat n). isdigit c) \<and> show_nat n \<noteq> []"
proof (induction n rule: show_nat.induct)
  case (1 n)
  then show ?case using digit_char [of n] digit_char [of "n mod 10"] by (subst (1 2) show_nat.simps) auto
qed

lemma digits_val_show: "r = [] \<or> \<not> isdigit (hd r) \<Longrightarrow> digits_val 0 (show_nat n @ r) = int n"
proof (induction n arbitrary: r rule: show_nat.induct)
  case (1 n)
  show ?case
  proof (cases "n < 10")
    case True
    then show ?thesis using digit_char [of n] 1(2) by (subst show_nat.simps) (auto simp: digits_val_stop)
  next
    case False
    let ?d = "char_of (48 + n mod 10)"
    have "digits_val 0 (show_nat (n div 10)) = int (n div 10)" using 1(1) [OF False, of "[]"] by simp
    moreover have "10 * int (n div 10) + int (n mod 10) = int n" by presburger
    ultimately show ?thesis using False digit_char [of "n mod 10"] 1(2) show_nat_digits [of "n div 10"]
      by (subst show_nat.simps) (simp add: digits_val_snoc digits_val_stop)
  qed
qed

lemma digit_not_space: "isdigit c \<Longrightarrow> \<not> isspace c \<and> c \<noteq> CHR ''-'' \<and> c \<noteq> CHR ''+''"
  by (auto simp: isdigit_def isspace_def)

text \<open>Blanks in front of something else.\<close>

lemma skip_blanks: "\<forall>c\<in>set b. isspace c \<Longrightarrow> t = [] \<or> \<not> isspace (hd t) \<Longrightarrow> dropWhile isspace (b @ t) = t"
  by (induction b) (cases t; auto)+

lemma scan_number_show:
  assumes "r = [] \<or> \<not> isdigit (hd r)"
  shows "scan_number (show_nat n @ r) = Some (int n, r)"
proof -
  have d: "\<forall>c\<in>set (show_nat n). isdigit c" "show_nat n \<noteq> []" using show_nat_digits [of n] by auto
  then have h: "isdigit (hd (show_nat n @ r))" by simp
  have "dropWhile isdigit (show_nat n @ r) = r" using d(1) assms by (cases r) (simp_all add: dropWhile_append2 dropWhile_append)
  then show ?thesis using h d(2) digit_not_space [OF h] digits_val_show [OF assms, of n] by (auto simp: scan_number_def Let_def)
qed

lemma scan_Num [scanf]:
  assumes "\<forall>c\<in>set b. isspace c" "r = [] \<or> \<not> isdigit (hd r)"
  shows "scan (Blank # Num w # f) (b @ show_nat n @ r) = Number (store_num w (int n)) # scan f r"
proof -
  have d: "isdigit (hd (show_nat n))" "show_nat n \<noteq> []" using show_nat_digits [of n] by auto
  then have h: "\<not> isspace (hd (show_nat n @ r))" using digit_not_space [of "hd (show_nat n)"] by simp
  then have "dropWhile isspace (b @ show_nat n @ r) = show_nat n @ r" using skip_blanks [OF assms(1)] by blast
  moreover have "dropWhile isspace (show_nat n @ r) = show_nat n @ r" using skip_blanks [of "[]"] h by simp
  ultimately show ?thesis using scan_number_show [OF assms(2), of n] by simp
qed

lemma scan_Str [scanf]:
  assumes "\<forall>c\<in>set b. isspace c" "word \<noteq> []" "\<forall>c\<in>set word. \<not> isspace c" "length word \<le> w" "r = [] \<or> isspace (hd r)"
  shows "scan (Blank # Str w # f) (b @ word @ r) = Text word # scan f r"
proof -
  have h: "\<not> isspace (hd (word @ r))" using assms(2,3) by simp
  then have "dropWhile isspace (b @ word @ r) = word @ r" using skip_blanks [OF assms(1)] by blast
  moreover have "dropWhile isspace (word @ r) = word @ r" using skip_blanks [of "[]"] h by simp
  moreover have "takeWhile (\<lambda>c. \<not> isspace c) (word @ r) = word" using assms(3,5) by (cases r) (simp_all add: takeWhile_append2)
  moreover have "w \<noteq> 0" using assms(2,4) by (cases word) auto
  ultimately show ?thesis using assms(2,4) by simp
qed

lemma scan_Chr [scanf]: "\<forall>c\<in>set b. isspace c \<Longrightarrow> \<not> isspace c \<Longrightarrow> scan (Blank # Chr # f) (b @ c # r) = Character c # scan f r"
  by (simp add: skip_blanks)

text \<open>A literal prefix is passed or ends the scan.\<close>

lemma scan_lits_cases: "scan (lits p @ f) s = [] \<or> (\<exists>s'. scan (lits p @ f) s = scan f s')"
  by (induction p arbitrary: s) (auto simp: lits_def)

lemma store_num_id: "w = 32 \<Longrightarrow> 0 \<le> x \<Longrightarrow> x < 2 ^ 31 \<Longrightarrow> store_num w x = x"
  by (simp add: store_num_def sat_long_def to_int32_id)

lemma store_num_long: "w = 64 \<Longrightarrow> 0 \<le> x \<Longrightarrow> x < 2 ^ 63 \<Longrightarrow> store_num w x = x"
  by (simp add: store_num_def sat_long_def)

end
