(* ===== verification/Stash.thy ===== *)
theory Stash
  imports C_Files
begin

text \<open>
  The shell, \<open>assignments/hw1/stash.c\<close>. The words of a command are strings on the heap behind an
  array of pointers; a slot of the array is not set, NULL, a string, or a string already freed, and
  using the wrong one is \<open>None\<close>. What the system calls return is an input (\<open>reply\<close>, one for every
  line of the input), what the shell does is a list of events, in order; the buffering of the
  output is not modelled. \<open>fork\<close> gives the view of either process.

  Proved: the array is large enough for every line; on the lines it can take, the shell does what
  the words of each line say (\<open>line_meaning\<close>); on the two kinds it cannot take, it uses words of
  an earlier line.
\<close>

definition MAX_COMMAND_LEN :: nat where "MAX_COMMAND_LEN = 1024"

definition MAX_WORDS :: nat where "MAX_WORDS = 514"

datatype slot = Unset | Null | Word string | Freed

datatype event = Put string | Chdir string | Exec "string list" | Wait int

record shell =
  commands :: "nat \<Rightarrow> slot"
  older_sibling :: int
  events :: "event list"

text \<open>The results of \<open>chdir\<close>, \<open>waitpid\<close> with WNOHANG, and \<open>fork\<close>; whether \<open>execvp\<close> succeeds.\<close>

record reply =
  chdir_result :: int
  polled :: int
  fork_id :: int
  exec_ok :: bool

text \<open>How the process ends: by \<open>exit\<close>, or as another program.\<close>

datatype ending = Exited int | Replaced

definition say :: "event \<Rightarrow> shell \<Rightarrow> shell" where
  "say e s = s\<lparr>events := events s @ [e]\<rparr>"

definition invalid :: "shell \<Rightarrow> shell" where
  "invalid s = say (Put (''Invalid command'' @ NL)) s"

definition prompt :: string where "prompt = ''stash> ''"

text \<open>\<open>sscanf(line, "%99s%n", str, &offset)\<close>, and \<open>parseCommand\<close>.\<close>

definition scan_word :: "string \<Rightarrow> (string \<times> nat) option" where
  "scan_word line = (let t = dropWhile isspace line; str = take 99 (takeWhile (\<lambda>c. \<not> isspace c) t)
     in if str = [] then None else Some (str, (length line - length t) + length str))"

fun parse_loop :: "nat \<Rightarrow> nat \<Rightarrow> string \<Rightarrow> (nat \<Rightarrow> slot) \<Rightarrow> nat \<times> (nat \<Rightarrow> slot)" where
  "parse_loop 0 cnt line words = (cnt, words)"
| "parse_loop (Suc room) cnt line words = (case scan_word line of
       None \<Rightarrow> (cnt, words)
     | Some (str, offset) \<Rightarrow> parse_loop room (cnt + 1) (drop offset line) (words(cnt := Word str)))"

definition parseCommand :: "string \<Rightarrow> (nat \<Rightarrow> slot) \<Rightarrow> nat \<times> (nat \<Rightarrow> slot)" where
  "parseCommand line words = parse_loop MAX_WORDS 0 line words"

definition word_at :: "(nat \<Rightarrow> slot) \<Rightarrow> nat \<Rightarrow> string option" where
  "word_at words i = (if i < MAX_WORDS then (case words i of Word w \<Rightarrow> Some w | _ \<Rightarrow> None) else None)"

definition runExit :: "nat \<Rightarrow> shell \<Rightarrow> (shell \<times> ending option) option" where
  "runExit cnt s = Option.bind (word_at (commands s) 1) (\<lambda>w.
     (case sscanf_d w of
        Some st \<Rightarrow> if cnt \<noteq> 2 then Some (invalid s, None) else Some (s, Some (Exited st))
      | None \<Rightarrow> Some (invalid s, None)))"

definition runCd :: "reply \<Rightarrow> nat \<Rightarrow> shell \<Rightarrow> (shell \<times> ending option) option" where
  "runCd r cnt s =
     (if cnt \<noteq> 2 then Some (invalid s, None)
      else Option.bind (word_at (commands s) 1) (\<lambda>w.
        let s1 = say (Chdir w) s in Some (if chdir_result r \<noteq> 0 then invalid s1 else s1, None)))"

text \<open>The arguments as \<open>execvp\<close> reads them, up to the NULL.\<close>

fun exec_args :: "nat \<Rightarrow> nat \<Rightarrow> (nat \<Rightarrow> slot) \<Rightarrow> string list option" where
  "exec_args 0 i words = None"
| "exec_args (Suc room) i words = (case words i of
       Null \<Rightarrow> Some []
     | Word w \<Rightarrow> map_option ((#) w) (exec_args room (i + 1) words)
     | _ \<Rightarrow> None)"

definition poll_sibling :: "reply \<Rightarrow> shell \<Rightarrow> shell" where
  "poll_sibling r s = (if older_sibling s > 0 \<and> polled r = older_sibling s
     then (say (Put (''['' @ show_int (older_sibling s) @ '' done]'' @ NL)) s)\<lparr>older_sibling := -1\<rparr> else s)"

definition run_child :: "reply \<Rightarrow> shell \<Rightarrow> (shell \<times> ending option) option" where
  "run_child r s = Option.bind (exec_args MAX_WORDS 0 (commands s)) (\<lambda>args.
     let s1 = say (Exec args) s in
     if exec_ok r then Some (s1, Some Replaced)
     else Option.bind (word_at (commands s) 0) (\<lambda>w.
       Some (say (Put (''Can't run command '' @ w @ NL)) s1, None)))"

definition run_parent :: "reply \<Rightarrow> bool \<Rightarrow> shell \<Rightarrow> shell" where
  "run_parent r background s =
     (if background then say (Put (''id ['' @ show_int (fork_id r) @ '']'' @ NL)) (s\<lparr>older_sibling := fork_id r\<rparr>)
      else say (Wait (fork_id r)) s)"

definition runCommand :: "reply \<Rightarrow> nat \<Rightarrow> shell \<Rightarrow> (shell \<times> ending option) option" where
  "runCommand r cnt0 s = (if cnt0 = 0 then None else
     Option.bind (word_at (commands s) (cnt0 - 1)) (\<lambda>w.
       let background = (w \<noteq> [] \<and> hd w = CHR ''&'');
           cnt = (if background then cnt0 - 1 else cnt0);
           s1 = poll_sibling r s;
           s2 = (if fork_id r = -1 then say (Put (''Can't create child'' @ NL)) s1 else s1)
       in if cnt \<ge> MAX_WORDS then None else
         (let s3 = s2\<lparr>commands := (commands s2)(cnt := Null)\<rparr>
          in if fork_id r = 0 then run_child r s3 else Some (run_parent r background s3, None))))"

text \<open>The end of the loop: the words are freed; then the loop of \<open>main\<close>, one line of input at a time.\<close>

fun free_words :: "nat \<Rightarrow> nat \<Rightarrow> (nat \<Rightarrow> slot) \<Rightarrow> (nat \<Rightarrow> slot) option" where
  "free_words i 0 words = Some words"
| "free_words i (Suc n) words = (case words i of
       Null \<Rightarrow> free_words (i + 1) n words
     | Word w \<Rightarrow> free_words (i + 1) n (words(i := Freed))
     | _ \<Rightarrow> None)"

definition run_line :: "reply \<Rightarrow> string \<Rightarrow> shell \<Rightarrow> (shell \<times> ending option) option" where
  "run_line r command s =
     (if command \<noteq> [] \<and> hd command = CHR 0x0A then Some (say (Put prompt) s, None)
      else
        let (args, words) = parseCommand command (commands s); s1 = s\<lparr>commands := words\<rparr>
        in Option.bind (word_at words 0) (\<lambda>w.
           Option.bind (if w = ''cd'' then runCd r args s1
              else if w = ''exit'' then runExit args s1
              else runCommand r args s1) (\<lambda>(s2, e).
           (case e of
              Some x \<Rightarrow> Some (s2, Some x)
            | None \<Rightarrow> let s3 = say (Put prompt) s2 in
                map_option (\<lambda>ws. (s3\<lparr>commands := ws\<rparr>, None)) (free_words 0 args (commands s3))))))"

definition input_lines :: "string \<Rightarrow> string list" where
  "input_lines inp = file_lines MAX_COMMAND_LEN inp"

fun stash_loop :: "(nat \<Rightarrow> reply) \<Rightarrow> nat \<Rightarrow> string list \<Rightarrow> shell \<Rightarrow> (shell \<times> ending) option" where
  "stash_loop r n [] s = Some (s, Exited EXIT_SUCCESS)"
| "stash_loop r n (command # rest) s = Option.bind (run_line (r n) command s) (\<lambda>(s1, e).
     (case e of Some x \<Rightarrow> Some (s1, x) | None \<Rightarrow> stash_loop r (n + 1) rest s1))"

definition stash_start :: shell where
  "stash_start = \<lparr>commands = (\<lambda>_. Unset), older_sibling = -1, events = [Put prompt]\<rparr>"

definition stash_main :: "(nat \<Rightarrow> reply) \<Rightarrow> string \<Rightarrow> (event list \<times> ending) option" where
  "stash_main r inp = map_option (\<lambda>(s, e). (events s, e)) (stash_loop r 0 (input_lines inp) stash_start)"

subsection \<open>The words of a line\<close>

lemma scan_wordD:
  assumes "scan_word line = Some (str, offset)"
  shows "str \<noteq> []" "0 < offset" "offset \<le> length line" "length str \<le> offset"
proof -
  let ?t = "dropWhile isspace line"
  have s: "str = take 99 (takeWhile (\<lambda>c. \<not> isspace c) ?t)" "str \<noteq> []" "offset = (length line - length ?t) + length str"
    using assms by (auto simp: scan_word_def Let_def split: if_splits)
  have "length ?t \<le> length line" "length str \<le> length ?t"
    using s(1) length_takeWhile_le [of "\<lambda>c. \<not> isspace c" ?t] by (simp_all add: length_dropWhile_le)
  then show "str \<noteq> []" "0 < offset" "offset \<le> length line" "length str \<le> offset" using s(2,3) by (cases str; simp)+
qed

function line_words :: "string \<Rightarrow> string list" where
  "line_words line = (case scan_word line of None \<Rightarrow> [] | Some (str, offset) \<Rightarrow> str # line_words (drop offset line))"
  by pat_completeness auto
termination
proof (relation "measure length")
  fix line p str offset assume "scan_word line = Some p" "(str, offset) = p"
  then have "scan_word line = Some (str, offset)" by simp
  from scan_wordD [OF this] show "(drop offset line, line) \<in> measure length" by simp
qed simp

declare line_words.simps [simp del]

lemma parse_loop_words:
  "length (line_words line) \<le> room \<Longrightarrow> parse_loop room c line words =
     (c + length (line_words line), \<lambda>i. if c \<le> i \<and> i < c + length (line_words line) then Word (line_words line ! (i - c)) else words i)"
proof (induction room arbitrary: c line words)
  case 0
  then show ?case by (auto intro!: ext)
next
  case (Suc room)
  show ?case
  proof (cases "scan_word line")
    case None
    then show ?thesis by (auto simp: line_words.simps [of line] intro!: ext)
  next
    case (Some p)
    then obtain str offset where p: "scan_word line = Some (str, offset)" by (cases p) auto
    then have w: "line_words line = str # line_words (drop offset line)" by (simp add: line_words.simps [of line])
    have nth: "(str # ws) ! (i - c) = ws ! (i - Suc c)" if "Suc c \<le> i" for i and ws :: "string list"
      using that Suc_diff_Suc [of c i] by (metis Suc_le_lessD nth_Cons_Suc)
    show ?thesis using Suc.IH [of "drop offset line" "Suc c"] Suc.prems p by (auto simp: w nth intro!: ext)
  qed
qed

lemma line_words_space: "isspace c \<Longrightarrow> line_words (c # line) = line_words line"
proof -
  assume c: "isspace c"
  have "length (dropWhile isspace line) \<le> length line" by (rule length_dropWhile_le)
  then have "Suc (length line + k) - length (dropWhile isspace line) = Suc (length line + k - length (dropWhile isspace line))" for k by simp
  from this this [of 0] have "Suc (length line + k) - length (dropWhile isspace line) = Suc (length line + k - length (dropWhile isspace line))"
    "Suc (length line) - length (dropWhile isspace line) = Suc (length line - length (dropWhile isspace line))" for k by simp_all
  then have "scan_word (c # line) = (case scan_word line of None \<Rightarrow> None | Some (str, offset) \<Rightarrow> Some (str, Suc offset))"
    using c by (simp add: scan_word_def Let_def Suc_diff_le)
  then show ?thesis by (subst (1 2) line_words.simps) (simp split: option.split)
qed

lemma line_words_spaces: "\<forall>c\<in>set b. isspace c \<Longrightarrow> line_words (b @ line) = line_words line"
  by (induction b) (simp_all add: line_words_space)

lemma line_words_word:
  assumes "w \<noteq> []" "\<forall>c\<in>set w. \<not> isspace c" "length w \<le> 99" "isspace b"
  shows "line_words (w @ b # line) = w # line_words line"
proof -
  have "dropWhile isspace (w @ b # line) = w @ b # line" using assms(1,2) by (cases w) auto
  moreover have "takeWhile (\<lambda>c. \<not> isspace c) (w @ b # line) = w" using assms(2,4) by (simp add: takeWhile_append2)
  ultimately have "scan_word (w @ b # line) = Some (w, length w)" using assms(1,3) by (simp add: scan_word_def)
  then show ?thesis using assms(4) by (subst line_words.simps) (simp add: line_words_space)
qed

text \<open>A word is followed by a blank or the end of the line, or it has 99 characters.\<close>

lemma scan_word_rest:
  assumes "scan_word line = Some (str, offset)"
  shows "length str = 99 \<or> drop offset line = [] \<or> isspace (hd (drop offset line))"
proof -
  let ?t = "dropWhile isspace line" and ?P = "\<lambda>c. \<not> isspace c"
  have s: "str = take 99 (takeWhile ?P ?t)" "offset = (length line - length ?t) + length str"
    using assms by (auto simp: scan_word_def Let_def split: if_splits)
  have d: "drop offset line = drop (length str) ?t"
    using s(2) dropWhile_eq_drop [of isspace line] length_dropWhile_le [of isspace line]
    by (metis drop_drop add.commute length_drop diff_diff_cancel length_takeWhile_le)
  show ?thesis
  proof (cases "length str = 99")
    case False
    then have "str = takeWhile ?P ?t" using s(1) by (metis length_take min_def take_all linear)
    then have "drop (length str) ?t = dropWhile ?P ?t" by (metis dropWhile_eq_drop)
    then show ?thesis using d hd_dropWhile [of ?P ?t] by auto
  qed simp
qed

lemma line_words_few: "2 * length (line_words line) \<le> length line + 1"
proof (induction line rule: measure_induct_rule [of length])
  case (less line)
  show ?case
  proof (cases "scan_word line")
    case None
    then show ?thesis by (simp add: line_words.simps [of line])
  next
    case (Some p)
    then obtain str offset where p: "scan_word line = Some (str, offset)" by (cases p) auto
    let ?r = "drop offset line"
    have w: "length (line_words line) = Suc (length (line_words ?r))" using p by (simp add: line_words.simps [of line])
    have o: "0 < offset" "offset \<le> length line" "length str \<le> offset" using scan_wordD [OF p] by auto
    consider "length str = 99" | "?r = []" | c r where "?r = c # r" "isspace c"
      using scan_word_rest [OF p] by (cases ?r) auto
    then show ?thesis
    proof cases
      case 1
      then have "2 * length (line_words ?r) \<le> length ?r + 1" using o by (intro less) simp
      then show ?thesis using w o 1 by simp
    next
      case 2
      then have "line_words ?r = []" by (simp add: line_words.simps scan_word_def)
      then show ?thesis using w o by simp
    next
      case 3
      have l: "length line = offset + Suc (length r)" using arg_cong [OF 3(1), of length] o(2) by simp
      then have "2 * length (line_words r) \<le> length r + 1" by (intro less) simp
      then show ?thesis using w l o(1) 3 by (simp add: line_words_space)
    qed
  qed
qed

lemma input_words_fit: "line \<in> set (input_lines inp) \<Longrightarrow> length (line_words line) < MAX_WORDS"
  using file_lines_short [of line MAX_COMMAND_LEN inp] line_words_few [of line]
  by (simp add: input_lines_def MAX_COMMAND_LEN_def MAX_WORDS_def)

text \<open>
  The array of words is large enough: no line that \<open>fgets\<close> delivers has more than 512 words, so
  that the NULL behind the last one is inside too.
\<close>
theorem stash_words_fit:
  assumes "line \<in> set (input_lines inp)"
  shows "fst (parseCommand line words) \<le> 512 \<and> fst (parseCommand line words) + 1 < MAX_WORDS"
  using file_lines_short [OF assms [unfolded input_lines_def]] line_words_few [of line] input_words_fit [OF assms]
  by (simp add: parseCommand_def parse_loop_words MAX_COMMAND_LEN_def MAX_WORDS_def)

theorem stash_words_fit_witness: "fst (parseCommand (''ls -l &'' @ NL) (\<lambda>_. Unset)) \<le> 512"
  using stash_words_fit [of "''ls -l &'' @ NL" "''ls -l &'' @ NL" "\<lambda>_. Unset"]
    file_lines_line [of "''ls -l &''" MAX_COMMAND_LEN "[]"] by (simp add: input_lines_def MAX_COMMAND_LEN_def)

text \<open>
  Words of at most 99 characters, separated and followed by blanks, are what \<open>parseCommand\<close> puts
  into the array, in their order.
\<close>
theorem parseCommand_words:
  assumes "\<forall>(w, b)\<in>set ws. w \<noteq> [] \<and> length w \<le> 99 \<and> (\<forall>c\<in>set w. \<not> isspace c) \<and> b \<noteq> [] \<and> (\<forall>c\<in>set b. isspace c)"
    "length ws \<le> MAX_WORDS" "\<forall>c\<in>set lead. isspace c"
  shows "parseCommand (lead @ concat (map (\<lambda>(w, b). w @ b) ws)) words
    = (length ws, \<lambda>i. if i < length ws then Word (fst (ws ! i)) else words i)"
proof -
  have "line_words (concat (map (\<lambda>(w, b). w @ b) ws)) = map fst ws" using assms(1)
  proof (induction ws)
    case Nil
    then show ?case by (simp add: line_words.simps scan_word_def)
  next
    case (Cons p ws)
    obtain w c b where p: "p = (w, c # b)" using Cons.prems by (cases p; cases "snd p") auto
    then show ?case using Cons line_words_word [of w c] line_words_spaces [of b] by simp
  qed
  then show ?thesis using assms(2,3)
    by (auto simp: parseCommand_def line_words_spaces parse_loop_words intro!: ext)
qed

theorem parseCommand_words_witness:
  "parseCommand (''  ls -l'' @ NL) (\<lambda>_. Unset) = (2, \<lambda>i. if i < 2 then Word ([''ls'', ''-l''] ! i) else Unset)"
proof -
  have "fst ([(''ls'', '' ''), (''-l'', NL)] ! i) = [''ls'', ''-l''] ! i" if "i < 2" for i
    using that by (cases i) auto
  then show ?thesis using parseCommand_words [of "[(''ls'', '' ''), (''-l'', NL)]" "''  ''" "\<lambda>_. Unset"]
    by (auto simp: isspace_def MAX_WORDS_def numeral_2_eq_2 intro!: ext)
qed

subsection \<open>What a line means\<close>

text \<open>
  The effect of a line, from its words: the events, the background child remembered, the end of
  the process. A line is usable when it has words, is not only \<open>exit\<close>, and leaves a command to run.
\<close>

definition is_background :: "string list \<Rightarrow> bool" where
  "is_background ws \<longleftrightarrow> hd (last ws) = CHR ''&''"

definition command_of :: "string list \<Rightarrow> string list" where
  "command_of ws = (if is_background ws then butlast ws else ws)"

definition usable :: "reply \<Rightarrow> string list \<Rightarrow> bool" where
  "usable r ws \<longleftrightarrow> ws \<noteq> [] \<and> ws \<noteq> [''exit''] \<and> (fork_id r = 0 \<longrightarrow> command_of ws \<noteq> [])"

definition bad :: "event list" where "bad = [Put (''Invalid command'' @ NL)]"

definition command_meaning :: "reply \<Rightarrow> string list \<Rightarrow> int \<Rightarrow> event list \<times> int \<times> ending option" where
  "command_meaning r ws older =
     (let finished = older > 0 \<and> polled r = older; older1 = (if finished then -1 else older);
          news = (if finished then [Put (''['' @ show_int older @ '' done]'' @ NL)] else [])
            @ (if fork_id r = -1 then [Put (''Can't create child'' @ NL)] else [])
      in if fork_id r = 0 then
           (if exec_ok r then (news @ [Exec (command_of ws)], older1, Some Replaced)
            else (news @ [Exec (command_of ws), Put (''Can't run command '' @ hd ws @ NL)], older1, None))
         else if is_background ws then (news @ [Put (''id ['' @ show_int (fork_id r) @ '']'' @ NL)], fork_id r, None)
         else (news @ [Wait (fork_id r)], older1, None))"

definition line_meaning :: "reply \<Rightarrow> string list \<Rightarrow> int \<Rightarrow> event list \<times> int \<times> ending option" where
  "line_meaning r ws older =
     (if hd ws = ''cd'' then
        (case tl ws of [d] \<Rightarrow> (Chdir d # (if chdir_result r \<noteq> 0 then bad else []), older, None) | _ \<Rightarrow> (bad, older, None))
      else if hd ws = ''exit'' then
        (case tl ws of [a] \<Rightarrow> (case sscanf_d a of Some n \<Rightarrow> ([], older, Some (Exited n)) | None \<Rightarrow> (bad, older, None))
         | _ \<Rightarrow> (bad, older, None))
      else command_meaning r ws older)"

fun session_meaning :: "(nat \<Rightarrow> reply) \<Rightarrow> nat \<Rightarrow> string list \<Rightarrow> int \<Rightarrow> event list \<times> ending" where
  "session_meaning r n [] older = ([], Exited EXIT_SUCCESS)"
| "session_meaning r n (line # rest) older =
     (if hd line = CHR 0x0A then
        (let (ev, x) = session_meaning r (n + 1) rest older in (Put prompt # ev, x))
      else
        (let (ev, older1, e) = line_meaning (r n) (line_words line) older
         in case e of Some x \<Rightarrow> (ev, x)
           | None \<Rightarrow> (let (ev1, x) = session_meaning r (n + 1) rest older1 in (ev @ Put prompt # ev1, x))))"

subsection \<open>The array holds the words\<close>

definition holds :: "(nat \<Rightarrow> slot) \<Rightarrow> string list \<Rightarrow> bool" where
  "holds words ws \<longleftrightarrow> (\<forall>i<length ws. words i = Word (ws ! i)) \<and> length ws < MAX_WORDS"

lemma holds_word_at: "holds words ws \<Longrightarrow> i < length ws \<Longrightarrow> word_at words i = Some (ws ! i)"
  by (simp add: holds_def word_at_def)

lemma exec_args_words:
  "words i = Null \<Longrightarrow> \<forall>j<length ws. words (i' + j) = Word (ws ! j) \<Longrightarrow> i = i' + length ws \<Longrightarrow> length ws < room
    \<Longrightarrow> exec_args room i' words = Some ws"
proof (induction ws arbitrary: i' room)
  case Nil
  then show ?case by (cases room) auto
next
  case (Cons w ws)
  obtain m where m: "room = Suc m" using Cons.prems(4) by (cases room) auto
  have "words i' = Word w" using Cons.prems(2) [rule_format, of 0] by simp
  moreover have "\<forall>j<length ws. words (Suc i' + j) = Word (ws ! j)" using Cons.prems(2) by force
  ultimately show ?case using Cons.IH [of "Suc i'" m] Cons.prems m by simp
qed

text \<open>Slots that are set can be freed, and then no slot holds a word that was among them.\<close>

lemma free_words_ok:
  assumes "\<forall>j<n. words (i + j) = Null \<or> (\<exists>w. words (i + j) = Word w)"
  shows "\<exists>ws. free_words i n words = Some ws \<and> (\<forall>j w. ws j = Word w \<longrightarrow> words j = Word w \<and> \<not> (i \<le> j \<and> j < i + n))"
  using assms
proof (induction n arbitrary: i words)
  case (Suc n)
  have h: "words i = Null \<or> (\<exists>w. words i = Word w)" using Suc.prems [rule_format, of 0] by simp
  define words1 where "words1 = (if words i = Null then words else words(i := Freed))"
  have "\<forall>j<n. words1 (Suc i + j) = Null \<or> (\<exists>w. words1 (Suc i + j) = Word w)"
  proof (intro allI impI)
    fix j assume "j < n"
    then show "words1 (Suc i + j) = Null \<or> (\<exists>w. words1 (Suc i + j) = Word w)"
      using Suc.prems [rule_format, of "Suc j"] by (simp add: words1_def)
  qed
  then obtain ws where ws: "free_words (Suc i) n words1 = Some ws"
      "\<forall>j w. ws j = Word w \<longrightarrow> words1 j = Word w \<and> \<not> (Suc i \<le> j \<and> j < Suc i + n)"
    using Suc.IH [of words1 "Suc i"] by blast
  have "free_words i (Suc n) words = Some ws" using ws(1) h by (auto simp: words1_def)
  moreover have "\<forall>j w. ws j = Word w \<longrightarrow> words j = Word w \<and> \<not> (i \<le> j \<and> j < i + Suc n)"
  proof (intro allI impI)
    fix j w assume "ws j = Word w"
    then have "words1 j = Word w" "\<not> (Suc i \<le> j \<and> j < Suc i + n)" using ws(2) by blast+
    then show "words j = Word w \<and> \<not> (i \<le> j \<and> j < i + Suc n)" using h by (cases "j = i") (auto simp: words1_def split: if_splits)
  qed
  ultimately show ?case by blast
qed simp

lemma runCd_meaning:
  assumes "holds (commands s) ws" "ws \<noteq> []" "hd ws = ''cd''" "line_meaning r ws (older_sibling s) = (ev, o1, e)"
  shows "runCd r (length ws) s = Some (s\<lparr>events := events s @ ev, older_sibling := o1\<rparr>, e)"
proof (cases "length ws = 2")
  case True
  then obtain a b where "ws = [a, b]" by (auto simp: numeral_2_eq_2 length_Suc_conv)
  then show ?thesis using assms holds_word_at [OF assms(1), of 1]
    by (auto simp: runCd_def line_meaning_def say_def invalid_def bad_def Let_def)
next
  case False
  then show ?thesis using assms
    by (auto simp: runCd_def line_meaning_def say_def invalid_def bad_def Let_def neq_Nil_conv split: list.splits)
qed

lemma runExit_meaning:
  assumes "holds (commands s) ws" "ws \<noteq> []" "hd ws = ''exit''" "ws \<noteq> [''exit'']" "line_meaning r ws (older_sibling s) = (ev, o1, e)"
  shows "runExit (length ws) s = Some (s\<lparr>events := events s @ ev, older_sibling := o1\<rparr>, e)"
proof -
  obtain b rest where w: "ws = ''exit'' # b # rest" using assms(2-4) by (cases ws; cases "tl ws") auto
  then show ?thesis using assms(5) holds_word_at [OF assms(1), of 1]
    by (auto simp: runExit_def line_meaning_def say_def invalid_def bad_def Let_def split: option.splits list.splits)
qed

lemma command_of_prefix: "ws \<noteq> [] \<Longrightarrow> \<exists>t. ws = command_of ws @ t \<and> length t \<le> 1"
  by (cases ws rule: rev_cases) (auto simp: command_of_def)

definition news :: "reply \<Rightarrow> int \<Rightarrow> event list" where
  "news r older = (if older > 0 \<and> polled r = older then [Put (''['' @ show_int older @ '' done]'' @ NL)] else [])
     @ (if fork_id r = -1 then [Put (''Can't create child'' @ NL)] else [])"

definition older_after :: "reply \<Rightarrow> int \<Rightarrow> int" where
  "older_after r older = (if older > 0 \<and> polled r = older then -1 else older)"

lemma news_said:
  "(let s1 = poll_sibling r s; s2 = (if fork_id r = -1 then say (Put (''Can't create child'' @ NL)) s1 else s1)
     in s2\<lparr>commands := (commands s2)(k := Null)\<rparr>)
   = s\<lparr>commands := (commands s)(k := Null), events := events s @ news r (older_sibling s), older_sibling := older_after r (older_sibling s)\<rparr>"
  by (simp add: poll_sibling_def say_def news_def older_after_def Let_def)

lemma runCommand_split:
  assumes "word_at (commands s) (length ws - 1) = Some (last ws)" "ws \<noteq> []" "last ws \<noteq> []" "length (command_of ws) < MAX_WORDS"
  shows "runCommand r (length ws) s = (let s3 = s\<lparr>commands := (commands s)(length (command_of ws) := Null),
      events := events s @ news r (older_sibling s), older_sibling := older_after r (older_sibling s)\<rparr>
     in if fork_id r = 0 then run_child r s3 else Some (run_parent r (is_background ws) s3, None))"
proof -
  have k: "(if hd (last ws) = CHR ''&'' then length ws - 1 else length ws) = length (command_of ws)"
    by (simp add: command_of_def is_background_def)
  show ?thesis unfolding news_said [symmetric]
    using assms by (simp add: runCommand_def Let_def k is_background_def del: One_nat_def)
qed

lemma runCommand_meaning:
  assumes h: "holds (commands s) ws" and ne: "ws \<noteq> []" "\<forall>w\<in>set ws. w \<noteq> []" and u: "fork_id r = 0 \<longrightarrow> command_of ws \<noteq> []"
    and m: "command_meaning r ws (older_sibling s) = (ev, o1, e)"
  shows "runCommand r (length ws) s = Some (s\<lparr>commands := (commands s)(length (command_of ws) := Null), events := events s @ ev, older_sibling := o1\<rparr>, e)"
proof -
  let ?k = "length (command_of ws)" and ?cs = "(commands s)(length (command_of ws) := Null)"
  obtain t where t: "ws = command_of ws @ t" "length t \<le> 1" using command_of_prefix [OF ne(1)] by blast
  have n: "?k < MAX_WORDS" using h by (auto simp: holds_def command_of_def)
  have "word_at (commands s) (length ws - 1) = Some (last ws)"
    using holds_word_at [OF h, of "length ws - 1"] ne(1) by (simp add: last_conv_nth)
  note split = runCommand_split [OF this ne(1) _ n, of r]
  have x: "exec_args MAX_WORDS 0 ?cs = Some (command_of ws)"
  proof (rule exec_args_words [where i = ?k])
    have "commands s j = Word (command_of ws ! j)" if "j < ?k" for j
    proof -
      have "j < length ws" "ws ! j = command_of ws ! j" using that t(1) by (metis length_append trans_less_add1, metis nth_append)
      then show ?thesis using h by (simp add: holds_def)
    qed
    then show "\<forall>j<?k. ?cs (0 + j) = Word (command_of ws ! j)" by simp
  qed (use n in auto)
  have w: "word_at ?cs 0 = Some (hd ws)" if "fork_id r = 0"
    using holds_word_at [OF h, of 0] ne(1) u that by (simp add: word_at_def hd_conv_nth split: if_splits)
  have e: "command_meaning r ws (older_sibling s) =
      (if fork_id r = 0 then
         (if exec_ok r then (news r (older_sibling s) @ [Exec (command_of ws)], older_after r (older_sibling s), Some Replaced)
          else (news r (older_sibling s) @ [Exec (command_of ws), Put (''Can't run command '' @ hd ws @ NL)], older_after r (older_sibling s), None))
       else if is_background ws then (news r (older_sibling s) @ [Put (''id ['' @ show_int (fork_id r) @ '']'' @ NL)], fork_id r, None)
       else (news r (older_sibling s) @ [Wait (fork_id r)], older_after r (older_sibling s), None))"
    by (simp add: command_meaning_def news_def older_after_def Let_def)
  show ?thesis
  proof (cases "fork_id r = 0")
    case True
    then show ?thesis using split ne m x w by (cases "exec_ok r") (auto simp: e run_child_def Let_def say_def)
  next
    case False
    then show ?thesis using split ne m by (auto simp: e run_parent_def Let_def say_def split: if_splits)
  qed
qed

lemma line_words_nonempty: "w \<in> set (line_words line) \<Longrightarrow> w \<noteq> []"
proof (induction line rule: line_words.induct)
  case (1 line)
  show ?case
  proof (cases "scan_word line")
    case None
    then show ?thesis using 1(2) by (simp add: line_words.simps [of line])
  next
    case (Some p)
    then obtain str offset where p: "scan_word line = Some (str, offset)" by (cases p) auto
    then have "w = str \<or> w \<in> set (line_words (drop offset line))" using 1(2) by (simp add: line_words.simps [of line])
    then show ?thesis using 1(1) [OF p refl] scan_wordD(1) [OF p] by auto
  qed
qed

text \<open>Between two lines no slot holds a word.\<close>

definition no_words :: "(nat \<Rightarrow> slot) \<Rightarrow> bool" where
  "no_words words \<longleftrightarrow> (\<forall>j w. words j \<noteq> Word w)"

text \<open>What one of the three commands leaves behind: the words, of which one slot may be NULL now.\<close>

definition left_words :: "(nat \<Rightarrow> slot) \<Rightarrow> (nat \<Rightarrow> slot) \<Rightarrow> nat \<Rightarrow> bool" where
  "left_words cs words k \<longleftrightarrow> cs = words \<or> (\<exists>i\<le>k. cs = words(i := Null))"

lemma left_words_free:
  assumes "left_words cs words (length ws)" "holds words ws"
  shows "\<exists>cs'. free_words 0 (length ws) cs = Some cs' \<and> ((\<forall>j\<ge>length ws. \<forall>w. words j \<noteq> Word w) \<longrightarrow> no_words cs')"
proof -
  have c: "cs j = words j \<or> cs j = Null" for j using assms(1) by (auto simp: left_words_def)
  have "\<forall>j<length ws. cs (0 + j) = Null \<or> (\<exists>w. cs (0 + j) = Word w)"
    using c assms(2) unfolding holds_def by (metis add_0)
  then obtain cs' where "free_words 0 (length ws) cs = Some cs'" "\<forall>j w. cs' j = Word w \<longrightarrow> cs j = Word w \<and> \<not> (0 \<le> j \<and> j < 0 + length ws)"
    using free_words_ok [of "length ws" cs 0] by blast
  moreover have "cs j = Word w \<longrightarrow> words j = Word w" for j w using c [of j] by auto
  ultimately show ?thesis unfolding no_words_def by (metis add_0 le0 not_le)
qed

lemma run_line_meaning:
  assumes l: "line \<noteq> []" "hd line \<noteq> CHR 0x0A" and fit: "length (line_words line) < MAX_WORDS" and u: "usable r (line_words line)"
    and m: "line_meaning r (line_words line) (older_sibling s) = (ev, o1, e)"
  shows "\<exists>cs. run_line r line s = Some (s\<lparr>commands := cs, older_sibling := o1, events := events s @ ev @ (if e = None then [Put prompt] else [])\<rparr>, e)
    \<and> (e = None \<longrightarrow> no_words (commands s) \<longrightarrow> no_words cs)"
proof -
  let ?ws = "line_words line"
  define words where "words = snd (parseCommand line (commands s))"
  have p: "parseCommand line (commands s) = (length ?ws, words)" and
    words: "words = (\<lambda>i. if i < length ?ws then Word (?ws ! i) else commands s i)"
    using fit by (auto simp: words_def parseCommand_def parse_loop_words intro!: ext)
  have h: "holds words ?ws" using fit by (simp add: holds_def words)
  let ?s1 = "s\<lparr>commands := words\<rparr>"
  have ne: "?ws \<noteq> []" "?ws \<noteq> [''exit'']" using u by (auto simp: usable_def)
  have w0: "word_at words 0 = Some (hd ?ws)" using holds_word_at [OF h, of 0] ne(1) by (simp add: hd_conv_nth)
  have "\<exists>cs. (if hd ?ws = ''cd'' then runCd r (length ?ws) ?s1 else if hd ?ws = ''exit'' then runExit (length ?ws) ?s1
      else runCommand r (length ?ws) ?s1) = Some (s\<lparr>commands := cs, events := events s @ ev, older_sibling := o1\<rparr>, e)
      \<and> left_words cs words (length ?ws)"
  proof -
    consider "hd ?ws = ''cd''" | "hd ?ws = ''exit''" | "hd ?ws \<noteq> ''cd''" "hd ?ws \<noteq> ''exit''" by blast
    then show ?thesis
    proof cases
      case 1
      then show ?thesis using runCd_meaning [of ?s1 ?ws r ev o1 e] h ne m by (auto simp: left_words_def)
    next
      case 2
      then show ?thesis using runExit_meaning [of ?s1 ?ws r ev o1 e] h ne m by (auto simp: left_words_def)
    next
      case 3
      have "length (command_of ?ws) \<le> length ?ws" by (simp add: command_of_def)
      then have "left_words (words(length (command_of ?ws) := Null)) words (length ?ws)" unfolding left_words_def by blast
      moreover have "runCommand r (length ?ws) ?s1 = Some (s\<lparr>commands := words(length (command_of ?ws) := Null), events := events s @ ev, older_sibling := o1\<rparr>, e)"
        using runCommand_meaning [of ?s1 ?ws r ev o1 e] h ne(1) line_words_nonempty u m 3 by (simp add: line_meaning_def usable_def)
      ultimately show ?thesis using 3 by auto
    qed
  qed
  then obtain cs where cs: "(if hd ?ws = ''cd'' then runCd r (length ?ws) ?s1 else if hd ?ws = ''exit'' then runExit (length ?ws) ?s1
      else runCommand r (length ?ws) ?s1) = Some (s\<lparr>commands := cs, events := events s @ ev, older_sibling := o1\<rparr>, e)"
      "left_words cs words (length ?ws)" by blast
  obtain cs' where f: "free_words 0 (length ?ws) cs = Some cs'" "(\<forall>j\<ge>length ?ws. \<forall>w. words j \<noteq> Word w) \<longrightarrow> no_words cs'"
    using left_words_free [OF cs(2) h] by blast
  have "no_words (commands s) \<longrightarrow> no_words cs'" using f(2) by (auto simp: words no_words_def)
  moreover have "run_line r line s = Some (s\<lparr>commands := if e = None then cs' else cs, older_sibling := o1,
      events := events s @ ev @ (if e = None then [Put prompt] else [])\<rparr>, e)"
    using l p w0 cs(1) f(1) by (cases e) (simp_all add: run_line_def Let_def say_def)
  ultimately show ?thesis by (intro exI [of _ "if e = None then cs' else cs"]) simp
qed

definition takes :: "reply \<Rightarrow> string \<Rightarrow> bool" where
  "takes r line \<longleftrightarrow> hd line = CHR 0x0A \<or> usable r (line_words line)"

definition line_ok :: "string \<Rightarrow> bool" where
  "line_ok line \<longleftrightarrow> line \<noteq> [] \<and> length (line_words line) < MAX_WORDS"

lemma input_lines_ok: "line \<in> set (input_lines inp) \<Longrightarrow> line_ok line"
  using file_lines_short [of line MAX_COMMAND_LEN inp] input_words_fit [of line inp] by (auto simp: line_ok_def input_lines_def)

lemma stash_loop_meaning:
  assumes "\<forall>l\<in>set ls. line_ok l" "\<forall>i<length ls. takes (r (n + i)) (ls ! i)"
  shows "\<exists>s'. stash_loop r n ls s = Some (s', snd (session_meaning r n ls (older_sibling s)))
    \<and> events s' = events s @ fst (session_meaning r n ls (older_sibling s))"
  using assms
proof (induction ls arbitrary: n s)
  case (Cons l ls)
  have rest: "\<forall>i<length ls. takes (r (n + 1 + i)) (ls ! i)" using Cons.prems(2) by force
  have t: "takes (r n) l" "line_ok l" using Cons.prems by force+
  show ?case
  proof (cases "hd l = CHR 0x0A")
    case True
    have "run_line (r n) l s = Some (say (Put prompt) s, None)" using True t(2) by (simp add: run_line_def line_ok_def)
    then show ?thesis using Cons.IH [OF _ rest, of "say (Put prompt) s"] Cons.prems(1) True
      by (auto simp: say_def split: prod.splits)
  next
    case False
    obtain ev o1 e where m: "line_meaning (r n) (line_words l) (older_sibling s) = (ev, o1, e)" by (rule prod_cases3)
    obtain cs where cs: "run_line (r n) l s = Some (s\<lparr>commands := cs, older_sibling := o1, events := events s @ ev @ (if e = None then [Put prompt] else [])\<rparr>, e)"
      using run_line_meaning [of l "r n" s ev o1 e] False t m by (auto simp: takes_def line_ok_def)
    show ?thesis
    proof (cases e)
      case None
      then show ?thesis using cs m False Cons.prems(1)
          Cons.IH [OF _ rest, of "s\<lparr>commands := cs, older_sibling := o1, events := events s @ ev @ [Put prompt]\<rparr>"]
        by (auto split: prod.splits)
    next
      case (Some x)
      then show ?thesis using cs m False by simp
    qed
  qed
qed simp

text \<open>
  C21: On lines it can take, the shell does exactly what the words of each line mean, in order, with
  a prompt after each, until a line ends it or the input does: parsing into the array, the NULL, the
  background child and the freeing never get in each other's way.
\<close>
theorem stash_runs:
  assumes "\<forall>i<length (input_lines inp). takes (r i) (input_lines inp ! i)"
  shows "stash_main r inp = (let (ev, x) = session_meaning r 0 (input_lines inp) (-1) in Some (Put prompt # ev, x))"
  using stash_loop_meaning [of "input_lines inp" r 0 stash_start] assms input_lines_ok
  by (auto simp: stash_main_def stash_start_def split: prod.split)

definition sample_reply :: reply where
  "sample_reply = \<lparr>chdir_result = 0, polled = 0, fork_id = 7, exec_ok = True\<rparr>"

lemma input_lines_line:
  "CHR 0x0A \<notin> set l \<Longrightarrow> length l < 1000 \<Longrightarrow> input_lines (l @ CHR 0x0A # rest) = (l @ NL) # input_lines rest"
  unfolding input_lines_def by (rule file_lines_line) (simp_all add: MAX_COMMAND_LEN_def)

lemma input_lines_Nil [simp]: "input_lines [] = []"
  by (simp add: input_lines_def)

theorem stash_runs_witness:
  "stash_main (\<lambda>_. sample_reply) (''ls &'' @ NL @ ''cd x'' @ NL @ ''exit 3'' @ NL)
    = Some ([Put prompt, Put (''id [7]'' @ NL), Put prompt, Chdir ''x'', Put prompt], Exited 3)"
proof -
  let ?inp = "''ls &'' @ NL @ ''cd x'' @ NL @ ''exit 3'' @ NL"
  have i: "input_lines ?inp = [''ls &'' @ NL, ''cd x'' @ NL, ''exit 3'' @ NL]"
    using input_lines_line [of "''ls &''" "''cd x'' @ NL @ ''exit 3'' @ NL"] input_lines_line [of "''cd x''" "''exit 3'' @ NL"]
      input_lines_line [of "''exit 3''" "[]"] by simp
  have w: "line_words (''ls &'' @ NL) = [''ls'', ''&'']" "line_words (''cd x'' @ NL) = [''cd'', ''x'']" "line_words (''exit 3'' @ NL) = [''exit'', ''3'']"
    by code_simp+
  have n: "show_int 7 = ''7''" "sscanf_d ''3'' = Some 3" by code_simp+
  have "takes sample_reply l" if "l \<in> {''ls &'' @ NL, ''cd x'' @ NL, ''exit 3'' @ NL}" for l
    using that w by (auto simp: takes_def usable_def sample_reply_def)
  then have "\<forall>k<length (input_lines ?inp). takes sample_reply (input_lines ?inp ! k)"
    unfolding i by (simp add: nth_Cons' del: append.simps)
  then have "stash_main (\<lambda>_. sample_reply) ?inp
      = (let (ev, x) = session_meaning (\<lambda>_. sample_reply) 0 (input_lines ?inp) (-1) in Some (Put prompt # ev, x))"
    by (intro stash_runs) simp
  then show ?thesis unfolding i session_meaning.simps w
    by (simp add: line_meaning_def command_meaning_def is_background_def sample_reply_def n)
qed

subsection \<open>The lines it cannot take\<close>

definition goes_on :: "reply \<Rightarrow> string \<Rightarrow> bool" where
  "goes_on r line \<longleftrightarrow> takes r line \<and> (hd line = CHR 0x0A \<or> snd (snd (line_meaning r (line_words line) 0)) = None)"

lemma line_meaning_ending: "snd (snd (line_meaning r ws o1)) = snd (snd (line_meaning r ws o2))"
  by (simp add: line_meaning_def command_meaning_def Let_def split: list.split option.split)

lemma stash_loop_goes_on:
  assumes "\<forall>l\<in>set ls. line_ok l" "\<forall>i<length ls. goes_on (r (n + i)) (ls ! i)" "no_words (commands s)"
  shows "\<exists>s'. stash_loop r n (ls @ rest) s = stash_loop r (n + length ls) rest s' \<and> no_words (commands s')"
  using assms
proof (induction ls arbitrary: n s)
  case (Cons l ls)
  have more: "\<forall>i<length ls. goes_on (r (n + 1 + i)) (ls ! i)" using Cons.prems(2) by force
  have t: "goes_on (r n) l" "line_ok l" using Cons.prems by force+
  have "\<exists>s1. run_line (r n) l s = Some (s1, None) \<and> no_words (commands s1)"
  proof (cases "hd l = CHR 0x0A")
    case True
    then show ?thesis using t(2) Cons.prems(3) by (simp add: run_line_def line_ok_def say_def)
  next
    case False
    obtain ev o1 where "line_meaning (r n) (line_words l) (older_sibling s) = (ev, o1, None)"
      using False t(1) line_meaning_ending [of "r n" "line_words l" 0 "older_sibling s"]
      by (cases "line_meaning (r n) (line_words l) (older_sibling s)") (auto simp: goes_on_def)
    then show ?thesis using run_line_meaning [of l "r n" s ev o1 None] False t Cons.prems(3)
      by (auto simp: goes_on_def takes_def line_ok_def)
  qed
  then obtain s1 where "run_line (r n) l s = Some (s1, None)" "no_words (commands s1)" by blast
  then show ?case using Cons.IH [of "n + 1" s1] more Cons.prems(1) by simp
qed auto

text \<open>
  After any lines it can take, a line of blanks, or \<open>exit\<close> without a status, makes the shell use
  a word that is not there: freed, NULL or never set.
\<close>
theorem stash_stale_words:
  assumes "input_lines inp = good @ bad_line # rest" "\<forall>i<length good. goes_on (r i) (good ! i)"
    "hd bad_line \<noteq> CHR 0x0A" "line_words bad_line = [] \<or> line_words bad_line = [''exit'']"
  shows "stash_main r inp = None"
proof -
  have ok: "\<forall>l\<in>set (good @ bad_line # rest). line_ok l" using input_lines_ok unfolding assms(1) [symmetric] by blast
  have "no_words (commands stash_start)" by (simp add: no_words_def stash_start_def)
  then obtain s where s: "stash_loop r 0 (input_lines inp) stash_start = stash_loop r (length good) (bad_line # rest) s" "no_words (commands s)"
    using stash_loop_goes_on [of good r 0 stash_start "bad_line # rest"] ok assms(1,2) by auto
  have stale: "word_at (commands s) i = None" for i
    using s(2) by (auto simp: word_at_def no_words_def split: slot.split)
  have p: "parseCommand bad_line (commands s) = (length (line_words bad_line), \<lambda>i. if i < length (line_words bad_line) then Word (line_words bad_line ! i) else commands s i)"
    using ok parse_loop_words [of bad_line MAX_WORDS 0 "commands s"] by (auto simp: parseCommand_def line_ok_def intro!: ext)
  have "run_line (r (length good)) bad_line s = None"
    using assms(4)
  proof
    assume "line_words bad_line = []"
    then show ?thesis using p assms(3) stale [of 0] by (simp add: run_line_def)
  next
    assume e: "line_words bad_line = [''exit'']"
    let ?cs = "\<lambda>i. if i = 0 then Word ''exit'' else commands s i"
    have "parseCommand bad_line (commands s) = (Suc 0, ?cs)" unfolding p e by auto
    moreover have "word_at ?cs (Suc 0) = None" using stale [of 1] by (simp add: word_at_def split: if_splits)
    moreover have "word_at ?cs 0 = Some ''exit''" by (simp add: word_at_def MAX_WORDS_def)
    ultimately show ?thesis using assms(3) by (simp add: run_line_def runExit_def)
  qed
  then show ?thesis using s(1) by (simp add: stash_main_def)
qed

theorem stash_stale_words_witness: "stash_main (\<lambda>_. sample_reply) (''ls'' @ NL @ '' '' @ NL) = None"
proof (rule stash_stale_words [where good = "[''ls'' @ NL]" and bad_line = "'' '' @ NL" and rest = "[]"])
  show "input_lines (''ls'' @ NL @ '' '' @ NL) = [''ls'' @ NL] @ ('' '' @ NL) # []"
    using input_lines_line [of "''ls''" "'' '' @ NL"] input_lines_line [of "'' ''" "[]"] by simp
  show "line_words ('' '' @ NL) = [] \<or> line_words ('' '' @ NL) = [''exit'']" by code_simp
  have "line_words (''ls'' @ NL) = [''ls'']" by code_simp
  then show "\<forall>i<length [''ls'' @ NL]. goes_on sample_reply ([''ls'' @ NL] ! i)"
    by (simp add: goes_on_def takes_def usable_def line_meaning_def command_meaning_def sample_reply_def is_background_def)
qed simp

end
