(* ===== verification/Top.thy ===== *)
theory Top
  imports C_Files
begin

text \<open>
  The process monitor, \<open>assignments/hw7/top.c\<close> and \<open>top 2.c\<close> (the names that end in \<open>2\<close>; the second
  also tests every \<open>fopen\<close>). The files of \<open>/proc\<close> are an input, as is what the floating-point
  conversions read and print, the local time and the text of the last error. \<open>None\<close> is a read from
  a file that could not be opened. \<open>qsort\<close> is a parameter: \<open>qsort_ok\<close> is what the standard says of it.

  Proved: a status file as the kernel writes it is read back; the table never overflows, and its
  ten largest entries are printed in order; the memory figures.
\<close>

definition MAX_PROC_NUM :: nat where "MAX_PROC_NUM = 1024"

definition MAX_LINE_LEN :: nat where "MAX_LINE_LEN = 256"

record my_process =
  pid :: int
  pname :: string
  pstate :: char
  ppid :: int
  memsize :: int

text \<open>An entry of the directory, with what \<open>fopen\<close> finds behind its status path.\<close>

record dir_entry =
  d_name :: string
  is_dir :: bool
  status_file :: "string option"

record proc_fs =
  proc_dir :: "dir_entry list option"
  uptime_read :: "int option option"
  loads_read :: "(string \<times> string \<times> string) option option"
  stat_file :: "string option"
  meminfo :: "string option"
  now :: string
  last_error :: string

text \<open>What is printed, on standard output and on standard error.\<close>

type_synonym printed = "string \<times> string"

definition out :: "string \<Rightarrow> printed" where "out s = (s @ NL, [])"

definition err :: "string \<Rightarrow> printed" where "err s = ([], s @ NL)"

definition perror :: "proc_fs \<Rightarrow> string \<Rightarrow> printed" where
  "perror fs msg = err (msg @ '': '' @ last_error fs)"

text \<open>The widths of \<open>printf\<close>.\<close>

definition pad_left :: "char \<Rightarrow> nat \<Rightarrow> string \<Rightarrow> string" where
  "pad_left c n s = replicate (n - length s) c @ s"

definition pad_right :: "nat \<Rightarrow> string \<Rightarrow> string" where
  "pad_right n s = s @ replicate (n - length s) (CHR '' '')"

definition compare_proc_mem :: "my_process \<Rightarrow> my_process \<Rightarrow> int" where
  "compare_proc_mem a b = to_int32 (memsize b - memsize a)"

definition output_time :: "proc_fs \<Rightarrow> printed" where
  "output_time fs = out (''Time: '' @ now fs)"

definition uptime_line :: "int \<Rightarrow> string" where
  "uptime_line seconds = (let days = seconds div (24 * 3600); hours = seconds mod (24 * 3600) div 3600;
       minutes = seconds mod 3600 div 60
     in ''Uptime: '' @ show_int days @ '' days, '' @ pad_left (CHR ''0'') 2 (show_int hours) @ '':''
        @ pad_left (CHR ''0'') 2 (show_int minutes))"

definition output_uptime :: "proc_fs \<Rightarrow> printed" where
  "output_uptime fs = (case uptime_read fs of
       None \<Rightarrow> perror fs ''Failed to open /proc/uptime''
     | Some None \<Rightarrow> ([], [])
     | Some (Some seconds) \<Rightarrow> out (uptime_line seconds))"

definition output_uptime2 :: "proc_fs \<Rightarrow> printed" where
  "output_uptime2 fs = (case uptime_read fs of
       None \<Rightarrow> perror fs ''Failed to open /proc/uptime''
     | Some None \<Rightarrow> err ''Failed to read uptime from /proc/uptime''
     | Some (Some seconds) \<Rightarrow> out (uptime_line seconds))"

definition loadavg :: "string \<Rightarrow> proc_fs \<Rightarrow> printed" where
  "loadavg complaint fs = (case loads_read fs of
       None \<Rightarrow> perror fs ''Failed to open /proc/loadavg''
     | Some None \<Rightarrow> err complaint
     | Some (Some (l1, l5, l15)) \<Rightarrow> out (''Load avg: '' @ l1 @ '' '' @ l5 @ '' '' @ l15))"

definition output_loadavg :: "proc_fs \<Rightarrow> printed" where
  "output_loadavg = loadavg ''Failed to read load average''"

definition output_loadavg2 :: "proc_fs \<Rightarrow> printed" where
  "output_loadavg2 = loadavg ''Failed to read load average from /proc/loadavg''"

subsection \<open>The processor and the memory\<close>

fun num_of :: "scanned \<Rightarrow> int" where
  "num_of (Number x) = x" | "num_of _ = 0"

definition cpu_format :: "conversion list" where
  "cpu_format = lits ''cpu'' @ concat (replicate 8 [Blank, Num 64])"

definition cpu_line :: "int list \<Rightarrow> string" where
  "cpu_line v = ''Cpu: '' @ show_int (v ! 0) @ ''us '' @ show_int (v ! 2) @ ''sy '' @ show_int (v ! 1) @ ''ni ''
     @ show_int (v ! 3) @ ''id '' @ show_int (v ! 4) @ ''wa '' @ show_int (v ! 5) @ ''hi '' @ show_int (v ! 6) @ ''si ''
     @ show_int (v ! 7) @ ''st''"

text \<open>The loop stops at the first line of the processor; \<open>sscanf\<close> returns -1 when the line ends before any number.\<close>

fun cpu_loop :: "(int \<Rightarrow> printed) \<Rightarrow> string list \<Rightarrow> printed" where
  "cpu_loop complaint [] = ([], [])"
| "cpu_loop complaint (line # lines) =
     (if starts_with ''cpu '' line then
        (let vals = map num_of (scan cpu_format line);
             matched = (if vals = [] \<and> dropWhile isspace (drop 3 line) = [] then -1 else int (length vals))
         in if matched \<ge> 8 then out (cpu_line vals) else complaint matched)
      else cpu_loop complaint lines)"

definition output_cpu :: "proc_fs \<Rightarrow> printed option" where
  "output_cpu fs = map_option (\<lambda>f. cpu_loop (\<lambda>_. err ''Failed to parse cpu'') (file_lines MAX_LINE_LEN f)) (stat_file fs)"

definition output_cpu2 :: "proc_fs \<Rightarrow> printed" where
  "output_cpu2 fs = (case stat_file fs of
       None \<Rightarrow> perror fs ''Failed to open /proc/stat''
     | Some f \<Rightarrow> cpu_loop (\<lambda>m. err (''Failed to parse cpu line in /proc/stat correctly (matched '' @ show_int m @ '')''))
         (file_lines MAX_LINE_LEN f))"

text \<open>The loop of \<open>output_mem\<close> and \<open>output_swap\<close>: two labelled numbers, -1 while they are not found.\<close>

definition labelled :: "string \<Rightarrow> string \<Rightarrow> int \<Rightarrow> int" where
  "labelled label line x = (case scan (lits label @ [Blank, Num 64, Blank] @ lits ''kB'') line of v # _ \<Rightarrow> num_of v | [] \<Rightarrow> x)"

fun two_values :: "string \<Rightarrow> string \<Rightarrow> string list \<Rightarrow> int \<Rightarrow> int \<Rightarrow> int \<times> int" where
  "two_values la lb [] a b = (a, b)"
| "two_values la lb (line # lines) a b =
     (let (a1, b1) = (if starts_with la line then (labelled la line a, b)
            else if starts_with lb line then (a, labelled lb line b) else (a, b))
      in if a1 \<noteq> -1 \<and> b1 \<noteq> -1 then (a1, b1) else two_values la lb lines a1 b1)"

definition figures :: "string \<Rightarrow> int \<Rightarrow> int \<Rightarrow> string" where
  "figures label tot avail = label @ show_int tot @ '' total '' @ show_int (tot - avail) @ '' used '' @ show_int avail @ '' free''"

definition mem_figures :: "printed \<Rightarrow> string \<Rightarrow> printed" where
  "mem_figures complaint f = (let (tot, avail) = two_values ''MemTotal:'' ''MemFree:'' (file_lines MAX_LINE_LEN f) (-1) (-1)
     in if tot \<noteq> -1 \<and> avail \<noteq> -1 then out (figures ''Mem: '' tot avail) else complaint)"

definition output_mem :: "proc_fs \<Rightarrow> printed option" where
  "output_mem fs = map_option (mem_figures ([], [])) (meminfo fs)"

definition output_mem2 :: "proc_fs \<Rightarrow> printed" where
  "output_mem2 fs = (case meminfo fs of
       None \<Rightarrow> perror fs ''Failed to open /proc/meminfo''
     | Some f \<Rightarrow> mem_figures (err ''Failed to read memory info from /proc/meminfo'') f)"

definition no_swap :: string where "no_swap = ''Swap: 0 total 0 used 0 free''"

definition swap_figures :: "string \<Rightarrow> string \<Rightarrow> printed" where
  "swap_figures complaint f = (let (tot, avail) = two_values ''SwapTotal:'' ''SwapFree:'' (file_lines MAX_LINE_LEN f) (-1) (-1)
     in if tot \<noteq> -1 \<and> avail \<noteq> -1
        then if tot > 0 then out (figures ''Swap: '' tot avail) else out no_swap
        else (no_swap @ NL, complaint @ NL))"

definition output_swap :: "proc_fs \<Rightarrow> printed option" where
  "output_swap fs = map_option (swap_figures ''Failed to read full swap info'') (meminfo fs)"

definition output_swap2 :: "proc_fs \<Rightarrow> printed" where
  "output_swap2 fs = (case meminfo fs of
       None \<Rightarrow> perror fs ''Failed to open /proc/meminfo''
     | Some f \<Rightarrow> swap_figures ''Failed to read full swap info from /proc/meminfo, reporting 0'' f)"

subsection \<open>The processes\<close>

definition is_numeric :: "string \<Rightarrow> bool" where
  "is_numeric s \<longleftrightarrow> s \<noteq> [] \<and> (\<forall>c\<in>set s. isdigit c)"

record status_scan =
  current_proc :: my_process
  found_name :: bool
  found_state :: bool
  found_ppid :: bool
  found_vmsize :: bool

definition all_found :: "status_scan \<Rightarrow> bool" where
  "all_found st \<longleftrightarrow> found_name st \<and> found_state st \<and> found_ppid st \<and> found_vmsize st"

definition TAB :: char where "TAB = CHR 0x09"

definition status_line :: "string \<Rightarrow> status_scan \<Rightarrow> status_scan" where
  "status_line line st = (let p = current_proc st in
     if starts_with ''Name:'' line then
       st\<lparr>current_proc := (case scan (lits ''Name:'' @ [Blank, Str 63]) line of Text w # _ \<Rightarrow> p\<lparr>pname := w\<rparr> | _ \<Rightarrow> p), found_name := True\<rparr>
     else if starts_with ''State:'' line then
       st\<lparr>current_proc := (case scan (lits ''State:'' @ [Blank, Chr]) line of Character c # _ \<Rightarrow> p\<lparr>pstate := c\<rparr> | _ \<Rightarrow> p), found_state := True\<rparr>
     else if starts_with ''PPid:'' line then
       st\<lparr>current_proc := (case scan (lits ''PPid:'' @ [Blank, Num 32]) line of Number x # _ \<Rightarrow> p\<lparr>ppid := x\<rparr> | _ \<Rightarrow> p), found_ppid := True\<rparr>
     else if starts_with ''VmSize:'' line then
       st\<lparr>current_proc := (case scan (lits ''VmSize:'' @ [Blank, Num 32, Blank] @ lits ''kB'') line of Number x # _ \<Rightarrow> p\<lparr>memsize := x\<rparr> | _ \<Rightarrow> p),
         found_vmsize := True\<rparr>
     else st)"

fun status_loop :: "string list \<Rightarrow> status_scan \<Rightarrow> status_scan" where
  "status_loop [] st = st"
| "status_loop (line # lines) st =
     (let st1 = status_line line st in if all_found st1 then st1 else status_loop lines st1)"

definition blank_proc :: "int \<Rightarrow> status_scan" where
  "blank_proc n = \<lparr>current_proc = \<lparr>pid = n, pname = [], pstate = NUL, ppid = 0, memsize = 0\<rparr>,
     found_name = False, found_state = False, found_ppid = False, found_vmsize = False\<rparr>"

definition read_status :: "string \<Rightarrow> string \<Rightarrow> my_process option" where
  "read_status name f = (let st = status_loop (file_lines MAX_LINE_LEN f) (blank_proc (atoi name))
     in if all_found st \<and> memsize (current_proc st) > 0 then Some (current_proc st) else None)"

text \<open>\<open>getAllProcess\<close>; the table is its first \<open>proc_count\<close> entries.\<close>

fun collect :: "dir_entry list \<Rightarrow> my_process list \<Rightarrow> my_process list" where
  "collect [] procs = procs"
| "collect (e # es) procs =
     (if length procs < MAX_PROC_NUM then
        (if is_dir e \<and> is_numeric (d_name e) then
           (case status_file e of
              None \<Rightarrow> collect es procs
            | Some f \<Rightarrow> collect es (case read_status (d_name e) f of Some p \<Rightarrow> procs @ [p] | None \<Rightarrow> procs))
         else collect es procs)
      else procs)"

definition getAllProcess :: "proc_fs \<Rightarrow> printed + my_process list" where
  "getAllProcess fs = (case proc_dir fs of
       None \<Rightarrow> Inl (perror fs ''Failed to open proc'') | Some es \<Rightarrow> Inr (collect es []))"

definition getAllProcess2 :: "proc_fs \<Rightarrow> printed + my_process list" where
  "getAllProcess2 fs = (case proc_dir fs of
       None \<Rightarrow> Inl (perror fs ''Failed to open /proc'') | Some es \<Rightarrow> Inr (collect es []))"

fun count_states :: "my_process list \<Rightarrow> int \<Rightarrow> int \<Rightarrow> int \<times> int" where
  "count_states [] running sleeping = (running, sleeping)"
| "count_states (p # ps) running sleeping =
     (if pstate p = CHR ''R'' then count_states ps (running + 1) sleeping
      else if pstate p = CHR ''S'' then count_states ps running (sleeping + 1)
      else count_states ps running sleeping)"

definition output_procstat :: "my_process list \<Rightarrow> printed" where
  "output_procstat procs = (let (running, sleeping) = count_states procs 0 0 in
     out (''Tasks: '' @ show_int (int (length procs)) @ '' total '' @ show_int running @ '' running '' @ show_int sleeping @ '' sleeping''))"

definition proc_line :: "my_process \<Rightarrow> string" where
  "proc_line p = pad_right 7 (show_int (pid p)) @ '' ('' @ pad_right 15 (pname p) @ '') '' @ [pstate p] @ '' ''
     @ pad_left (CHR '' '') 7 (show_int (ppid p)) @ '' '' @ pad_left (CHR '' '') 10 (show_int (memsize p)) @ NL"

definition output_proc :: "(my_process list \<Rightarrow> my_process list) \<Rightarrow> my_process list \<Rightarrow> printed" where
  "output_proc qsort procs = (let sorted_procs = qsort procs;
       count_to_print = (if length procs < 10 then length procs else 10)
     in (concat (map (\<lambda>i. proc_line (sorted_procs ! i)) [0..<count_to_print]), []))"

subsection \<open>The two programs\<close>

definition in_order :: "printed list \<Rightarrow> int \<Rightarrow> outcome" where
  "in_order ps code = exits (concat (map fst ps)) (concat (map snd ps)) code"

definition top_main :: "(my_process list \<Rightarrow> my_process list) \<Rightarrow> proc_fs \<Rightarrow> outcome option" where
  "top_main qsort fs = (case getAllProcess fs of
       Inl e \<Rightarrow> Some (in_order [e] EXIT_FAILURE)
     | Inr procs \<Rightarrow> (case (output_cpu fs, output_mem fs, output_swap fs) of
         (Some cpu, Some mem, Some swap) \<Rightarrow>
           Some (in_order [output_time fs, output_uptime fs, output_loadavg fs, output_procstat procs, cpu, mem, swap,
             output_proc qsort procs] 0)
       | _ \<Rightarrow> None))"

text \<open>What the second version has with the same statements, but for its comments.\<close>

definition output_time2 :: "proc_fs \<Rightarrow> printed" where
  "output_time2 fs = output_time fs"

definition output_procstat2 :: "my_process list \<Rightarrow> printed" where
  "output_procstat2 procs = output_procstat procs"

definition output_proc2 :: "(my_process list \<Rightarrow> my_process list) \<Rightarrow> my_process list \<Rightarrow> printed" where
  "output_proc2 qsort procs = output_proc qsort procs"

definition top2_main :: "(my_process list \<Rightarrow> my_process list) \<Rightarrow> proc_fs \<Rightarrow> outcome" where
  "top2_main qsort fs = (case getAllProcess2 fs of
       Inl e \<Rightarrow> in_order [e] EXIT_FAILURE
     | Inr procs \<Rightarrow> in_order [output_time2 fs, output_uptime2 fs, output_loadavg2 fs, output_procstat2 procs, output_cpu2 fs,
         output_mem2 fs, output_swap2 fs, output_proc2 qsort procs] 0)"

subsection \<open>Reading a status file\<close>

definition other_line :: "string \<Rightarrow> bool" where
  "other_line l \<longleftrightarrow> \<not> starts_with ''Name:'' (l @ NL) \<and> \<not> starts_with ''State:'' (l @ NL) \<and> \<not> starts_with ''PPid:'' (l @ NL)
     \<and> \<not> starts_with ''VmSize:'' (l @ NL)"

lemma status_loop_others:
  "\<forall>l\<in>set ls. other_line l \<Longrightarrow> \<not> all_found st \<Longrightarrow> status_loop (map (\<lambda>l. l @ NL) ls @ lines) st = status_loop lines st"
  by (induction ls) (simp_all add: status_line_def other_line_def Let_def)

definition name_line :: "string \<Rightarrow> string" where "name_line n = ''Name:'' @ [TAB] @ n"

definition state_line :: "char \<Rightarrow> string \<Rightarrow> string" where "state_line c descr = ''State:'' @ [TAB] @ c # descr"

definition ppid_line :: "nat \<Rightarrow> string" where "ppid_line n = ''PPid:'' @ [TAB] @ show_nat n"

definition vmsize_line :: "string \<Rightarrow> nat \<Rightarrow> string" where "vmsize_line blanks n = ''VmSize:'' @ (TAB # blanks) @ show_nat n @ '' kB''"

lemma status_line_name:
  assumes "n \<noteq> []" "\<forall>c\<in>set n. \<not> isspace c" "length n \<le> 63"
  shows "status_line (name_line n @ NL) st = st\<lparr>current_proc := (current_proc st)\<lparr>pname := n\<rparr>, found_name := True\<rparr>"
proof -
  have "scan (lits ''Name:'' @ [Blank, Str 63]) (''Name:'' @ [TAB] @ n @ NL) = [Text n]"
    unfolding scan_lits using scan_Str [of "[TAB]" n 63 NL "[]"] assms by (simp add: isspace_def TAB_def)
  then show ?thesis by (simp add: status_line_def name_line_def starts_with_def Let_def)
qed

lemma status_line_state:
  assumes "\<not> isspace c"
  shows "status_line (state_line c descr @ NL) st = st\<lparr>current_proc := (current_proc st)\<lparr>pstate := c\<rparr>, found_state := True\<rparr>"
proof -
  have "scan (lits ''State:'' @ [Blank, Chr]) (''State:'' @ [TAB] @ c # descr @ NL) = [Character c]"
    unfolding scan_lits using scan_Chr [of "[TAB]" c "[]" "descr @ NL"] assms by (simp add: isspace_def TAB_def)
  then show ?thesis by (simp add: status_line_def state_line_def starts_with_def Let_def)
qed

lemma status_line_ppid:
  assumes "int n < 2 ^ 31"
  shows "status_line (ppid_line n @ NL) st = st\<lparr>current_proc := (current_proc st)\<lparr>ppid := int n\<rparr>, found_ppid := True\<rparr>"
proof -
  have "scan (lits ''PPid:'' @ [Blank, Num 32]) (''PPid:'' @ [TAB] @ show_nat n @ NL) = [Number (int n)]"
    unfolding scan_lits using scan_Num [of "[TAB]" NL 32 "[]" n] assms by (simp add: isspace_def isdigit_def TAB_def store_num_id)
  then show ?thesis by (simp add: status_line_def ppid_line_def starts_with_def Let_def)
qed

lemma status_line_vmsize:
  assumes "int n < 2 ^ 31" "\<forall>c\<in>set blanks. isspace c"
  shows "status_line (vmsize_line blanks n @ NL) st = st\<lparr>current_proc := (current_proc st)\<lparr>memsize := int n\<rparr>, found_vmsize := True\<rparr>"
proof -
  have "scan (lits ''VmSize:'' @ [Blank, Num 32, Blank] @ lits ''kB'') (''VmSize:'' @ (TAB # blanks) @ show_nat n @ '' kB'' @ NL)
      = [Number (int n)]"
    unfolding scan_lits using scan_Num [of "TAB # blanks" "'' kB'' @ NL" 32 "Blank # lits ''kB''" n] assms
    by (simp add: isspace_def isdigit_def TAB_def store_num_id lits_def)
  then show ?thesis by (simp add: status_line_def vmsize_line_def starts_with_def Let_def)
qed

lemmas status_lines = status_line_name status_line_state status_line_ppid status_line_vmsize

text \<open>
  C24: From a status file that has the four lines the kernel writes, in their order, among any
  other lines (lines that begin with none of the four labels, before the line of the size), the
  monitor reads back the name, the state, the parent and the size. The name is not empty, has at
  most 63 characters and no white space, the state is not white space, the parent and the size are
  ints, the size at least 1, no line has a NUL, and every line with its newline has at most 255
  characters.
\<close>
theorem read_status_correct:
  fixes l1 l2 l3 l4 l5 :: "string list" and n descr blanks :: string and c :: char and pp mem :: nat
  defines "lines \<equiv> l1 @ [name_line n] @ l2 @ [state_line c descr] @ l3 @ [ppid_line pp] @ l4 @ [vmsize_line blanks mem] @ l5"
  assumes "\<forall>l\<in>set l1 \<union> set l2 \<union> set l3 \<union> set l4. other_line l" "\<forall>l\<in>set lines. CHR 0x0A \<notin> set l \<and> NUL \<notin> set l \<and> length l + 1 < MAX_LINE_LEN"
    "n \<noteq> []" "\<forall>c\<in>set n. \<not> isspace c" "length n \<le> 63" "\<not> isspace c" "int pp < 2 ^ 31" "0 < mem" "int mem < 2 ^ 31"
    "\<forall>c\<in>set blanks. isspace c"
  shows "read_status d (concat (map (\<lambda>l. l @ NL) lines))
    = Some \<lparr>pid = atoi d, pname = n, pstate = c, ppid = int pp, memsize = int mem\<rparr>"
proof -
  have o: "\<forall>l\<in>set l1. other_line l" "\<forall>l\<in>set l2. other_line l" "\<forall>l\<in>set l3. other_line l" "\<forall>l\<in>set l4. other_line l"
    using assms(2) by auto
  have "file_lines MAX_LINE_LEN (concat (map (\<lambda>l. l @ NL) lines)) = map (\<lambda>l. l @ NL) lines"
    by (rule file_lines_concat) (use assms(3) in blast)
  moreover have "status_loop (map (\<lambda>l. l @ NL) lines) (blank_proc (atoi d)) =
      \<lparr>current_proc = \<lparr>pid = atoi d, pname = n, pstate = c, ppid = int pp, memsize = int mem\<rparr>,
       found_name = True, found_state = True, found_ppid = True, found_vmsize = True\<rparr>"
    using assms(4-11) by (simp add: lines_def blank_proc_def o status_loop_others status_lines all_found_def Let_def)
  ultimately show ?thesis using assms(9) by (simp add: read_status_def all_found_def)
qed

theorem read_status_correct_witness:
  "read_status ''42'' (concat (map (\<lambda>l. l @ NL) [name_line ''cat'', ''Umask: 022'', state_line (CHR ''R'') '' (running)'', ppid_line 7,
      vmsize_line ''  '' 9])) = Some \<lparr>pid = 42, pname = ''cat'', pstate = CHR ''R'', ppid = 7, memsize = 9\<rparr>"
proof -
  have "show_nat 9 = ''9''" "show_nat 7 = ''7''" by code_simp+
  then have "read_status ''42'' (concat (map (\<lambda>l. l @ NL) ([] @ [name_line ''cat''] @ [''Umask: 022''] @ [state_line (CHR ''R'') '' (running)'']
      @ [] @ [ppid_line 7] @ [] @ [vmsize_line ''  '' 9] @ []))) =
      Some \<lparr>pid = atoi ''42'', pname = ''cat'', pstate = CHR ''R'', ppid = int 7, memsize = int 9\<rparr>"
    by (intro read_status_correct)
      (simp_all add: other_line_def starts_with_def isspace_def name_line_def state_line_def ppid_line_def vmsize_line_def MAX_LINE_LEN_def TAB_def)
  moreover have "atoi ''42'' = 42" by code_simp
  ultimately show ?thesis by simp
qed

subsection \<open>The table and the ten largest\<close>

lemma scan_number_first:
  "scan (lits p @ Blank # Num 32 # f) s = [] \<or> (\<exists>x r. scan (lits p @ Blank # Num 32 # f) s = Number (store_num 32 x) # r)"
  using scan_lits_cases [of p "Blank # Num 32 # f" s] by (auto split: option.splits)

lemma status_line_range:
  assumes "memsize (current_proc st) < 2 ^ 31"
  shows "memsize (current_proc (status_line line st)) < 2 ^ 31"
proof -
  define vals where "vals = scan (lits ''VmSize:'' @ [Blank, Num 32, Blank] @ lits ''kB'') line"
  have "x < 2 ^ 31" if "vals = Number x # r" for x r
    using that scan_number_first [of "''VmSize:''" "Blank # lits ''kB''" line] to_int32_range by (auto simp: vals_def store_num_def)
  then have "memsize (case vals of Number x # _ \<Rightarrow> (current_proc st)\<lparr>memsize := x\<rparr> | _ \<Rightarrow> current_proc st) < 2 ^ 31"
    using assms by (auto split: list.split scanned.split)
  then show ?thesis using assms unfolding vals_def status_line_def Let_def
    by (simp split: list.split scanned.split)
qed

lemma status_loop_range: "memsize (current_proc st) < 2 ^ 31 \<Longrightarrow> memsize (current_proc (status_loop lines st)) < 2 ^ 31"
  using status_line_range by (induction lines arbitrary: st) (simp_all add: Let_def)

definition listed :: "my_process \<Rightarrow> bool" where
  "listed p \<longleftrightarrow> 0 < memsize p \<and> memsize p < 2 ^ 31"

lemma read_status_listed: "read_status d f = Some p \<Longrightarrow> listed p"
  using status_loop_range [of "blank_proc (atoi d)" "file_lines MAX_LINE_LEN f"]
  by (auto simp: read_status_def listed_def blank_proc_def Let_def split: if_splits)

lemma collect_table:
  "length procs \<le> MAX_PROC_NUM \<Longrightarrow> \<forall>p\<in>set procs. listed p \<Longrightarrow>
     length (collect es procs) \<le> MAX_PROC_NUM \<and> (\<forall>p\<in>set (collect es procs). listed p)"
proof (induction es arbitrary: procs)
  case (Cons e es)
  show ?case
  proof (cases "length procs < MAX_PROC_NUM \<and> is_dir e \<and> is_numeric (d_name e) \<and> status_file e \<noteq> None")
    case True
    then obtain f where f: "status_file e = Some f" by blast
    define procs1 where "procs1 = (case read_status (d_name e) f of Some p \<Rightarrow> procs @ [p] | None \<Rightarrow> procs)"
    have "length procs1 \<le> MAX_PROC_NUM" "\<forall>p\<in>set procs1. listed p"
      using True Cons.prems read_status_listed by (auto simp: procs1_def split: option.split)
    moreover have "collect (e # es) procs = collect es procs1" using True f by (simp add: procs1_def)
    ultimately show ?thesis using Cons.IH by simp
  next
    case False
    then have "collect (e # es) procs = collect es procs \<or> collect (e # es) procs = procs" by auto
    then show ?thesis using Cons by metis
  qed
qed simp

text \<open>What the standard says of \<open>qsort\<close>: on a consistent comparison the result is in order, equal elements in any order.\<close>

definition consistent :: "my_process list \<Rightarrow> bool" where
  "consistent ps \<longleftrightarrow> (\<forall>a\<in>set ps. \<forall>b\<in>set ps. compare_proc_mem b a = - compare_proc_mem a b)
     \<and> (\<forall>a\<in>set ps. \<forall>b\<in>set ps. \<forall>c\<in>set ps. compare_proc_mem a b \<le> 0 \<longrightarrow> compare_proc_mem b c \<le> 0 \<longrightarrow> compare_proc_mem a c \<le> 0)"

definition qsort_ok :: "(my_process list \<Rightarrow> my_process list) \<Rightarrow> bool" where
  "qsort_ok qsort \<longleftrightarrow> (\<forall>ps. consistent ps \<longrightarrow> mset (qsort ps) = mset ps \<and> sorted_wrt (\<lambda>a b. compare_proc_mem a b \<le> 0) (qsort ps))"

lemma compare_listed: "listed a \<Longrightarrow> listed b \<Longrightarrow> compare_proc_mem a b = memsize b - memsize a"
  by (simp add: compare_proc_mem_def listed_def to_int32_id)

lemma consistent_subset: "consistent ps \<Longrightarrow> set qs \<subseteq> set ps \<Longrightarrow> consistent qs"
  unfolding consistent_def by (meson subsetD)

lemma listed_consistent: "\<forall>p\<in>set ps. listed p \<Longrightarrow> consistent ps"
  by (simp add: consistent_def compare_listed)

lemma sorted_wrt_on: "sorted_wrt P xs \<Longrightarrow> (\<And>a b. a \<in> set xs \<Longrightarrow> b \<in> set xs \<Longrightarrow> P a b \<Longrightarrow> Q a b) \<Longrightarrow> sorted_wrt Q xs"
  by (induction xs) auto

text \<open>
  C23: The comparison by subtraction never overflows on the processes in the table, whatever their
  status files say: it is their difference. And with any \<open>qsort\<close> that sorts by a consistent comparison
  the monitor prints the at most ten largest processes of the table, the largest first: none that is
  left out is larger than one that is printed.
\<close>
theorem top_prints_largest:
  assumes "qsort_ok qsort" "procs = collect es []"
  shows "length procs \<le> MAX_PROC_NUM
    \<and> (\<forall>a\<in>set procs. \<forall>b\<in>set procs. compare_proc_mem a b = memsize b - memsize a)
    \<and> (\<exists>shown rest. output_proc qsort procs = (concat (map proc_line shown), [])
    \<and> length shown = min 10 (length procs) \<and> mset (shown @ rest) = mset procs
    \<and> sorted_wrt (\<lambda>a b. memsize a \<ge> memsize b) shown \<and> (\<forall>a\<in>set shown. \<forall>b\<in>set rest. memsize b \<le> memsize a))"
proof -
  have table: "length procs \<le> MAX_PROC_NUM" "\<forall>p\<in>set procs. listed p"
    using collect_table [of "[]" es] by (simp_all add: assms(2))
  then have q: "mset (qsort procs) = mset procs" "sorted_wrt (\<lambda>a b. compare_proc_mem a b \<le> 0) (qsort procs)"
    using assms(1) listed_consistent unfolding qsort_ok_def by blast+
  have set: "set (qsort procs) = set procs" and len: "length (qsort procs) = length procs"
    using q(1) by (metis set_mset_mset, metis size_mset)
  have ord: "sorted_wrt (\<lambda>a b. memsize a \<ge> memsize b) (qsort procs)"
    using sorted_wrt_on [OF q(2)] table(2) set by (simp add: compare_listed)
  let ?k = "min 10 (length procs)" and ?s = "qsort procs"
  have "map (\<lambda>i. proc_line (?s ! i)) [0..<?k] = map proc_line (take ?k ?s)"
    by (rule nth_equalityI) (simp_all add: len)
  then have "output_proc qsort procs = (concat (map proc_line (take ?k ?s)), [])"
    by (simp add: output_proc_def Let_def min_def split: if_splits)
  moreover have "mset (take ?k ?s @ drop ?k ?s) = mset procs" using q(1) by simp
  moreover have "sorted_wrt (\<lambda>a b. memsize a \<ge> memsize b) (take ?k ?s)" using ord by (rule sorted_wrt_take)
  moreover have "\<forall>a\<in>set (take ?k ?s). \<forall>b\<in>set (drop ?k ?s). memsize b \<le> memsize a"
    using ord sorted_wrt_append [of "\<lambda>a b. memsize a \<ge> memsize b" "take ?k ?s" "drop ?k ?s"] by simp
  moreover have "length (take ?k ?s) = ?k" by (simp add: len)
  moreover have "\<forall>a\<in>set procs. \<forall>b\<in>set procs. compare_proc_mem a b = memsize b - memsize a"
    using table(2) by (simp add: compare_listed)
  ultimately show ?thesis using table(1) by blast
qed

text \<open>Insertion is such a sort.\<close>

fun insert_proc :: "my_process \<Rightarrow> my_process list \<Rightarrow> my_process list" where
  "insert_proc x [] = [x]"
| "insert_proc x (y # ys) = (if compare_proc_mem x y \<le> 0 then x # y # ys else y # insert_proc x ys)"

definition insertion_sort :: "my_process list \<Rightarrow> my_process list" where
  "insertion_sort ps = foldr insert_proc ps []"

lemma insert_proc_mset: "mset (insert_proc x ys) = add_mset x (mset ys)"
  by (induction ys) auto

lemma insert_proc_sorted:
  "consistent (x # ys) \<Longrightarrow> sorted_wrt (\<lambda>a b. compare_proc_mem a b \<le> 0) ys
    \<Longrightarrow> sorted_wrt (\<lambda>a b. compare_proc_mem a b \<le> 0) (insert_proc x ys)"
proof (induction ys)
  case (Cons y ys)
  have set: "set (insert_proc x ys) = insert x (set ys)"
    by (metis insert_proc_mset set_mset_add_mset_insert set_mset_mset)
  have y: "\<forall>b\<in>set ys. compare_proc_mem y b \<le> 0" "sorted_wrt (\<lambda>a b. compare_proc_mem a b \<le> 0) ys" using Cons.prems(2) by simp_all
  show ?case
  proof (cases "compare_proc_mem x y \<le> 0")
    case True
    have "compare_proc_mem x b \<le> 0" if "b \<in> set ys" for b
    proof -
      have "x \<in> set (x # y # ys)" "y \<in> set (x # y # ys)" "b \<in> set (x # y # ys)" using that by simp_all
      then show ?thesis using Cons.prems(1) True y(1) that unfolding consistent_def by blast
    qed
    then show ?thesis using True y by simp
  next
    case False
    have "consistent (x # ys)" using Cons.prems(1) by (rule consistent_subset) auto
    then have "sorted_wrt (\<lambda>a b. compare_proc_mem a b \<le> 0) (insert_proc x ys)" using Cons.IH y(2) by blast
    moreover have "x \<in> set (x # y # ys)" "y \<in> set (x # y # ys)" by simp_all
    then have "compare_proc_mem y x = - compare_proc_mem x y" using Cons.prems(1) unfolding consistent_def by blast
    ultimately show ?thesis using False y(1) by (simp add: set)
  qed
qed simp

lemma insertion_sort_ok: "qsort_ok insertion_sort"
proof -
  have "mset (insertion_sort ps) = mset ps \<and> sorted_wrt (\<lambda>a b. compare_proc_mem a b \<le> 0) (insertion_sort ps)" if "consistent ps" for ps
    using that
  proof (induction ps)
    case (Cons p ps)
    have m: "mset (insertion_sort ps) = mset ps" "sorted_wrt (\<lambda>a b. compare_proc_mem a b \<le> 0) (insertion_sort ps)"
      using Cons.IH consistent_subset [OF Cons.prems] by auto
    then have "set (insertion_sort ps) = set ps" by (metis set_mset_mset)
    then have c: "consistent (p # insertion_sort ps)" using consistent_subset [OF Cons.prems] by simp
    have "insertion_sort (p # ps) = insert_proc p (insertion_sort ps)" by (simp add: insertion_sort_def)
    then show ?case using m insert_proc_sorted [OF c m(2)] by (simp add: insert_proc_mset)
  qed (simp add: insertion_sort_def)
  then show ?thesis by (simp add: qsort_ok_def)
qed

theorem top_prints_largest_witness:
  "\<exists>procs shown. map memsize procs = [5, 2147483647] \<and> output_proc insertion_sort procs = (concat (map proc_line shown), [])
    \<and> map memsize shown = [2147483647, 5] \<and> compare_proc_mem (procs ! 1) (procs ! 0) = - 2147483642"
proof -
  define es where "es = map (\<lambda>(d, kb). \<lparr>d_name = d, is_dir = True,
      status_file = Some (''Name: a'' @ NL @ ''State: S'' @ NL @ ''PPid: 0'' @ NL @ ''VmSize: '' @ kb @ '' kB'' @ NL)\<rparr>)
    [(''1'', ''5''), (''2'', ''2147483647'')]"
  define procs where "procs = collect es []"
  have sz: "map memsize procs = [5, 2147483647]" unfolding procs_def es_def by code_simp
  obtain shown others where t: "output_proc insertion_sort procs = (concat (map proc_line shown), [])"
      "length shown = min 10 (length procs)" "mset (shown @ others) = mset procs" "sorted_wrt (\<lambda>a b. memsize a \<ge> memsize b) shown"
      "\<forall>a\<in>set procs. \<forall>b\<in>set procs. compare_proc_mem a b = memsize b - memsize a"
    using top_prints_largest [OF insertion_sort_ok procs_def] by auto
  obtain p q where pq: "procs = [p, q]" "memsize p = 5" "memsize q = 2147483647" using sz by auto
  have "length shown = 2" using t(2) pq(1) by simp
  then obtain x y where "shown = [x, y]" by (auto simp: length_Suc_conv numeral_2_eq_2)
  moreover from this have "others = []" using arg_cong [OF t(3), of size] pq(1) by simp
  ultimately have xy: "shown = [x, y]" "{# x, y #} = {# p, q #}" "memsize x \<ge> memsize y" using t(3,4) pq(1) by auto
  then have "x = q \<and> y = p" using pq(2,3) by (auto simp: add_eq_conv_ex)
  then have "map memsize shown = [2147483647, 5]" using xy(1) pq(2,3) by simp
  moreover have "compare_proc_mem (procs ! 1) (procs ! 0) = - 2147483642" using t(5) pq by simp
  ultimately show ?thesis using sz t(1) by (intro exI [of _ procs] exI [of _ shown]) simp
qed

subsection \<open>The memory figures\<close>

definition info_line :: "string \<Rightarrow> string \<Rightarrow> nat \<Rightarrow> string" where
  "info_line label blanks n = label @ blanks @ show_nat n @ '' kB''"

lemma labelled_info:
  assumes "\<forall>c\<in>set blanks. isspace c" "int n < 2 ^ 63"
  shows "labelled label (info_line label blanks n @ NL) x = int n"
proof -
  have "scan (lits label @ [Blank, Num 64, Blank] @ lits ''kB'') (label @ blanks @ show_nat n @ '' kB'' @ NL) = [Number (int n)]"
    unfolding scan_lits using scan_Num [of blanks "'' kB'' @ NL" 64 "Blank # lits ''kB''" n] assms
    by (simp add: isspace_def isdigit_def store_num_long lits_def)
  then show ?thesis by (simp add: labelled_def info_line_def)
qed

lemma starts_info [simp]: "starts_with label (info_line label blanks n @ NL)"
  by (simp add: info_line_def)

lemma two_values_skip:
  "\<forall>l\<in>set ls. \<not> starts_with la (l @ NL) \<and> \<not> starts_with lb (l @ NL) \<Longrightarrow> a = -1 \<Longrightarrow>
    two_values la lb (map (\<lambda>l. l @ NL) ls @ lines) a b = two_values la lb lines a b"
  by (induction ls) simp_all

lemma two_values_found:
  assumes "\<forall>l\<in>set l1. \<not> starts_with la (l @ NL) \<and> \<not> starts_with lb (l @ NL)"
    "\<forall>c\<in>set blanks1 \<union> set blanks2. isspace c" "int m < 2 ^ 63" "int n < 2 ^ 63" "\<not> starts_with la (info_line lb blanks2 n @ NL)"
  shows "two_values la lb (map (\<lambda>l. l @ NL) (l1 @ info_line la blanks1 m # info_line lb blanks2 n # l2)) (-1) (-1) = (int m, int n)"
  using assms(2-5) by (simp add: two_values_skip [OF assms(1)] labelled_info)

text \<open>
  From a \<open>meminfo\<close> as the kernel writes it, the monitor prints the totals and the free amounts
  that the file has, and as used what is missing between them, for memory and for swap; without
  swap it prints zeros.
\<close>
theorem meminfo_figures:
  fixes mid rest :: "string list" and b1 b2 b3 b4 :: string and mt mf st sf :: nat
  defines "lines \<equiv> [info_line ''MemTotal:'' b1 mt, info_line ''MemFree:'' b2 mf] @ mid
    @ [info_line ''SwapTotal:'' b3 st, info_line ''SwapFree:'' b4 sf] @ rest"
  assumes "meminfo fs = Some (concat (map (\<lambda>l. l @ NL) lines))" "\<forall>l\<in>set lines. CHR 0x0A \<notin> set l \<and> length l + 1 < MAX_LINE_LEN"
    "\<forall>l\<in>set mid. \<not> starts_with ''SwapTotal:'' (l @ NL) \<and> \<not> starts_with ''SwapFree:'' (l @ NL)"
    "\<forall>c\<in>set b1 \<union> set b2 \<union> set b3 \<union> set b4. isspace c" "\<forall>n\<in>{mt, mf, st, sf}. int n < 2 ^ 63"
  shows "output_mem fs = Some (out (figures ''Mem: '' (int mt) (int mf)))
    \<and> output_swap fs = Some (out (if st > 0 then figures ''Swap: '' (int st) (int sf) else no_swap))
    \<and> output_mem2 fs = the (output_mem fs) \<and> output_swap2 fs = the (output_swap fs)"
proof -
  have f: "file_lines MAX_LINE_LEN (concat (map (\<lambda>l. l @ NL) lines)) = map (\<lambda>l. l @ NL) lines"
    using assms(3) by (rule file_lines_concat)
  have "two_values ''MemTotal:'' ''MemFree:'' (map (\<lambda>l. l @ NL) lines) (-1) (-1) = (int mt, int mf)"
    using two_values_found [of "[]" "''MemTotal:''" "''MemFree:''" b1 b2 mt mf
        "mid @ [info_line ''SwapTotal:'' b3 st, info_line ''SwapFree:'' b4 sf] @ rest"] assms(5,6)
    by (simp add: lines_def starts_with_def info_line_def)
  moreover have "two_values ''SwapTotal:'' ''SwapFree:'' (map (\<lambda>l. l @ NL) lines) (-1) (-1) = (int st, int sf)"
  proof -
    have "\<forall>l\<in>set ([info_line ''MemTotal:'' b1 mt, info_line ''MemFree:'' b2 mf] @ mid).
        \<not> starts_with ''SwapTotal:'' (l @ NL) \<and> \<not> starts_with ''SwapFree:'' (l @ NL)"
      using assms(4) by (auto simp: starts_with_def info_line_def)
    from two_values_found [OF this, of b3 b4 st sf rest] show ?thesis using assms(5,6)
      by (simp add: lines_def starts_with_def info_line_def)
  qed
  ultimately show ?thesis using assms(2) f
    by (simp add: output_mem_def output_mem2_def output_swap_def output_swap2_def mem_figures_def swap_figures_def Let_def)
qed

theorem meminfo_figures_witness:
  "output_mem \<lparr>proc_dir = None, uptime_read = None, loads_read = None, stat_file = None,
      meminfo = Some (concat (map (\<lambda>l. l @ NL) [info_line ''MemTotal:'' '' '' 8, info_line ''MemFree:'' '' '' 5, ''Active: 1 kB'',
        info_line ''SwapTotal:'' '' '' 0, info_line ''SwapFree:'' '' '' 0])), now = [], last_error = []\<rparr>
    = Some (out (''Mem: 8 total 3 used 5 free''))"
proof -
  let ?lines = "[info_line ''MemTotal:'' '' '' 8, info_line ''MemFree:'' '' '' 5] @ [''Active: 1 kB''] @
      [info_line ''SwapTotal:'' '' '' 0, info_line ''SwapFree:'' '' '' 0] @ []"
  let ?fs = "\<lparr>proc_dir = None, uptime_read = None, loads_read = None, stat_file = None,
      meminfo = Some (concat (map (\<lambda>l. l @ NL) ?lines)), now = [], last_error = []\<rparr>"
  have n: "show_nat 8 = ''8''" "show_nat 5 = ''5''" "show_nat 0 = ''0''" "show_int 8 = ''8''" "show_int 5 = ''5''" "show_int 3 = ''3''" by code_simp+
  have "output_mem ?fs = Some (out (figures ''Mem: '' (int 8) (int 5)))"
  proof (rule meminfo_figures [where fs = ?fs and mid = "[''Active: 1 kB'']" and rest = "[]" and ?b1.0 = "'' ''" and ?b2.0 = "'' ''"
        and ?b3.0 = "'' ''" and ?b4.0 = "'' ''" and mt = 8 and mf = 5 and st = 0 and sf = 0, THEN conjunct1])
    show "meminfo ?fs = Some (concat (map (\<lambda>l. l @ NL) ?lines))" by simp
  qed (simp_all add: starts_with_def info_line_def MAX_LINE_LEN_def isspace_def n)
  then show ?thesis by (simp add: figures_def n)
qed

end
