(* ===== verification/Motd.thy ===== *)
theory Motd
  imports Prelude
begin

text \<open>
  The message server, \<open>exercises/ex17/motd_server.c\<close>: the procedures that the RPC service calls, one
  at a time, over the array of messages. The array is its bytes, row after row.

  Proved: for every client it is the list of the last three messages, each cut to 60 characters.
\<close>

definition HISTORY_MAX :: nat where "HISTORY_MAX = 3"

definition MESSAGE_MAX :: nat where "MESSAGE_MAX = 60"

definition ROW :: nat where "ROW = MESSAGE_MAX + 1"

record motd =
  mList :: buf
  mCount :: nat

definition motd_init :: motd where
  "motd_init = \<lparr>mList = replicate (HISTORY_MAX * ROW) NUL, mCount = 0\<rparr>"

definition row :: "motd \<Rightarrow> nat \<Rightarrow> buf" where
  "row s i = take ROW (drop (i * ROW) (mList s))"

definition count_1_svc :: "motd \<Rightarrow> int" where
  "count_1_svc s = int (mCount s)"

definition get_1_svc :: "int \<Rightarrow> motd \<Rightarrow> string" where
  "get_1_svc idx s = (if idx < 0 \<or> idx \<ge> int (mCount s) then ''error'' else cstr (row s (nat idx)))"

definition add_1_svc :: "buf \<Rightarrow> motd \<Rightarrow> motd" where
  "add_1_svc msg s =
     (let s1 = (if mCount s = HISTORY_MAX
            then s\<lparr>mList := memmove (mList s) ROW 0 (ROW * (HISTORY_MAX - 1))\<rparr>
            else s\<lparr>mList := memmove (mList s) ROW 0 (ROW * mCount s), mCount := mCount s + 1\<rparr>)
      in s1\<lparr>mList := (strncpy (mList s1) msg MESSAGE_MAX)[MESSAGE_MAX := NUL]\<rparr>)"

text \<open>A session: the calls of all clients, in the order in which the server takes them.\<close>

datatype call = Count | Get int | Add buf

datatype answer = Number int | Message string

fun serve :: "call list \<Rightarrow> motd \<Rightarrow> answer list" where
  "serve [] s = []"
| "serve (Count # calls) s = Number (count_1_svc s) # serve calls s"
| "serve (Get i # calls) s = Message (get_1_svc i s) # serve calls s"
| "serve (Add m # calls) s = Message ''ok'' # serve calls (add_1_svc m s)"

fun spec_serve :: "call list \<Rightarrow> string list \<Rightarrow> answer list" where
  "spec_serve [] h = []"
| "spec_serve (Count # calls) h = Number (int (length h)) # spec_serve calls h"
| "spec_serve (Get i # calls) h =
     Message (if 0 \<le> i \<and> i < int (length h) then h ! nat i else ''error'') # spec_serve calls h"
| "spec_serve (Add m # calls) h = Message ''ok'' # spec_serve calls (take 3 (take 60 (cstr m) # h))"

text \<open>The history an array holds.\<close>

definition well_sized :: "motd \<Rightarrow> bool" where
  "well_sized s \<longleftrightarrow> length (mList s) = HISTORY_MAX * ROW \<and> mCount s \<le> HISTORY_MAX"

definition history :: "motd \<Rightarrow> string list" where
  "history s = map (\<lambda>i. cstr (row s i)) [0..<mCount s]"

lemma cstr_cut: "cstr ((take n (cstr msg @ replicate n NUL)) @ NUL # r) = take n (cstr msg)"
proof -
  have n: "NUL \<notin> set (take n (cstr msg))" using cstr_no_NUL [of msg] in_set_takeD by metis
  have "take n (cstr msg @ replicate n NUL) = take n (cstr msg) @ replicate (n - length (take n (cstr msg))) NUL"
    by (cases "length (cstr msg) \<le> n") simp_all
  then show ?thesis using cstr_snoc_replicate [OF n, of "n - length (take n (cstr msg))" "NUL # r"] cstr_append_NUL [OF n, of r]
    by simp
qed

lemma length_strncpy_exact: "length (take n (cstr msg @ replicate n NUL)) = n"
  by simp

text \<open>The rows after an addition: the new message, then the rows before.\<close>

lemma add_rows:
  fixes b msg :: buf and k :: nat
  assumes "length b = 3 * ROW" "k \<le> 2"
  defines "b' \<equiv> (strncpy (memmove b ROW 0 (ROW * k)) msg MESSAGE_MAX)[MESSAGE_MAX := NUL]"
  shows "length b' = 3 * ROW" "cstr (take ROW b') = take MESSAGE_MAX (cstr msg)"
    "i < k \<Longrightarrow> take ROW (drop (Suc i * ROW) b') = take ROW (drop (i * ROW) b)"
proof -
  let ?new = "take MESSAGE_MAX (cstr msg @ replicate MESSAGE_MAX NUL)"
  have R: "ROW = Suc MESSAGE_MAX" by (simp add: ROW_def)
  have k: "ROW * k \<le> 2 * ROW" using assms(2) by simp
  have m: "memmove b ROW 0 (ROW * k) = take ROW b @ take (ROW * k) b @ drop (ROW + ROW * k) b" by (simp add: memmove_def)
  have nl: "length ?new = MESSAGE_MAX" by (rule length_strncpy_exact)
  have "drop MESSAGE_MAX (take ROW b) = [b ! MESSAGE_MAX]"
    unfolding R using assms(1) R by (subst take_Suc_conv_app_nth) simp_all
  then have "drop MESSAGE_MAX (memmove b ROW 0 (ROW * k)) = b ! MESSAGE_MAX # take (ROW * k) b @ drop (ROW + ROW * k) b"
    using assms(1) R by (simp only: m drop_append) simp
  then have "b' = (?new @ b ! MESSAGE_MAX # take (ROW * k) b @ drop (ROW + ROW * k) b)[length ?new := NUL]"
    by (simp only: b'_def strncpy_def nl)
  then have "b' = ?new @ NUL # take (ROW * k) b @ drop (ROW + ROW * k) b"
    by (simp only: list_update_length)
  then have b': "b' = (?new @ [NUL]) @ take (ROW * k) b @ drop (ROW + ROW * k) b" and n: "length (?new @ [NUL]) = ROW"
    by (simp_all add: R)
  show "length b' = 3 * ROW" using n k assms(1) unfolding b' by simp
  have "take ROW b' = ?new @ [NUL]" unfolding b' using n by (metis append_eq_conv_conj)
  then show "cstr (take ROW b') = take MESSAGE_MAX (cstr msg)" using cstr_cut [of MESSAGE_MAX msg "[]"] by simp
  assume "i < k"
  then have "Suc i * ROW \<le> ROW * k" by (metis mult.commute mult_le_mono1 Suc_leI)
  then have i: "i * ROW + ROW \<le> ROW * k" "ROW * k \<le> length b" using k assms(1) by (simp add: add.commute, linarith)
  have "drop ROW b' = take (ROW * k) b @ drop (ROW + ROW * k) b" unfolding b' using n by (metis append_eq_conv_conj)
  then have "drop (Suc i * ROW) b' = drop (i * ROW) (take (ROW * k) b @ drop (ROW + ROW * k) b)"
    by (metis drop_drop add.commute mult_Suc)
  also have "take ROW \<dots> = take ROW (drop (i * ROW) b)"
    using i by (simp add: drop_take min_absorb1)
  finally show "take ROW (drop (Suc i * ROW) b') = take ROW (drop (i * ROW) b)" .
qed

lemma add_refines:
  assumes "well_sized s"
  shows "well_sized (add_1_svc msg s) \<and> history (add_1_svc msg s) = take 3 (take 60 (cstr msg) # history s)"
proof -
  define k where "k = (if mCount s = HISTORY_MAX then 2 else mCount s)"
  have k: "k \<le> 2" "mCount (add_1_svc msg s) = Suc k" "k \<le> mCount s" "Suc k = min 3 (Suc (mCount s))"
    using assms by (auto simp: k_def well_sized_def add_1_svc_def HISTORY_MAX_def Let_def)
  have b: "mList (add_1_svc msg s) = (strncpy (memmove (mList s) ROW 0 (ROW * k)) msg MESSAGE_MAX)[MESSAGE_MAX := NUL]"
    by (simp add: add_1_svc_def k_def HISTORY_MAX_def Let_def)
  have l: "length (mList s) = 3 * ROW" using assms by (simp add: well_sized_def HISTORY_MAX_def)
  note rows = add_rows [OF l k(1), where msg = msg, folded b]
  have "history (add_1_svc msg s) = cstr (row (add_1_svc msg s) 0) # map (\<lambda>i. cstr (row (add_1_svc msg s) (Suc i))) [0..<k]"
    unfolding history_def k(2) by (simp add: map_upt_Suc del: upt_Suc)
  also have "\<dots> = take 60 (cstr msg) # map (\<lambda>i. cstr (row s i)) [0..<k]"
    using rows(2,3) by (simp add: row_def MESSAGE_MAX_def)
  also have "\<dots> = take 3 (take 60 (cstr msg) # history s)"
  proof -
    have "take 2 [0..<mCount s] = [0..<k]" using k(1,4) by (cases "2 \<le> mCount s") (auto simp: take_upt min_def numeral_2_eq_2 split: if_splits)
    then show ?thesis by (simp add: history_def take_map numeral_3_eq_3 numeral_2_eq_2)
  qed
  finally show ?thesis using rows(1) k(1,2) by (simp add: well_sized_def HISTORY_MAX_def)
qed

text \<open>
  Whatever calls the clients make, the server answers like a list of messages: the newest
  first, three at most, each cut to 60 characters; an index outside it is an error.
\<close>
theorem motd_is_history: "serve calls motd_init = spec_serve calls []"
proof -
  have "serve calls s = spec_serve calls (history s)" if "well_sized s" for s
    using that
  proof (induction calls arbitrary: s)
    case (Cons c calls)
    then show ?case using add_refines [of s]
      by (cases c) (auto simp: count_1_svc_def get_1_svc_def history_def)
  qed simp
  moreover have "well_sized motd_init" "history motd_init = []"
    by (simp_all add: well_sized_def motd_init_def history_def)
  ultimately show ?thesis by metis
qed

end
