(* ===== verification/Ping_Pong.thy ===== *)
theory Ping_Pong
  imports Main
begin

text \<open>
  Two threads that take turns, \<open>exercises/ex06/pingpong.c\<close> (busy waiting on a shared variable) and
  \<open>ex07/pingpong.c\<close> (two semaphores), with every access to the shared state a step. A thread that
  cannot move has no next state when it sleeps in \<open>sem_wait\<close> or has returned, and the same state when
  it spins.

  The locale \<open>relay\<close> is what both are: the states form one line, and only the owner of a state leaves
  it. It is interpreted on both programs; from it come that nobody is ever stuck, that the
  turns alternate, and that the programs do the same.
\<close>

definition ITERATIONS :: nat where "ITERATIONS = 500"

datatype player = Ping | Pong

inductive reach :: "(player \<Rightarrow> 's \<Rightarrow> 's option) \<Rightarrow> 's \<Rightarrow> 's \<Rightarrow> bool" for step s0 where
  start: "reach step s0 s0"
| move: "reach step s0 s \<Longrightarrow> step p s = Some s' \<Longrightarrow> reach step s0 s'"

text \<open>Four moves make a round: ping sees its turn and passes it on, then pong.\<close>

definition owner :: "nat \<Rightarrow> player" where
  "owner n = (if n mod 4 < 2 then Ping else Pong)"

locale relay =
  fixes last_move :: nat and s0 :: 's and step :: "player \<Rightarrow> 's \<Rightarrow> 's option" and state :: "nat \<Rightarrow> 's"
  assumes state_start: "s0 = state 0"
    and owner_moves: "n < last_move \<Longrightarrow> step (owner n) (state n) = Some (state (Suc n))"
    and other_waits: "n < last_move \<Longrightarrow> p \<noteq> owner n \<Longrightarrow> step p (state n) \<in> {None, Some (state n)}"
    and all_return: "step p (state last_move) = None"
    and state_moves: "state (Suc n) \<noteq> state n"
begin

lemma step_state: "n \<le> last_move \<Longrightarrow> step p (state n) = Some s' \<Longrightarrow> n < last_move \<and> (s' = state n \<or> s' = state (Suc n))"
  using owner_moves [of n] other_waits [of n p] all_return [of p]
  by (cases "n = last_move"; cases "p = owner n") auto

lemma reach_state: "reach step s0 s \<Longrightarrow> \<exists>n\<le>last_move. s = state n"
proof (induction rule: reach.induct)
  case start
  then show ?case using state_start by blast
next
  case (move s p s')
  then obtain n where "n \<le> last_move" "s = state n" by blast
  then show ?case using step_state [of n p s'] move.hyps(2) by (metis Suc_leI)
qed

lemma state_reach: "n \<le> last_move \<Longrightarrow> reach step s0 (state n)"
proof (induction n)
  case 0
  then show ?case using reach.start [of step s0] by (simp add: state_start)
next
  case (Suc n)
  then show ?case using reach.move [of step s0 "state n" "owner n"] owner_moves [of n] by simp
qed

lemma reach_eq: "{s. reach step s0 s} = state ` {..last_move}"
  using reach_state state_reach by auto

lemma never_stuck: "reach step s0 s \<Longrightarrow> s = state last_move \<or> (\<exists>p s'. step p s = Some s' \<and> s' \<noteq> s)"
  using reach_state owner_moves state_moves by (metis le_neq_implies_less)

end

subsection \<open>Busy waiting\<close>

record spin =
  ping_i :: nat
  pong_i :: nat
  ping_go :: bool
  pong_go :: bool
  nextTurn :: int

definition spin_start :: spin where
  "spin_start = \<lparr>ping_i = 0, pong_i = 0, ping_go = False, pong_go = False, nextTurn = 0\<rparr>"

definition pingRoutine :: "spin \<Rightarrow> spin option" where
  "pingRoutine s = (if ping_i s \<ge> ITERATIONS then None
     else if ping_go s then Some (s\<lparr>nextTurn := 1, ping_go := False, ping_i := ping_i s + 1\<rparr>)
     else if nextTurn s \<noteq> 0 then Some s
     else Some (s\<lparr>ping_go := True\<rparr>))"

definition pongRoutine :: "spin \<Rightarrow> spin option" where
  "pongRoutine s = (if pong_i s \<ge> ITERATIONS then None
     else if pong_go s then Some (s\<lparr>nextTurn := 0, pong_go := False, pong_i := pong_i s + 1\<rparr>)
     else if nextTurn s \<noteq> 1 then Some s
     else Some (s\<lparr>pong_go := True\<rparr>))"

fun spin_step :: "player \<Rightarrow> spin \<Rightarrow> spin option" where
  "spin_step Ping s = pingRoutine s"
| "spin_step Pong s = pongRoutine s"

definition spin_state :: "nat \<Rightarrow> spin" where
  "spin_state n = \<lparr>ping_i = n div 4 + (if n mod 4 < 2 then 0 else 1), pong_i = n div 4, ping_go = (n mod 4 = 1), pong_go = (n mod 4 = 3),
     nextTurn = (if n mod 4 < 2 then 0 else 1)\<rparr>"

text \<open>The four kinds of states and the next one.\<close>

lemma four_cases:
  fixes n :: nat
  obtains k where "n = 4 * k" "n mod 4 = 0" "n div 4 = k" "Suc n mod 4 = 1" "Suc n div 4 = k"
  | k where "n = 4 * k + 1" "n mod 4 = 1" "n div 4 = k" "Suc n mod 4 = 2" "Suc n div 4 = k"
  | k where "n = 4 * k + 2" "n mod 4 = 2" "n div 4 = k" "Suc n mod 4 = 3" "Suc n div 4 = k"
  | k where "n = 4 * k + 3" "n mod 4 = 3" "n div 4 = k" "Suc n mod 4 = 0" "Suc n div 4 = Suc k"
proof -
  have "n = 4 * (n div 4) + n mod 4" "n mod 4 < 4" by simp_all
  then consider "n mod 4 = 0" "n = 4 * (n div 4)" | "n mod 4 = 1" "n = 4 * (n div 4) + 1"
    | "n mod 4 = 2" "n = 4 * (n div 4) + 2" | "n mod 4 = 3" "n = 4 * (n div 4) + 3" by linarith
  then show thesis
  proof cases
    case 1 then show thesis by (intro that(1) [of "n div 4"]) presburger+
  next
    case 2 then show thesis by (intro that(2) [of "n div 4"]) presburger+
  next
    case 3 then show thesis by (intro that(3) [of "n div 4"]) presburger+
  next
    case 4 then show thesis by (intro that(4) [of "n div 4"]) presburger+
  qed
qed

interpretation spinning: relay "4 * ITERATIONS" spin_start spin_step spin_state
proof
  show "spin_start = spin_state 0" by (simp add: spin_start_def spin_state_def)
  show "spin_step p (spin_state (4 * ITERATIONS)) = None" for p
    by (cases p) (simp_all add: pingRoutine_def pongRoutine_def spin_state_def)
  fix n
  show "spin_state (Suc n) \<noteq> spin_state n"
    by (cases n rule: four_cases) (simp_all add: spin_state_def)
  assume n: "n < 4 * ITERATIONS"
  show "spin_step (owner n) (spin_state n) = Some (spin_state (Suc n))"
    by (cases n rule: four_cases) (use n in \<open>simp_all add: spin_state_def owner_def pingRoutine_def pongRoutine_def\<close>)
  fix p assume p: "p \<noteq> owner n"
  show "spin_step p (spin_state n) \<in> {None, Some (spin_state n)}"
    by (cases n rule: four_cases; cases p) (use n p in \<open>simp_all add: spin_state_def owner_def pingRoutine_def pongRoutine_def\<close>)
qed

subsection \<open>Semaphores\<close>

record semas =
  sping_i :: nat
  spong_i :: nat
  sping_go :: bool
  spong_go :: bool
  pingNext :: nat
  pongNext :: nat

definition sem_start :: semas where
  "sem_start = \<lparr>sping_i = 0, spong_i = 0, sping_go = False, spong_go = False, pingNext = 1, pongNext = 0\<rparr>"

definition sem_pingRoutine :: "semas \<Rightarrow> semas option" where
  "sem_pingRoutine s = (if sping_i s \<ge> ITERATIONS then None
     else if sping_go s then Some (s\<lparr>pongNext := pongNext s + 1, sping_go := False, sping_i := sping_i s + 1\<rparr>)
     else if pingNext s = 0 then None
     else Some (s\<lparr>pingNext := pingNext s - 1, sping_go := True\<rparr>))"

definition sem_pongRoutine :: "semas \<Rightarrow> semas option" where
  "sem_pongRoutine s = (if spong_i s \<ge> ITERATIONS then None
     else if spong_go s then Some (s\<lparr>pingNext := pingNext s + 1, spong_go := False, spong_i := spong_i s + 1\<rparr>)
     else if pongNext s = 0 then None
     else Some (s\<lparr>pongNext := pongNext s - 1, spong_go := True\<rparr>))"

fun sem_step :: "player \<Rightarrow> semas \<Rightarrow> semas option" where
  "sem_step Ping s = sem_pingRoutine s"
| "sem_step Pong s = sem_pongRoutine s"

definition sem_state :: "nat \<Rightarrow> semas" where
  "sem_state n = \<lparr>sping_i = n div 4 + (if n mod 4 < 2 then 0 else 1), spong_i = n div 4, sping_go = (n mod 4 = 1), spong_go = (n mod 4 = 3),
     pingNext = (if n mod 4 = 0 then 1 else 0), pongNext = (if n mod 4 = 2 then 1 else 0)\<rparr>"

interpretation posting: relay "4 * ITERATIONS" sem_start sem_step sem_state
proof
  show "sem_start = sem_state 0" by (simp add: sem_start_def sem_state_def)
  show "sem_step p (sem_state (4 * ITERATIONS)) = None" for p
    by (cases p) (simp_all add: sem_pingRoutine_def sem_pongRoutine_def sem_state_def)
  fix n
  show "sem_state (Suc n) \<noteq> sem_state n"
    by (cases n rule: four_cases) (simp_all add: sem_state_def)
  assume n: "n < 4 * ITERATIONS"
  show "sem_step (owner n) (sem_state n) = Some (sem_state (Suc n))"
    by (cases n rule: four_cases) (use n in \<open>simp_all add: sem_state_def owner_def sem_pingRoutine_def sem_pongRoutine_def\<close>)
  fix p assume p: "p \<noteq> owner n"
  show "sem_step p (sem_state n) \<in> {None, Some (sem_state n)}"
    by (cases n rule: four_cases; cases p) (use n p in \<open>simp_all add: sem_state_def owner_def sem_pingRoutine_def sem_pongRoutine_def\<close>)
qed

subsection \<open>Both\<close>

definition spin_view :: "spin \<Rightarrow> nat \<times> nat \<times> bool \<times> bool" where
  "spin_view s = (ping_i s, pong_i s, ping_go s, pong_go s)"

definition sem_view :: "semas \<Rightarrow> nat \<times> nat \<times> bool \<times> bool" where
  "sem_view s = (sping_i s, spong_i s, sping_go s, spong_go s)"

text \<open>
  Busy waiting and semaphores give the same game: the same combinations of rounds played and
  turns held are reached; the rounds never differ by more than the one ping is ahead, and the two
  threads never hold the turn together.
\<close>
theorem pingpong_same_game:
  "spin_view ` {s. reach spin_step spin_start s} = sem_view ` {s. reach sem_step sem_start s}
    \<and> (\<forall>(i, j, a, b) \<in> spin_view ` {s. reach spin_step spin_start s}. (i = j \<or> i = Suc j) \<and> \<not> (a \<and> b))"
proof -
  have v: "spin_view (spin_state n) = sem_view (sem_state n)" for n by (simp add: spin_view_def spin_state_def sem_view_def sem_state_def)
  have "spin_view ` {s. reach spin_step spin_start s} = sem_view ` {s. reach sem_step sem_start s}"
    unfolding spinning.reach_eq posting.reach_eq by (simp add: image_image v)
  moreover have "\<forall>(i, j, a, b) \<in> spin_view ` {s. reach spin_step spin_start s}. (i = j \<or> i = Suc j) \<and> \<not> (a \<and> b)"
    unfolding spinning.reach_eq by (auto simp: spin_view_def spin_state_def)
  ultimately show ?thesis by blast
qed

theorem pingpong_same_game_witness:
  "(1, 0, False, False) \<in> sem_view ` {s. reach sem_step sem_start s}"
proof -
  have "spin_view (spin_state 2) = (1, 0, False, False)" by (simp add: spin_view_def spin_state_def)
  then have "(1, 0, False, False) \<in> spin_view ` {s. reach spin_step spin_start s}"
    using spinning.state_reach [of 2] by (force simp: ITERATIONS_def)
  then show ?thesis using pingpong_same_game by simp
qed

text \<open>
  Neither program is ever stuck: in every state that can be reached, both threads have played all
  their rounds and returned, or one of them can make a move that changes the state.
\<close>
theorem pingpong_never_stuck:
  "(\<forall>s. reach spin_step spin_start s \<longrightarrow>
      (ping_i s = ITERATIONS \<and> pong_i s = ITERATIONS) \<or> (\<exists>p s'. spin_step p s = Some s' \<and> s' \<noteq> s))
    \<and> (\<forall>s. reach sem_step sem_start s \<longrightarrow>
      (sping_i s = ITERATIONS \<and> spong_i s = ITERATIONS) \<or> (\<exists>p s'. sem_step p s = Some s' \<and> s' \<noteq> s))"
proof (intro conjI allI impI)
  fix s assume "reach spin_step spin_start s"
  from spinning.never_stuck [OF this] show "(ping_i s = ITERATIONS \<and> pong_i s = ITERATIONS) \<or> (\<exists>p s'. spin_step p s = Some s' \<and> s' \<noteq> s)"
    by (auto simp: spin_state_def)
next
  fix s assume "reach sem_step sem_start s"
  from posting.never_stuck [OF this] show "(sping_i s = ITERATIONS \<and> spong_i s = ITERATIONS) \<or> (\<exists>p s'. sem_step p s = Some s' \<and> s' \<noteq> s)"
    by (auto simp: sem_state_def)
qed

theorem pingpong_never_stuck_witness: "\<exists>p s'. sem_step p sem_start = Some s' \<and> s' \<noteq> sem_start"
proof -
  have "reach sem_step sem_start sem_start" by (rule reach.start)
  then have "(sping_i sem_start = ITERATIONS \<and> spong_i sem_start = ITERATIONS) \<or> (\<exists>p s'. sem_step p sem_start = Some s' \<and> s' \<noteq> sem_start)"
    using pingpong_never_stuck by blast
  then show ?thesis by (simp add: sem_start_def ITERATIONS_def)
qed

end
