(* ===== verification/Interleaving.thy ===== *)
theory Interleaving
  imports Prelude
begin

text \<open>
  Three threads that print two characters each, \<open>exercises/ex05/interleaving.c\<close>. A \<open>write\<close> of one
  character is a step of its thread; \<open>main\<close> makes the threads one by one, waits for all of them and
  ends the line. Threads may run while others are not yet made.

  Proved: the lines that can come out are exactly the interleavings of the three words.
\<close>

definition ROUNDS :: nat where "ROUNDS = 100000"

definition startRoutine :: "nat \<Rightarrow> string" where
  "startRoutine t = (if t = 0 then ''ab'' else if t = 1 then ''cd'' else ''ef'')"

record threads =
  round_no :: nat
  made :: nat
  todo :: "nat \<Rightarrow> string"
  written :: string

definition threads_start :: threads where
  "threads_start = \<lparr>round_no = 0, made = 0, todo = startRoutine, written = []\<rparr>"

inductive print_step :: "threads \<Rightarrow> threads \<Rightarrow> bool" where
  create: "round_no s < ROUNDS \<Longrightarrow> made s < 3 \<Longrightarrow> print_step s (s\<lparr>made := Suc (made s)\<rparr>)"
| put_char: "t < made s \<Longrightarrow> todo s t = c # cs \<Longrightarrow>
    print_step s (s\<lparr>todo := (todo s)(t := cs), written := written s @ [c]\<rparr>)"
| joined: "made s = 3 \<Longrightarrow> \<forall>t<3. todo s t = [] \<Longrightarrow>
    print_step s \<lparr>round_no = Suc (round_no s), made = 0, todo = startRoutine, written = written s @ NL\<rparr>"

definition letters :: "nat \<Rightarrow> char \<Rightarrow> bool" where
  "letters t c \<longleftrightarrow> c \<in> set (startRoutine t)"

text \<open>A word that has the characters of each thread, in their order, and no others.\<close>

definition interleaving :: "string \<Rightarrow> bool" where
  "interleaving w \<longleftrightarrow> (\<forall>t<3. filter (letters t) w = startRoutine t) \<and> (\<forall>c\<in>set w. \<exists>t<3. letters t c)"

definition lines :: "string list \<Rightarrow> string" where
  "lines ws = concat (map (\<lambda>w. w @ NL) ws)"

lemma letters_disjoint: "letters t c \<Longrightarrow> letters u c \<Longrightarrow> t < 3 \<Longrightarrow> u < 3 \<Longrightarrow> t = u"
  by (auto simp: letters_def startRoutine_def split: if_splits)

definition print_inv :: "threads \<Rightarrow> bool" where
  "print_inv s \<longleftrightarrow> made s \<le> 3 \<and> round_no s \<le> ROUNDS \<and> (made s > 0 \<longrightarrow> round_no s < ROUNDS) \<and> (\<forall>t\<ge>made s. todo s t = startRoutine t)
     \<and> (\<exists>ws cur. written s = lines ws @ cur \<and> length ws = round_no s \<and> (\<forall>w\<in>set ws. interleaving w)
       \<and> (\<forall>c\<in>set cur. \<exists>t<3. letters t c) \<and> (\<forall>t<3. filter (letters t) cur @ todo s t = startRoutine t))"

lemma print_inv_step: "print_step s s' \<Longrightarrow> print_inv s \<Longrightarrow> print_inv s'"
proof (induction rule: print_step.induct)
  case (create s)
  then show ?case by (auto simp: print_inv_def)
next
  case (put_char t s c cs)
  obtain ws cur where w: "written s = lines ws @ cur" "length ws = round_no s" "\<forall>w\<in>set ws. interleaving w"
      "\<forall>c\<in>set cur. \<exists>t<3. letters t c" "\<forall>t<3. filter (letters t) cur @ todo s t = startRoutine t"
    using put_char.prems by (auto simp: print_inv_def)
  have t: "t < 3" using put_char.hyps(1) put_char.prems by (auto simp: print_inv_def)
  have "c \<in> set (filter (letters t) cur @ todo s t)" using put_char.hyps(2) by simp
  then have c: "letters t c" using w(5) t unfolding letters_def by metis
  have f: "filter (letters u) (cur @ [c]) @ ((todo s)(t := cs)) u = startRoutine u" if "u < 3" for u
  proof (cases "u = t")
    case True
    then show ?thesis using w(5) [rule_format, OF t] c put_char.hyps(2) by simp
  next
    case False
    then have "\<not> letters u c" using letters_disjoint [OF c _ t that] by blast
    then show ?thesis using w(5) [rule_format, OF that] False by simp
  qed
  let ?s' = "s\<lparr>todo := (todo s)(t := cs), written := written s @ [c]\<rparr>"
  have "\<exists>ws cur. written ?s' = lines ws @ cur \<and> length ws = round_no ?s' \<and> (\<forall>w\<in>set ws. interleaving w)
       \<and> (\<forall>c\<in>set cur. \<exists>t<3. letters t c) \<and> (\<forall>t<3. filter (letters t) cur @ todo ?s' t = startRoutine t)"
    using w(1-4) f c t by (intro exI [of _ ws] exI [of _ "cur @ [c]"]) auto
  moreover have "made ?s' \<le> 3 \<and> round_no ?s' \<le> ROUNDS \<and> (made ?s' > 0 \<longrightarrow> round_no ?s' < ROUNDS) \<and> (\<forall>t\<ge>made ?s'. todo ?s' t = startRoutine t)"
    using put_char by (auto simp: print_inv_def)
  ultimately show ?case unfolding print_inv_def by blast
next
  case (joined s)
  obtain ws cur where w: "written s = lines ws @ cur" "length ws = round_no s" "\<forall>w\<in>set ws. interleaving w"
      "\<forall>c\<in>set cur. \<exists>t<3. letters t c" "\<forall>t<3. filter (letters t) cur @ todo s t = startRoutine t"
    using joined.prems by (auto simp: print_inv_def)
  have "interleaving cur" using w(4,5) joined.hyps(2) by (simp add: interleaving_def)
  then have "written s @ NL = lines (ws @ [cur]) @ []" "length (ws @ [cur]) = Suc (round_no s)" "\<forall>w\<in>set (ws @ [cur]). interleaving w"
    using w(1-3) by (auto simp: lines_def)
  then show ?case using joined by (fastforce simp: print_inv_def)
qed

lemma print_reach_inv: "print_step\<^sup>*\<^sup>* threads_start s \<Longrightarrow> print_inv s"
proof (induction rule: rtranclp_induct)
  case base
  then show ?case by (auto simp: print_inv_def threads_start_def lines_def intro!: exI [of _ "[]"])
next
  case (step s s')
  then show ?case using print_inv_step by blast
qed

lemma print_word:
  "made s = 3 \<Longrightarrow> \<forall>t<3. filter (letters t) w = todo s t \<Longrightarrow> \<forall>c\<in>set w. \<exists>t<3. letters t c \<Longrightarrow>
     \<exists>s'. print_step\<^sup>*\<^sup>* s s' \<and> made s' = 3 \<and> round_no s' = round_no s \<and> (\<forall>t<3. todo s' t = []) \<and> written s' = written s @ w"
proof (induction w arbitrary: s)
  case (Cons c w)
  obtain t where t: "t < 3" "letters t c" using Cons.prems(3) by auto
  let ?s1 = "s\<lparr>todo := (todo s)(t := filter (letters t) w), written := written s @ [c]\<rparr>"
  have "print_step s ?s1" using print_step.put_char [of t s c "filter (letters t) w"] t Cons.prems(1,2) by auto
  moreover have "filter (letters u) w = todo ?s1 u" if "u < 3" for u
    using Cons.prems(2) [rule_format, OF that] letters_disjoint [OF t(2) _ t(1) that] by (cases "u = t") (auto split: if_splits)
  ultimately show ?case using Cons.IH [of ?s1] Cons.prems(1,3) by (auto intro: converse_rtranclp_into_rtranclp)
qed auto

lemma print_line:
  assumes "round_no s < ROUNDS" "made s = 0" "todo s = startRoutine" "interleaving w"
  shows "print_step\<^sup>*\<^sup>* s \<lparr>round_no = Suc (round_no s), made = 0, todo = startRoutine, written = written s @ w @ NL\<rparr>"
proof -
  have "print_step\<^sup>*\<^sup>* s (s\<lparr>made := 3\<rparr>)"
  proof -
    have "print_step s (s\<lparr>made := 1\<rparr>)" using print_step.create [of s] assms(1,2) by simp
    moreover have "print_step (s\<lparr>made := 1\<rparr>) (s\<lparr>made := 2\<rparr>)" using print_step.create [of "s\<lparr>made := 1\<rparr>"] assms(1) by (simp add: numeral_2_eq_2)
    moreover have "print_step (s\<lparr>made := 2\<rparr>) (s\<lparr>made := 3\<rparr>)" using print_step.create [of "s\<lparr>made := 2\<rparr>"] assms(1) by (simp add: numeral_3_eq_3 numeral_2_eq_2)
    ultimately show ?thesis by (meson converse_rtranclp_into_rtranclp r_into_rtranclp)
  qed
  moreover obtain s' where s': "print_step\<^sup>*\<^sup>* (s\<lparr>made := 3\<rparr>) s'" "made s' = 3" "round_no s' = round_no s" "\<forall>t<3. todo s' t = []" "written s' = written s @ w"
    using print_word [of "s\<lparr>made := 3\<rparr>" w] assms(3,4) by (auto simp: interleaving_def)
  moreover have "print_step s' \<lparr>round_no = Suc (round_no s), made = 0, todo = startRoutine, written = written s @ w @ NL\<rparr>"
    using print_step.joined [OF s'(2,4)] s'(3,5) by simp
  ultimately show ?thesis by (meson rtranclp_trans rtranclp.rtrancl_into_rtrancl)
qed

text \<open>
  After \<open>n\<close> rounds the output can be exactly the texts of \<open>n\<close> lines, each of which has the
  characters of every thread in their order: nothing is lost or repeated, no line mixes with the
  next, and every interleaving is possible in every round.
\<close>
theorem interleaving_outputs:
  assumes "n \<le> ROUNDS"
  shows "{written s |s. print_step\<^sup>*\<^sup>* threads_start s \<and> round_no s = n \<and> made s = 0} = {lines ws |ws. length ws = n \<and> (\<forall>w\<in>set ws. interleaving w)}"
proof (intro equalityI subsetI)
  fix out assume "out \<in> {written s |s. print_step\<^sup>*\<^sup>* threads_start s \<and> round_no s = n \<and> made s = 0}"
  then obtain s where s: "out = written s" "print_inv s" "round_no s = n" "made s = 0" using print_reach_inv by blast
  then obtain ws cur where w: "written s = lines ws @ cur" "length ws = n" "\<forall>w\<in>set ws. interleaving w"
      "\<forall>c\<in>set cur. \<exists>t<3. letters t c" "\<forall>t<3. filter (letters t) cur @ todo s t = startRoutine t" by (auto simp: print_inv_def)
  have "todo s t = startRoutine t" for t using s(2,4) by (simp add: print_inv_def)
  then have "\<forall>t<3. filter (letters t) cur = []" using w(5) by simp
  then have "cur = []" using w(4) by (cases cur) auto
  then show "out \<in> {lines ws |ws. length ws = n \<and> (\<forall>w\<in>set ws. interleaving w)}" using w(1-3) s(1) by auto
next
  fix out assume "out \<in> {lines ws |ws. length ws = n \<and> (\<forall>w\<in>set ws. interleaving w)}"
  then obtain ws where ws: "out = lines ws" "length ws = n" "\<forall>w\<in>set ws. interleaving w" by blast
  have "print_step\<^sup>*\<^sup>* threads_start \<lparr>round_no = length ws, made = 0, todo = startRoutine, written = lines ws\<rparr>"
    using ws(2,3) assms
  proof (induction ws arbitrary: n rule: rev_induct)
    case Nil
    then show ?case by (simp add: threads_start_def lines_def)
  next
    case (snoc w ws)
    let ?s = "\<lparr>round_no = length ws, made = 0, todo = startRoutine, written = lines ws\<rparr>"
    have "print_step\<^sup>*\<^sup>* threads_start ?s" using snoc by simp
    moreover have "print_step\<^sup>*\<^sup>* ?s \<lparr>round_no = Suc (length ws), made = 0, todo = startRoutine, written = lines ws @ w @ NL\<rparr>"
      using print_line [of ?s w] snoc.prems by simp
    ultimately show ?case by (simp add: lines_def)
  qed
  then show "out \<in> {written s |s. print_step\<^sup>*\<^sup>* threads_start s \<and> round_no s = n \<and> made s = 0}" using ws(1,2) by force
qed

theorem interleaving_outputs_witness:
  "lines [''acebdf''] \<in> {written s |s. print_step\<^sup>*\<^sup>* threads_start s \<and> round_no s = 1 \<and> made s = 0}"
proof -
  have "interleaving ''acebdf''"
    by (auto simp: interleaving_def letters_def startRoutine_def numeral_3_eq_3 less_Suc_eq)
  moreover have "1 \<le> ROUNDS" by (simp add: ROUNDS_def)
  ultimately show ?thesis unfolding interleaving_outputs [OF \<open>1 \<le> ROUNDS\<close>] by force
qed

end
