(* ===== verification/Mem_Test.thy ===== *)
theory Mem_Test
  imports Malloc
begin

text \<open>
  The test program of the allocator, \<open>exercises/ex11/memTest.c\<close>, as a client of the model of
  \<open>myMalloc.c\<close>. The kernel is a parameter that sees the pages it gave before; \<open>kernel_ok\<close> is what
  \<open>mmap\<close> promises, and every call may still fail. The numbers of \<open>random\<close> are an input.

  Proved: the program never misuses the allocator and always ends, and at its end every byte it ever
  got from the kernel is in the free list.
\<close>

record test =
  heap :: heap
  pages :: "(nat \<times> nat) list"
  printed :: string

type_synonym kern = "(nat \<times> nat) list \<Rightarrow> nat \<Rightarrow> nat \<Rightarrow> nat option"

text \<open>The pages a call of \<open>malloc\<close> takes from the kernel.\<close>

definition pages_taken :: "kern \<Rightarrow> nat \<Rightarrow> nat \<Rightarrow> test \<Rightarrow> (nat \<times> nat) list" where
  "pages_taken kern ps n t = (let req = page_request ps (request_size n) in
     case getBlock (heap t) (request_size n) of
       Some (h, hp) \<Rightarrow> if h = 0 then (case kern (pages t) (nextBlock hp) req of Some a \<Rightarrow> [(a, req)] | None \<Rightarrow> []) else []
     | None \<Rightarrow> [])"

definition do_malloc :: "kern \<Rightarrow> nat \<Rightarrow> nat \<Rightarrow> test \<Rightarrow> (nat \<times> test) option" where
  "do_malloc kern ps n t = map_option (\<lambda>r. (fst r, t\<lparr>heap := snd r, pages := pages t @ pages_taken kern ps n t\<rparr>))
     (malloc (kern (pages t)) ps (heap t) n)"

definition do_free :: "nat \<Rightarrow> test \<Rightarrow> test option" where
  "do_free p t = map_option (\<lambda>hp. t\<lparr>heap := hp\<rparr>) (free (heap t) p)"

definition reportString :: "string \<Rightarrow> test \<Rightarrow> test" where
  "reportString s t = t\<lparr>printed := printed t @ s\<rparr>"

definition do_report :: "string \<Rightarrow> test \<Rightarrow> test option" where
  "do_report title t = (let t1 = reportString title t in
     map_option (\<lambda>r. t1\<lparr>printed := printed t1 @ r\<rparr>) (reportFreeList (mem (heap t1)) (freeList (heap t1))))"

definition babyTest :: "kern \<Rightarrow> nat \<Rightarrow> test \<Rightarrow> test option" where
  "babyTest kern ps t =
     Option.bind (do_malloc kern ps 4088 t) (\<lambda>(p, t).
     Option.bind (do_report (''-------- babyTest 1 --------'' @ NL) t) (\<lambda>t.
     Option.bind (do_free p t)
       (do_report (''-------- babyTest 2 --------'' @ NL))))"

definition toddlerTest :: "kern \<Rightarrow> nat \<Rightarrow> test \<Rightarrow> test option" where
  "toddlerTest kern ps t =
     Option.bind (do_malloc kern ps 30 t) (\<lambda>(p1, t).
     Option.bind (do_malloc kern ps 50 t) (\<lambda>(p2, t).
     Option.bind (do_malloc kern ps 20 t) (\<lambda>(p3, t).
     Option.bind (do_report (''-------- toddlerTest 1 --------'' @ NL) t) (\<lambda>t.
     Option.bind (do_free p2 t) (\<lambda>t.
     Option.bind (do_report (''-------- toddlerTest 2 --------'' @ NL) t) (\<lambda>t.
     Option.bind (do_free p1 t) (\<lambda>t.
     Option.bind (do_report (''-------- toddlerTest 3 --------'' @ NL) t) (\<lambda>t.
     Option.bind (do_free p3 t)
       (do_report (''-------- toddlerTest 4 --------'' @ NL))))))))))"

definition TEST_SIZE :: nat where "TEST_SIZE = 500"

definition TEST_DURATION :: nat where "TEST_DURATION = 10000"

text \<open>The loop of \<open>randomTest\<close>; \<open>k\<close> counts the random numbers used.\<close>

definition random_step :: "kern \<Rightarrow> nat \<Rightarrow> (nat \<Rightarrow> nat) \<Rightarrow> nat \<times> (nat \<Rightarrow> nat) \<times> test \<Rightarrow> (nat \<times> (nat \<Rightarrow> nat) \<times> test) option" where
  "random_step kern ps random = (\<lambda>(k, block, t). let ind = random k mod TEST_SIZE in
     if block ind \<noteq> 0 then map_option (\<lambda>t. (k + 1, block(ind := 0), t)) (do_free (block ind) t)
     else let sz = random (k + 1) mod 10000 + 1 in
       map_option (\<lambda>(p, t). (k + 2, block(ind := p), t)) (do_malloc kern ps sz t))"

fun random_loop :: "kern \<Rightarrow> nat \<Rightarrow> (nat \<Rightarrow> nat) \<Rightarrow> nat \<Rightarrow> nat \<times> (nat \<Rightarrow> nat) \<times> test \<Rightarrow> (nat \<times> (nat \<Rightarrow> nat) \<times> test) option" where
  "random_loop kern ps random 0 st = Some st"
| "random_loop kern ps random (Suc n) st = Option.bind (random_step kern ps random st) (random_loop kern ps random n)"

text \<open>Freeing what is left: the slots from \<open>i\<close> on.\<close>

fun free_left :: "nat \<Rightarrow> nat \<Rightarrow> (nat \<Rightarrow> nat) \<Rightarrow> test \<Rightarrow> test option" where
  "free_left i 0 block t = Some t"
| "free_left i (Suc n) block t =
     (if block i \<noteq> 0 then Option.bind (do_free (block i) t) (free_left (i + 1) n block) else free_left (i + 1) n block t)"

definition randomTest :: "kern \<Rightarrow> nat \<Rightarrow> (nat \<Rightarrow> nat) \<Rightarrow> test \<Rightarrow> test option" where
  "randomTest kern ps random t =
     Option.bind (random_loop kern ps random TEST_DURATION (0, (\<lambda>_. 0), t)) (\<lambda>(k, block, t).
     Option.bind (free_left 0 TEST_SIZE block t)
       (do_report (''-------- randomTest --------'' @ NL)))"

definition memTest_main :: "kern \<Rightarrow> nat \<Rightarrow> (nat \<Rightarrow> nat) \<Rightarrow> test option" where
  "memTest_main kern ps random =
     Option.bind (babyTest kern ps \<lparr>heap = heap_init, pages = [], printed = []\<rparr>) (\<lambda>t.
     Option.bind (toddlerTest kern ps t) (randomTest kern ps random))"

subsection \<open>What the client owns\<close>

definition page_bytes :: "(nat \<times> nat) list \<Rightarrow> nat set" where
  "page_bytes P = (\<Union>(a, n)\<in>set P. {a..<a + n})"

definition kernel_ok :: "kern \<Rightarrow> bool" where
  "kernel_ok kern \<longleftrightarrow> (\<forall>P hint n a. kern P hint n = Some a \<longrightarrow> 0 < a \<and> a + n \<le> 2 ^ 64 \<and> {a..<a + n} \<inter> page_bytes P = {})"

definition test_ok :: "test \<Rightarrow> block list \<Rightarrow> bool" where
  "test_ok t L \<longleftrightarrow> (\<exists>F. heap_ok (heap t) F L \<and> bytes_of (F @ L) = page_bytes (pages t))"

text \<open>The client owns the blocks behind a multiset of pointers, and no others are allocated.\<close>

definition owns :: "test \<Rightarrow> nat multiset \<Rightarrow> bool" where
  "owns t Q \<longleftrightarrow> (\<exists>L. test_ok t L \<and> image_mset (\<lambda>x. fst x + SIZE_FIELD) (mset L) = Q)"

definition ptr :: "nat \<Rightarrow> nat multiset" where
  "ptr p = (if p = 0 then {#} else {#p#})"

lemma heap_ok_front: "heap_ok hp F (L1 @ x # L2) \<Longrightarrow> heap_ok hp F (x # L1 @ L2)"
  by (auto simp: heap_ok_def sorted_wrt_append dest: apart_sym)

lemma malloc_takes:
  assumes ok: "heap_ok (heap t) F L" and n: "n \<le> 2 ^ 62" "0 < ps" "ps \<le> 2 ^ 62" and k: "kernel_ok kern"
    and b: "bytes_of (F @ L) = page_bytes (pages t)"
  shows "\<exists>p t'. do_malloc kern ps n t = Some (p, t') \<and> (if p = 0 then test_ok t' L else \<exists>m. test_ok t' ((p - SIZE_FIELD, m) # L))
    \<and> (p \<noteq> 0 \<longrightarrow> SIZE_FIELD \<le> p)"
proof -
  let ?n = "request_size n" and ?r = "page_request ps (request_size n)" and ?mm = "kern (pages t)"
  have s: "seg (mem (heap t)) (freeList (heap t)) F 0" "wide F" using ok spaced_wide by (auto simp: heap_ok_def)
  note g = getBlock_refines [OF s, of ?n]
  have fr: "fresh_pages ?mm (F @ L)" unfolding fresh_pages_def b using k by (auto simp: kernel_ok_def)
  show ?thesis
  proof (cases "spec_malloc ?n F")
    case (Some y)
    then obtain a m F' where sp: "spec_malloc ?n F = Some ((a, m), F')" by (metis prod.collapse)
    then have ff: "\<exists>k0 G. first_fit ?n F = Some ((a, k0), G)" by (auto simp: spec_malloc_def split: option.splits)
    then have none: "pages_taken kern ps n t = []" using g by (auto simp: pages_taken_def)
    from malloc_hit [OF ok n(1) sp, of ?mm ps] obtain hp' where
      h: "malloc ?mm ps (heap t) n = Some (a + SIZE_FIELD, hp')" "heap_ok hp' F' ((a, m) # L)" by metis
    have "bytes_of (F' @ (a, m) # L) = page_bytes (pages t)" using spec_malloc_bytes [OF sp] b by auto
    then have "test_ok (t\<lparr>heap := hp', pages := pages t\<rparr>) ((a, m) # L)" using h(2) by (auto simp: test_ok_def)
    then show ?thesis using h(1) none by (auto simp: do_malloc_def sizes)
  next
    case None
    then have ff: "first_fit ?n F = None" by (auto simp: spec_malloc_def split: option.splits)
    then have gb: "getBlock (heap t) ?n = Some (0, heap t)" using g by simp
    show ?thesis
    proof (cases "?mm (nextBlock (heap t)) ?r")
      case m: None
      then have "malloc ?mm ps (heap t) n = Some (0, heap t)" "pages_taken kern ps n t = []"
        using gb by (simp_all add: malloc_def pages_taken_def Let_def)
      then show ?thesis using ok b by (auto simp: do_malloc_def test_ok_def)
    next
      case (Some a)
      then have pg: "pages_taken kern ps n t = [(a, ?r)]" using gb by (simp add: pages_taken_def Let_def)
      from malloc_miss [OF ok n None Some fr] obtain hp' m F' where
        h: "malloc ?mm ps (heap t) n = Some (a + SIZE_FIELD, hp')" "heap_ok hp' F' ((a, m) # L)"
          "region (a, m) \<union> bytes_of F' = {a..<a + ?r} \<union> bytes_of F" by metis
      have "bytes_of (F' @ (a, m) # L) = page_bytes (pages t @ [(a, ?r)])"
        using h(3) b by (auto simp: page_bytes_def)
      then have "test_ok (t\<lparr>heap := hp', pages := pages t @ [(a, ?r)]\<rparr>) ((a, m) # L)" using h(2) by (auto simp: test_ok_def)
      then show ?thesis using h(1) pg by (auto simp: do_malloc_def sizes)
    qed
  qed
qed

lemma owns_malloc:
  assumes "owns t Q" "kernel_ok kern" "0 < ps" "ps \<le> 2 ^ 62" "n \<le> 2 ^ 62"
  shows "\<exists>p t'. do_malloc kern ps n t = Some (p, t') \<and> owns t' (Q + ptr p)"
proof -
  obtain F L where L: "heap_ok (heap t) F L" "bytes_of (F @ L) = page_bytes (pages t)" "image_mset (\<lambda>x. fst x + SIZE_FIELD) (mset L) = Q"
    using assms(1) by (auto simp: owns_def test_ok_def)
  from malloc_takes [OF L(1) assms(5,3,4,2) L(2)] obtain p t' where
    p: "do_malloc kern ps n t = Some (p, t')" "if p = 0 then test_ok t' L else \<exists>m. test_ok t' ((p - SIZE_FIELD, m) # L)"
      "p \<noteq> 0 \<longrightarrow> SIZE_FIELD \<le> p" by blast
  have "owns t' (Q + ptr p)"
  proof (cases "p = 0")
    case True
    then show ?thesis using p(2) L(3) by (auto simp: owns_def ptr_def)
  next
    case False
    then obtain m where "test_ok t' ((p - SIZE_FIELD, m) # L)" using p(2) by auto
    moreover have "image_mset (\<lambda>x. fst x + SIZE_FIELD) (mset ((p - SIZE_FIELD, m) # L)) = Q + ptr p"
      using L(3) p(3) False by (simp add: ptr_def)
    ultimately show ?thesis unfolding owns_def by blast
  qed
  then show ?thesis using p(1) by blast
qed

lemma owns_free:
  assumes "owns t (Q + ptr p)"
  shows "\<exists>t'. do_free p t = Some t' \<and> owns t' Q"
proof (cases "p = 0")
  case True
  then show ?thesis using assms by (simp add: do_free_def free_def ptr_def)
next
  case False
  obtain F L where L: "heap_ok (heap t) F L" "bytes_of (F @ L) = page_bytes (pages t)" "image_mset (\<lambda>x. fst x + SIZE_FIELD) (mset L) = add_mset p Q"
    using assms False by (auto simp: owns_def test_ok_def ptr_def)
  have "p \<in># image_mset (\<lambda>x. fst x + SIZE_FIELD) (mset L)" unfolding L(3) by simp
  then obtain x where "x \<in> set L" "p = fst x + SIZE_FIELD" by auto
  then obtain a m L1 L2 where x: "L = L1 @ (a, m) # L2" "p = a + SIZE_FIELD" by (metis split_list prod.collapse)
  have ok: "heap_ok (heap t) F ((a, m) # L1 @ L2)" using heap_ok_front L(1) unfolding x(1) .
  from return_ok [OF ok] obtain hp' where r: "returnBlock (heap t) a = Some hp'" "heap_ok hp' (put_block (a, m) F) (L1 @ L2)" by metis
  have "bytes_of (put_block (a, m) F @ L1 @ L2) = page_bytes (pages t)"
    using put_block_region [of "(a, m)" F] L(2) by (auto simp: bytes_of_def x(1))
  then have "test_ok (t\<lparr>heap := hp'\<rparr>) (L1 @ L2)" using r(2) by (auto simp: test_ok_def)
  moreover have "image_mset (\<lambda>x. fst x + SIZE_FIELD) (mset (L1 @ L2)) = Q" using L(3) x by simp
  ultimately have "owns (t\<lparr>heap := hp'\<rparr>) Q" unfolding owns_def by blast
  moreover have "do_free p t = Some (t\<lparr>heap := hp'\<rparr>)" using r(1) x(2) by (simp add: do_free_def free_def sizes)
  ultimately show ?thesis by blast
qed

lemma owns_report:
  assumes "owns t Q"
  shows "\<exists>t'. do_report title t = Some t' \<and> owns t' Q"
proof -
  obtain F L where L: "heap_ok (heap t) F L" "bytes_of (F @ L) = page_bytes (pages t)" "image_mset (\<lambda>x. fst x + SIZE_FIELD) (mset L) = Q"
    using assms by (auto simp: owns_def test_ok_def)
  then have "reportFreeList (mem (heap t)) (freeList (heap t)) = Some (report_holes F)"
    by (intro reportFreeList_refines) (simp add: heap_ok_def)
  then show ?thesis using L by (auto simp: do_report_def reportString_def owns_def test_ok_def Let_def)
qed

text \<open>The rules for a step that goes on, as the tests chain them.\<close>

lemma then_malloc:
  assumes "owns t Q" "kernel_ok kern" "0 < ps" "ps \<le> 2 ^ 62" "n \<le> 2 ^ 62" "\<And>p t'. owns t' (Q + ptr p) \<Longrightarrow> \<exists>u. g (p, t') = Some u \<and> owns u R"
  shows "\<exists>u. Option.bind (do_malloc kern ps n t) g = Some u \<and> owns u R"
  using owns_malloc [OF assms(1-5)] assms(6) by auto

lemma then_free:
  assumes "owns t (Q + ptr p)" "\<And>t'. owns t' Q \<Longrightarrow> \<exists>u. g t' = Some u \<and> owns u R"
  shows "\<exists>u. Option.bind (do_free p t) g = Some u \<and> owns u R"
  using owns_free [OF assms(1)] assms(2) by auto

lemma then_report:
  assumes "owns t Q" "\<And>t'. owns t' Q \<Longrightarrow> \<exists>u. g t' = Some u \<and> owns u R"
  shows "\<exists>u. Option.bind (do_report title t) g = Some u \<and> owns u R"
  using owns_report [OF assms(1), of title] assms(2) by auto

lemma babyTest_ok:
  assumes "owns t {#}" and k: "kernel_ok kern" "0 < ps" "ps \<le> 2 ^ 62"
  shows "\<exists>u. babyTest kern ps t = Some u \<and> owns u {#}"
  unfolding babyTest_def
proof (rule then_malloc [OF assms(1) k], simp, unfold prod.case)
  fix p t' assume "owns t' ({#} + ptr p)"
  then show "\<exists>u. Option.bind (do_report (''-------- babyTest 1 --------'' @ NL) t')
      (\<lambda>t. Option.bind (do_free p t) (do_report (''-------- babyTest 2 --------'' @ NL))) = Some u \<and> owns u {#}"
    by (intro then_report then_free owns_report)
qed

lemma toddlerTest_ok:
  assumes "owns t {#}" and k: "kernel_ok kern" "0 < ps" "ps \<le> 2 ^ 62"
  shows "\<exists>u. toddlerTest kern ps t = Some u \<and> owns u {#}"
  unfolding toddlerTest_def
proof (rule then_malloc [OF assms(1) k], simp, unfold prod.case,
    rule then_malloc [OF _ k], assumption, simp, unfold prod.case, rule then_malloc [OF _ k], assumption, simp, unfold prod.case)
  fix p1 p2 p3 t1 t2 t3 assume "owns t3 ({#} + ptr p1 + ptr p2 + ptr p3)"
  then have o: "owns t3 ({#} + ptr p3 + ptr p1 + ptr p2)" by (simp add: ac_simps)
  show "\<exists>u. Option.bind (do_report (''-------- toddlerTest 1 --------'' @ NL) t3) (\<lambda>t. Option.bind (do_free p2 t)
      (\<lambda>t. Option.bind (do_report (''-------- toddlerTest 2 --------'' @ NL) t) (\<lambda>t. Option.bind (do_free p1 t)
      (\<lambda>t. Option.bind (do_report (''-------- toddlerTest 3 --------'' @ NL) t) (\<lambda>t. Option.bind (do_free p3 t)
      (do_report (''-------- toddlerTest 4 --------'' @ NL))))))) = Some u \<and> owns u {#}"
    by (rule then_report [OF o], erule then_free, erule then_report, erule then_free, erule then_report, erule then_free, erule owns_report)
qed

subsection \<open>The random test\<close>

definition held :: "(nat \<Rightarrow> nat) \<Rightarrow> nat set \<Rightarrow> nat multiset" where
  "held block I = (\<Sum>i\<in>I. ptr (block i))"

lemma held_remove: "finite I \<Longrightarrow> i \<in> I \<Longrightarrow> held block I = held block (I - {i}) + ptr (block i)"
  unfolding held_def by (subst sum.remove [of _ i]) (simp_all add: add.commute)

lemma held_upd: "held (block(i := p)) (I - {i}) = held block (I - {i})"
  unfolding held_def by (rule sum.cong) auto

lemma held_set: "finite I \<Longrightarrow> i \<in> I \<Longrightarrow> held (block(i := p)) I = held block (I - {i}) + ptr p"
  using held_remove [of I i "block(i := p)"] held_upd [of block i p I] by simp

lemma random_step_ok:
  assumes o: "owns t (held block {..<TEST_SIZE})" and kern: "kernel_ok kern" "0 < ps" "ps \<le> 2 ^ 62"
  shows "\<exists>k' block' t'. random_step kern ps random (k, block, t) = Some (k', block', t') \<and> owns t' (held block' {..<TEST_SIZE})"
proof -
  define ind where "ind = random k mod TEST_SIZE"
  have i: "ind \<in> {..<TEST_SIZE}" by (simp add: ind_def TEST_SIZE_def)
  note o' = o [unfolded held_remove [OF finite_lessThan i]]
  show ?thesis
  proof (cases "block ind \<noteq> 0")
    case True
    obtain t' where "do_free (block ind) t = Some t'" "owns t' (held block ({..<TEST_SIZE} - {ind}))" using owns_free [OF o'] by blast
    then show ?thesis using True held_set [OF finite_lessThan i, of block 0]
      by (simp add: random_step_def ind_def [symmetric] ptr_def)
  next
    case False
    define sz where "sz = random (k + 1) mod 10000 + 1"
    have "sz \<le> 2 ^ 62" by (simp add: sz_def)
    then obtain p t' where "do_malloc kern ps sz t = Some (p, t')" "owns t' (held block ({..<TEST_SIZE} - {ind}) + ptr p)"
      using owns_malloc [OF _ kern, of t "held block ({..<TEST_SIZE} - {ind})" sz] o' False by (auto simp: ptr_def)
    then have "random_step kern ps random (k, block, t) = Some (k + 2, block(ind := p), t')"
      "owns t' (held (block(ind := p)) {..<TEST_SIZE})"
      using False held_set [OF finite_lessThan i, of block p] by (simp_all add: random_step_def ind_def [symmetric] sz_def)
    then show ?thesis by blast
  qed
qed

lemma random_loop_ok:
  assumes "owns t (held block {..<TEST_SIZE})" and kern: "kernel_ok kern" "0 < ps" "ps \<le> 2 ^ 62"
  shows "\<exists>k' block' t'. random_loop kern ps random n (k, block, t) = Some (k', block', t') \<and> owns t' (held block' {..<TEST_SIZE})"
  using assms(1)
proof (induction n arbitrary: k block t)
  case (Suc n)
  obtain k' block' t' where "random_step kern ps random (k, block, t) = Some (k', block', t')" "owns t' (held block' {..<TEST_SIZE})"
    using random_step_ok [OF Suc.prems kern] by blast
  then show ?case using Suc.IH [of t' block' k'] by simp
qed simp

lemma free_left_ok: "owns t (held block {i..<i + n}) \<Longrightarrow> \<exists>t'. free_left i n block t = Some t' \<and> owns t' {#}"
proof (induction n arbitrary: i t)
  case 0
  then show ?case by (simp add: held_def)
next
  case (Suc n)
  have "{i..<i + Suc n} - {i} = {Suc i..<Suc i + n}" by auto
  then have o: "owns t (held block {Suc i..<Suc i + n} + ptr (block i))"
    using Suc.prems held_remove [of "{i..<i + Suc n}" i block] by simp
  show ?case
  proof (cases "block i = 0")
    case True
    then show ?thesis using Suc.IH [of t "Suc i"] o by (simp add: ptr_def)
  next
    case False
    obtain t1 where "do_free (block i) t = Some t1" "owns t1 (held block {Suc i..<Suc i + n})" using owns_free [OF o] by blast
    then show ?thesis using Suc.IH [of t1 "Suc i"] False by simp
  qed
qed

text \<open>
  C25: The test program always ends without misusing the allocator, whatever the random numbers
  are and whichever requests the kernel refuses; at the end nothing is allocated, the free list has
  exactly the bytes of all pages ever taken, and it is what the last report prints.
\<close>
theorem memTest_no_leak:
  assumes "kernel_ok kern" "0 < ps" "ps \<le> 2 ^ 62"
  shows "\<exists>t F before. memTest_main kern ps random = Some t \<and> heap_ok (heap t) F [] \<and> bytes_of F = page_bytes (pages t)
    \<and> printed t = before @ ''-------- randomTest --------'' @ NL @ report_holes F"
proof -
  let ?t0 = "\<lparr>heap = heap_init, pages = [], printed = []\<rparr>"
  have "owns ?t0 {#}" unfolding owns_def test_ok_def using heap_init_ok
    by (intro exI [of _ "[]"] conjI exI [of _ "[]"]) (simp_all add: page_bytes_def)
  then obtain t1 where t1: "babyTest kern ps ?t0 = Some t1" "owns t1 {#}" using babyTest_ok assms by blast
  obtain t2 where t2: "toddlerTest kern ps t1 = Some t2" "owns t2 {#}" using toddlerTest_ok [OF t1(2) assms] by blast
  have "owns t2 (held (\<lambda>_. 0) {..<TEST_SIZE})" using t2(2) by (simp add: held_def ptr_def)
  then obtain k block t3 where t3: "random_loop kern ps random TEST_DURATION (0, \<lambda>_. 0, t2) = Some (k, block, t3)"
    "owns t3 (held block {..<TEST_SIZE})" using random_loop_ok assms by blast
  obtain t4 where t4: "free_left 0 TEST_SIZE block t3 = Some t4" "owns t4 {#}"
    using free_left_ok [of t3 block 0 TEST_SIZE] t3(2) by (auto simp: atLeast0LessThan)
  obtain F where F: "heap_ok (heap t4) F []" "bytes_of F = page_bytes (pages t4)"
    using t4(2) by (auto simp: owns_def test_ok_def)
  have "reportFreeList (mem (heap t4)) (freeList (heap t4)) = Some (report_holes F)"
    using F(1) by (intro reportFreeList_refines) (simp add: heap_ok_def)
  then have "do_report (''-------- randomTest --------'' @ NL) t4
      = Some (t4\<lparr>printed := (printed t4 @ ''-------- randomTest --------'' @ NL) @ report_holes F\<rparr>)"
    by (simp add: do_report_def reportString_def Let_def)
  then have "memTest_main kern ps random = Some (t4\<lparr>printed := printed t4 @ ''-------- randomTest --------'' @ NL @ report_holes F\<rparr>)"
    using t1(1) t2(1) t3(1) t4(1) by (simp add: memTest_main_def randomTest_def)
  then show ?thesis using F
    by (intro exI [of _ "t4\<lparr>printed := printed t4 @ ''-------- randomTest --------'' @ NL @ report_holes F\<rparr>"]
        exI [of _ F] exI [of _ "printed t4"] conjI) simp_all
qed

text \<open>A kernel that gives one page after the other.\<close>

definition bump_kernel :: kern where
  "bump_kernel P hint n = (let a = Max (insert 4096 ((\<lambda>(b, m). b + m) ` set P)) in if a + n \<le> 2 ^ 47 then Some a else None)"

lemma bump_kernel_ok: "kernel_ok bump_kernel"
proof -
  have "0 < a \<and> a + n \<le> 2 ^ 64 \<and> {a..<a + n} \<inter> page_bytes P = {}" if "bump_kernel P hint n = Some a" for P hint n a
  proof -
    have a: "a = Max (insert 4096 ((\<lambda>(b, m). b + m) ` set P))" "a + n \<le> 2 ^ 47"
      using that by (auto simp: bump_kernel_def Let_def split: if_splits)
    have "4096 \<le> a" "b + m \<le> a" if "(b, m) \<in> set P" for b m using that unfolding a(1) by (auto intro!: Max_ge)
    moreover have "4096 \<le> a" unfolding a(1) by (auto intro!: Max_ge)
    ultimately show ?thesis using a(2) by (fastforce simp: page_bytes_def)
  qed
  then show ?thesis unfolding kernel_ok_def by blast
qed

theorem memTest_no_leak_witness:
  "\<exists>t F. memTest_main bump_kernel 4096 (\<lambda>i. i) = Some t \<and> heap_ok (heap t) F [] \<and> bytes_of F = page_bytes (pages t)"
proof -
  have "(0::nat) < 4096" "(4096::nat) \<le> 2 ^ 62" by simp_all
  from memTest_no_leak [OF bump_kernel_ok this, of "\<lambda>i. i"] show ?thesis by (elim exE conjE) (intro exI conjI)
qed

subsection \<open>Back to one block\<close>

text \<open>Holes that never touch and fill an interval are one hole.\<close>

lemma one_hole:
  assumes "spaced F" "bytes_of F = {a..<a + n}" "0 < n"
  shows "F = [(a, n - SIZE_FIELD)]"
proof (cases F)
  case Nil
  then show ?thesis using assms(2,3) by simp
next
  case (Cons x G)
  then obtain b k where F: "F = (b, k) # G" by (metis prod.collapse)
  have far: "b + SIZE_FIELD + k < y" if "y \<in> bytes_of G" for y
    using that assms(1) by (force simp: F bytes_of_def region_def)
  have "b \<in> bytes_of F" by (simp add: F region_def sizes)
  then have "a \<le> b" using assms(2) by simp
  moreover have "a \<in> bytes_of F" using assms(2,3) by simp
  then have "b \<le> a" using far [of a] by (auto simp: F region_def)
  ultimately have ab: "a = b" by simp
  have "G = []"
  proof (rule ccontr)
    assume "G \<noteq> []"
    then obtain c t H where G: "G = (c, t) # H" by (cases G) auto
    then have "c \<in> bytes_of G" by (simp add: region_def sizes)
    then have "b + SIZE_FIELD + k < c" "c \<in> {a..<a + n}" using far assms(2) by (auto simp: F)
    then have "b + SIZE_FIELD + k \<in> bytes_of F" using assms(2) ab by simp
    then show False using far [of "b + SIZE_FIELD + k"] by (auto simp: F region_def)
  qed
  moreover from this have "{b..<b + SIZE_FIELD + k} = {a..<a + n}" using assms(2) by (simp add: F region_def)
  then have "SIZE_FIELD + k = n" using ab assms(3) by (metis card_atLeastLessThan add_diff_cancel_left' add.assoc)
  ultimately show ?thesis using F ab by auto
qed

lemma owns_nothing:
  assumes "owns t {#}" "pages t = [(a, n)]" "0 < n"
  shows "heap_ok (heap t) [(a, n - SIZE_FIELD)] []"
proof -
  obtain F where F: "heap_ok (heap t) F []" "bytes_of F = {a..<a + n}"
    using assms(1,2) by (auto simp: owns_def test_ok_def page_bytes_def)
  then have "F = [(a, n - SIZE_FIELD)]" using one_hole [OF _ F(2) assms(3)] by (simp add: heap_ok_def)
  then show ?thesis using F(1) by simp
qed

lemma malloc_served:
  assumes "heap_ok (heap t) F L" "n \<le> 2 ^ 62" "spec_malloc (request_size n) F = Some ((b, m), F')"
  shows "\<exists>t'. do_malloc kern ps n t = Some (b + SIZE_FIELD, t') \<and> heap_ok (heap t') F' ((b, m) # L) \<and> pages t' = pages t"
proof -
  have s: "seg (mem (heap t)) (freeList (heap t)) F 0" "wide F" using assms(1) spaced_wide by (auto simp: heap_ok_def)
  have ff: "\<exists>k0 G. first_fit (request_size n) F = Some ((b, k0), G)" using assms(3) by (auto simp: spec_malloc_def split: option.splits)
  then have none: "pages_taken kern ps n t = []" using getBlock_refines [OF s, of "request_size n"] by (auto simp: pages_taken_def)
  from malloc_hit [OF assms, of "kern (pages t)" ps] obtain hp' where
    "malloc (kern (pages t)) ps (heap t) n = Some (b + SIZE_FIELD, hp')" "heap_ok hp' F' ((b, m) # L)" by metis
  then show ?thesis using none by (simp add: do_malloc_def)
qed

lemma free_pages: "do_free p t = Some t' \<Longrightarrow> pages t' = pages t"
  by (auto simp: do_free_def)

lemma report_pages: "do_report s t = Some t' \<Longrightarrow> pages t' = pages t \<and> heap t' = heap t"
  by (auto simp: do_report_def reportString_def Let_def)

text \<open>The first test takes one page and gives it back.\<close>

lemma babyTest_page:
  assumes "kernel_ok kern" "kern [] (nextBlock heap_init) 4096 = Some a"
  shows "\<exists>t. babyTest kern 4096 \<lparr>heap = heap_init, pages = [], printed = []\<rparr> = Some t \<and> owns t {#} \<and> pages t = [(a, 4096)]"
proof -
  let ?t0 = "\<lparr>heap = heap_init, pages = [], printed = []\<rparr>"
  have o: "owns ?t0 {#}" unfolding owns_def test_ok_def using heap_init_ok
    by (intro exI [of _ "[]"] conjI exI [of _ "[]"]) (simp_all add: page_bytes_def)
  then obtain t where t: "babyTest kern 4096 ?t0 = Some t" "owns t {#}" using babyTest_ok [OF o assms(1), of 4096] by auto
  have r: "request_size 4088 = 4088" "page_request 4096 4088 = 4096" by (simp_all add: request_size_def page_request_def sizes)
  have "getBlock heap_init 4088 = Some (0, heap_init)"
    using getBlock_refines [of heap_init "[]" 4088] heap_init_ok by (simp add: heap_ok_def)
  then have "pages_taken kern 4096 4088 ?t0 = [(a, 4096)]" using assms(2) by (simp add: pages_taken_def r)
  then have "pages t = [(a, 4096)]"
    using t(1) by (auto simp: babyTest_def do_malloc_def bind_eq_Some_conv dest!: free_pages report_pages)
  then show ?thesis using t by blast
qed

text \<open>
  What \<open>memTest.c\<close> expects of its second test: once the page of the first test is there, the three
  blocks are carved out of it, no other page is taken, and after the three frees the report shows
  one free block of 4088 bytes.
\<close>
theorem toddlerTest_rejoins:
  assumes "kernel_ok kern" "kern [] (nextBlock heap_init) 4096 = Some a"
  shows "\<exists>t before. Option.bind (babyTest kern 4096 \<lparr>heap = heap_init, pages = [], printed = []\<rparr>) (toddlerTest kern 4096) = Some t
    \<and> pages t = [(a, 4096)] \<and> printed t = before @ ''-------- toddlerTest 4 --------'' @ NL @ report_holes [(a, 4088)]"
proof -
  obtain t0 where t0: "babyTest kern 4096 \<lparr>heap = heap_init, pages = [], printed = []\<rparr> = Some t0" "owns t0 {#}" "pages t0 = [(a, 4096)]"
    using babyTest_page [OF assms] by blast
  obtain t where t: "toddlerTest kern 4096 t0 = Some t" "owns t {#}" using toddlerTest_ok [OF t0(2) assms(1), of 4096] by auto
  have r: "request_size 30 = 32" "request_size 50 = 52" "request_size 20 = 20" by (simp_all add: request_size_def)
  have s: "spec_malloc 32 [(a, 4088)] = Some ((a, 32), [(a + 40, 4048)])"
    "spec_malloc 52 [(a + 40, 4048)] = Some ((a + 40, 52), [(a + 100, 3988)])"
    "spec_malloc 20 [(a + 100, 3988)] = Some ((a + 100, 20), [(a + 128, 3960)])"
    by (simp_all add: spec_malloc_def split_size_def split_rest_def sizes)
  have "heap_ok (heap t0) [(a, 4088)] []" using owns_nothing [OF t0(2,3)] by (simp add: sizes)
  from malloc_served [OF this, of 30, unfolded r, OF _ s(1), of kern 4096] obtain t1 where
    t1: "do_malloc kern 4096 30 t0 = Some (a + SIZE_FIELD, t1)" "heap_ok (heap t1) [(a + 40, 4048)] [(a, 32)]" "pages t1 = pages t0" by auto
  from malloc_served [OF t1(2), of 50, unfolded r, OF _ s(2), of kern 4096] obtain t2 where
    t2: "do_malloc kern 4096 50 t1 = Some (a + 40 + SIZE_FIELD, t2)" "heap_ok (heap t2) [(a + 100, 3988)] [(a + 40, 52), (a, 32)]"
      "pages t2 = pages t1" by auto
  from malloc_served [OF t2(2), of 20, unfolded r, OF _ s(3), of kern 4096] obtain t3 where
    t3: "do_malloc kern 4096 20 t2 = Some (a + 100 + SIZE_FIELD, t3)" "pages t3 = pages t2" by auto
  have p: "pages t = [(a, 4096)]"
    using t(1) t1(1,3) t2(1,3) t3 t0(3) by (auto simp: toddlerTest_def bind_eq_Some_conv dest!: free_pages report_pages)
  then have "heap_ok (heap t) [(a, 4088)] []" using owns_nothing [OF t(2) p] by (simp add: sizes)
  then have f: "reportFreeList (mem (heap t)) (freeList (heap t)) = Some (report_holes [(a, 4088)])"
    by (intro reportFreeList_refines) (simp add: heap_ok_def)
  obtain t' where "do_report (''-------- toddlerTest 4 --------'' @ NL) t' = Some t"
    using t(1) t1(1) t2(1) t3(1) by (auto simp: toddlerTest_def bind_eq_Some_conv)
  then have "printed t = printed t' @ ''-------- toddlerTest 4 --------'' @ NL @ report_holes [(a, 4088)]"
    using f by (auto simp: do_report_def reportString_def Let_def)
  then show ?thesis using t0(1) t(1) p by simp
qed

theorem toddlerTest_rejoins_witness:
  "\<exists>t. Option.bind (babyTest bump_kernel 4096 \<lparr>heap = heap_init, pages = [], printed = []\<rparr>) (toddlerTest bump_kernel 4096) = Some t
    \<and> pages t = [(4096, 4096)]"
proof -
  have "bump_kernel [] (nextBlock heap_init) 4096 = Some 4096" by (simp add: bump_kernel_def)
  from toddlerTest_rejoins [OF bump_kernel_ok this] show ?thesis by blast
qed

end
