(* ===== verification/Drivers.thy ===== *)
theory Drivers
  imports Matchmaker
begin

text \<open>
  The programs that drive the matchmaker, \<open>assignments/hw5/driver1.c\<close> to \<open>driver6.c\<close>, as clients of the
  model of the monitor. The sleeps only choose a schedule: here every schedule is allowed, and
  spurious wakeups too. Thread \<open>t\<close> is the player in place \<open>t\<close> of the table of its driver.

  Proved, for the drivers with one game for each player: who is said to be playing has an opponent
  the gap allows, and nobody is refused before the end; so driver 3 never prints its error. For
  the two large ones: the total at the end is twice the number of games announced.
\<close>

type_synonym cast = "(string \<times> int) list"

subsection \<open>What the calls of the monitor do for a client\<close>

definition waits :: "nat \<Rightarrow> int \<Rightarrow> monitor \<Rightarrow> monitor \<Rightarrow> bool" where
  "waits p sk s s' \<longleftrightarrow> \<not> matchmaking_stopped s \<and> phase_of s' = (phase_of s)(p := InFind) \<and> announced s' = announced s
     \<and> (\<forall>q. matched (players s' q) = matched (players s q)) \<and> (\<forall>q. skill (players s' q) = (if q = p then sk else skill (players s q)))"

definition pairs :: "nat \<Rightarrow> int \<Rightarrow> monitor \<Rightarrow> monitor \<Rightarrow> bool" where
  "pairs p sk s s' \<longleftrightarrow> \<not> matchmaking_stopped s \<and> phase_of s' = (phase_of s)(p := Playing) \<and> length (announced s') = Suc (length (announced s))
     \<and> (\<exists>c. c \<noteq> p \<and> phase_of s c \<noteq> Outside \<and> \<not> matched (players s c) \<and> \<not> matched (players s p)
          \<and> (\<forall>q. matched (players s' q) = (q = p \<or> q = c \<or> matched (players s q))))
     \<and> (\<forall>q. skill (players s' q) = (if q = p then sk else skill (players s q)))"

definition returns :: "nat \<Rightarrow> phase \<Rightarrow> monitor \<Rightarrow> monitor \<Rightarrow> bool" where
  "returns p ph s s' \<longleftrightarrow> phase_of s' = (phase_of s)(p := ph) \<and> announced s' = announced s
     \<and> (\<forall>q. matched (players s' q) = matched (players s q) \<and> skill (players s' q) = skill (players s q))"

lemma make_match_announced: "length (announced (make_match self prev c s)) = Suc (length (announced s))"
  by (simp add: make_match_def upd_def Let_def split: option.split)

lemma round_effect:
  assumes "find_round p s = Some s'" "\<not> matched (players s p)" "linked s" "\<not> matchmaking_stopped s"
  shows "(waits p (skill (players s p)) s s' \<or> pairs p (skill (players s p)) s s') \<and> \<not> matchmaking_stopped s'"
  using find_round_cases [OF assms(1,2)]
proof
  assume "\<exists>prev c. find_search (players s) (skill_gap s) p None (waiting_list s) = Some (prev, Some c)
      \<and> s' = go_to p Playing (make_match p prev c s)"
  then obtain prev c where f: "find_search (players s) (skill_gap s) p None (waiting_list s) = Some (prev, Some c)"
    and s': "s' = go_to p Playing (make_match p prev c s)" by blast
  have c: "p \<noteq> c" "\<not> matched (players s c)" using find_search_found [OF f] compatible_irrefl by auto
  have "phase_of s c \<noteq> Outside" by (rule find_search_linked [OF f]) (use assms(3) in \<open>auto simp: linked_def\<close>)
  moreover have "announced (go_to p Playing (make_match p prev c s)) = announced (make_match p prev c s)" by (simp add: go_to_def)
  ultimately show ?thesis using c assms(2,4)
    by (auto simp: pairs_def s' make_match_players [OF c(1)] make_match_announced)
next
  assume "\<exists>prev. find_search (players s) (skill_gap s) p None (waiting_list s) = Some (prev, None)
        \<and> (if matchmaking_stopped s then s' = go_to p Refused s
           else s' = go_to p InFind ((upd p (\<lambda>q. q\<lparr>next_waiting := waiting_list s\<rparr>) s)\<lparr>waiting_list := Some p\<rparr>))"
  then show ?thesis using assms(4) by (auto simp: waits_def upd_def go_to_def)
qed

lemma find_effect:
  assumes "findMatch p name sk s = Some s'" "phase_of s p = Outside" "mutual gap s" "linked s"
  shows "(matchmaking_stopped s \<and> returns p Refused s s' \<or> waits p sk s s' \<or> pairs p sk s s') \<and> matchmaking_stopped s' = matchmaking_stopped s"
proof (cases "matchmaking_stopped s")
  case True
  then show ?thesis using assms(1) by (auto simp: findMatch_def returns_def go_to_def)
next
  case False
  let ?s = "upd p (\<lambda>_. \<lparr>player_name = take 63 (cstr name), skill = sk, opponent = None, matched = False,
    done_flag = False, next_waiting = None\<rparr>) s"
  have n: "\<not> matched (players s p)" using mutualD(6) [OF assms(3,2)] .
  have s: "\<not> matched (players ?s p)" "linked ?s" "\<not> matchmaking_stopped ?s" "skill (players ?s p) = sk" "phase_of ?s = phase_of s"
    "announced ?s = announced s" "\<And>q. matched (players ?s q) = matched (players s q)"
    "\<And>q. skill (players ?s q) = (if q = p then sk else skill (players s q))"
    using assms(4) False n by (auto simp: upd_def linked_def)
  have "find_round p ?s = Some s'" using assms(1) False by (simp add: findMatch_def)
  from round_effect [OF this s(1-3)] show ?thesis using False s(4-8) by (auto simp: waits_def pairs_def)
qed

lemma wake_effect:
  assumes "find_wake p s = Some s'" "mutual gap s" "linked s"
  shows "(matchmaking_stopped s \<and> \<not> matched (players s p) \<and> returns p Refused s s' \<or> matched (players s p) \<and> returns p Playing s s'
      \<or> \<not> matched (players s p) \<and> (waits p (skill (players s p)) s s' \<or> pairs p (skill (players s p)) s s'))
    \<and> matchmaking_stopped s' = matchmaking_stopped s"
proof (cases "\<not> matched (players s p) \<and> \<not> matchmaking_stopped s")
  case True
  then have "find_round p s = Some s'" using assms(1) by (simp add: find_wake_def)
  from round_effect [OF this _ assms(3)] show ?thesis using True by auto
next
  case False
  then show ?thesis using assms(1) by (auto simp: find_wake_def returns_def go_to_def)
qed

lemma done_effect:
  assumes "donePlaying p s = Some s'"
  shows "(returns p InDone s s' \<or> returns p Finished s s') \<and> matchmaking_stopped s' = matchmaking_stopped s"
  using assms by (auto simp: donePlaying_def returns_def upd_def go_to_def Let_def split: option.splits if_splits)

lemma done_wake_effect:
  assumes "done_wake p s = Some s'"
  shows "(s' = s \<or> returns p Finished s s') \<and> matchmaking_stopped s' = matchmaking_stopped s"
  using assms by (auto simp: done_wake_def returns_def go_to_def split: if_splits)

lemmas effects = waits_def pairs_def returns_def

subsection \<open>Drivers 1 to 4: one game for each player\<close>

text \<open>
  A thread calls \<open>findMatch\<close> with its name and skill and prints the one line or the other; those of
  driver 3 return after that (\<open>plays\<close> is false), the others go on to \<open>donePlaying\<close>. The formats are
  functions of the name.
\<close>

record player_thread =
  tname :: string
  tskill :: int
  on_match :: "string \<Rightarrow> string"
  plays :: bool
  on_none :: "string \<Rightarrow> string"

record driver =
  threads_of :: "player_thread list"
  range_of :: int
  gap_of :: int

definition larryThread :: player_thread where
  "larryThread = \<lparr>tname = ''Larry'', tskill = 1, on_match = (\<lambda>n. n @ '' is playing''), plays = True,
     on_none = (\<lambda>n. ''Error: '' @ n @ '' didn't find a match'')\<rparr>"

definition margeThread :: player_thread where
  "margeThread = \<lparr>tname = ''Marge'', tskill = 10, on_match = (\<lambda>n. n @ '' is playing''), plays = True,
     on_none = (\<lambda>n. ''Error: '' @ n @ '' didn't find a match'')\<rparr>"

definition driver1 :: driver where
  "driver1 = \<lparr>threads_of = [larryThread, margeThread], range_of = 10, gap_of = 10\<rparr>"

definition lupeThread :: player_thread where
  "lupeThread = \<lparr>tname = ''Lupe'', tskill = 0, on_match = (\<lambda>n. n @ '' is playing''), plays = True,
     on_none = (\<lambda>n. ''Error: '' @ n @ '' didn't find a match'')\<rparr>"

definition alidaThread :: player_thread where
  "alidaThread = \<lparr>tname = ''Alida'', tskill = 20, on_match = (\<lambda>n. n @ '' is playing''), plays = True,
     on_none = (\<lambda>n. ''Error: '' @ n @ '' didn't find a match'')\<rparr>"

definition nickThread :: player_thread where
  "nickThread = \<lparr>tname = ''Nick'', tskill = 12, on_match = (\<lambda>n. n @ '' is playing''), plays = True,
     on_none = (\<lambda>n. ''Error: '' @ n @ '' didn't find a match'')\<rparr>"

definition micahThread :: player_thread where
  "micahThread = \<lparr>tname = ''Micah'', tskill = 8, on_match = (\<lambda>n. n @ '' is playing''), plays = True,
     on_none = (\<lambda>n. ''Error: '' @ n @ '' didn't find a match'')\<rparr>"

definition driver2 :: driver where
  "driver2 = \<lparr>threads_of = [lupeThread, alidaThread, nickThread, micahThread], range_of = 20, gap_of = 9\<rparr>"

definition dionThread :: player_thread where
  "dionThread = \<lparr>tname = ''Dion'', tskill = 10, on_match = (\<lambda>n. ''Error: '' @ n @ '' should not find a match''), plays = False,
     on_none = (\<lambda>n. n @ '' didn't find a match'')\<rparr>"

definition fernThread :: player_thread where
  "fernThread = \<lparr>tname = ''Fern'', tskill = 0, on_match = (\<lambda>n. ''Error: '' @ n @ '' should not find a mtch''), plays = False,
     on_none = (\<lambda>n. n @ '' didn't find a match'')\<rparr>"

definition arlenThread :: player_thread where
  "arlenThread = \<lparr>tname = ''Arlen'', tskill = 5, on_match = (\<lambda>n. ''Error: '' @ n @ '' should not find a match''), plays = False,
     on_none = (\<lambda>n. n @ '' didn't find a match'')\<rparr>"

definition driver3 :: driver where
  "driver3 = \<lparr>threads_of = [dionThread, fernThread, arlenThread], range_of = 10, gap_of = 4\<rparr>"

definition kylieThread :: player_thread where
  "kylieThread = \<lparr>tname = ''Kylie'', tskill = 5, on_match = (\<lambda>n. n @ '' is playing''), plays = True,
     on_none = (\<lambda>n. ''Error: '' @ n @ '' didn't find a match'')\<rparr>"

definition vernonThread :: player_thread where
  "vernonThread = \<lparr>tname = ''Vernon'', tskill = 5, on_match = (\<lambda>n. n @ '' is playing''), plays = True,
     on_none = (\<lambda>n. ''Error: '' @ n @ '' didn't find a match'')\<rparr>"

definition ursulaThread :: player_thread where
  "ursulaThread = \<lparr>tname = ''Ursula'', tskill = 0, on_match = (\<lambda>n. n @ '' is playing''), plays = True,
     on_none = (\<lambda>n. ''Error: '' @ n @ '' didn't find a match'')\<rparr>"

definition lillyThread :: player_thread where
  "lillyThread = \<lparr>tname = ''Lilly'', tskill = 10, on_match = (\<lambda>n. n @ '' is playing''), plays = True,
     on_none = (\<lambda>n. ''Error: '' @ n @ '' didn't find a match'')\<rparr>"

definition driver4 :: driver where
  "driver4 = \<lparr>threads_of = [kylieThread, vernonThread, ursulaThread, lillyThread], range_of = 10, gap_of = 9\<rparr>"

text \<open>The lines the threads print, by the place of the thread, and their text.\<close>

datatype said = Wants nat | Matches nat | Is_done nat | No_match nat | Stopping

definition name_in :: "driver \<Rightarrow> nat \<Rightarrow> string" where
  "name_in d t = tname (threads_of d ! t)"

definition skill_in :: "driver \<Rightarrow> nat \<Rightarrow> int" where
  "skill_in d t = tskill (threads_of d ! t)"

fun text_of :: "driver \<Rightarrow> said \<Rightarrow> string" where
  "text_of d (Wants t) = name_in d t @ '' wants to play''"
| "text_of d (Matches t) = on_match (threads_of d ! t) (name_in d t)"
| "text_of d (Is_done t) = name_in d t @ '' is done''"
| "text_of d (No_match t) = on_none (threads_of d ! t) (name_in d t)"
| "text_of d Stopping = ''Stopping matchmaker''"

record drive =
  mon :: monitor
  asked :: "nat \<Rightarrow> bool"
  told :: "nat \<Rightarrow> bool"
  left :: "nat \<Rightarrow> bool"
  said_lines :: "said list"

definition drive_start :: "driver \<Rightarrow> drive" where
  "drive_start d = \<lparr>mon = initMonitor (range_of d) (gap_of d) blank, asked = (\<lambda>_. False), told = (\<lambda>_. False),
     left = (\<lambda>_. False), said_lines = []\<rparr>"

text \<open>
  What can happen next: a thread prints that it wants to play, calls \<open>findMatch\<close>, has its wait
  return, prints what came of it, calls \<open>donePlaying\<close>, has that wait return, prints that it is
  done; \<open>main\<close> prints that it stops the matchmaker, and stops it. \<open>None\<close>: not now, or the call
  does not come back.
\<close>

datatype turn = Asks nat | Finds_one nat | Wakes_up nat | Tells nat | Plays_out nat | Wakes_done nat | Leaves nat
  | Says_stop | Stops

fun drive_act :: "driver \<Rightarrow> turn \<Rightarrow> drive \<Rightarrow> drive option" where
  "drive_act d (Asks t) s = (if t < length (threads_of d) \<and> \<not> asked s t
     then Some (s\<lparr>asked := (asked s)(t := True), said_lines := said_lines s @ [Wants t]\<rparr>) else None)"
| "drive_act d (Finds_one t) s = (if t < length (threads_of d) \<and> asked s t \<and> phase_of (mon s) t = Outside
     then map_option (\<lambda>m. s\<lparr>mon := m\<rparr>) (findMatch t (name_in d t) (skill_in d t) (mon s)) else None)"
| "drive_act d (Wakes_up t) s = (if phase_of (mon s) t = InFind
     then map_option (\<lambda>m. s\<lparr>mon := m\<rparr>) (find_wake t (mon s)) else None)"
| "drive_act d (Tells t) s = (if told s t then None
     else if phase_of (mon s) t = Playing then Some (s\<lparr>told := (told s)(t := True), said_lines := said_lines s @ [Matches t]\<rparr>)
     else if phase_of (mon s) t = Refused then Some (s\<lparr>told := (told s)(t := True), said_lines := said_lines s @ [No_match t]\<rparr>)
     else None)"
| "drive_act d (Plays_out t) s = (if plays (threads_of d ! t) \<and> told s t \<and> phase_of (mon s) t = Playing
     then map_option (\<lambda>m. s\<lparr>mon := m\<rparr>) (donePlaying t (mon s)) else None)"
| "drive_act d (Wakes_done t) s = (if phase_of (mon s) t = InDone
     then map_option (\<lambda>m. s\<lparr>mon := m\<rparr>) (done_wake t (mon s)) else None)"
| "drive_act d (Leaves t) s = (if phase_of (mon s) t = Finished \<and> \<not> left s t
     then Some (s\<lparr>left := (left s)(t := True), said_lines := said_lines s @ [Is_done t]\<rparr>) else None)"
| "drive_act d Says_stop s = (if Stopping \<in> set (said_lines s) then None
     else Some (s\<lparr>said_lines := said_lines s @ [Stopping]\<rparr>))"
| "drive_act d Stops s = (if Stopping \<in> set (said_lines s) then map_option (\<lambda>m. s\<lparr>mon := m\<rparr>) (stopMatchmaking (mon s)) else None)"

fun drive_run :: "driver \<Rightarrow> turn list \<Rightarrow> drive \<Rightarrow> drive option" where
  "drive_run d [] s = Some s"
| "drive_run d (a # as) s = (case drive_act d a s of None \<Rightarrow> None | Some s' \<Rightarrow> drive_run d as s')"

lemma drive_run_invariant:
  assumes "drive_run d as s = Some s'" "P s" "\<And>a u v. P u \<Longrightarrow> drive_act d a u = Some v \<Longrightarrow> P v"
  shows "P s'"
  using assms(1,2) by (induction as arbitrary: s) (auto split: option.splits intro: assms(3))

lemma drive_act_mon: "drive_act d a s = Some s' \<Longrightarrow> mon s' = mon s \<or> mon_step True (mon s) (mon s')"
  by (cases a) (auto split: if_splits intro: mon_step.intros)

text \<open>Every player in the monitor has a place in the table, and its skill; who was refused has no match.\<close>

definition seated :: "driver \<Rightarrow> monitor \<Rightarrow> bool" where
  "seated d m \<longleftrightarrow> (\<forall>p. phase_of m p \<noteq> Outside \<longrightarrow> p < length (threads_of d))
     \<and> (\<forall>p. phase_of m p \<in> {InFind, Playing, InDone, Finished} \<longrightarrow> skill (players m p) = skill_in d p)
     \<and> (\<forall>p. phase_of m p = Refused \<longrightarrow> matchmaking_stopped m \<and> \<not> matched (players m p))"

lemma seated_waits: "waits p (skill_in d p) m m' \<Longrightarrow> seated d m \<Longrightarrow> p < length (threads_of d) \<Longrightarrow>
    matchmaking_stopped m' = matchmaking_stopped m \<Longrightarrow> seated d m'"
  by (auto simp: waits_def seated_def)

lemma seated_pairs: "pairs p (skill_in d p) m m' \<Longrightarrow> seated d m \<Longrightarrow> p < length (threads_of d) \<Longrightarrow>
    matchmaking_stopped m' = matchmaking_stopped m \<Longrightarrow> seated d m'"
  by (auto simp: pairs_def seated_def)

lemma seated_refused: "returns p Refused m m' \<Longrightarrow> seated d m \<Longrightarrow> p < length (threads_of d) \<Longrightarrow>
    matchmaking_stopped m \<Longrightarrow> \<not> matched (players m p) \<Longrightarrow> matchmaking_stopped m' = matchmaking_stopped m \<Longrightarrow> seated d m'"
  by (auto simp: returns_def seated_def)

lemma seated_returns: "returns p ph m m' \<Longrightarrow> seated d m \<Longrightarrow> phase_of m p \<in> {InFind, Playing, InDone, Finished} \<Longrightarrow>
    ph \<in> {Playing, InDone, Finished} \<Longrightarrow> matchmaking_stopped m' = matchmaking_stopped m \<Longrightarrow> seated d m'"
  by (auto simp: returns_def seated_def)

lemma seatedD:
  assumes "seated d m"
  shows "phase_of m p \<noteq> Outside \<Longrightarrow> p < length (threads_of d)" "phase_of m p = InFind \<Longrightarrow> skill (players m p) = skill_in d p"
  using assms by (auto simp: seated_def)

lemma drive_act_seated:
  assumes a: "drive_act d a s = Some s'" and s: "seated d (mon s)" and m: "mutual gap (mon s)" "linked (mon s)"
  shows "seated d (mon s')"
proof (cases a)
  case (Finds_one t)
  then obtain m' where t: "t < length (threads_of d)" "phase_of (mon s) t = Outside"
    and f: "findMatch t (name_in d t) (skill_in d t) (mon s) = Some m'" "mon s' = m'"
    using a by (auto split: if_splits)
  show ?thesis unfolding f(2) using find_effect [OF f(1) t(2) m] mutualD(6) [OF m(1) t(2)]
      seated_refused [of t "mon s" m' d] seated_waits [of t d "mon s" m'] seated_pairs [of t d "mon s" m'] s t by blast
next
  case (Wakes_up t)
  then obtain m' where t: "phase_of (mon s) t = InFind" and f: "find_wake t (mon s) = Some m'" "mon s' = m'"
    using a by (auto split: if_splits)
  note sd = seatedD [OF s, of t]
  have t': "t < length (threads_of d)" "skill (players (mon s) t) = skill_in d t" using sd t by auto
  show ?thesis unfolding f(2) using wake_effect [OF f(1) m, unfolded t'(2)] seated_returns [of t Playing "mon s" m' d] t t'
      seated_refused [of t "mon s" m' d] seated_waits [of t d "mon s" m'] seated_pairs [of t d "mon s" m'] s by auto
next
  case (Plays_out t)
  then show ?thesis using a s done_effect [of t "mon s" "mon s'"] seated_returns [of t _ "mon s" "mon s'" d]
    by (auto split: if_splits)
next
  case (Wakes_done t)
  then show ?thesis using a s done_wake_effect [of t "mon s" "mon s'"] seated_returns [of t _ "mon s" "mon s'" d]
    by (auto split: if_splits)
qed (use a s in \<open>auto simp: seated_def split: if_splits dest!: stopMatchmaking_result\<close>)

text \<open>What the lines say is so: who is said to be playing has a match, who is said to have none was refused.\<close>

definition truthful :: "drive \<Rightarrow> bool" where
  "truthful s \<longleftrightarrow> (\<forall>t. Matches t \<in> set (said_lines s) \<longrightarrow> phase_of (mon s) t \<in> {Playing, InDone, Finished})
     \<and> (\<forall>t as bs. said_lines s = as @ No_match t # bs \<longrightarrow> Stopping \<in> set as)
     \<and> (matchmaking_stopped (mon s) \<longrightarrow> Stopping \<in> set (said_lines s))"

lemma snoc_eq_middle: "xs @ [x] = as @ y # bs \<longleftrightarrow> bs = [] \<and> as = xs \<and> y = x \<or> (\<exists>cs. bs = cs @ [x] \<and> xs = as @ y # cs)"
  by (cases bs rule: rev_cases) auto

text \<open>A step of the monitor never takes a match away.\<close>

lemma effect_keeps_phase:
  "waits p sk m m' \<Longrightarrow> phase_of m p \<in> {Outside, InFind} \<Longrightarrow> phase_of m t \<in> {Playing, InDone, Finished} \<Longrightarrow> phase_of m' t \<in> {Playing, InDone, Finished}"
  "pairs p sk m m' \<Longrightarrow> phase_of m t \<in> {Playing, InDone, Finished} \<Longrightarrow> phase_of m' t \<in> {Playing, InDone, Finished}"
  "returns p ph m m' \<Longrightarrow> ph \<in> {Playing, InDone, Finished} \<or> phase_of m p \<in> {Outside, InFind} \<Longrightarrow>
     phase_of m t \<in> {Playing, InDone, Finished} \<Longrightarrow> phase_of m' t \<in> {Playing, InDone, Finished}"
  by (auto simp: effects)

definition keeps :: "monitor \<Rightarrow> monitor \<Rightarrow> bool" where
  "keeps m m' \<longleftrightarrow> matchmaking_stopped m' = matchmaking_stopped m
     \<and> (\<forall>t. phase_of m t \<in> {Playing, InDone, Finished} \<longrightarrow> phase_of m' t \<in> {Playing, InDone, Finished})"

lemma find_keeps: "findMatch p name sk m = Some m' \<Longrightarrow> phase_of m p = Outside \<Longrightarrow> mutual gap m \<Longrightarrow> linked m \<Longrightarrow> keeps m m'"
  unfolding keeps_def using find_effect [of p name sk m m' gap] effect_keeps_phase(1,2) [of p sk m m']
    effect_keeps_phase(3) [of p Refused m m'] by auto

lemma wake_keeps: "find_wake p m = Some m' \<Longrightarrow> phase_of m p = InFind \<Longrightarrow> mutual gap m \<Longrightarrow> linked m \<Longrightarrow> keeps m m'"
  unfolding keeps_def using wake_effect [of p m m' gap] effect_keeps_phase(1,2) [of p "skill (players m p)" m m']
    effect_keeps_phase(3) [of p _ m m'] by blast

lemma done_keeps: "donePlaying p m = Some m' \<Longrightarrow> keeps m m'" "done_wake p m = Some m' \<Longrightarrow> keeps m m'"
  unfolding keeps_def using done_effect [of p m m'] done_wake_effect [of p m m'] effect_keeps_phase(3) [of p _ m m'] by auto

lemma truthful_mon:
  "truthful s \<Longrightarrow> keeps (mon s) m \<Longrightarrow> truthful (s\<lparr>mon := m\<rparr>)"
  by (auto simp: truthful_def keeps_def)

lemma drive_act_truthful:
  assumes a: "drive_act d a s = Some s'" and s: "truthful s" "seated d (mon s)" and m: "mutual gap (mon s)" "linked (mon s)"
  shows "truthful s'"
proof (cases a)
  case (Finds_one t)
  then show ?thesis using a truthful_mon [OF s(1)] find_keeps [OF _ _ m] by (auto split: if_splits)
next
  case (Wakes_up t)
  then show ?thesis using a truthful_mon [OF s(1)] wake_keeps [OF _ _ m] by (auto split: if_splits)
next
  case (Plays_out t)
  then show ?thesis using a truthful_mon [OF s(1)] done_keeps by (auto split: if_splits)
next
  case (Wakes_done t)
  then show ?thesis using a truthful_mon [OF s(1)] done_keeps by (auto split: if_splits)
next
  case (Tells t)
  have r: "phase_of (mon s) t = Refused \<Longrightarrow> Stopping \<in> set (said_lines s)" using s by (auto simp: truthful_def seated_def)
  show ?thesis using a s(1) Tells r by (auto simp: truthful_def snoc_eq_middle split: if_splits)
qed (use a s(1) in \<open>auto simp: truthful_def snoc_eq_middle split: if_splits dest!: stopMatchmaking_result\<close>)

text \<open>Every line is by a thread of the table.\<close>

fun speaker_in :: "driver \<Rightarrow> said \<Rightarrow> bool" where
  "speaker_in d (Wants t) = (t < length (threads_of d))"
| "speaker_in d (Matches t) = (t < length (threads_of d))"
| "speaker_in d (Is_done t) = (t < length (threads_of d))"
| "speaker_in d (No_match t) = (t < length (threads_of d))"
| "speaker_in d Stopping = True"

lemma drive_act_speakers:
  assumes "drive_act d a s = Some s'" "seated d (mon s)" "\<forall>x\<in>set (said_lines s). speaker_in d x"
  shows "\<forall>x\<in>set (said_lines s'). speaker_in d x"
  using assms(1,3) seatedD(1) [OF assms(2)] by (cases a) (fastforce split: if_splits)+

definition drive_ok :: "driver \<Rightarrow> drive \<Rightarrow> bool" where
  "drive_ok d s \<longleftrightarrow> truthful s \<and> seated d (mon s) \<and> mon_reach True (range_of d) (gap_of d) (mon s)
     \<and> (\<forall>x\<in>set (said_lines s). speaker_in d x)"

lemma drive_okD:
  assumes "drive_ok d s"
  shows "truthful s" "seated d (mon s)" "mon_reach True (range_of d) (gap_of d) (mon s)"
    "x \<in> set (said_lines s) \<Longrightarrow> speaker_in d x" "mutual (gap_of d) (mon s)" "linked (mon s)"
  using assms mutual_reach [of True "range_of d" "gap_of d" "mon s"] by (auto simp: drive_ok_def)

lemma drive_invariant:
  assumes "drive_run d as (drive_start d) = Some s"
  shows "drive_ok d s"
proof (rule drive_run_invariant [where P = "drive_ok d", OF assms])
  show "drive_ok d (drive_start d)" using mon_reach.init [of True "range_of d" "gap_of d"]
    by (simp add: drive_ok_def truthful_def seated_def drive_start_def initMonitor_def blank_def)
next
  fix a u v assume u: "drive_ok d u" "drive_act d a u = Some v"
  note i = drive_okD [OF u(1)]
  have "mon_reach True (range_of d) (gap_of d) (mon v)"
    using drive_act_mon [OF u(2)]
  proof
    assume "mon_step True (mon u) (mon v)"
    then show ?thesis by (rule mon_reach.step [OF i(3)])
  qed (simp add: i(3))
  then show "drive_ok d v" using drive_act_truthful [OF u(2) i(1,2,5,6)] drive_act_seated [OF u(2) i(2,5,6)]
      drive_act_speakers [OF u(2) i(2)] i(4) by (simp add: drive_ok_def)
qed

text \<open>Who is said to be playing has an opponent of the table.\<close>

lemma playing_has_opponent:
  assumes "drive_run d as (drive_start d) = Some s" "Matches t \<in> set (said_lines s)"
  shows "t < length (threads_of d) \<and> (\<exists>u<length (threads_of d). opponent (players (mon s) t) = Some u \<and> opponent (players (mon s) u) = Some t
    \<and> skill_in d t \<noteq> skill_in d u \<and> \<bar>skill_in d t - skill_in d u\<bar> \<le> gap_of d)"
proof -
  have i: "truthful s" "seated d (mon s)" and m: "mutual (gap_of d) (mon s)"
    using drive_okD [OF drive_invariant [OF assms(1)]] by blast+
  have ph: "phase_of (mon s) t \<in> {Playing, InDone, Finished}" using i(1) assms(2) by (simp add: truthful_def)
  then obtain u where o: "opponent (players (mon s) t) = Some u" using mutualD(3,5) [OF m] by blast
  then have c: "compatible (gap_of d) (players (mon s) t) (players (mon s) u)" "matched (players (mon s) u)"
    using mutualD(1) [OF m o] mutualD(2) [OF m o] mutualD(3) [OF m, of u] by simp_all
  have "phase_of (mon s) u \<noteq> Outside" "phase_of (mon s) u \<noteq> Refused"
    using c(2) mutualD(6) [OF m, of u] i(2) unfolding seated_def by blast+
  then have pu: "phase_of (mon s) u \<in> {InFind, Playing, InDone, Finished}"
    by (cases "phase_of (mon s) u") simp_all
  have "t < length (threads_of d)" "u < length (threads_of d)" "skill (players (mon s) t) = skill_in d t" "skill (players (mon s) u) = skill_in d u"
    using i(2) ph pu unfolding seated_def by auto
  then show ?thesis using c(1) o mutualD(1) [OF m o] by (auto simp: compatible_def)
qed

text \<open>Only a match makes driver 3 print a line that begins with \<open>Error\<close>.\<close>

lemma driver3_threads:
  assumes "t < 3"
  shows "hd (name_in driver3 t @ x) \<noteq> CHR ''E''" "hd (on_none (threads_of driver3 ! t) (name_in driver3 t)) \<noteq> CHR ''E''"
    "\<exists>u \<in> {10, 0, 5}. skill_in driver3 t = u"
proof -
  have "t = 0 \<or> t = 1 \<or> t = 2" using assms by auto
  then show "hd (name_in driver3 t @ x) \<noteq> CHR ''E''" "hd (on_none (threads_of driver3 ! t) (name_in driver3 t)) \<noteq> CHR ''E''"
    "\<exists>u \<in> {10, 0, 5}. skill_in driver3 t = u"
    by (auto simp: driver3_def name_in_def skill_in_def dionThread_def fernThread_def arlenThread_def)
qed

lemma driver3_places: "length (threads_of driver3) = 3" "gap_of driver3 = 4"
  by (simp_all add: driver3_def)

lemma driver3_error:
  assumes "take 6 (text_of driver3 x) = ''Error:''" "speaker_in driver3 x"
  shows "\<exists>t. x = Matches t"
proof -
  have "hd (take 6 (text_of driver3 x)) = CHR ''E''" using assms(1) by simp
  then have "hd (text_of driver3 x) = CHR ''E''" by (cases "text_of driver3 x") simp_all
  then show ?thesis using assms(2) driver3_threads(1,2) by (cases x) (auto simp: driver3_places)
qed

lemma driver3_no_match:
  assumes "drive_run driver3 as (drive_start driver3) = Some s"
  shows "Matches t \<notin> set (said_lines s)"
proof
  assume "Matches t \<in> set (said_lines s)"
  from playing_has_opponent [OF assms this] obtain u where u: "t < 3" "u < 3" "skill_in driver3 t \<noteq> skill_in driver3 u"
    "\<bar>skill_in driver3 t - skill_in driver3 u\<bar> \<le> 4"
    unfolding driver3_places by blast
  from driver3_threads(3) [OF u(1)] driver3_threads(3) [OF u(2)] u(3,4) show False by auto
qed

subsection \<open>Drivers 5 and 6: many games for each player\<close>

record crowd_cast =
  plist :: cast
  crowd_range :: int
  crowd_gap :: int

definition driver5 :: crowd_cast where
  "driver5 = \<lparr>plist = [(''Adelaida'', 0), (''Eloisa'', 0), (''Scott'', 0), (''Benny'', 1), (''Kylie'', 2), (''Leisa'', 3),
     (''Jarred'', 8), (''Gino'', 9), (''Delfina'', 8), (''Elsa'', 10), (''Willie'', 10), (''Tena'', 10), (''Brett'', 11),
     (''Luella'', 12), (''Tiana'', 17), (''Marquita'', 18), (''Caitlyn'', 19), (''Orpha'', 20), (''Archie'', 20), (''Kurtis'', 20)],
     crowd_range = 20, crowd_gap = 8\<rparr>"

definition driver6 :: crowd_cast where
  "driver6 = \<lparr>plist = map (\<lambda>i. (''player-'' @ replicate (3 - length (show_nat i)) (CHR ''0'') @ show_nat i, int (i div 2))) [0..<102],
     crowd_range = 50, crowd_gap = 10\<rparr>"

text \<open>
  Every call of \<open>findMatch\<close> gets a player of its own: \<open>current t\<close> is the one of thread \<open>t\<close>, those
  from \<open>fresh\<close> on are unused. \<open>counted p\<close>: the thread has added the game of player \<open>p\<close>.
\<close>

record crowd =
  cmon :: monitor
  current :: "nat \<Rightarrow> nat"
  fresh :: nat
  games :: "nat \<Rightarrow> nat"
  counted :: "nat \<Rightarrow> bool"

definition crowd_start :: "crowd_cast \<Rightarrow> crowd" where
  "crowd_start d = \<lparr>cmon = initMonitor (crowd_range d) (crowd_gap d) blank, current = (\<lambda>t. t), fresh = length (plist d),
     games = (\<lambda>_. 0), counted = (\<lambda>_. False)\<rparr>"

text \<open>The loop of \<open>play\<close>, piece by piece; and \<open>main\<close> stopping the matchmaker.\<close>

datatype crowd_turn = Seeks nat | Wakes_seeking nat | Counts nat | Done_with nat | Wakes_from_done nat | Goes_again nat | Closes

fun crowd_act :: "crowd_cast \<Rightarrow> crowd_turn \<Rightarrow> crowd \<Rightarrow> crowd option" where
  "crowd_act d (Seeks t) s = (if t < length (plist d) \<and> phase_of (cmon s) (current s t) = Outside
     then map_option (\<lambda>m. s\<lparr>cmon := m\<rparr>) (findMatch (current s t) (fst (plist d ! t)) (snd (plist d ! t)) (cmon s)) else None)"
| "crowd_act d (Wakes_seeking t) s = (if t < length (plist d) \<and> phase_of (cmon s) (current s t) = InFind
     then map_option (\<lambda>m. s\<lparr>cmon := m\<rparr>) (find_wake (current s t) (cmon s)) else None)"
| "crowd_act d (Counts t) s = (if t < length (plist d) \<and> phase_of (cmon s) (current s t) = Playing \<and> \<not> counted s (current s t)
     then Some (s\<lparr>games := (games s)(t := games s t + 1), counted := (counted s)(current s t := True)\<rparr>) else None)"
| "crowd_act d (Done_with t) s = (if t < length (plist d) \<and> phase_of (cmon s) (current s t) = Playing \<and> counted s (current s t)
     then map_option (\<lambda>m. s\<lparr>cmon := m\<rparr>) (donePlaying (current s t) (cmon s)) else None)"
| "crowd_act d (Wakes_from_done t) s = (if t < length (plist d) \<and> phase_of (cmon s) (current s t) = InDone
     then map_option (\<lambda>m. s\<lparr>cmon := m\<rparr>) (done_wake (current s t) (cmon s)) else None)"
| "crowd_act d (Goes_again t) s = (if t < length (plist d) \<and> phase_of (cmon s) (current s t) = Finished
     then Some (s\<lparr>current := (current s)(t := fresh s), fresh := fresh s + 1\<rparr>) else None)"
| "crowd_act d Closes s = map_option (\<lambda>m. s\<lparr>cmon := m\<rparr>) (stopMatchmaking (cmon s))"

fun crowd_run :: "crowd_cast \<Rightarrow> crowd_turn list \<Rightarrow> crowd \<Rightarrow> crowd option" where
  "crowd_run d [] s = Some s"
| "crowd_run d (a # as) s = (case crowd_act d a s of None \<Rightarrow> None | Some s' \<Rightarrow> crowd_run d as s')"

definition joined :: "crowd_cast \<Rightarrow> crowd \<Rightarrow> bool" where
  "joined d s \<longleftrightarrow> (\<forall>t<length (plist d). phase_of (cmon s) (current s t) = Refused)"

definition total_games :: "crowd_cast \<Rightarrow> crowd \<Rightarrow> nat" where
  "total_games d s = (\<Sum>t<length (plist d). games s t)"

definition crowd_report :: "crowd_cast \<Rightarrow> crowd \<Rightarrow> string list" where
  "crowd_report d s = map (\<lambda>t. fst (plist d ! t) @ '' played '' @ show_nat (games s t) @ '' games'') [0..<length (plist d)]
     @ [''Total: '' @ show_nat (total_games d s)]"

text \<open>Players are counted only when matched; a match not counted yet belongs to a thread.\<close>

definition crowd_ok :: "crowd_cast \<Rightarrow> crowd \<Rightarrow> bool" where
  "crowd_ok d s \<longleftrightarrow> mon_reach True (crowd_range d) (crowd_gap d) (cmon s)
     \<and> (\<forall>p. phase_of (cmon s) p = Refused \<longrightarrow> matchmaking_stopped (cmon s) \<and> \<not> matched (players (cmon s) p))
     \<and> (\<forall>p\<ge>fresh s. phase_of (cmon s) p = Outside)
     \<and> (\<forall>p. phase_of (cmon s) p \<noteq> Outside \<and> \<not> counted s p \<longrightarrow> p \<in> current s ` {..<length (plist d)})
     \<and> (\<forall>p. phase_of (cmon s) p \<in> {InDone, Finished} \<longrightarrow> counted s p)
     \<and> (\<forall>p. counted s p \<longrightarrow> matched (players (cmon s) p))
     \<and> (\<forall>t<length (plist d). current s t < fresh s)
     \<and> card {p. matched (players (cmon s) p)} = 2 * length (announced (cmon s))
     \<and> card {p. counted s p} = total_games d s"

lemma crowd_okD:
  assumes "crowd_ok d s"
  shows "mon_reach True (crowd_range d) (crowd_gap d) (cmon s)"
    "mutual (crowd_gap d) (cmon s)" "linked (cmon s)"
    "phase_of (cmon s) p = Refused \<Longrightarrow> matchmaking_stopped (cmon s) \<and> \<not> matched (players (cmon s) p)"
    "fresh s \<le> p \<Longrightarrow> phase_of (cmon s) p = Outside"
    "phase_of (cmon s) p \<noteq> Outside \<Longrightarrow> counted s p \<or> p \<in> current s ` {..<length (plist d)}"
    "phase_of (cmon s) p \<in> {InDone, Finished} \<Longrightarrow> counted s p"
    "counted s p \<Longrightarrow> matched (players (cmon s) p)"
    "t < length (plist d) \<Longrightarrow> current s t < fresh s"
    "card {p. matched (players (cmon s) p)} = 2 * length (announced (cmon s))"
    "card {p. counted s p} = total_games d s"
  using assms mutual_reach [of True "crowd_range d" "crowd_gap d" "cmon s"] unfolding crowd_ok_def by blast+

lemma crowd_finite:
  assumes "crowd_ok d s"
  shows "finite {p. matched (players (cmon s) p)}" "finite {p. counted s p}"
proof -
  have "{p. matched (players (cmon s) p)} \<subseteq> {..<fresh s}"
    using crowd_okD(5) [OF assms] mutualD(6) [OF crowd_okD(2) [OF assms]] by (auto simp: not_less [symmetric])
  then show f: "finite {p. matched (players (cmon s) p)}" by (rule finite_subset) simp
  show "finite {p. counted s p}" by (rule finite_subset [OF _ f]) (use crowd_okD(8) [OF assms] in blast)
qed

text \<open>A step of the monitor for the player of a thread keeps it; the step of a match adds two matched players.\<close>

lemma crowd_ok_mon:
  assumes s: "crowd_ok d s" and t: "t < length (plist d)" and r: "mon_reach True (crowd_range d) (crowd_gap d) m"
    and st: "matchmaking_stopped m = matchmaking_stopped (cmon s)"
    and ph: "phase_of m = (phase_of (cmon s))(current s t := h)" "h \<noteq> Outside"
      "h \<in> {InDone, Finished} \<Longrightarrow> counted s (current s t)"
      "h = Refused \<Longrightarrow> matchmaking_stopped m \<and> \<not> matched (players m (current s t))"
    and mt: "\<And>p. matched (players (cmon s) p) \<Longrightarrow> matched (players m p)"
      "\<And>p. phase_of (cmon s) p = Refused \<Longrightarrow> \<not> matched (players m p)"
      "card {p. matched (players m p)} = 2 * length (announced m)"
  shows "crowd_ok d (s\<lparr>cmon := m\<rparr>)"
proof -
  note i = crowd_okD [OF s]
  let ?c = "current s t"
  have c: "?c < fresh s" "?c \<in> current s ` {..<length (plist d)}" using i(9) t by auto
  have p: "phase_of m p = (if p = ?c then h else phase_of (cmon s) p)" for p by (simp add: ph(1))
  have e: "cmon (s\<lparr>cmon := m\<rparr>) = m" "current (s\<lparr>cmon := m\<rparr>) = current s" "fresh (s\<lparr>cmon := m\<rparr>) = fresh s"
    "games (s\<lparr>cmon := m\<rparr>) = games s" "counted (s\<lparr>cmon := m\<rparr>) = counted s" by simp_all
  show ?thesis unfolding crowd_ok_def total_games_def e
  proof (intro conjI allI impI)
    fix p
    show "matchmaking_stopped m" "\<not> matched (players m p)" if "phase_of m p = Refused"
      using that ph(4) i(4) [of p] mt(2) [of p] st by (auto simp: p split: if_splits)
    show "phase_of m p = Outside" if "fresh s \<le> p" using that i(5) [of p] c(1) by (auto simp: p)
    show "p \<in> current s ` {..<length (plist d)}" if "phase_of m p \<noteq> Outside \<and> \<not> counted s p"
      using that i(6) [of p] c(2) by (cases "p = ?c") (simp_all add: p)
    show "counted s p" if "phase_of m p \<in> {InDone, Finished}"
      using that i(7) [of p] ph(3) by (cases "p = ?c") (simp_all add: p)
    show "matched (players m p)" if "counted s p" by (rule mt(1) [OF i(8) [OF that]])
    show "current s u < fresh s" if "u < length (plist d)" for u by (rule i(9) [OF that])
  next
    show "card {p. counted s p} = (\<Sum>t<length (plist d). games s t)" using i(11) by (simp add: total_games_def)
  qed (fact r mt(3))+
qed

lemma crowd_waits:
  assumes s: "crowd_ok d s" "t < length (plist d)" "mon_reach True (crowd_range d) (crowd_gap d) m"
    and st: "matchmaking_stopped m = matchmaking_stopped (cmon s)" and w: "waits (current s t) sk (cmon s) m"
  shows "crowd_ok d (s\<lparr>cmon := m\<rparr>)"
  by (rule crowd_ok_mon [OF s st, where h = InFind])
    (use w crowd_okD(4,10) [OF s(1)] in \<open>auto simp: waits_def\<close>)

lemma crowd_returns:
  assumes s: "crowd_ok d s" "t < length (plist d)" "mon_reach True (crowd_range d) (crowd_gap d) m"
    and st: "matchmaking_stopped m = matchmaking_stopped (cmon s)" and w: "returns (current s t) h (cmon s) m" "h \<noteq> Outside"
      "h \<in> {InDone, Finished} \<Longrightarrow> counted s (current s t)"
      "h = Refused \<Longrightarrow> matchmaking_stopped (cmon s) \<and> \<not> matched (players (cmon s) (current s t))"
  shows "crowd_ok d (s\<lparr>cmon := m\<rparr>)"
  by (rule crowd_ok_mon [OF s st, where h = h])
    (use w st crowd_okD(4,10) [OF s(1)] in \<open>auto simp: returns_def\<close>)

lemma crowd_pairs:
  assumes s: "crowd_ok d s" "t < length (plist d)" "mon_reach True (crowd_range d) (crowd_gap d) m"
    and st: "matchmaking_stopped m = matchmaking_stopped (cmon s)" and w: "pairs (current s t) sk (cmon s) m"
  shows "crowd_ok d (s\<lparr>cmon := m\<rparr>)"
proof -
  let ?p = "current s t" and ?M = "{p. matched (players (cmon s) p)}"
  obtain c where c: "c \<noteq> ?p" "\<not> matched (players (cmon s) c)" "\<not> matched (players (cmon s) ?p)"
    and m: "\<And>q. matched (players m q) = (q = ?p \<or> q = c \<or> matched (players (cmon s) q))"
    using w unfolding pairs_def by blast
  have "{q. matched (players m q)} = insert ?p (insert c ?M)" using m by auto
  then have card: "card {q. matched (players m q)} = 2 * length (announced m)"
    using c crowd_finite(1) [OF s(1)] crowd_okD(10) [OF s(1)] w by (simp add: pairs_def)
  have r: "phase_of (cmon s) p \<noteq> Refused" for p using w crowd_okD(4) [OF s(1)] by (auto simp: pairs_def)
  show ?thesis
    by (rule crowd_ok_mon [OF s st, where h = Playing]) (use w m card r in \<open>auto simp: pairs_def\<close>)
qed

lemma crowd_act_mon: "crowd_act d a s = Some s' \<Longrightarrow> cmon s' = cmon s \<or> mon_step True (cmon s) (cmon s')"
  by (cases a) (auto split: if_splits intro: mon_step.intros)

lemma crowd_act_reach:
  assumes "crowd_act d a s = Some s'" "mon_reach True rng gap (cmon s)"
  shows "mon_reach True rng gap (cmon s')"
  using crowd_act_mon [OF assms(1)]
proof
  assume "mon_step True (cmon s) (cmon s')"
  then show ?thesis by (rule mon_reach.step [OF assms(2)])
qed (simp add: assms(2))

lemma crowd_ok_count:
  assumes s: "crowd_ok d s" and t: "t < length (plist d)" "phase_of (cmon s) (current s t) = Playing" "\<not> counted s (current s t)"
  shows "crowd_ok d (s\<lparr>games := (games s)(t := games s t + 1), counted := (counted s)(current s t := True)\<rparr>)"
proof -
  note i = crowd_okD [OF s]
  have m: "matched (players (cmon s) (current s t))" using mutualD(5) [OF i(2)] t(2) by simp
  have "{p. ((counted s)(current s t := True)) p} = insert (current s t) {p. counted s p}" by auto
  then have "card {p. ((counted s)(current s t := True)) p} = Suc (total_games d s)"
    using crowd_finite(2) [OF s] t(3) i(11) by simp
  also have "Suc (total_games d s) = (\<Sum>u<length (plist d). ((games s)(t := games s t + 1)) u)"
    using t(1) by (simp add: total_games_def sum.remove [of _ t])
  finally show ?thesis using s m by (auto simp: crowd_ok_def total_games_def)
qed

lemma crowd_ok_again:
  assumes s: "crowd_ok d s" and t: "t < length (plist d)" "phase_of (cmon s) (current s t) = Finished"
  shows "crowd_ok d (s\<lparr>current := (current s)(t := fresh s), fresh := fresh s + 1\<rparr>)"
proof -
  note i = crowd_okD [OF s]
  have c: "counted s (current s t)" using i(7) t(2) by simp
  have im: "p \<in> (current s)(t := fresh s) ` {..<length (plist d)}" if pp: "phase_of (cmon s) p \<noteq> Outside" "\<not> counted s p" for p
  proof -
    obtain u where "u < length (plist d)" "p = current s u" using i(6) [OF pp(1)] pp(2) by auto
    moreover from this c pp(2) have "u \<noteq> t" by auto
    ultimately show ?thesis by (intro image_eqI [where x = u]) auto
  qed
  have "((current s)(t := fresh s)) u < fresh s + 1" if "u < length (plist d)" for u using i(9) [OF that] by auto
  then show ?thesis using s im by (auto simp: crowd_ok_def total_games_def)
qed

lemma crowd_act_ok:
  assumes a: "crowd_act d a s = Some s'" and s: "crowd_ok d s"
  shows "crowd_ok d s'"
proof -
  note i = crowd_okD [OF s] and r = crowd_act_reach [OF a crowd_okD(1) [OF s]]
  show ?thesis
  proof (cases a)
    case (Seeks t)
    then obtain m where t: "t < length (plist d)" "phase_of (cmon s) (current s t) = Outside"
      and f: "findMatch (current s t) (fst (plist d ! t)) (snd (plist d ! t)) (cmon s) = Some m" and s': "s' = s\<lparr>cmon := m\<rparr>"
      using a by (auto split: if_splits)
    have r': "mon_reach True (crowd_range d) (crowd_gap d) m" using r by (simp add: s')
    show ?thesis unfolding s' using find_effect [OF f t(2) i(2,3)] mutualD(6) [OF i(2) t(2)]
        crowd_waits [OF s t(1) r'] crowd_pairs [OF s t(1) r'] crowd_returns [OF s t(1) r', where h = Refused] by auto
  next
    case (Wakes_seeking t)
    then obtain m where t: "t < length (plist d)" "phase_of (cmon s) (current s t) = InFind"
      and f: "find_wake (current s t) (cmon s) = Some m" and s': "s' = s\<lparr>cmon := m\<rparr>"
      using a by (auto split: if_splits)
    have r': "mon_reach True (crowd_range d) (crowd_gap d) m" using r by (simp add: s')
    show ?thesis unfolding s' using wake_effect [OF f i(2,3)] crowd_waits [OF s t(1) r'] crowd_pairs [OF s t(1) r']
        crowd_returns [OF s t(1) r', where h = Refused] crowd_returns [OF s t(1) r', where h = Playing] by auto
  next
    case (Done_with t)
    then obtain m where t: "t < length (plist d)" "counted s (current s t)"
      and f: "donePlaying (current s t) (cmon s) = Some m" and s': "s' = s\<lparr>cmon := m\<rparr>"
      using a by (auto split: if_splits)
    have r': "mon_reach True (crowd_range d) (crowd_gap d) m" using r by (simp add: s')
    show ?thesis unfolding s' using done_effect [OF f] t(2)
        crowd_returns [OF s t(1) r', where h = InDone] crowd_returns [OF s t(1) r', where h = Finished] by auto
  next
    case (Wakes_from_done t)
    then obtain m where t: "t < length (plist d)" "phase_of (cmon s) (current s t) = InDone"
      and f: "done_wake (current s t) (cmon s) = Some m" and s': "s' = s\<lparr>cmon := m\<rparr>"
      using a by (auto split: if_splits)
    have r': "mon_reach True (crowd_range d) (crowd_gap d) m" using r by (simp add: s')
    have "counted s (current s t)" using i(7) t(2) by simp
    then show ?thesis unfolding s' using done_wake_effect [OF f] s crowd_returns [OF s t(1) r', where h = Finished] by auto
  next
    case (Counts t)
    then show ?thesis using a crowd_ok_count [OF s] by (auto split: if_splits)
  next
    case (Goes_again t)
    then show ?thesis using a crowd_ok_again [OF s] by (auto split: if_splits)
  next
    case Closes
    then obtain m where m: "stopMatchmaking (cmon s) = Some m" "s' = s\<lparr>cmon := m\<rparr>" using a by auto
    then have "mon_reach True (crowd_range d) (crowd_gap d) m" using r by simp
    then show ?thesis unfolding m(2) stopMatchmaking_result [OF m(1)] using s by (auto simp: crowd_ok_def total_games_def)
  qed
qed

lemma crowd_run_ok: "crowd_run d as s0 = Some s \<Longrightarrow> crowd_ok d s0 \<Longrightarrow> crowd_ok d s"
  by (induction as arbitrary: s0) (auto split: option.splits intro: crowd_act_ok)

lemma crowd_start_ok: "crowd_ok d (crowd_start d)"
proof -
  have "cmon (crowd_start d) = initMonitor (crowd_range d) (crowd_gap d) blank" by (simp add: crowd_start_def)
  then show ?thesis using mon_reach.init [of True "crowd_range d" "crowd_gap d"]
    by (simp add: crowd_ok_def total_games_def) (simp add: crowd_start_def initMonitor_def blank_def)
qed

lemmas crowd_invariant = crowd_run_ok [OF _ crowd_start_ok]

lemma last_report: "last (crowd_report d s) = ''Total: '' @ show_nat (total_games d s)"
  by (simp add: crowd_report_def)

text \<open>When all threads have ended, every match has been counted by both its players.\<close>

lemma total_when_joined:
  assumes "crowd_run d as (crowd_start d) = Some s" and j: "joined d s"
  shows "total_games d s = 2 * length (announced (cmon s))"
proof -
  note i = crowd_okD [OF crowd_invariant [OF assms(1)]]
  have "counted s p" if m: "matched (players (cmon s) p)" for p
  proof (rule ccontr)
    assume n: "\<not> counted s p"
    have "phase_of (cmon s) p \<noteq> Outside" using m mutualD(6) [OF i(2)] by blast
    then obtain t where "t < length (plist d)" "p = current s t" using i(6) n by blast
    then show False using j m i(4) by (simp add: joined_def)
  qed
  then have "{p. counted s p} = {p. matched (players (cmon s) p)}" using i(8) by blast
  then show ?thesis using i(10,11) by simp
  qed

subsection \<open>Properties\<close>

text \<open>
  C13: What the first four drivers print is so, for any table of players and any schedule, spurious
  wakeups included: who is said to be playing has in the monitor an opponent, who is a player of the
  table and whose opponent it is, and by the table their skills differ by at least one and at most
  the gap; and nobody is said to have no match before \<open>main\<close> has printed that it stops the matchmaker.
\<close>

theorem drivers_tell_the_truth:
  assumes "drive_run d as (drive_start d) = Some s"
  shows "(Matches t \<in> set (said_lines s) \<longrightarrow> (\<exists>u<length (threads_of d).
        opponent (players (mon s) t) = Some u \<and> opponent (players (mon s) u) = Some t
        \<and> 0 < \<bar>skill_in d t - skill_in d u\<bar> \<and> \<bar>skill_in d t - skill_in d u\<bar> \<le> gap_of d))
    \<and> (said_lines s = xs @ No_match t # ys \<longrightarrow> Stopping \<in> set xs)"
proof (intro conjI impI)
  assume "Matches t \<in> set (said_lines s)"
  from playing_has_opponent [OF assms this] obtain u where "u < length (threads_of d)" "opponent (players (mon s) t) = Some u"
    "opponent (players (mon s) u) = Some t" "skill_in d t \<noteq> skill_in d u" "\<bar>skill_in d t - skill_in d u\<bar> \<le> gap_of d" by blast
  then show "\<exists>u<length (threads_of d). opponent (players (mon s) t) = Some u \<and> opponent (players (mon s) u) = Some t
      \<and> 0 < \<bar>skill_in d t - skill_in d u\<bar> \<and> \<bar>skill_in d t - skill_in d u\<bar> \<le> gap_of d" by auto
qed (use drive_okD(1) [OF drive_invariant [OF assms]] in \<open>auto simp: truthful_def\<close>)

text \<open>In driver 2, Lupe waits, Alida and Nick play each other, then Lupe and Micah.\<close>

definition driver2_turns :: "turn list" where
  "driver2_turns = [Asks 0, Finds_one 0, Asks 1, Finds_one 1, Asks 2, Finds_one 2, Tells 2, Wakes_up 1, Tells 1, Asks 3, Finds_one 3,
     Wakes_up 0, Tells 3, Tells 0, Says_stop, Stops]"

theorem drivers_tell_the_truth_witness:
  "\<exists>s u. drive_run driver2 driver2_turns (drive_start driver2) = Some s \<and> opponent (players (mon s) 1) = Some u
    \<and> name_in driver2 u = ''Nick'' \<and> 0 < \<bar>skill_in driver2 1 - skill_in driver2 u\<bar> \<and> \<bar>skill_in driver2 1 - skill_in driver2 u\<bar> \<le> 9
    \<and> map (text_of driver2) (said_lines s) = [''Lupe wants to play'', ''Alida wants to play'', ''Nick wants to play'',
        ''Nick is playing'', ''Alida is playing'', ''Micah wants to play'', ''Micah is playing'', ''Lupe is playing'', ''Stopping matchmaker'']"
proof -
  have "case drive_run driver2 driver2_turns (drive_start driver2) of None \<Rightarrow> False
    | Some s \<Rightarrow> List.member (said_lines s) (Matches 1) \<and> opponent (players (mon s) 1) = Some 2
      \<and> map (text_of driver2) (said_lines s) = [''Lupe wants to play'', ''Alida wants to play'', ''Nick wants to play'',
        ''Nick is playing'', ''Alida is playing'', ''Micah wants to play'', ''Micah is playing'', ''Lupe is playing'', ''Stopping matchmaker'']"
    by code_simp
  then obtain s where s: "drive_run driver2 driver2_turns (drive_start driver2) = Some s" "Matches 1 \<in> set (said_lines s)"
    "opponent (players (mon s) 1) = Some 2"
    "map (text_of driver2) (said_lines s) = [''Lupe wants to play'', ''Alida wants to play'', ''Nick wants to play'',
        ''Nick is playing'', ''Alida is playing'', ''Micah wants to play'', ''Micah is playing'', ''Lupe is playing'', ''Stopping matchmaker'']"
    by (auto split: option.splits)
  from drivers_tell_the_truth [OF s(1), of 1 "[]" "[]"] s(2,3)
  have "0 < \<bar>skill_in driver2 1 - skill_in driver2 2\<bar>" "\<bar>skill_in driver2 1 - skill_in driver2 2\<bar> \<le> gap_of driver2" by auto
  moreover have "name_in driver2 2 = ''Nick''" "gap_of driver2 = 9" by code_simp+
  ultimately show ?thesis using s(1,3,4) by (intro exI [of _ s] exI [of _ 2]) simp
qed

text \<open>
  Driver 3, whose players are too far apart, prints no line that begins with \<open>Error:\<close>, whatever
  the schedule.
\<close>

theorem driver3_prints_no_error:
  assumes "drive_run driver3 as (drive_start driver3) = Some s" "x \<in> set (map (text_of driver3) (said_lines s))"
  shows "take 6 x \<noteq> ''Error:''"
proof
  assume e: "take 6 x = ''Error:''"
  obtain y where y: "y \<in> set (said_lines s)" "x = text_of driver3 y" using assms(2) by auto
  have "\<exists>t. y = Matches t"
    by (rule driver3_error) (use e y drive_okD(4) [OF drive_invariant [OF assms(1)]] in auto)
  then show False using driver3_no_match [OF assms(1)] y(1) by blast
qed

theorem driver3_prints_no_error_witness:
  "\<exists>s. drive_run driver3 [Asks 1, Says_stop, Finds_one 1, Stops, Wakes_up 1, Tells 1] (drive_start driver3) = Some s
    \<and> last (map (text_of driver3) (said_lines s)) = ''Fern didn't find a match''
    \<and> take 6 (text_of driver3 (last (said_lines s))) \<noteq> ''Error:''"
proof -
  let ?run = "[Asks 1, Says_stop, Finds_one 1, Stops, Wakes_up 1, Tells 1]"
  have "case drive_run driver3 ?run (drive_start driver3) of None \<Rightarrow> False
    | Some s \<Rightarrow> said_lines s = [Wants 1, Stopping, No_match 1] \<and> last (map (text_of driver3) (said_lines s)) = ''Fern didn't find a match''"
    by code_simp
  then obtain s where s: "drive_run driver3 ?run (drive_start driver3) = Some s" "said_lines s = [Wants 1, Stopping, No_match 1]"
    "last (map (text_of driver3) (said_lines s)) = ''Fern didn't find a match''" by (auto split: option.splits)
  have "take 6 (text_of driver3 (last (said_lines s))) \<noteq> ''Error:''"
    by (rule driver3_prints_no_error [OF s(1)]) (simp add: s(2))
  then show ?thesis using s(1,3) by blast
qed

text \<open>
  In the large drivers the games the players count never exceed twice the games announced,
  whatever the schedule; when all threads have ended, the total reported is exactly twice the
  number of games announced.
\<close>

theorem drivers_count_games:
  assumes "crowd_run d as (crowd_start d) = Some s"
  shows "total_games d s \<le> 2 * length (announced (cmon s))
    \<and> (joined d s \<longrightarrow> last (crowd_report d s) = ''Total: '' @ show_nat (2 * length (announced (cmon s))))"
proof -
  note s = crowd_invariant [OF assms]
  note i = crowd_okD [OF s]
  have "{p. counted s p} \<subseteq> {p. matched (players (cmon s) p)}" using i(8) by blast
  from card_mono [OF crowd_finite(1) [OF s] this] have "total_games d s \<le> 2 * length (announced (cmon s))"
    using i(10,11) by simp
  then show ?thesis using total_when_joined [OF assms] by (simp add: last_report)
qed

definition driver5_turns :: "crowd_turn list" where
  "driver5_turns = [Seeks 0, Seeks 4, Wakes_seeking 0, Counts 0, Counts 4, Done_with 0, Done_with 4, Wakes_from_done 0, Closes,
     Goes_again 0, Goes_again 4] @ map Seeks [0..<20]"

theorem drivers_count_games_witness:
  "\<exists>s. crowd_run driver5 driver5_turns (crowd_start driver5) = Some s \<and> last (crowd_report driver5 s) = ''Total: 2''"
proof -
  have "case crowd_run driver5 driver5_turns (crowd_start driver5) of None \<Rightarrow> False
    | Some s \<Rightarrow> joined driver5 s \<and> length (announced (cmon s)) = 1" by code_simp
  then obtain s where s: "crowd_run driver5 driver5_turns (crowd_start driver5) = Some s" "joined driver5 s"
    "length (announced (cmon s)) = 1" by (auto split: option.splits)
  have "show_nat 2 = ''2''" by code_simp
  then show ?thesis using drivers_count_games [OF s(1)] s by auto
qed

end
