(* ===== verification/Motd_Client.thy ===== *)
theory Motd_Client
  imports Motd
begin

text \<open>
  The client of the message server, \<open>exercises/ex17/motd_client.c\<close>, together with the server of
  \<open>Motd\<close>. What the RPC library does is an input: whether the client handle could be made, what
  \<open>clnt_pcreateerror\<close> and \<open>clnt_perror\<close> write, which of the calls are answered, how often an
  addition is carried out before its answer (the transport is UDP, which repeats a call that is not
  answered in time), and what other clients add before each call.

  Proved: what a client prints, with the additions of other clients between its calls; what one
  client adds the next one prints.
\<close>

record rpc =
  created :: bool
  pcreateerror :: "string \<Rightarrow> string"
  perror :: "string \<Rightarrow> string"
  answered :: "nat \<Rightarrow> bool"
  executed :: nat
  between :: "nat \<Rightarrow> buf list"

text \<open>Before call number \<open>k\<close> of the client the others add their messages.\<close>

definition others_add :: "rpc \<Rightarrow> nat \<Rightarrow> motd \<Rightarrow> motd" where
  "others_add r k s = fold add_1_svc (between r k) s"

text \<open>The loop over the history: \<open>n\<close> indices are left from \<open>i\<close> on; \<open>get_1\<close> of \<open>i\<close> is call \<open>i + 1\<close>.\<close>

fun print_history :: "rpc \<Rightarrow> nat \<Rightarrow> nat \<Rightarrow> motd \<Rightarrow> string \<Rightarrow> motd \<times> outcome" where
  "print_history r i 0 s out = (s, exits out [] EXIT_SUCCESS)"
| "print_history r i (Suc n) s out =
     (let s1 = others_add r (i + 1) s in
      if \<not> answered r (i + 1) then (s1, exits out (perror r ''get_1 call failed'') EXIT_FAILURE)
      else print_history r (i + 1) n s1 (out @ get_1_svc (int i) s1 @ NL))"

definition motd_prog_1 :: "rpc \<Rightarrow> string \<Rightarrow> buf option \<Rightarrow> motd \<Rightarrow> motd \<times> outcome" where
  "motd_prog_1 r host message s =
     (if \<not> created r then (s, exits [] (pcreateerror r host) 1)
      else let s0 = others_add r 0 s in
        case message of
          Some m \<Rightarrow>
            let s1 = (add_1_svc m ^^ executed r) s0 in
            if \<not> answered r 0 then (s1, exits [] (perror r ''add_1 call failed'') EXIT_FAILURE)
            else (s1, exits [] [] EXIT_SUCCESS)
        | None \<Rightarrow>
            if \<not> answered r 0 then (s0, exits [] (perror r ''count_1 call failed'') EXIT_FAILURE)
            else print_history r 0 (nat (count_1_svc s0)) s0 [])"

definition motd_client_main :: "rpc \<Rightarrow> buf list \<Rightarrow> motd \<Rightarrow> motd \<times> outcome" where
  "motd_client_main r argv s =
     (if length argv < 2 \<or> length argv > 3 then (s, exits (''usage: '' @ cstr (argv ! 0) @ '' server_host [message]'' @ NL) [] 1)
      else if length argv = 3 then motd_prog_1 r (cstr (argv ! 1)) (Some (argv ! 2)) s
      else motd_prog_1 r (cstr (argv ! 1)) None s)"

subsection \<open>The server while a client runs\<close>

text \<open>The server at call \<open>k\<close> of a client that only reads.\<close>

fun server_at :: "rpc \<Rightarrow> nat \<Rightarrow> motd \<Rightarrow> motd" where
  "server_at r 0 s = others_add r 0 s"
| "server_at r (Suc k) s = others_add r (Suc k) (server_at r k s)"

text \<open>The newest messages in front, three at most: the history after additions.\<close>

definition recent :: "buf list \<Rightarrow> string list \<Rightarrow> string list" where
  "recent ms h = take 3 (map (\<lambda>m. take 60 (cstr m)) (rev ms) @ h)"

lemma recent_Nil: "length h \<le> 3 \<Longrightarrow> recent [] h = h"
  by (simp add: recent_def)

lemma take_take_append: "take n (xs @ take n ys) = take n (xs @ ys)"
  by (simp add: min_def)

lemma adds_refine:
  "well_sized s \<Longrightarrow> well_sized (fold add_1_svc ms s) \<and> (length (history s) \<le> 3 \<longrightarrow> history (fold add_1_svc ms s) = recent ms (history s))"
proof (induction ms arbitrary: s)
  case (Cons m ms)
  note a = add_refines [OF Cons.prems, of m]
  then have "well_sized (fold add_1_svc ms (add_1_svc m s))
    \<and> history (fold add_1_svc ms (add_1_svc m s)) = recent ms (history (add_1_svc m s))" using Cons.IH by auto
  moreover have "recent ms (take 3 (take 60 (cstr m) # history s)) = recent (m # ms) (history s)"
    using take_take_append [of 3 "map (\<lambda>m. take 60 (cstr m)) (rev ms)" "take 60 (cstr m) # history s"] by (simp add: recent_def)
  ultimately show ?case using a by simp
qed (simp add: recent_Nil)

lemma history_length: "length (history s) = mCount s"
  by (simp add: history_def)

lemma others_ok: "well_sized s \<Longrightarrow> well_sized (others_add r k s) \<and> mCount s \<le> mCount (others_add r k s)"
proof -
  assume s: "well_sized s"
  then have "length (history s) \<le> 3" by (simp add: history_length well_sized_def HISTORY_MAX_def)
  then have w: "well_sized (others_add r k s)" "history (others_add r k s) = recent (between r k) (history s)"
    using adds_refine [OF s, of "between r k"] by (simp_all add: others_add_def)
  have "length (history s) \<le> length (recent (between r k) (history s))"
    using s by (auto simp: recent_def history_length well_sized_def HISTORY_MAX_def min_def)
  then show ?thesis using w by (simp flip: history_length)
qed

lemma server_at_ok: "well_sized s \<Longrightarrow> well_sized (server_at r k s) \<and> mCount (server_at r 0 s) \<le> mCount (server_at r k s)"
proof (induction k)
  case (Suc k)
  then show ?case using others_ok [of "server_at r k s" r "Suc k"] by simp
qed (simp add: others_ok)

lemma get_in_history: "i < mCount s \<Longrightarrow> get_1_svc (int i) s = history s ! i"
  by (simp add: get_1_svc_def history_def)

lemma print_history_lines:
  assumes "well_sized s" "\<forall>k. answered r k" "i + n = mCount (server_at r 0 s)"
  shows "print_history r i n (server_at r i s) out
    = (server_at r (i + n) s, exits (out @ concat (map (\<lambda>j. history (server_at r (j + 1) s) ! j @ NL) [i..<i + n])) [] EXIT_SUCCESS)"
  using assms(3)
proof (induction n arbitrary: i out)
  case (Suc n)
  have "mCount (server_at r 0 s) \<le> mCount (server_at r (i + 1) s)" using server_at_ok [OF assms(1)] by blast
  then have "get_1_svc (int i) (server_at r (i + 1) s) = history (server_at r (i + 1) s) ! i"
    using get_in_history Suc.prems by simp
  moreover have "[i..<mCount (server_at r 0 s)] = i # [i + 1..<mCount (server_at r 0 s)]"
    using Suc.prems by (simp add: upt_conv_Cons)
  ultimately show ?case using Suc.IH [of "i + 1"] Suc.prems assms(2) by (simp add: Let_def del: upt_Suc)
qed simp

text \<open>A client that adds, when each call is carried out once and answered, and nobody else calls.\<close>

definition quiet :: "rpc \<Rightarrow> bool" where
  "quiet r \<longleftrightarrow> created r \<and> (\<forall>k. answered r k) \<and> executed r = 1 \<and> (\<forall>k. between r k = [])"

lemma quiet_calls:
  assumes "quiet r"
  shows "others_add r k s = s" "server_at r k s = s" "motd_prog_1 r host (Some m) s = (add_1_svc m s, exits [] [] EXIT_SUCCESS)"
proof -
  show o: "others_add r k s = s" for k s using assms by (simp add: quiet_def others_add_def)
  show "server_at r k s = s" by (induction k) (simp_all add: o)
  show "motd_prog_1 r host (Some m) s = (add_1_svc m s, exits [] [] EXIT_SUCCESS)"
    using assms by (simp add: motd_prog_1_def quiet_def o Let_def)
qed

subsection \<open>Properties\<close>

text \<open>
  A client that reads prints one line for each message the server had when it asked for their
  number; the line for index \<open>i\<close> is the message at \<open>i\<close> at the time of that call, whatever the other
  clients add in between; it never prints the server's error.
\<close>

theorem client_prints_history:
  assumes "well_sized s" "created r" "\<forall>k. answered r k"
  shows "snd (motd_prog_1 r host None s)
    = exits (concat (map (\<lambda>i. history (server_at r (i + 1) s) ! i @ NL) [0..<mCount (server_at r 0 s)])) [] EXIT_SUCCESS
    \<and> (\<forall>k. mCount (server_at r 0 s) \<le> length (history (server_at r k s)))"
proof -
  have "motd_prog_1 r host None s = print_history r 0 (mCount (server_at r 0 s)) (server_at r 0 s) []"
    using assms(2,3) by (simp add: motd_prog_1_def Let_def count_1_svc_def)
  then show ?thesis using print_history_lines [OF assms(1,3), of 0 "mCount (server_at r 0 s)" "[]"] server_at_ok [OF assms(1), of r]
    by (simp add: history_length)
qed

definition busy :: rpc where
  "busy = \<lparr>created = True, pcreateerror = (\<lambda>h. h), perror = (\<lambda>m. m), answered = (\<lambda>_. True), executed = 1,
     between = (\<lambda>k. if k = 2 then [''new''] else [])\<rparr>"

theorem client_prints_history_witness:
  "snd (motd_prog_1 busy ''localhost'' None (add_1_svc ''b'' (add_1_svc ''a'' motd_init))) = exits (''b'' @ NL @ ''b'' @ NL) [] EXIT_SUCCESS"
proof -
  let ?s = "add_1_svc ''b'' (add_1_svc ''a'' motd_init)"
  have w: "well_sized ?s" by code_simp
  have "concat (map (\<lambda>i. history (server_at busy (i + 1) ?s) ! i @ NL) [0..<mCount (server_at busy 0 ?s)]) = ''b'' @ NL @ ''b'' @ NL"
    by code_simp
  then show ?thesis using client_prints_history [OF w, of busy "''localhost''"] by (simp add: busy_def)
qed

text \<open>
  What clients send is what the next one reads: after the messages \<open>ms\<close> have been added, one
  client for each, a client without a message prints the last three, the newest first, each cut
  to 60 characters.
\<close>

theorem messages_come_back:
  assumes "quiet r"
  shows "stdout (snd (motd_prog_1 r host None (fold (\<lambda>m s. fst (motd_prog_1 r host (Some m) s)) ms motd_init)))
    = concat (map (\<lambda>m. m @ NL) (take 3 (map (\<lambda>m. take 60 (cstr m)) (rev ms))))"
proof -
  have w: "well_sized motd_init" "history motd_init = []" by (simp_all add: well_sized_def motd_init_def history_def)
  have f: "(\<lambda>m s. fst (motd_prog_1 r host (Some m) s)) = add_1_svc" using quiet_calls(3) [OF assms] by (intro ext) simp
  let ?s = "fold add_1_svc ms motd_init"
  have s: "well_sized ?s" "history ?s = take 3 (map (\<lambda>m. take 60 (cstr m)) (rev ms))"
    using adds_refine [OF w(1), of ms] w(2) by (simp_all add: recent_def)
  have "motd_prog_1 r host None ?s = print_history r 0 (mCount ?s) ?s []"
    using assms by (simp add: motd_prog_1_def quiet_def quiet_calls(1) [OF assms] Let_def count_1_svc_def)
  then have "stdout (snd (motd_prog_1 r host None ?s)) = concat (map (\<lambda>j. history ?s ! j @ NL) [0..<length (history ?s)])"
    using print_history_lines [OF s(1), of r 0 "mCount ?s" "[]"] assms quiet_calls(1,2) [OF assms]
    by (simp add: quiet_def history_length exits_def)
  also have "map (\<lambda>j. history ?s ! j @ NL) [0..<length (history ?s)] = map (\<lambda>m. m @ NL) (history ?s)"
    by (rule nth_equalityI) simp_all
  finally show ?thesis unfolding f s(2) .
qed

theorem messages_come_back_witness:
  "stdout (snd (motd_prog_1 (busy\<lparr>between := (\<lambda>_. [])\<rparr>) ''localhost'' None
     (fold (\<lambda>m s. fst (motd_prog_1 (busy\<lparr>between := (\<lambda>_. [])\<rparr>) ''localhost'' (Some m) s)) [''a'', ''b'', ''c'', ''d''] motd_init)))
   = ''d'' @ NL @ ''c'' @ NL @ ''b'' @ NL"
proof -
  have "quiet (busy\<lparr>between := (\<lambda>_. [])\<rparr>)" by (simp add: quiet_def busy_def)
  from messages_come_back [OF this, of "''localhost''" "[''a'', ''b'', ''c'', ''d'']"]
  show ?thesis by (simp add: cstr_def)
qed

end
