(* ===== verification/Http_Client.thy ===== *)
theory Http_Client
  imports Prelude
begin

text \<open>
  The HTTP client, \<open>exercises/ex16/HTTPclient.c\<close>. The network is an input: what the calls return,
  and the pieces in which \<open>read\<close> delivers the response. A call of \<open>read\<close> that returns 0 or an error
  ends the loop, as does the end of the list of pieces.

  Proved: the part up to the first empty line goes to the error output and the rest to the
  standard output, in whatever pieces the response arrives.
\<close>

definition CR :: char where "CR = CHR 0x0D"

definition LF :: char where "LF = CHR 0x0A"

text \<open>\<open>inHeader\<close>, the static \<open>last4\<close>, and what was written.\<close>

record reader =
  inHeader :: bool
  last4 :: "char \<times> char \<times> char \<times> char"
  to_stderr :: string
  to_stdout :: string

definition reader_start :: reader where
  "reader_start = \<lparr>inHeader = True, last4 = (NUL, NUL, NUL, NUL), to_stderr = [], to_stdout = []\<rparr>"

definition put_response :: "char \<Rightarrow> reader \<Rightarrow> reader" where
  "put_response c s =
     (if inHeader s then
        (let s1 = s\<lparr>to_stderr := to_stderr s @ [c],
                    last4 := (case last4 s of (_, x, y, z) \<Rightarrow> (x, y, z, c))\<rparr>
         in if last4 s1 = (CR, LF, CR, LF) then s1\<lparr>inHeader := False\<rparr> else s1)
      else s\<lparr>to_stdout := to_stdout s @ [c]\<rparr>)"

definition put_piece :: "string \<Rightarrow> reader \<Rightarrow> reader" where
  "put_piece buffer s = fold put_response buffer s"

fun read_response :: "string list \<Rightarrow> reader \<Rightarrow> reader" where
  "read_response [] s = s"
| "read_response (buffer # pieces) s = (if buffer = [] then s else read_response pieces (put_piece buffer s))"

definition CRLF :: string where "CRLF = [CR, LF]"

definition request_text :: "string \<Rightarrow> string \<Rightarrow> string \<Rightarrow> string" where
  "request_text path host port =
     ''GET '' @ path @ '' HTTP/1.1'' @ CRLF @ ''Host: '' @ host @ '':'' @ port @ CRLF
     @ ''User-Agent: CSC 246 class wrboone@ncsu.edu'' @ CRLF @ ''Accept: */*'' @ CRLF @ ''Connection: close'' @ CRLF @ CRLF"

text \<open>\<open>snprintf\<close> into the buffer of 1024 bytes.\<close>

definition build_request :: "string \<Rightarrow> string \<Rightarrow> string \<Rightarrow> string" where
  "build_request path host port = take 1023 (request_text path host port)"

record network =
  getaddrinfo_fails :: bool
  no_address :: bool
  socket_fd :: int
  connect_fails :: bool
  send_fails :: "string \<Rightarrow> bool"
  pieces :: "string \<Rightarrow> string list"

definition usage :: outcome where
  "usage = exits [] (''usage: <host> <port> <path>'' @ NL) EXIT_FAILURE"

definition fail :: "string \<Rightarrow> outcome" where
  "fail message = exits [] (message @ NL) EXIT_FAILURE"

text \<open>The response may depend on the request; \<open>argv\<close> holds C strings.\<close>

definition http_main :: "network \<Rightarrow> string list \<Rightarrow> outcome" where
  "http_main n argv =
     (if length argv \<noteq> 4 then usage
      else if getaddrinfo_fails n then fail ''Can't get address info''
      else if no_address n then fail ''Can't get address''
      else if socket_fd n < 0 then fail ''Can't create socket''
      else if connect_fails n then fail ''Can't connect to server''
      else let request = build_request (cstr (argv ! 3)) (cstr (argv ! 1)) (cstr (argv ! 2)) in
        if send_fails n request then fail ''Failed to send request''
        else let s = read_response (pieces n request) reader_start in exits (to_stdout s) (to_stderr s) 0)"

subsection \<open>The reference: split at the first empty line\<close>

definition BLANK_LINE :: string where "BLANK_LINE = CRLF @ CRLF"

fun split_response :: "string \<Rightarrow> string \<times> string" where
  "split_response [] = ([], [])"
| "split_response (c # r) =
     (if take 4 (c # r) = BLANK_LINE then (BLANK_LINE, drop 4 (c # r))
      else (case split_response r of (h, b) \<Rightarrow> (c # h, b)))"

lemma BLANK_LINE_chars: "BLANK_LINE = [CR, LF, CR, LF]"
  by (simp add: BLANK_LINE_def CRLF_def)

lemma split_parts: "fst (split_response r) @ snd (split_response r) = r"
proof (induction r)
  case (Cons c r)
  show ?case
  proof (cases "take 4 (c # r) = BLANK_LINE")
    case True
    then show ?thesis using append_take_drop_id [of 4 "c # r"] by simp
  qed (use Cons in \<open>cases "split_response r"; simp\<close>)
qed simp

lemma split_head_length: "min 3 (length r) \<le> length (fst (split_response r))"
proof (induction r)
  case (Cons c r)
  show ?case
  proof (cases r)
    case (Cons d r')
    then show ?thesis using Cons.IH by (auto simp: BLANK_LINE_chars split: prod.split)
  qed (simp add: BLANK_LINE_chars)
qed simp

lemma split_short: "length r < 4 \<Longrightarrow> split_response r = (r, [])"
proof (induction r)
  case (Cons c r)
  then have "take 4 (c # r) \<noteq> BLANK_LINE" by (auto simp: BLANK_LINE_chars dest: arg_cong [where f = length])
  then show ?case using Cons by simp
qed simp

lemma body_fold: "\<not> inHeader s \<Longrightarrow> fold put_response r s = s\<lparr>to_stdout := to_stdout s @ r\<rparr>"
  by (induction r arbitrary: s) (simp_all add: put_response_def)

text \<open>The header part: the three last characters may begin the empty line.\<close>

lemma header_fold:
  assumes "inHeader s" "last4 s = (a, x, y, z)"
  shows "to_stderr (fold put_response r s) = to_stderr s @ drop 3 (fst (split_response (x # y # z # r)))
    \<and> to_stdout (fold put_response r s) = to_stdout s @ snd (split_response (x # y # z # r))"
  using assms
proof (induction r arbitrary: s a x y z)
  case Nil
  then show ?case by (simp add: split_short BLANK_LINE_chars)
next
  case (Cons c r)
  show ?case
  proof (cases "[x, y, z, c] = BLANK_LINE")
    case True
    then have "put_response c s = s\<lparr>to_stderr := to_stderr s @ [c], last4 := (x, y, z, c), inHeader := False\<rparr>"
      using Cons.prems by (simp add: put_response_def BLANK_LINE_chars)
    then show ?thesis using True by (simp add: body_fold flip: True)
  next
    case False
    let ?s = "s\<lparr>to_stderr := to_stderr s @ [c], last4 := (x, y, z, c)\<rparr>"
    have "put_response c s = ?s" using False Cons.prems by (auto simp: put_response_def BLANK_LINE_chars)
    moreover obtain h b where hb: "split_response (y # z # c # r) = (h, b)" by fastforce
    moreover have "split_response (x # y # z # c # r) = (x # h, b)" using False hb by simp
    moreover have "drop 2 h = c # drop 3 h"
    proof -
      have "h @ b = y # z # c # r" "3 \<le> length h" using split_parts [of "y # z # c # r"] split_head_length [of "y # z # c # r"] hb by simp_all
      then show ?thesis by (cases h; cases "tl h"; cases "tl (tl h)") auto
    qed
    moreover have "to_stderr (fold put_response r ?s) = to_stderr ?s @ drop 3 (fst (split_response (y # z # c # r)))
        \<and> to_stdout (fold put_response r ?s) = to_stdout ?s @ snd (split_response (y # z # c # r))"
      by (rule Cons.IH [where a = x]) (use Cons.prems in simp_all)
    ultimately show ?thesis by (simp add: numeral_3_eq_3 numeral_2_eq_2)
  qed
qed

lemma read_response_concat: "\<forall>p\<in>set ps. p \<noteq> [] \<Longrightarrow> read_response ps s = fold put_response (concat ps) s"
  by (induction ps arbitrary: s) (auto simp: put_piece_def)

lemma split_after_NUL: "split_response (NUL # r) = (NUL # fst (split_response r), snd (split_response r))"
  by (simp add: BLANK_LINE_chars CR_def split: prod.split)

lemma response_written:
  assumes "\<forall>p\<in>set ps. p \<noteq> []"
  shows "to_stderr (read_response ps reader_start) = fst (split_response (concat ps))
    \<and> to_stdout (read_response ps reader_start) = snd (split_response (concat ps))"
  using header_fold [of reader_start NUL NUL NUL NUL "concat ps"] assms
  by (simp add: read_response_concat reader_start_def split_after_NUL del: split_response.simps)

lemma build_request_fits:
  "length path + length host + length port \<le> 921 \<Longrightarrow> build_request path host port = request_text path host port"
  by (simp add: build_request_def request_text_def CRLF_def)

subsection \<open>Properties\<close>

text \<open>
  C30: When the network calls succeed and the request fits its buffer, the client sends the whole
  request, and what it writes depends only on the bytes of the response, not on the pieces in which
  they arrive: everything up to and including the first empty line goes to the error output, the
  rest to the standard output.
\<close>

theorem http_splits_response:
  assumes "length argv = 4" "length (cstr (argv ! 1)) + length (cstr (argv ! 2)) + length (cstr (argv ! 3)) \<le> 921"
    and "\<not> getaddrinfo_fails n" "\<not> no_address n" "0 \<le> socket_fd n" "\<not> connect_fails n"
    and "\<not> send_fails n (request_text (cstr (argv ! 3)) (cstr (argv ! 1)) (cstr (argv ! 2)))"
    and "concat (pieces n (request_text (cstr (argv ! 3)) (cstr (argv ! 1)) (cstr (argv ! 2)))) = response"
    and "[] \<notin> set (pieces n (request_text (cstr (argv ! 3)) (cstr (argv ! 1)) (cstr (argv ! 2))))"
  shows "http_main n argv = exits (snd (split_response response)) (fst (split_response response)) 0"
proof -
  have "build_request (cstr (argv ! 3)) (cstr (argv ! 1)) (cstr (argv ! 2)) = request_text (cstr (argv ! 3)) (cstr (argv ! 1)) (cstr (argv ! 2))"
    by (rule build_request_fits) (use assms(2) in simp)
  moreover have "\<forall>p\<in>set (pieces n (request_text (cstr (argv ! 3)) (cstr (argv ! 1)) (cstr (argv ! 2)))). p \<noteq> []"
    using assms(9) by metis
  note response_written [OF this, unfolded assms(8)]
  ultimately show ?thesis using assms(1,3-7) by (simp add: http_main_def Let_def del: split_response.simps)
qed

definition echo_server :: network where
  "echo_server = \<lparr>getaddrinfo_fails = False, no_address = False, socket_fd = 3, connect_fails = False, send_fails = (\<lambda>_. False),
     pieces = (\<lambda>_. [''OK'' @ [CR], [LF, CR], LF # ''bo'', ''dy''])\<rparr>"

theorem http_splits_response_witness:
  "http_main echo_server [''http'', ''localhost'', ''80'', ''/''] = exits ''body'' (''OK'' @ BLANK_LINE) 0"
proof -
  have "split_response (''OK'' @ [CR, LF, CR, LF] @ ''body'') = (''OK'' @ BLANK_LINE, ''body'')" by code_simp
  then show ?thesis
    using http_splits_response [of "[''http'', ''localhost'', ''80'', ''/'']" echo_server "''OK'' @ [CR, LF, CR, LF] @ ''body''"]
    by (simp add: echo_server_def cstr_def)
qed

end
