(* ===== verification/Write_Calls.thy ===== *)
theory Write_Calls
  imports Prelude
begin

text \<open>
  The two programs of exercise 1 that write the alphabet again and again over itself:
  \<open>exercises/ex1/writeLibc.c\<close> through the buffer of \<open>stdio\<close>, \<open>writeSystem.c\<close> with one system call
  for each character. An open file is its contents, the position and the number of \<open>write\<close> calls
  made so far; the contents before the program, the results of opening and the size of the
  buffer are inputs.

  Proved: what is in the file at the end, and how many calls each of them needed.
\<close>

definition ITERATIONS :: nat where "ITERATIONS = 50000"

definition buffer :: string where "buffer = ''abcdefghijklmnopqrstuvwxyz'' @ NL"

record open_file =
  contents :: string
  offset :: nat
  write_calls :: nat

text \<open>\<open>write\<close>, at the position; \<open>lseek\<close> to the start.\<close>

definition sys_write :: "string \<Rightarrow> open_file \<Rightarrow> open_file" where
  "sys_write bytes f = f\<lparr>contents := take (offset f) (contents f) @ bytes @ drop (offset f + length bytes) (contents f),
     offset := offset f + length bytes, write_calls := write_calls f + 1\<rparr>"

definition sys_rewind :: "open_file \<Rightarrow> open_file" where
  "sys_rewind f = f\<lparr>offset := 0\<rparr>"

subsection \<open>\<open>writeSystem.c\<close>\<close>

definition system_round :: "open_file \<Rightarrow> open_file" where
  "system_round f = sys_rewind (fold (\<lambda>c. sys_write [c]) buffer f)"

text \<open>\<open>open\<close> does not truncate; its result is not tested, and with a descriptor of -1 every call fails.\<close>

definition writeSystem_main :: "bool \<Rightarrow> string \<Rightarrow> open_file \<times> outcome" where
  "writeSystem_main opened old =
     (let f = \<lparr>contents = old, offset = 0, write_calls = 0\<rparr>
      in (if opened then (system_round ^^ ITERATIONS) f else f\<lparr>write_calls := ITERATIONS * length buffer\<rparr>, exits [] [] EXIT_SUCCESS))"

subsection \<open>\<open>writeLibc.c\<close>\<close>

record stream =
  under :: open_file
  pending :: string

definition flush :: "stream \<Rightarrow> stream" where
  "flush s = (if pending s = [] then s else \<lparr>under = sys_write (pending s) (under s), pending = []\<rparr>)"

text \<open>A full buffer is written out before the next character goes in.\<close>

definition fputc :: "nat \<Rightarrow> char \<Rightarrow> stream \<Rightarrow> stream" where
  "fputc bufsiz c s = (let s1 = (if length (pending s) < bufsiz then s else flush s) in s1\<lparr>pending := pending s1 @ [c]\<rparr>)"

definition rewind :: "stream \<Rightarrow> stream" where
  "rewind s = (flush s)\<lparr>under := sys_rewind (under (flush s))\<rparr>"

definition libc_round :: "nat \<Rightarrow> stream \<Rightarrow> stream" where
  "libc_round bufsiz s = rewind (fold (fputc bufsiz) buffer s)"

definition writeLibc_main :: "nat \<Rightarrow> bool \<Rightarrow> string \<Rightarrow> open_file \<times> outcome" where
  "writeLibc_main bufsiz opened old =
     (if \<not> opened then (\<lparr>contents = old, offset = 0, write_calls = 0\<rparr>, exits [] (''Can't open output file.'' @ NL) EXIT_FAILURE)
      else (under (flush ((libc_round bufsiz ^^ ITERATIONS) \<lparr>under = \<lparr>contents = [], offset = 0, write_calls = 0\<rparr>, pending = []\<rparr>)),
        exits [] [] EXIT_SUCCESS))"

subsection \<open>One round and many\<close>

lemma length_buffer: "length buffer = 27"
  by (simp add: buffer_def)

text \<open>Bytes written one by one give the file that one call gives.\<close>

lemma write_bytes:
  assumes "offset f \<le> length (contents f)"
  shows "fold (\<lambda>c. sys_write [c]) bs f
    = f\<lparr>contents := take (offset f) (contents f) @ bs @ drop (offset f + length bs) (contents f),
        offset := offset f + length bs, write_calls := write_calls f + length bs\<rparr>"
  using assms
proof (induction bs arbitrary: f)
  case (Cons b bs)
  have "offset (sys_write [b] f) \<le> length (contents (sys_write [b] f))" using Cons.prems by (simp add: sys_write_def)
  note IH = Cons.IH [OF this]
  have "take (Suc (offset f)) (take (offset f) (contents f) @ b # drop (Suc (offset f)) (contents f))
      = take (offset f) (contents f) @ [b]" using Cons.prems by (simp add: min_def)
  moreover have "drop (Suc (offset f + length bs)) (take (offset f) (contents f) @ b # drop (Suc (offset f)) (contents f))
      = drop (Suc (offset f + length bs)) (contents f)" using Cons.prems by (simp add: min_def add.commute)
  ultimately show ?case using IH by (simp add: sys_write_def)
qed simp

lemma system_rounds:
  "offset f = 0 \<Longrightarrow> (system_round ^^ Suc n) f
    = f\<lparr>contents := buffer @ drop 27 (contents f), write_calls := write_calls f + 27 * Suc n\<rparr>"
proof (induction n arbitrary: f)
  case 0
  then show ?case by (simp add: system_round_def write_bytes length_buffer sys_rewind_def)
next
  case (Suc n)
  have r: "system_round f = f\<lparr>contents := buffer @ drop 27 (contents f), write_calls := write_calls f + 27\<rparr>"
    using Suc.prems by (simp add: system_round_def write_bytes length_buffer sys_rewind_def)
  have "(system_round ^^ Suc (Suc n)) f = (system_round ^^ Suc n) (system_round f)" by (simp only: funpow_Suc_right comp_apply)
  then show ?case using Suc.IH [of "system_round f"] Suc.prems by (simp add: r length_buffer)
qed

lemma fputc_fold: "length (pending s) + length bs \<le> bufsiz \<Longrightarrow> fold (fputc bufsiz) bs s = s\<lparr>pending := pending s @ bs\<rparr>"
  by (induction bs arbitrary: s) (simp_all add: fputc_def Let_def)

lemma libc_rounds:
  assumes "27 \<le> bufsiz"
  shows "offset f = 0 \<Longrightarrow> (libc_round bufsiz ^^ Suc n) \<lparr>under = f, pending = []\<rparr>
    = \<lparr>under = f\<lparr>contents := buffer @ drop 27 (contents f), write_calls := write_calls f + Suc n\<rparr>, pending = []\<rparr>"
proof (induction n arbitrary: f)
  case 0
  then show ?case using assms
    by (simp add: libc_round_def fputc_fold length_buffer rewind_def flush_def sys_write_def sys_rewind_def) (simp add: buffer_def)
next
  case (Suc n)
  have "buffer \<noteq> []" by (simp add: buffer_def)
  then have r: "libc_round bufsiz \<lparr>under = f, pending = []\<rparr>
      = \<lparr>under = f\<lparr>contents := buffer @ drop 27 (contents f), write_calls := write_calls f + 1\<rparr>, pending = []\<rparr>"
    using assms Suc.prems by (simp add: libc_round_def fputc_fold length_buffer rewind_def flush_def sys_write_def sys_rewind_def)
  have "(libc_round bufsiz ^^ Suc (Suc n)) x = (libc_round bufsiz ^^ Suc n) (libc_round bufsiz x)" for x
    by (simp only: funpow_Suc_right comp_apply)
  then show ?case using Suc.IH [of "f\<lparr>contents := buffer @ drop 27 (contents f), write_calls := write_calls f + 1\<rparr>"] Suc.prems
    by (simp only: r) (simp add: length_buffer)
qed

lemma ITERATIONS_Suc: "ITERATIONS = Suc 49999"
  by (simp add: ITERATIONS_def)

subsection \<open>Properties\<close>

text \<open>
  With a buffer of at least one line the C library needs one \<open>write\<close> for each round, 50000 in
  all, where \<open>writeSystem.c\<close> needs 27, 1350000 in all. Both leave the alphabet at the start of the
  file; \<open>writeSystem.c\<close> leaves what an older and longer file had after it.
\<close>

theorem write_programs:
  assumes "27 \<le> bufsiz"
  shows "fst (writeLibc_main bufsiz True old) = \<lparr>contents = buffer, offset = 0, write_calls = 50000\<rparr>
    \<and> fst (writeSystem_main True old) = \<lparr>contents = buffer @ drop 27 old, offset = 0, write_calls = 1350000\<rparr>"
proof -
  have "(libc_round bufsiz ^^ ITERATIONS) \<lparr>under = \<lparr>contents = [], offset = 0, write_calls = 0\<rparr>, pending = []\<rparr>
      = \<lparr>under = \<lparr>contents = buffer, offset = 0, write_calls = 50000\<rparr>, pending = []\<rparr>"
    using libc_rounds [OF assms, of "\<lparr>contents = [], offset = 0, write_calls = 0\<rparr>" 49999]
    by (simp only: ITERATIONS_Suc) simp
  moreover have "(system_round ^^ ITERATIONS) \<lparr>contents = old, offset = 0, write_calls = 0\<rparr>
      = \<lparr>contents = buffer @ drop 27 old, offset = 0, write_calls = 1350000\<rparr>"
    using system_rounds [of "\<lparr>contents = old, offset = 0, write_calls = 0\<rparr>" 49999]
    by (simp only: ITERATIONS_Suc) simp
  ultimately show ?thesis by (simp add: writeLibc_main_def writeSystem_main_def flush_def)
qed

theorem write_programs_witness:
  "fst (writeLibc_main 4096 True (replicate 30 CHR ''x'')) = \<lparr>contents = buffer, offset = 0, write_calls = 50000\<rparr>
    \<and> contents (fst (writeSystem_main True (replicate 30 CHR ''x''))) = buffer @ ''xxx''"
  using write_programs [of 4096 "replicate 30 CHR ''x''"] by (simp add: numeral_3_eq_3)

end
