(* ===== verification/Descriptors.thy ===== *)
theory Descriptors
  imports Prelude
begin

text \<open>
  File descriptors as the exercises on processes use them: the table of a process gives each
  descriptor the open file it stands for. \<open>open\<close> and \<open>pipe\<close> take the lowest free descriptors.

  \<open>exercises/ex04/redirect.c\<close> is modelled here: a child replaces its standard input and output
  by files and becomes \<open>cat\<close>. Proved: the copy it makes, with the old end of a longer output file
  left in place, and what happens to the messages of failing calls.
\<close>

type_synonym 'f table = "nat \<Rightarrow> 'f option"

definition OPEN_MAX :: nat where "OPEN_MAX = 1024"

definition lowest_free :: "'f table \<Rightarrow> nat option" where
  "lowest_free t = find (\<lambda>fd. t fd = None) [0..<OPEN_MAX]"

definition close_fd :: "nat \<Rightarrow> 'f table \<Rightarrow> 'f table" where
  "close_fd fd t = t(fd := None)"

text \<open>\<open>dup2\<close>: fails when the old descriptor is not open; else the new one is its copy.\<close>

definition dup2 :: "nat \<Rightarrow> nat \<Rightarrow> 'f table \<Rightarrow> 'f table option" where
  "dup2 old new t = (case t old of None \<Rightarrow> None | Some f \<Rightarrow> Some (t(new := Some f)))"

definition open_fd :: "'f \<Rightarrow> 'f table \<Rightarrow> (nat \<times> 'f table) option" where
  "open_fd f t = (case lowest_free t of None \<Rightarrow> None | Some fd \<Rightarrow> Some (fd, t(fd := Some f)))"

lemma lowest_free_3:
  assumes "t 0 \<noteq> None" "t 1 \<noteq> None" "t 2 \<noteq> None" "t 3 = None"
  shows "lowest_free t = Some 3"
proof -
  have "OPEN_MAX = 4 + 1020" by (simp add: OPEN_MAX_def)
  then have "[0..<OPEN_MAX] = [0..<4] @ [4..<OPEN_MAX]" using upt_add_eq_append [of 0 4 1020] by (simp only: le0)
  also have "[0..<4] = [0, 1, 2, 3 :: nat]" by code_simp
  finally show ?thesis unfolding lowest_free_def using assms by (simp del: upt.simps)
qed

subsection \<open>\<open>redirect.c\<close>\<close>

text \<open>The open files of the exercise; \<open>Inherited k\<close> is descriptor \<open>k\<close> of the parent.\<close>

datatype ofile = Inherited nat | Input_file | Output_file

text \<open>
  What the files hold and what the calls return: the input may not exist, the output may not be
  opened or made, \<open>fork\<close> and \<open>execl\<close> may fail.
\<close>

record disk =
  input_txt :: "string option"
  output_txt :: "string option"

record calls =
  fork_fails :: bool
  may_open_output :: bool
  exec_fails :: bool

text \<open>
  The program that \<open>execl\<close> starts is not part of the repository: it is a parameter, \<open>cat\<close>. Given the
  table of descriptors it starts with and the files, it leaves files and ends in some way.
\<close>

type_synonym program = "ofile table \<Rightarrow> disk \<Rightarrow> disk \<times> outcome"

definition child_fail :: "string \<Rightarrow> disk \<Rightarrow> disk \<times> outcome" where
  "child_fail msg d = (d, exits [] (''Error: '' @ msg @ NL) EXIT_FAILURE)"

definition redirect_child :: "program \<Rightarrow> calls \<Rightarrow> ofile table \<Rightarrow> disk \<Rightarrow> disk \<times> outcome" where
  "redirect_child cat c t d =
     (case (if input_txt d = None then None else open_fd Input_file t) of
        None \<Rightarrow> child_fail ''Error opening input.txt'' d
      | Some (fd, t1) \<Rightarrow>
          (case dup2 fd 0 t1 of
             None \<Rightarrow> child_fail ''Error replacing standard input'' d
           | Some t2 \<Rightarrow>
               let t3 = close_fd fd t2 in
               (case (if may_open_output c then open_fd Output_file t3 else None) of
                  None \<Rightarrow> child_fail ''Error opening output.txt'' d
                | Some (fd', t4) \<Rightarrow>
                    let d1 = d\<lparr>output_txt := Some (case output_txt d of None \<Rightarrow> [] | Some old \<Rightarrow> old)\<rparr> in
                    (case dup2 fd' 1 t4 of
                       None \<Rightarrow> child_fail ''Error replacing standard output'' d1
                     | Some t5 \<Rightarrow>
                         let t6 = close_fd fd' t5 in
                         if exec_fails c then (d1, exits [] [] EXIT_FAILURE)
                         else cat t6 d1))))"

text \<open>The parent's result, and the child's when there was one.\<close>

definition redirect_main :: "program \<Rightarrow> calls \<Rightarrow> ofile table \<Rightarrow> disk \<Rightarrow> disk \<times> outcome option \<times> outcome" where
  "redirect_main cat c t d =
     (if fork_fails c then (d, None, exits [] (''Error: Can't create child process'' @ NL) EXIT_FAILURE)
      else case redirect_child cat c t d of (d', r) \<Rightarrow> (d', Some r, exits [] [] EXIT_SUCCESS))"

definition standard_table :: "ofile table" where
  "standard_table fd = (if fd < 3 then Some (Inherited fd) else None)"

lemmas redirect_ops = redirect_main_def redirect_child_def dup2_def close_fd_def open_fd_def child_fail_def Let_def

text \<open>
  What the manual says of \<open>cat\<close> without arguments: it writes what it reads from its standard input to
  its standard output, here from the start of the one file over the start of the other, and ends
  with success. Nothing is said of \<open>cat\<close> on other descriptors.
\<close>

definition copies_input :: "program \<Rightarrow> bool" where
  "copies_input cat \<longleftrightarrow> (\<forall>t d i old. t 0 = Some Input_file \<and> t 1 = Some Output_file
     \<and> input_txt d = Some i \<and> output_txt d = Some old
     \<longrightarrow> cat t d = (d\<lparr>output_txt := Some (i @ drop (length i) old)\<rparr>, exits [] [] EXIT_SUCCESS))"

text \<open>
  C29: Started with its three standard descriptors, when \<open>fork\<close> and \<open>execl\<close> succeed, the output can
  be opened or made, and \<open>cat\<close> copies its standard input to its standard output, the program copies
  \<open>input.txt\<close> into \<open>output.txt\<close>, and parent and child end with success. The output is not truncated:
  what an older and longer file had after the copy stays. When the input does not exist, the child
  says so on the error output, whatever \<open>cat\<close> does, the output file is left alone, and the parent
  still exits with success.
\<close>

theorem redirect_copies:
  assumes "copies_input cat" "\<not> fork_fails c" "may_open_output c" "\<not> exec_fails c"
  shows "(input_txt d = Some i \<longrightarrow> redirect_main cat c standard_table d
      = (d\<lparr>output_txt := Some (i @ drop (length i) (case output_txt d of None \<Rightarrow> [] | Some old \<Rightarrow> old))\<rparr>,
         Some (exits [] [] EXIT_SUCCESS), exits [] [] EXIT_SUCCESS))
    \<and> (input_txt d = None \<longrightarrow> redirect_main other c standard_table d
      = (d, Some (exits [] (''Error: Error opening input.txt'' @ NL) EXIT_FAILURE), exits [] [] EXIT_SUCCESS))"
proof (intro conjI impI)
  assume i: "input_txt d = Some i"
  have f: "lowest_free standard_table = Some 3" "lowest_free (standard_table(0 := Some Input_file)) = Some 3"
    by (rule lowest_free_3; simp add: standard_table_def)+
  have t: "(standard_table(3 := Some Input_file))(0 := Some Input_file, 3 := None) = standard_table(0 := Some Input_file)"
    by (auto simp: standard_table_def fun_upd_def)
  show "redirect_main cat c standard_table d
      = (d\<lparr>output_txt := Some (i @ drop (length i) (case output_txt d of None \<Rightarrow> [] | Some old \<Rightarrow> old))\<rparr>,
         Some (exits [] [] EXIT_SUCCESS), exits [] [] EXIT_SUCCESS)"
    using assms(2-4) i f t assms(1) [unfolded copies_input_def, rule_format] by (simp add: redirect_ops)
next
  assume "input_txt d = None"
  then show "redirect_main other c standard_table d
      = (d, Some (exits [] (''Error: Error opening input.txt'' @ NL) EXIT_FAILURE), exits [] [] EXIT_SUCCESS)"
    using assms by (simp add: redirect_ops)
qed

text \<open>A program that copies the input file to the output file when these are its descriptors.\<close>

definition copying_program :: program where
  "copying_program t d = (case (input_txt d, output_txt d) of
       (Some i, Some old) \<Rightarrow>
         if t 0 = Some Input_file \<and> t 1 = Some Output_file
         then (d\<lparr>output_txt := Some (i @ drop (length i) old)\<rparr>, exits [] [] EXIT_SUCCESS)
         else (d, exits [] [] EXIT_FAILURE)
     | _ \<Rightarrow> (d, exits [] [] EXIT_FAILURE))"

theorem redirect_copies_witness:
  "output_txt (fst (redirect_main copying_program \<lparr>fork_fails = False, may_open_output = True, exec_fails = False\<rparr> standard_table
     \<lparr>input_txt = Some ''new'', output_txt = Some ''older''\<rparr>)) = Some ''newer''"
proof -
  have "copies_input copying_program" by (simp add: copies_input_def copying_program_def)
  from redirect_copies [OF this, of "\<lparr>fork_fails = False, may_open_output = True, exec_fails = False\<rparr>"
      "\<lparr>input_txt = Some ''new'', output_txt = Some ''older''\<rparr>" "''new''"] show ?thesis by simp
qed

end
