(* ===== verification/Pipes.thy ===== *)
theory Pipes
  imports Descriptors
begin

text \<open>
  The pipe between two children, \<open>exercises/ex03/pipe.c\<close>: process 0 is the parent, 1 becomes
  \<open>ps -ef\<close> and 2 \<open>grep bash\<close>. Each process has its own table of descriptors; the pipe is a bounded
  buffer, at its end for a reader when it is empty and no process has the writing end open. What
  \<open>ps\<close> writes and \<open>grep\<close> makes of its input are inputs of the model, as are the calls that fail.

  Proved: no schedule and no failing call leaves a process stuck, every run is finite, and without
  failing calls the terminal shows what \<open>grep\<close> makes of the whole output of \<open>ps\<close>.
\<close>

datatype pfile = Std nat | Pipe_read | Pipe_write

text \<open>The calls in the order of the program; \<open>Pfd0\<close> and \<open>Pfd1\<close> are the array \<open>pfd\<close>.\<close>

datatype fdvar = Pfd0 | Pfd1

datatype pcall = Make_pipe | Fork nat | Close fdvar | Dup2 fdvar nat | Exec | Wait | Exit_success

definition parent_code :: "pcall list" where
  "parent_code = [Make_pipe, Fork 1, Fork 2, Close Pfd0, Close Pfd1, Wait, Wait, Exit_success]"

definition ps_code :: "pcall list" where
  "ps_code = [Close Pfd0, Dup2 Pfd1 1, Close Pfd1, Exec]"

definition grep_code :: "pcall list" where
  "grep_code = [Close Pfd1, Dup2 Pfd0 0, Close Pfd0, Exec]"

definition code_of :: "nat \<Rightarrow> pcall list" where
  "code_of p = (if p = 0 then parent_code else if p = 1 then ps_code else grep_code)"

datatype life = Unborn | Alive | Zombie | Gone

record job =
  pc :: "nat \<Rightarrow> nat"
  life_of :: "nat \<Rightarrow> life"
  tab :: "nat \<Rightarrow> pfile table"
  pfd :: "nat \<times> nat"
  pipe_buf :: string
  ps_left :: string
  grep_got :: string
  terminal :: string
  errors :: string

record env =
  fails :: "nat \<Rightarrow> pcall \<Rightarrow> bool"
  capacity :: nat
  ps_text :: string
  grep :: "string \<Rightarrow> string"

definition std_table :: "pfile table" where
  "std_table fd = (if fd < 3 then Some (Std fd) else None)"

definition job_start :: "env \<Rightarrow> job" where
  "job_start e = \<lparr>pc = (\<lambda>_. 0), life_of = (\<lambda>p. if p = 0 then Alive else Unborn),
     tab = (\<lambda>p. if p = 0 then std_table else (\<lambda>_. None)), pfd = (0, 0), pipe_buf = [], ps_left = ps_text e,
     grep_got = [], terminal = [], errors = []\<rparr>"

fun fd_of :: "job \<Rightarrow> fdvar \<Rightarrow> nat" where
  "fd_of s Pfd0 = fst (pfd s)"
| "fd_of s Pfd1 = snd (pfd s)"

text \<open>A process that ends closes everything; \<open>fail\<close> writes its message first.\<close>

definition ends :: "nat \<Rightarrow> job \<Rightarrow> job" where
  "ends p s = s\<lparr>life_of := (life_of s)(p := Zombie), tab := (tab s)(p := (\<lambda>_. None))\<rparr>"

definition fail :: "nat \<Rightarrow> string \<Rightarrow> job \<Rightarrow> job" where
  "fail p msg s = ends p (s\<lparr>errors := errors s @ ''Error: '' @ msg @ NL\<rparr>)"

definition goes_on :: "nat \<Rightarrow> job \<Rightarrow> job" where
  "goes_on p s = s\<lparr>pc := (pc s)(p := pc s p + 1)\<rparr>"

definition holds :: "pfile \<Rightarrow> job \<Rightarrow> bool" where
  "holds f s \<longleftrightarrow> (\<exists>p<3. \<exists>fd<OPEN_MAX. tab s p fd = Some f)"

fun do_call :: "env \<Rightarrow> nat \<Rightarrow> pcall \<Rightarrow> job \<Rightarrow> job option" where
  "do_call e p Make_pipe s =
     (if fails e p Make_pipe then Some (fail p ''Can't create pipe'' s)
      else case open_fd Pipe_read (tab s p) of None \<Rightarrow> Some (fail p ''Can't create pipe'' s)
      | Some (r, t) \<Rightarrow> (case open_fd Pipe_write t of None \<Rightarrow> Some (fail p ''Can't create pipe'' s)
        | Some (w, t') \<Rightarrow> Some (goes_on p (s\<lparr>tab := (tab s)(p := t'), pfd := (r, w)\<rparr>))))"
| "do_call e p (Fork c) s =
     (if fails e p (Fork c) then Some (fail p (if c = 1 then ''Can't create child process'' else ''Can't create second child process'') s)
      else Some (goes_on p (s\<lparr>life_of := (life_of s)(c := Alive), tab := (tab s)(c := tab s p)\<rparr>)))"
| "do_call e p (Close v) s = Some (goes_on p (s\<lparr>tab := (tab s)(p := close_fd (fd_of s v) (tab s p))\<rparr>))"
| "do_call e p (Dup2 v n) s =
     Some (goes_on p (case dup2 (fd_of s v) n (tab s p) of None \<Rightarrow> s | Some t \<Rightarrow> s\<lparr>tab := (tab s)(p := t)\<rparr>))"
| "do_call e p Exec s =
     (if fails e p Exec then Some (fail p (if p = 1 then ''Can't run ps -ef'' else ''Can't run grep bash'') s) else Some (goes_on p s))"
| "do_call e p Wait s =
     (if life_of s 1 = Zombie then Some (goes_on p (s\<lparr>life_of := (life_of s)(1 := Gone)\<rparr>))
      else if life_of s 2 = Zombie then Some (goes_on p (s\<lparr>life_of := (life_of s)(2 := Gone)\<rparr>))
      else if life_of s 1 = Alive \<or> life_of s 2 = Alive then None
      else Some (goes_on p s))"
| "do_call e p Exit_success s = Some (ends p s)"

text \<open>Steps: the next call of a process, and those of \<open>ps\<close> and \<open>grep\<close> once they run.\<close>

datatype move = Call nat | Ps_writes | Ps_ends | Grep_reads | Grep_ends

fun job_act :: "env \<Rightarrow> move \<Rightarrow> job \<Rightarrow> job option" where
  "job_act e (Call p) s = (if p < 3 \<and> life_of s p = Alive \<and> pc s p < length (code_of p) then do_call e p (code_of p ! pc s p) s else None)"
| "job_act e Ps_writes s =
     (if life_of s 1 = Alive \<and> pc s 1 = length (code_of 1) then
        (case ps_left s of [] \<Rightarrow> None
         | c # cs \<Rightarrow>
             if tab s 1 1 = Some Pipe_write then
               (if \<not> holds Pipe_read s then Some (ends 1 s)
                else if length (pipe_buf s) < capacity e then Some (s\<lparr>ps_left := cs, pipe_buf := pipe_buf s @ [c]\<rparr>) else None)
             else if tab s 1 1 = Some (Std 1) then Some (s\<lparr>ps_left := cs, terminal := terminal s @ [c]\<rparr>)
             else Some (s\<lparr>ps_left := cs\<rparr>))
      else None)"
| "job_act e Ps_ends s = (if life_of s 1 = Alive \<and> pc s 1 = length (code_of 1) \<and> ps_left s = [] then Some (ends 1 s) else None)"
| "job_act e Grep_reads s =
     (if life_of s 2 = Alive \<and> pc s 2 = length (code_of 2) \<and> tab s 2 0 = Some Pipe_read then
        (case pipe_buf s of [] \<Rightarrow> None | c # cs \<Rightarrow> Some (s\<lparr>pipe_buf := cs, grep_got := grep_got s @ [c]\<rparr>)) else None)"
| "job_act e Grep_ends s =
     (if life_of s 2 = Alive \<and> pc s 2 = length (code_of 2) \<and> tab s 2 0 = Some Pipe_read \<and> pipe_buf s = [] \<and> \<not> holds Pipe_write s
      then Some (ends 2 (if tab s 2 1 = Some (Std 1) then s\<lparr>terminal := terminal s @ grep e (grep_got s)\<rparr> else s)) else None)"

inductive job_reach :: "env \<Rightarrow> job \<Rightarrow> bool" for e where
  start: "job_reach e (job_start e)"
| step: "job_reach e s \<Longrightarrow> job_act e m s = Some s' \<Longrightarrow> job_reach e s'"

subsection \<open>The tables\<close>

text \<open>The table of a living process after \<open>n\<close> of its calls.\<close>

definition table_at :: "nat \<Rightarrow> nat \<Rightarrow> pfile table" where
  "table_at p n =
     (let both = std_table(3 := Some Pipe_read, 4 := Some Pipe_write) in
      if p = 0 then (if n = 0 then std_table else if n \<le> 3 then both else if n = 4 then std_table(4 := Some Pipe_write) else std_table)
      else if p = 1 then
        (if n = 0 then both else if n = 1 then std_table(4 := Some Pipe_write)
         else if n = 2 then std_table(4 := Some Pipe_write, 1 := Some Pipe_write) else std_table(1 := Some Pipe_write))
      else
        (if n = 0 then both else if n = 1 then std_table(3 := Some Pipe_read)
         else if n = 2 then std_table(3 := Some Pipe_read, 0 := Some Pipe_read) else std_table(0 := Some Pipe_read)))"

lemma table_at_writes: "(\<exists>fd<OPEN_MAX. table_at p n fd = Some Pipe_write) \<longleftrightarrow> (if p = 0 then 1 \<le> n \<and> n \<le> 4 else p = 1 \<or> n = 0)"
proof -
  have "table_at p n fd = Some Pipe_write \<Longrightarrow> if p = 0 then 1 \<le> n \<and> n \<le> 4 else p = 1 \<or> n = 0" for fd
    by (auto simp: table_at_def std_table_def Let_def split: if_splits)
  moreover have "table_at p n (if p = 1 \<and> 2 \<le> n then 1 else 4) = Some Pipe_write" if "if p = 0 then 1 \<le> n \<and> n \<le> 4 else p = 1 \<or> n = 0"
    using that by (auto simp: table_at_def std_table_def Let_def split: if_splits)
  moreover have "(if p = 1 \<and> 2 \<le> n then 1 else 4) < OPEN_MAX" by (simp add: OPEN_MAX_def)
  ultimately show ?thesis by blast
qed

lemma table_at_reads: "(\<exists>fd<OPEN_MAX. table_at p n fd = Some Pipe_read) \<longleftrightarrow> (if p = 0 then 1 \<le> n \<and> n \<le> 3 else p \<noteq> 1 \<or> n = 0)"
proof -
  have "table_at p n fd = Some Pipe_read \<Longrightarrow> if p = 0 then 1 \<le> n \<and> n \<le> 3 else p \<noteq> 1 \<or> n = 0" for fd
    by (auto simp: table_at_def std_table_def Let_def split: if_splits)
  moreover have "table_at p n (if p = 0 \<or> n < 2 then 3 else 0) = Some Pipe_read" if "if p = 0 then 1 \<le> n \<and> n \<le> 3 else p \<noteq> 1 \<or> n = 0"
    using that by (auto simp: table_at_def std_table_def Let_def split: if_splits)
  moreover have "(if p = 0 \<or> n < 2 then 3 else 0) < OPEN_MAX" by (simp add: OPEN_MAX_def)
  ultimately show ?thesis by blast
qed

lemma table_at_ends:
  "table_at 1 4 1 = Some Pipe_write" "table_at 2 4 0 = Some Pipe_read" "table_at 2 4 1 = Some (Std 1)"
  "table_at 0 0 = std_table" "table_at 0 1 = table_at 1 0" "table_at 0 2 = table_at 2 0" "table_at 0 2 = table_at 0 1" "table_at 0 3 = table_at 0 1"
  "table_at 1 4 = table_at 1 3" "table_at 2 4 = table_at 2 3" "5 \<le> n \<Longrightarrow> table_at 0 n = table_at 0 5"
  by (auto simp: table_at_def std_table_def Let_def)

text \<open>What the calls do to them.\<close>

lemma table_at_pipe: "open_fd Pipe_read std_table = Some (3, std_table(3 := Some Pipe_read))"
  "open_fd Pipe_write (std_table(3 := Some Pipe_read)) = Some (4, table_at 0 1)"
proof -
  have "lowest_free std_table = Some 3" by (rule lowest_free_3) (simp_all add: std_table_def)
  then show "open_fd Pipe_read std_table = Some (3, std_table(3 := Some Pipe_read))" by (simp add: open_fd_def)
  have "OPEN_MAX = 5 + 1019" by (simp add: OPEN_MAX_def)
  then have "[0..<OPEN_MAX] = [0..<5] @ [5..<OPEN_MAX]" using upt_add_eq_append [of 0 5 1019] by (simp only: le0)
  also have "[0..<5] = [0, 1, 2, 3, 4 :: nat]" by code_simp
  finally have "lowest_free (std_table(3 := Some Pipe_read)) = Some 4" unfolding lowest_free_def by (simp add: std_table_def del: upt.simps)
  then show "open_fd Pipe_write (std_table(3 := Some Pipe_read)) = Some (4, table_at 0 1)" by (simp add: open_fd_def table_at_def)
qed

lemma table_at_calls:
  "close_fd 3 (table_at 0 3) = table_at 0 4" "close_fd 4 (table_at 0 4) = table_at 0 5"
  "close_fd 3 (table_at 1 0) = table_at 1 1" "dup2 4 1 (table_at 1 1) = Some (table_at 1 2)" "close_fd 4 (table_at 1 2) = table_at 1 3"
  "close_fd 4 (table_at 2 0) = table_at 2 1" "dup2 3 0 (table_at 2 1) = Some (table_at 2 2)" "close_fd 3 (table_at 2 2) = table_at 2 3"
  by (auto simp: table_at_def close_fd_def dup2_def std_table_def Let_def fun_eq_iff)

subsection \<open>The invariant\<close>

definition table_ok :: "job \<Rightarrow> nat \<Rightarrow> bool" where
  "table_ok s p \<longleftrightarrow> tab s p = (if life_of s p = Alive then table_at p (pc s p) else (\<lambda>_. None)) \<and> (life_of s p = Unborn \<longrightarrow> pc s p = 0)"

definition job_ok :: "job \<Rightarrow> bool" where
  "job_ok s \<longleftrightarrow> pc s 0 \<le> 7 \<and> pc s 1 \<le> 4 \<and> pc s 2 \<le> 4 \<and> table_ok s 0 \<and> table_ok s 1 \<and> table_ok s 2
     \<and> (life_of s 0 = Alive \<or> life_of s 0 = Zombie) \<and> (life_of s 1 = Unborn \<longleftrightarrow> pc s 0 \<le> 1) \<and> (life_of s 2 = Unborn \<longleftrightarrow> pc s 0 \<le> 2)
     \<and> (1 \<le> pc s 0 \<longrightarrow> pfd s = (3, 4))
     \<and> (pc s 0 \<le> 5 \<longrightarrow> life_of s 1 \<noteq> Gone \<and> life_of s 2 \<noteq> Gone)
     \<and> (pc s 0 = 6 \<longrightarrow> (life_of s 1 = Gone) \<noteq> (life_of s 2 = Gone))
     \<and> (pc s 0 = 7 \<longrightarrow> life_of s 1 = Gone \<and> life_of s 2 = Gone)"

lemma ends_ok:
  assumes "job_ok s" "p < 3" "life_of s p = Alive"
  shows "job_ok (ends p s)"
proof -
  have "p = 0 \<or> p = 1 \<or> p = 2" using assms(2) by auto
  then show ?thesis using assms(1,3) by (elim disjE) (simp_all add: job_ok_def table_ok_def ends_def)
qed

lemma fail_ok: "job_ok s \<Longrightarrow> p < 3 \<Longrightarrow> life_of s p = Alive \<Longrightarrow> job_ok (fail p msg s)"
  unfolding fail_def by (rule ends_ok) (simp_all add: job_ok_def table_ok_def)

lemma job_ok_table:
  assumes "job_ok s" "p < 3" "life_of s p = Alive"
  shows "tab s p = table_at p (pc s p)" "p \<noteq> 0 \<Longrightarrow> pfd s = (3, 4)"
proof -
  have p: "p = 0 \<or> p = 1 \<or> p = 2" using assms(2) by auto
  then show "tab s p = table_at p (pc s p)" using assms(1,3) by (elim disjE) (simp_all add: job_ok_def table_ok_def)
  assume "p \<noteq> 0"
  then have "life_of s 1 \<noteq> Unborn \<or> life_of s 2 \<noteq> Unborn" using p assms(3) by auto
  moreover have "1 \<le> pc s 0 \<longrightarrow> pfd s = (3, 4)" "life_of s 1 = Unborn \<longleftrightarrow> pc s 0 \<le> 1" "life_of s 2 = Unborn \<longleftrightarrow> pc s 0 \<le> 2"
    using assms(1) unfolding job_ok_def by blast+
  ultimately show "pfd s = (3, 4)" by linarith
qed

text \<open>A child goes on: the next table is its own.\<close>

lemma child_goes_on:
  assumes "job_ok s" "p = 1 \<or> p = 2" "life_of s p = Alive" "pc s p < 4" "t = table_at p (Suc (pc s p))"
  shows "job_ok (goes_on p (s\<lparr>tab := (tab s)(p := t)\<rparr>))"
  using assms(2) assms(1,3,4,5) by (elim disjE) (simp_all add: job_ok_def table_ok_def goes_on_def)

lemma child_call_ok:
  assumes s: "job_ok s" and p: "p = 1 \<or> p = 2" and a: "life_of s p = Alive" "pc s p < 4"
    and c: "do_call e p (code_of p ! pc s p) s = Some s'"
  shows "job_ok s'"
proof -
  have p3: "p < 3" using p by auto
  have t: "tab s p = table_at p (pc s p)" and f: "pfd s = (3, 4)" using job_ok_table [OF s p3 a(1)] p by auto
  note go = child_goes_on [OF s p a]
  have same: "job_ok (goes_on p s)" if "pc s p = 3"
  proof -
    have "(tab s)(p := table_at p (Suc (pc s p))) = tab s" using t p that table_at_ends(9,10) by (auto simp: fun_eq_iff)
    then show ?thesis using go [OF refl] by simp
  qed
  have "pc s p = 0 \<or> pc s p = 1 \<or> pc s p = 2 \<or> pc s p = 3" using a(2) by auto
  then show ?thesis using p c go [OF refl] same fail_ok [OF s p3 a(1)] f t
    by (elim disjE) (auto simp: code_of_def ps_code_def grep_code_def table_at_calls [unfolded One_nat_def] numeral_2_eq_2 [symmetric] split: if_splits)
qed

text \<open>The parent's calls.\<close>

lemma parent_pipe:
  assumes "job_ok s" "life_of s 0 = Alive" "pc s 0 = 0" "do_call e 0 Make_pipe s = Some s'"
  shows "job_ok s'"
proof -
  have "tab s 0 = std_table" using job_ok_table(1) [OF assms(1) _ assms(2)] assms(3) by (simp add: table_at_ends(4))
  then have "s' = fail 0 ''Can't create pipe'' s \<or> s' = goes_on 0 (s\<lparr>tab := (tab s)(0 := table_at 0 1), pfd := (3, 4)\<rparr>)"
    using assms(4) by (auto simp: table_at_pipe split: if_splits)
  then show ?thesis
  proof
    assume "s' = goes_on 0 (s\<lparr>tab := (tab s)(0 := table_at 0 1), pfd := (3, 4)\<rparr>)"
    then show ?thesis using assms(1-3) by (simp add: job_ok_def table_ok_def goes_on_def)
  qed (simp add: fail_ok assms(1,2))
qed

lemma parent_fork:
  assumes "job_ok s" "life_of s 0 = Alive" "pc s 0 = c" "c = 1 \<or> c = 2" "do_call e 0 (Fork c) s = Some s'"
  shows "job_ok s'"
proof -
  have t: "tab s 0 = table_at c 0" "tab s 0 = table_at 0 (Suc c)"
    using job_ok_table(1) [OF assms(1) _ assms(2)] assms(3,4) table_at_ends(5-8) by (auto simp: numeral_3_eq_3 numeral_2_eq_2)
  show ?thesis
  proof (cases "fails e 0 (Fork c)")
    case False
    then have s': "s' = goes_on 0 (s\<lparr>life_of := (life_of s)(c := Alive), tab := (tab s)(c := tab s 0)\<rparr>)" using assms(5) by simp
    show ?thesis using assms(4) assms(1-3) t unfolding s' by (elim disjE) (simp_all add: job_ok_def table_ok_def goes_on_def)
  qed (use assms fail_ok in auto)
qed

lemma parent_close:
  assumes "job_ok s" "life_of s 0 = Alive" "pc s 0 = 3 \<and> v = Pfd0 \<or> pc s 0 = 4 \<and> v = Pfd1" "do_call e 0 (Close v) s = Some s'"
  shows "job_ok s'"
proof -
  have f: "pfd s = (3, 4)" using assms(1,3) by (auto simp: job_ok_def)
  have "close_fd (fd_of s v) (tab s 0) = table_at 0 (Suc (pc s 0))"
    using job_ok_table(1) [OF assms(1) _ assms(2)] assms(3) table_at_calls(1,2) by (auto simp: f)
  then have s': "s' = goes_on 0 (s\<lparr>tab := (tab s)(0 := table_at 0 (Suc (pc s 0)))\<rparr>)" using assms(4) by simp
  show ?thesis using assms(3) assms(1,2) unfolding s' by (elim disjE conjE) (simp_all add: job_ok_def table_ok_def goes_on_def)
qed

lemma parent_wait:
  assumes "job_ok s" "life_of s 0 = Alive" "pc s 0 = 5 \<or> pc s 0 = 6" "do_call e 0 Wait s = Some s'"
  shows "job_ok s'"
proof -
  have z: "\<exists>c. (c = 1 \<or> c = 2) \<and> life_of s c = Zombie \<and> s' = goes_on 0 (s\<lparr>life_of := (life_of s)(c := Gone)\<rparr>)"
  proof (rule ccontr)
    assume n: "\<not> ?thesis"
    then have "life_of s 1 \<notin> {Zombie, Alive}" "life_of s 2 \<notin> {Zombie, Alive}" using assms(4) by (auto split: if_splits)
    moreover have "life_of s 1 \<noteq> Unborn" "life_of s 2 \<noteq> Unborn" using assms(1,3) by (auto simp: job_ok_def)
    ultimately have "life_of s 1 = Gone" "life_of s 2 = Gone" by (cases "life_of s 1"; cases "life_of s 2"; simp)+
    then show False using assms(1,3) by (auto simp: job_ok_def)
  qed
  then obtain c where c: "c = 1 \<or> c = 2" "life_of s c = Zombie" and s': "s' = goes_on 0 (s\<lparr>life_of := (life_of s)(c := Gone)\<rparr>)"
    by blast
  have t: "table_at 0 (Suc (pc s 0)) = table_at 0 (pc s 0)" using assms(3) by (auto simp: table_at_def)
  show ?thesis using assms(3) c(1) assms(1,2) c(2) t unfolding s'
    by (elim disjE) (simp_all add: job_ok_def table_ok_def goes_on_def)
qed

lemma parent_call_ok:
  assumes s: "job_ok s" and a: "life_of s 0 = Alive" and c: "do_call e 0 (code_of 0 ! pc s 0) s = Some s'"
  shows "job_ok s'"
proof -
  have "pc s 0 \<le> 7" using s by (simp add: job_ok_def)
  then consider "pc s 0 = 0" | "pc s 0 = 1" | "pc s 0 = 2" | "pc s 0 = 3" | "pc s 0 = 4" | "pc s 0 = 5" | "pc s 0 = 6" | "pc s 0 = 7"
    by linarith
  then show ?thesis
  proof cases
    case 1 then show ?thesis using parent_pipe [OF s a] c by (simp add: code_of_def parent_code_def)
  next
    case 2 then show ?thesis using parent_fork [OF s a 2] c by (simp add: code_of_def parent_code_def)
  next
    case 3 then show ?thesis using parent_fork [OF s a 3] c by (simp add: code_of_def parent_code_def)
  next
    case 4 then show ?thesis using parent_close [OF s a, of Pfd0] c by (simp add: code_of_def parent_code_def)
  next
    case 5 then show ?thesis using parent_close [OF s a, of Pfd1] c by (simp add: code_of_def parent_code_def)
  next
    case 6 then show ?thesis using parent_wait [OF s a] c by (simp add: code_of_def parent_code_def)
  next
    case 7 then show ?thesis using parent_wait [OF s a] c by (simp add: code_of_def parent_code_def)
  next
    case 8 then show ?thesis using ends_ok [OF s _ a] c by (simp add: code_of_def parent_code_def)
  qed
qed

lemma job_ok_keep:
  "job_ok s \<Longrightarrow> pc s' = pc s \<Longrightarrow> life_of s' = life_of s \<Longrightarrow> tab s' = tab s \<Longrightarrow> pfd s' = pfd s \<Longrightarrow> job_ok s'"
  by (simp add: job_ok_def table_ok_def)

lemma code_lengths: "length (code_of 0) = 8" "length (code_of (Suc 0)) = 4" "length (code_of 2) = 4"
  by (simp_all add: code_of_def parent_code_def ps_code_def grep_code_def)

lemma job_act_ok:
  assumes a: "job_act e m s = Some s'" and s: "job_ok s"
  shows "job_ok s'"
proof (cases m)
  case (Call p)
  then have p: "p < 3" "life_of s p = Alive" "pc s p < length (code_of p)" "do_call e p (code_of p ! pc s p) s = Some s'"
    using a by (auto split: if_splits)
  then have "p = 0 \<or> p = 1 \<or> p = 2" by auto
  then show ?thesis using parent_call_ok [OF s] child_call_ok [OF s, of p] p by (elim disjE) (simp_all add: code_lengths)
next
  case Ps_writes
  then show ?thesis using a s by (auto split: if_splits list.splits intro: ends_ok job_ok_keep [OF s])
next
  case Ps_ends
  then show ?thesis using a s by (auto split: if_splits intro: ends_ok)
next
  case Grep_reads
  then show ?thesis using a s by (auto split: if_splits list.splits intro: job_ok_keep [OF s])
next
  case Grep_ends
  have "job_ok (s\<lparr>terminal := t\<rparr>)" for t by (rule job_ok_keep [OF s]) simp_all
  then show ?thesis using Grep_ends a s by (auto split: if_splits intro: ends_ok)
qed

lemma job_start_ok: "job_ok (job_start e)"
  by (simp add: job_ok_def job_start_def table_ok_def table_at_def)

lemma job_reach_ok: "job_reach e s \<Longrightarrow> job_ok s"
  by (induction rule: job_reach.induct) (auto intro: job_start_ok job_act_ok)

subsection \<open>Every step uses something up\<close>

fun weight :: "life \<Rightarrow> nat \<Rightarrow> nat" where
  "weight Unborn n = 12"
| "weight Alive n = 11 - n"
| "weight Zombie n = 1"
| "weight Gone n = 0"

definition work :: "job \<Rightarrow> nat" where
  "work s = weight (life_of s 0) (pc s 0) + weight (life_of s 1) (pc s 1) + weight (life_of s 2) (pc s 2) + 2 * length (ps_left s) + length (pipe_buf s)"

lemma work_ends:
  assumes "job_ok s" "p < 3" "life_of s p = Alive"
  shows "work (ends p s) < work s"
proof -
  have "p = 0 \<or> p = 1 \<or> p = 2" using assms(2) by auto
  moreover have "pc s 0 \<le> 7" "pc s 1 \<le> 4" "pc s 2 \<le> 4" using assms(1) unfolding job_ok_def by blast+
  ultimately show ?thesis using assms(3) by (elim disjE) (simp_all add: work_def ends_def)
qed

lemma work_goes_on:
  assumes "job_ok s" "p < 3" "life_of s p = Alive" "life_of u = life_of s" "pc u = pc s" "ps_left u = ps_left s" "pipe_buf u = pipe_buf s"
  shows "work (goes_on p u) < work s"
proof -
  have "p = 0 \<or> p = 1 \<or> p = 2" using assms(2) by auto
  moreover have "pc s 0 \<le> 7" "pc s 1 \<le> 4" "pc s 2 \<le> 4" using assms(1) unfolding job_ok_def by blast+
  ultimately show ?thesis using assms(3-7) by (elim disjE) (simp_all add: work_def goes_on_def)
qed

lemma work_fail:
  assumes "job_ok s" "p < 3" "life_of s p = Alive"
  shows "work (fail p msg s) < work s"
proof -
  have "job_ok (s\<lparr>errors := x\<rparr>)" for x by (rule job_ok_keep [OF assms(1)]) simp_all
  moreover have "work (s\<lparr>errors := x\<rparr>) = work s" for x by (simp add: work_def)
  ultimately show ?thesis using work_ends [of "s\<lparr>errors := errors s @ ''Error: '' @ msg @ NL\<rparr>" p] assms(2,3) by (simp add: fail_def)
qed

lemma work_fork_wait:
  assumes "job_ok s" "life_of s 0 = Alive" "c = 1 \<or> c = 2"
  shows "life_of s c = Unborn \<Longrightarrow> work (goes_on 0 (s\<lparr>life_of := (life_of s)(c := Alive), tab := t\<rparr>)) < work s"
    "life_of s c = Zombie \<Longrightarrow> work (goes_on 0 (s\<lparr>life_of := (life_of s)(c := Gone)\<rparr>)) < work s"
proof -
  have p: "pc s 0 \<le> 7" using assms(1) by (simp add: job_ok_def)
  show "life_of s c = Unborn \<Longrightarrow> work (goes_on 0 (s\<lparr>life_of := (life_of s)(c := Alive), tab := t\<rparr>)) < work s"
    using assms(3) p assms(2) by (elim disjE) (simp_all add: work_def goes_on_def)
  show "life_of s c = Zombie \<Longrightarrow> work (goes_on 0 (s\<lparr>life_of := (life_of s)(c := Gone)\<rparr>)) < work s"
    using assms(3) p assms(2) by (elim disjE) (simp_all add: work_def goes_on_def)
qed

lemma work_call:
  assumes s: "job_ok s" and p: "p < 3" "life_of s p = Alive" "pc s p < length (code_of p)"
    and c: "do_call e p (code_of p ! pc s p) s = Some s'"
  shows "work s' < work s"
proof (cases "code_of p ! pc s p")
  case Make_pipe
  then show ?thesis using c work_fail [OF s p(1,2)] work_goes_on [OF s p(1,2)] by (auto split: if_splits option.splits)
next
  case (Fork k)
  have "p = 0 \<or> p = 1 \<or> p = 2" using p(1) by auto
  then have k: "p = 0 \<and> pc s 0 = k \<and> (k = 1 \<or> k = 2)" using p(3) Fork
    by (elim disjE) (auto simp: code_of_def parent_code_def ps_code_def grep_code_def nth_Cons' less_Suc_eq numeral_eq_Suc split: if_splits)
  have "life_of s 1 = Unborn \<longleftrightarrow> pc s 0 \<le> 1" "life_of s 2 = Unborn \<longleftrightarrow> pc s 0 \<le> 2"
    using s unfolding job_ok_def by blast+
  then have "life_of s k = Unborn" using k by (elim conjE disjE) simp_all
  then show ?thesis using c Fork k work_fail [OF s p(1,2)] work_fork_wait(1) [OF s] p(2) by (auto split: if_splits)
next
  case Wait
  have "p = 0 \<or> p = 1 \<or> p = 2" using p(1) by auto
  then have "p = 0" using p(3) Wait
    by (elim disjE) (auto simp: code_of_def ps_code_def grep_code_def nth_Cons' less_Suc_eq numeral_eq_Suc split: if_splits)
  then show ?thesis using c Wait work_fork_wait(2) [OF s, of 1] work_fork_wait(2) [OF s, of 2] work_goes_on [OF s p(1,2)] p(2)
    by (auto split: if_splits)
next
  case (Dup2 v n)
  then show ?thesis using c work_goes_on [OF s p(1,2)] by (auto split: option.splits)
qed (use c work_fail [OF s p(1,2)] work_goes_on [OF s p(1,2)] work_ends [OF s p(1,2)] in \<open>auto split: if_splits\<close>)

lemma job_act_work:
  assumes a: "job_act e m s = Some s'" and s: "job_ok s"
  shows "work s' < work s"
proof (cases m)
  case (Call p)
  then show ?thesis using a work_call [OF s] by (auto split: if_splits)
next
  case Ps_writes
  then show ?thesis using a work_ends [OF s, of 1] by (auto simp: work_def split: if_splits list.splits)
next
  case Ps_ends
  then show ?thesis using a work_ends [OF s, of 1] by (auto split: if_splits)
next
  case Grep_reads
  then show ?thesis using a by (auto simp: work_def split: if_splits list.splits)
next
  case Grep_ends
  have "job_ok (s\<lparr>terminal := t\<rparr>)" for t by (rule job_ok_keep [OF s]) simp_all
  moreover have "work (s\<lparr>terminal := t\<rparr>) = work s" for t by (simp add: work_def)
  ultimately have "work (ends 2 (s\<lparr>terminal := t\<rparr>)) < work s" if "life_of s 2 = Alive" for t
    using work_ends [of "s\<lparr>terminal := t\<rparr>" 2] that by simp
  then show ?thesis using Grep_ends a work_ends [OF s, of 2] by (auto split: if_splits)
qed

subsection \<open>No process is stuck\<close>

lemma holds_split: "holds f s \<longleftrightarrow> (\<exists>fd<OPEN_MAX. tab s 0 fd = Some f) \<or> (\<exists>fd<OPEN_MAX. tab s 1 fd = Some f) \<or> (\<exists>fd<OPEN_MAX. tab s 2 fd = Some f)"
proof -
  have "(\<exists>p<3. P p) \<longleftrightarrow> P 0 \<or> P 1 \<or> P (2 :: nat)" for P by (auto simp: numeral_3_eq_3 numeral_2_eq_2 less_Suc_eq)
  then show ?thesis by (simp add: holds_def)
qed

lemma table_life:
  assumes "job_ok s"
  shows "tab s 0 = (if life_of s 0 = Alive then table_at 0 (pc s 0) else (\<lambda>_. None))"
    "tab s 1 = (if life_of s 1 = Alive then table_at 1 (pc s 1) else (\<lambda>_. None))"
    "tab s 2 = (if life_of s 2 = Alive then table_at 2 (pc s 2) else (\<lambda>_. None))"
  using assms unfolding job_ok_def table_ok_def by blast+

lemma holds_ends:
  assumes "job_ok s"
  shows "holds Pipe_write s \<longleftrightarrow> life_of s 0 = Alive \<and> 1 \<le> pc s 0 \<and> pc s 0 \<le> 4 \<or> life_of s 1 = Alive \<or> life_of s 2 = Alive \<and> pc s 2 = 0"
    "holds Pipe_read s \<longleftrightarrow> life_of s 0 = Alive \<and> 1 \<le> pc s 0 \<and> pc s 0 \<le> 3 \<or> life_of s 1 = Alive \<and> pc s 1 = 0 \<or> life_of s 2 = Alive"
  unfolding holds_split table_life [OF assms]
  using table_at_writes [of 0 "pc s 0"] table_at_writes [of 1 "pc s 1"] table_at_writes [of 2 "pc s 2"]
    table_at_reads [of 0 "pc s 0"] table_at_reads [of 1 "pc s 1"] table_at_reads [of 2 "pc s 2"] by simp_all

lemma call_moves:
  assumes "p < 3" "life_of s p = Alive" "pc s p < length (code_of p)" "code_of p ! pc s p \<noteq> Wait"
  shows "\<exists>m s'. job_act e m s = Some s'"
proof -
  have "\<exists>s'. do_call e p (code_of p ! pc s p) s = Some s'"
    using assms(4) by (cases "code_of p ! pc s p") (auto split: option.split)
  then show ?thesis using assms(1-3) by (intro exI [of _ "Call p"]) auto
qed

definition living :: "job \<Rightarrow> bool" where
  "living s \<longleftrightarrow> life_of s 0 = Alive \<or> life_of s 1 = Alive \<or> life_of s 2 = Alive"

lemma child_not_wait: "p = 1 \<or> p = 2 \<Longrightarrow> n < 4 \<Longrightarrow> code_of p ! n \<noteq> Wait"
  by (auto simp: code_of_def ps_code_def grep_code_def less_Suc_eq numeral_eq_Suc)

lemma parent_not_wait: "n < 8 \<Longrightarrow> n \<noteq> 5 \<Longrightarrow> n \<noteq> 6 \<Longrightarrow> code_of 0 ! n \<noteq> Wait"
  by (auto simp: code_of_def parent_code_def less_Suc_eq numeral_eq_Suc)

lemma parent_waits: "n = 5 \<or> n = 6 \<Longrightarrow> code_of 0 ! n = Wait"
  by (auto simp: code_of_def parent_code_def)

lemma job_progress:
  assumes s: "job_ok s" and cap: "0 < capacity e" and l: "living s"
  shows "\<exists>m s'. job_act e m s = Some s'"
proof -
  have pc: "pc s 0 \<le> 7" "pc s 1 \<le> 4" "pc s 2 \<le> 4" using s unfolding job_ok_def by blast+
  consider (parent) "life_of s 0 = Alive" "pc s 0 \<noteq> 5" "pc s 0 \<noteq> 6" | (child) p where "p = 1 \<or> p = 2" "life_of s p = Alive" "pc s p < 4"
    | (programs) "life_of s 0 = Alive \<longrightarrow> 5 \<le> pc s 0" "life_of s 1 = Alive \<longrightarrow> pc s 1 = 4" "life_of s 2 = Alive \<longrightarrow> pc s 2 = 4"
    using pc by fastforce
  then show ?thesis
  proof cases
    case parent
    then show ?thesis using call_moves [of 0 s e] parent_not_wait [of "pc s 0"] pc(1) by (simp add: code_lengths)
  next
    case (child p)
    then have "pc s p < length (code_of p)" "p < 3" using code_lengths by auto
    then show ?thesis using call_moves [of p s e] child_not_wait [OF child(1,3)] child(2) by simp
  next
    case programs
    note h = holds_ends [OF s] and t = table_life [OF s]
    show ?thesis
    proof (cases "life_of s 1 = Alive")
      case ps: True
      then have t1: "tab s 1 1 = Some Pipe_write" "pc s 1 = length (code_of 1)" using t(2) programs(2) table_at_ends(1) code_lengths by simp_all
      show ?thesis
      proof (cases "ps_left s")
        case Nil
        then show ?thesis using ps t1 by (intro exI [of _ Ps_ends]) simp
      next
        case (Cons c cs)
        show ?thesis
        proof (cases "holds Pipe_read s \<and> capacity e \<le> length (pipe_buf s)")
          case True
          then have "life_of s 2 = Alive" using h(2) programs(1,2) by auto
          moreover have "pipe_buf s \<noteq> []" using True cap by auto
          ultimately show ?thesis using t(3) programs(3) table_at_ends(2) code_lengths
            by (intro exI [of _ Grep_reads]) (simp split: list.split)
        next
          case False
          then show ?thesis using ps t1 Cons by (intro exI [of _ Ps_writes]) auto
        qed
      qed
    next
      case no_ps: False
      show ?thesis
      proof (cases "life_of s 2 = Alive")
        case True
        then have g: "tab s 2 0 = Some Pipe_read" "pc s 2 = length (code_of 2)" "\<not> holds Pipe_write s"
          using t(3) h(1) programs no_ps table_at_ends(2) code_lengths by auto
        show ?thesis
        proof (cases "pipe_buf s")
          case Nil
          then show ?thesis using g True by (intro exI [of _ Grep_ends]) simp
        next
          case (Cons c cs)
          then show ?thesis using g True by (intro exI [of _ Grep_reads]) simp
        qed
      next
        case False
        then have p: "life_of s 0 = Alive" using l no_ps by (simp add: living_def)
        show ?thesis
        proof (cases "pc s 0 = 7")
          case True
          then show ?thesis using call_moves [of 0 s e] parent_not_wait [of 7] p by (simp add: code_lengths)
        next
          case wait: False
          then have "pc s 0 = 5 \<or> pc s 0 = 6" using programs(1) p pc(1) by auto
          then have "code_of 0 ! pc s 0 = Wait" by (rule parent_waits)
          then have "\<exists>s'. do_call e 0 (code_of 0 ! pc s 0) s = Some s'" using no_ps False by simp
          then show ?thesis using p pc(1) by (intro exI [of _ "Call 0"]) (auto simp: code_lengths)
        qed
      qed
    qed
  qed
qed

lemma job_finishes: "job_reach e s \<Longrightarrow> 0 < capacity e \<Longrightarrow> \<exists>s'. job_reach e s' \<and> \<not> living s'"
proof (induction "work s" arbitrary: s rule: less_induct)
  case less
  show ?case
  proof (cases "living s")
    case True
    note ok = job_reach_ok [OF less.prems(1)]
    obtain m s' where m: "job_act e m s = Some s'" using job_progress [OF ok less.prems(2) True] by blast
    show ?thesis by (rule less.hyps [OF job_act_work [OF m ok] job_reach.step [OF less.prems(1) m] less.prems(2)])
  qed (use less.prems in blast)
qed

subsection \<open>What arrives, when no call fails\<close>

definition dead :: "life \<Rightarrow> bool" where
  "dead l \<longleftrightarrow> l = Zombie \<or> l = Gone"

definition job_data :: "env \<Rightarrow> job \<Rightarrow> bool" where
  "job_data e s \<longleftrightarrow> ps_text e = grep_got s @ pipe_buf s @ ps_left s \<and> errors s = []
     \<and> (dead (life_of s 0) \<longrightarrow> pc s 0 = 7) \<and> (dead (life_of s 1) \<longrightarrow> ps_left s = [])
     \<and> (dead (life_of s 2) \<longrightarrow> pipe_buf s = [] \<and> dead (life_of s 1) \<and> terminal s = grep e (grep_got s))
     \<and> (\<not> dead (life_of s 2) \<longrightarrow> terminal s = [])"

text \<open>A call that does not fail moves no data and ends nobody but the parent.\<close>

lemma goes_on_data: "job_data e u \<Longrightarrow> life_of u 0 = Alive \<Longrightarrow> job_data e (goes_on 0 u)"
  "job_data e u \<Longrightarrow> p \<noteq> 0 \<Longrightarrow> job_data e (goes_on p u)"
  by (simp_all add: job_data_def goes_on_def dead_def)

lemma job_data_keep:
  "job_data e s \<Longrightarrow> pc u = pc s \<Longrightarrow> pipe_buf u = pipe_buf s \<Longrightarrow> ps_left u = ps_left s \<Longrightarrow> grep_got u = grep_got s \<Longrightarrow>
    terminal u = terminal s \<Longrightarrow> errors u = errors s \<Longrightarrow> (\<And>p. dead (life_of u p) = dead (life_of s p)) \<Longrightarrow> job_data e u"
  by (simp add: job_data_def)

lemma child_call_data:
  assumes d: "job_data e s" and nf: "\<forall>p c. \<not> fails e p c" and p: "p = 1 \<or> p = 2" "life_of s p = Alive" "pc s p < 4"
    and c: "do_call e p (code_of p ! pc s p) s = Some s'"
  shows "job_data e s'"
proof -
  have u: "\<exists>t. s' = goes_on p (s\<lparr>tab := t\<rparr>)"
  proof -
    have "code_of p ! pc s p \<in> {Close Pfd0, Close Pfd1, Dup2 Pfd0 0, Dup2 Pfd1 1, Exec}"
      using p(1,3) by (auto simp: code_of_def ps_code_def grep_code_def less_Suc_eq numeral_eq_Suc)
    moreover have "\<exists>t. goes_on p (s\<lparr>tab := u\<rparr>) = goes_on p (s\<lparr>tab := t\<rparr>)" for u by blast
    moreover have "\<exists>t. goes_on p s = goes_on p (s\<lparr>tab := t\<rparr>)" by (intro exI [of _ "tab s"]) simp
    ultimately show ?thesis using c nf by (auto split: option.splits)
  qed
  then obtain t where "s' = goes_on p (s\<lparr>tab := t\<rparr>)" by blast
  moreover have "job_data e (s\<lparr>tab := t\<rparr>)" by (rule job_data_keep [OF d]) simp_all
  ultimately show ?thesis using goes_on_data(2) p(1) by auto
qed

lemma parent_call_data:
  assumes s: "job_ok s" and d: "job_data e s" and nf: "\<forall>p c. \<not> fails e p c" and a: "life_of s 0 = Alive" "pc s 0 < 8"
    and c: "do_call e 0 (code_of 0 ! pc s 0) s = Some s'"
  shows "job_data e s'"
proof -
  have keep: "job_data e (goes_on 0 u)" if "pc u = pc s" "pipe_buf u = pipe_buf s" "ps_left u = ps_left s" "grep_got u = grep_got s"
      "terminal u = terminal s" "errors u = errors s" "\<And>p. dead (life_of u p) = dead (life_of s p)" "life_of u 0 = Alive" for u
    by (rule goes_on_data(1) [OF job_data_keep [OF d that(1-7)] that(8)])
  consider "pc s 0 = 0" | (fork) k where "pc s 0 = k" "k = 1 \<or> k = 2" | (close) v where "code_of 0 ! pc s 0 = Close v" | (wait) "code_of 0 ! pc s 0 = Wait"
    | (exit) "pc s 0 = 7" using a(2) by (auto simp: code_of_def parent_code_def less_Suc_eq numeral_eq_Suc)
  then show ?thesis
  proof cases
    case 1
    then have "tab s 0 = std_table" using job_ok_table(1) [OF s _ a(1)] by (simp add: table_at_ends(4))
    then have "s' = goes_on 0 (s\<lparr>tab := (tab s)(0 := table_at 0 1), pfd := (3, 4)\<rparr>)"
      using c nf 1 by (simp add: code_of_def parent_code_def table_at_pipe)
    then show ?thesis using keep [of "s\<lparr>tab := (tab s)(0 := table_at 0 1), pfd := (3, 4)\<rparr>"] a(1) by simp
  next
    case (fork k)
    let ?u = "s\<lparr>life_of := (life_of s)(k := Alive), tab := (tab s)(k := tab s 0)\<rparr>"
    have "life_of s 1 = Unborn \<longleftrightarrow> pc s 0 \<le> 1" "life_of s 2 = Unborn \<longleftrightarrow> pc s 0 \<le> 2" using s unfolding job_ok_def by blast+
    then have "life_of s k = Unborn" using fork by (elim disjE) simp_all
    then have "dead (life_of ?u p) = dead (life_of s p)" for p by (simp add: dead_def)
    moreover have "s' = goes_on 0 ?u" using c nf fork by (auto simp: code_of_def parent_code_def)
    moreover have "life_of ?u 0 = Alive" using a(1) fork by auto
    ultimately show ?thesis using keep [of ?u] by simp
  next
    case (close v)
    then have "s' = goes_on 0 (s\<lparr>tab := (tab s)(0 := close_fd (fd_of s v) (tab s 0))\<rparr>)" using c by simp
    then show ?thesis using keep [of "s\<lparr>tab := (tab s)(0 := close_fd (fd_of s v) (tab s 0))\<rparr>"] a(1) by simp
  next
    case wait
    have k: "job_data e (goes_on 0 (s\<lparr>life_of := (life_of s)(k := Gone)\<rparr>))" if "life_of s k = Zombie" "k \<noteq> 0" for k
      by (rule keep) (use a(1) that in \<open>simp_all add: dead_def\<close>)
    have "job_data e (goes_on 0 s)" by (rule keep) (simp_all add: a(1))
    then show ?thesis using c wait k [of 1] k [of 2] by (auto split: if_splits)
  next
    case exit
    then have "s' = ends 0 s" using c by (simp add: code_of_def parent_code_def)
    then show ?thesis using d exit by (simp add: job_data_def ends_def dead_def)
  qed
qed

lemma job_act_data:
  assumes a: "job_act e m s = Some s'" and s: "job_ok s" "job_data e s" and nf: "\<forall>p c. \<not> fails e p c"
  shows "job_data e s'"
proof -
  note h = holds_ends [OF s(1)] and t = table_life [OF s(1)]
  have born: "life_of s 1 = Unborn \<longleftrightarrow> pc s 0 \<le> 1" "life_of s 2 = Unborn \<longleftrightarrow> pc s 0 \<le> 2" "life_of s 0 = Alive \<or> life_of s 0 = Zombie"
    using s(1) unfolding job_ok_def by blast+
  show ?thesis
  proof (cases m)
    case (Call p)
    then have p: "p < 3" "life_of s p = Alive" "pc s p < length (code_of p)" "do_call e p (code_of p ! pc s p) s = Some s'"
      using a by (auto split: if_splits)
    then have "p = 0 \<or> p = 1 \<or> p = 2" by auto
    then show ?thesis using parent_call_data [OF s nf] child_call_data [OF s(2) nf, of p] p by (elim disjE) (simp_all add: code_lengths)
  next
    case Ps_writes
    then have ps: "life_of s 1 = Alive" "tab s 1 1 = Some Pipe_write" using a t(2) table_at_ends(1) by (auto simp: code_lengths split: if_splits)
    have n2: "\<not> dead (life_of s 2)" using s(2) ps(1) by (auto simp: job_data_def dead_def)
    have "holds Pipe_read s"
    proof (cases "life_of s 2 = Alive")
      case False
      then have "life_of s 2 = Unborn" using n2 by (cases "life_of s 2") (simp_all add: dead_def)
      then have "pc s 0 = 2" using born(1,2) ps(1) by auto
      moreover from this have "life_of s 0 = Alive" using s(2) born(3) by (auto simp: job_data_def dead_def)
      ultimately show ?thesis using h(2) by simp
    qed (simp add: h(2))
    then show ?thesis using Ps_writes a s(2) ps n2 by (auto simp: job_data_def dead_def split: if_splits list.splits)
  next
    case Ps_ends
    then show ?thesis using a s(2) by (auto simp: job_data_def ends_def dead_def split: if_splits)
  next
    case Grep_reads
    then obtain c cs where "life_of s 2 = Alive" "pipe_buf s = c # cs" "s' = s\<lparr>pipe_buf := cs, grep_got := grep_got s @ [c]\<rparr>"
      using a by (cases "pipe_buf s") (simp_all split: if_splits)
    then show ?thesis using s(2) by (simp add: job_data_def dead_def)
  next
    case Grep_ends
    then have g: "life_of s 2 = Alive" "tab s 2 1 = Some (Std 1)" "\<not> holds Pipe_write s" "pipe_buf s = []"
      and s': "s' = ends 2 (s\<lparr>terminal := terminal s @ grep e (grep_got s)\<rparr>)"
      using a t(3) table_at_ends(3) by (auto simp: code_lengths split: if_splits)
    have "life_of s 1 \<noteq> Alive" "life_of s 1 \<noteq> Unborn" using g h(1) born by auto
    then have "dead (life_of s 1)" by (cases "life_of s 1") (simp_all add: dead_def)
    then show ?thesis using s(2) g unfolding s' by (auto simp: job_data_def ends_def dead_def)
  qed
qed

lemma job_reach_data: "job_reach e s \<Longrightarrow> \<forall>p c. \<not> fails e p c \<Longrightarrow> job_data e s"
proof (induction rule: job_reach.induct)
  case start
  then show ?case by (simp add: job_data_def job_start_def dead_def)
next
  case (step s m s')
  then show ?case using job_act_data job_reach_ok by blast
qed

subsection \<open>Properties\<close>

text \<open>
  C26: Whatever calls fail and in whatever order the three processes run, none of them is ever stuck
  while it lives: some process can go on, and every step uses up some of the work that is left, so
  that every run ends. In particular \<open>grep\<close> gets its end of file, and \<open>ps\<close> is not left with a pipe
  that nobody reads.
\<close>

theorem pipe_never_stuck:
  assumes "job_reach e s" "0 < capacity e"
  shows "(living s \<longrightarrow> (\<exists>m s'. job_act e m s = Some s')) \<and> (\<forall>m s'. job_act e m s = Some s' \<longrightarrow> work s' < work s)"
  using job_progress [OF job_reach_ok [OF assms(1)] assms(2)] job_act_work [OF _ job_reach_ok [OF assms(1)]] by blast

definition small_env :: env where
  "small_env = \<lparr>fails = (\<lambda>_ _. False), capacity = 1, ps_text = ''bash'', grep = (\<lambda>x. x)\<rparr>"

theorem pipe_never_stuck_witness: "living (job_start small_env) \<and> (\<exists>m s'. job_act small_env m (job_start small_env) = Some s')"
  using pipe_never_stuck [OF job_reach.start, of small_env] by (simp add: small_env_def living_def job_start_def)

text \<open>
  C27: When no call fails and all processes have ended, the terminal shows exactly what \<open>grep\<close> makes
  of the whole output of \<open>ps\<close>, nothing was reported as an error, and the parent has waited for both
  children.
\<close>

theorem pipe_shows_grep:
  assumes "job_reach e s" "\<forall>p c. \<not> fails e p c" "\<not> living s"
  shows "terminal s = grep e (ps_text e) \<and> errors s = [] \<and> life_of s 1 = Gone \<and> life_of s 2 = Gone"
proof -
  note d = job_reach_data [OF assms(1,2)] and s = job_reach_ok [OF assms(1)]
  have "life_of s 0 = Zombie" using s assms(3) by (auto simp: job_ok_def living_def)
  then have "pc s 0 = 7" using d by (simp add: job_data_def dead_def)
  then have g: "life_of s 1 = Gone" "life_of s 2 = Gone" using s unfolding job_ok_def by blast+
  then show ?thesis using d by (simp add: job_data_def dead_def)
qed

theorem pipe_shows_grep_witness: "\<exists>s. job_reach small_env s \<and> terminal s = ''bash''"
proof -
  obtain s where s: "job_reach small_env s" "\<not> living s" using job_finishes [OF job_reach.start, of small_env] by (auto simp: small_env_def)
  show ?thesis using pipe_shows_grep [OF s(1) _ s(2)] s(1) by (auto simp: small_env_def)
qed

text \<open>
  C28: The tables are always well formed: a process that does not live has nothing open; once \<open>ps\<close>
  runs, its three descriptors are all it has and the second is the writing end of the pipe; once
  \<open>grep\<close> runs, its three descriptors are all it has and the first is the reading end; and a parent that
  waits has no end of the pipe open.
\<close>

theorem pipe_tables_well_formed:
  assumes "job_reach e s"
  shows "(\<forall>p<3. life_of s p \<noteq> Alive \<longrightarrow> tab s p = (\<lambda>_. None))
    \<and> (life_of s 1 = Alive \<and> pc s 1 = length (code_of 1) \<longrightarrow> tab s 1 = std_table(1 := Some Pipe_write))
    \<and> (life_of s 2 = Alive \<and> pc s 2 = length (code_of 2) \<longrightarrow> tab s 2 = std_table(0 := Some Pipe_read))
    \<and> (life_of s 0 = Alive \<and> code_of 0 ! pc s 0 = Wait \<longrightarrow> tab s 0 = std_table)"
proof -
  note s = job_reach_ok [OF assms]
  note t = table_life [OF s]
  have "p = 0 \<or> p = 1 \<or> p = 2" if "p < 3" for p :: nat using that by auto
  then have dead: "\<forall>p<3. life_of s p \<noteq> Alive \<longrightarrow> tab s p = (\<lambda>_. None)" using t by metis
  have "pc s 0 < 8" using s by (simp add: job_ok_def)
  then have "code_of 0 ! pc s 0 = Wait \<Longrightarrow> pc s 0 = 5 \<or> pc s 0 = 6" using parent_not_wait by blast
  then have "life_of s 0 = Alive \<and> code_of 0 ! pc s 0 = Wait \<longrightarrow> tab s 0 = std_table" using t(1) by (auto simp: table_at_def)
  then show ?thesis using dead t(2,3) by (auto simp: code_lengths table_at_def)
qed

theorem pipe_tables_well_formed_witness:
  "\<exists>s. job_reach small_env s \<and> tab s 0 = (\<lambda>_. None) \<and> tab s 1 = (\<lambda>_. None) \<and> tab s 2 = (\<lambda>_. None)"
proof -
  obtain s where s: "job_reach small_env s" "\<not> living s" using job_finishes [OF job_reach.start, of small_env] by (auto simp: small_env_def)
  show ?thesis using pipe_tables_well_formed [OF s(1)] s by (auto simp: living_def)
qed

end
