(* ===== verification/Children.thy ===== *)
theory Children
  imports Prelude
begin

text \<open>
  Exercise 2, \<open>exercises/ex2/children.c\<close>: a parent makes three children, each of which prints a
  line after a second, and waits for them. The parent's \<open>pid1\<close>, \<open>pid2\<close>, \<open>pid3\<close> are only set in the
  children, so each of its \<open>waitpid\<close> calls waits for any child. A child whose parent has ended is the
  child of \<open>reaper\<close>.

  Proved: when the parent prints \<open>Done\<close>, all three lines have been printed, and nothing follows.
\<close>

datatype parent_state = Forking | Waiting nat | Failed | Finished

record family =
  parent :: parent_state
  made :: nat
  exited :: "nat \<Rightarrow> bool"
  reaped :: "nat \<Rightarrow> bool"
  lines_out :: "string list"

record ids =
  pid_of :: "nat \<Rightarrow> int"
  parent_pid :: int
  reaper :: int

definition child_line :: "ids \<Rightarrow> parent_state \<Rightarrow> nat \<Rightarrow> string" where
  "child_line d ps c = ''I am '' @ show_int (pid_of d c) @ '', child of ''
     @ show_int (if ps = Failed \<or> ps = Finished then reaper d else parent_pid d)"

definition family_start :: family where
  "family_start = \<lparr>parent = Forking, made = 0, exited = (\<lambda>_. False), reaped = (\<lambda>_. False), lines_out = []\<rparr>"

text \<open>
  \<open>waitpid\<close> takes a child that has ended; without children left it returns at once.
\<close>

inductive family_step :: "ids \<Rightarrow> family \<Rightarrow> family \<Rightarrow> bool" for d where
  fork: "parent s = Forking \<Longrightarrow> made s < 3 \<Longrightarrow>
    family_step d s (s\<lparr>made := made s + 1, parent := if made s + 1 = 3 then Waiting 0 else Forking\<rparr>)"
| fork_fails: "parent s = Forking \<Longrightarrow> made s < 3 \<Longrightarrow>
    family_step d s (s\<lparr>parent := Failed, lines_out := lines_out s @ [''Error: Can't create child process'']\<rparr>)"
| child: "c < made s \<Longrightarrow> \<not> exited s c \<Longrightarrow>
    family_step d s (s\<lparr>exited := (exited s)(c := True), lines_out := lines_out s @ [child_line d (parent s) c]\<rparr>)"
| reap: "parent s = Waiting n \<Longrightarrow> n < 3 \<Longrightarrow> c < made s \<Longrightarrow> exited s c \<Longrightarrow> \<not> reaped s c \<Longrightarrow>
    family_step d s (s\<lparr>reaped := (reaped s)(c := True), parent := Waiting (n + 1)\<rparr>)"
| no_child: "parent s = Waiting n \<Longrightarrow> n < 3 \<Longrightarrow> \<forall>c<made s. reaped s c \<Longrightarrow> family_step d s (s\<lparr>parent := Waiting (n + 1)\<rparr>)"
| finish: "parent s = Waiting 3 \<Longrightarrow> family_step d s (s\<lparr>parent := Finished, lines_out := lines_out s @ [''Done'']\<rparr>)"

inductive family_reach :: "ids \<Rightarrow> family \<Rightarrow> bool" for d where
  start: "family_reach d family_start"
| step: "family_reach d s \<Longrightarrow> family_step d s s' \<Longrightarrow> family_reach d s'"

text \<open>The lines printed are those of the children that have ended; every wait so far took one of them.\<close>

definition family_ok :: "ids \<Rightarrow> family \<Rightarrow> bool" where
  "family_ok d s \<longleftrightarrow> made s \<le> 3 \<and> (\<forall>c. reaped s c \<longrightarrow> exited s c) \<and> (\<forall>c. exited s c \<longrightarrow> c < made s)
     \<and> (parent s \<noteq> Forking \<and> parent s \<noteq> Failed \<longrightarrow> made s = 3)
     \<and> (parent s = Forking \<longrightarrow> (\<forall>c. \<not> reaped s c))
     \<and> (\<forall>n. parent s = Waiting n \<longrightarrow> n \<le> 3 \<and> card {c. reaped s c} = n)
     \<and> (parent s = Forking \<or> (\<exists>n. parent s = Waiting n) \<longrightarrow>
          mset (lines_out s) = image_mset (child_line d Forking) (mset_set {c. exited s c}))
     \<and> (parent s = Finished \<longrightarrow> (\<forall>c<3. exited s c)
          \<and> (\<exists>ls. lines_out s = ls @ [''Done''] \<and> mset ls = image_mset (child_line d Forking) (mset_set {..<3})))"

lemma exited_finite: "family_ok d s \<Longrightarrow> finite {c. exited s c} \<and> finite {c. reaped s c}"
proof -
  assume "family_ok d s"
  then have "{c. exited s c} \<subseteq> {..<made s}" "{c. reaped s c} \<subseteq> {..<made s}" by (auto simp: family_ok_def)
  then show ?thesis using finite_subset by blast
qed

lemma child_line_same: "ps \<noteq> Failed \<Longrightarrow> ps \<noteq> Finished \<Longrightarrow> child_line d ps c = child_line d Forking c"
  by (simp add: child_line_def)

lemma reaped_all:
  assumes "family_ok d s" "card {c. reaped s c} = 3"
  shows "{c. exited s c} = {..<3}"
proof -
  have r: "{c. reaped s c} \<subseteq> {c. exited s c}" "{c. exited s c} \<subseteq> {..<3}" using assms(1) by (fastforce simp: family_ok_def)+
  then have "{c. reaped s c} = {..<3}" using assms(2) by (intro card_subset_eq) auto
  then show ?thesis using r by blast
qed

lemma family_step_ok:
  assumes "family_step d s s'" "family_ok d s"
  shows "family_ok d s'"
  using assms(1)
proof cases
  case (child c)
  have "parent s \<noteq> Finished" using child assms(2) by (auto simp: family_ok_def)
  moreover have "{x. ((exited s)(c := True)) x} = insert c {x. exited s x}" by auto
  ultimately show ?thesis using child assms(2) exited_finite [OF assms(2)] child_line_same [of "parent s" d c]
    by (auto simp: family_ok_def)
next
  case (reap n c)
  have "{x. ((reaped s)(c := True)) x} = insert c {x. reaped s x}" by auto
  then show ?thesis using reap assms(2) exited_finite [OF assms(2)] by (auto simp: family_ok_def)
next
  case (no_child n)
  then have "{..<3} \<subseteq> {c. reaped s c}" using assms(2) by (auto simp: family_ok_def)
  then have "3 \<le> card {c. reaped s c}" using card_mono exited_finite [OF assms(2)] by (metis card_lessThan)
  then show ?thesis using no_child assms(2) by (auto simp: family_ok_def)
next
  case finish
  then have "{c. exited s c} = {..<3}" by (intro reaped_all [OF assms(2)]) (use assms(2) in \<open>auto simp: family_ok_def\<close>)
  then show ?thesis using finish assms(2) by (auto simp: family_ok_def)
qed (use assms(2) in \<open>auto simp: family_ok_def\<close>)

lemma family_reach_ok: "family_reach d s \<Longrightarrow> family_ok d s"
proof (induction rule: family_reach.induct)
  case start
  show ?case by (simp add: family_ok_def family_start_def)
qed (rule family_step_ok)

text \<open>
  When the parent has ended with success, the output is the lines of the three children, each
  naming the parent, in some order, and then \<open>Done\<close>; and no process is left that could print more.
\<close>

theorem children_before_done:
  assumes "family_reach d s" "parent s = Finished"
  shows "(\<exists>ls. lines_out s = ls @ [''Done''] \<and> mset ls = mset (map (child_line d Forking) [0, 1, 2])) \<and> \<not> (\<exists>s'. family_step d s s')"
proof
  note ok = family_reach_ok [OF assms(1)]
  have "{..<3} = {0, 1, 2 :: nat}" by auto
  then show "\<exists>ls. lines_out s = ls @ [''Done''] \<and> mset ls = mset (map (child_line d Forking) [0, 1, 2])"
    using ok assms(2) by (auto simp: family_ok_def)
  show "\<not> (\<exists>s'. family_step d s s')" using ok assms(2) by (auto simp: family_ok_def elim: family_step.cases)
qed

definition family_ids :: ids where
  "family_ids = \<lparr>pid_of = (\<lambda>c. 11 + int c), parent_pid = 10, reaper = 1\<rparr>"

theorem children_before_done_witness:
  "\<exists>s. family_reach family_ids s \<and> length (lines_out s) = 4 \<and> last (lines_out s) = ''Done''"
proof -
  let ?s1 = "family_start\<lparr>made := 1\<rparr>" and ?s2 = "family_start\<lparr>made := 2\<rparr>" and ?s3 = "family_start\<lparr>made := 3, parent := Waiting 0\<rparr>"
  note r = family_reach.step and st = family_step.intros
  have 1: "family_reach family_ids ?s1" by (rule r [OF family_reach.start]) (use st(1) [of family_start] in \<open>simp add: family_start_def\<close>)
  have 2: "family_reach family_ids ?s2" by (rule r [OF 1]) (use st(1) [of ?s1] in \<open>simp add: family_start_def numeral_2_eq_2\<close>)
  have 3: "family_reach family_ids ?s3" by (rule r [OF 2]) (use st(1) [of ?s2] in \<open>simp add: family_start_def\<close>)
  let ?l = "child_line family_ids (Waiting 0)"
  let ?e = "\<lambda>n. ?s3\<lparr>exited := (\<lambda>c. c < n), lines_out := map ?l [0..<n]\<rparr>"
  have e: "n \<le> 3 \<Longrightarrow> family_reach family_ids (?e n)" for n
  proof (induction n)
    case (Suc n)
    have "(\<lambda>c. c < n)(n := True) = (\<lambda>c. c < Suc n)" by (auto simp: fun_eq_iff)
    then show ?case using st(3) [of n "?e n" family_ids] Suc by (intro r [OF Suc.IH]) simp_all
  qed (use 3 in \<open>simp add: family_start_def\<close>)
  let ?w = "\<lambda>n. (?e 3)\<lparr>reaped := (\<lambda>c. c < n), parent := Waiting n\<rparr>"
  have w: "n \<le> 3 \<Longrightarrow> family_reach family_ids (?w n)" for n
  proof (induction n)
    case 0
    have "?w 0 = ?e 3" by (simp add: family_start_def)
    then show ?case using e [of 3] by simp
  next
    case (Suc n)
    have "(\<lambda>c. c < n)(n := True) = (\<lambda>c. c < Suc n)" by (auto simp: fun_eq_iff)
    then show ?case using st(4) [of "?w n" n n family_ids] Suc by (intro r [OF Suc.IH]) simp_all
  qed
  let ?f = "(?w 3)\<lparr>parent := Finished, lines_out := lines_out (?w 3) @ [''Done'']\<rparr>"
  have f: "family_reach family_ids ?f" by (rule r [OF w [of 3]]) (simp, rule st(6), simp)
  from children_before_done [OF f] obtain ls where "lines_out ?f = ls @ [''Done'']" "mset ls = mset (map (child_line family_ids Forking) [0, 1, 2])"
    by auto
  then have "length (lines_out ?f) = 4" "last (lines_out ?f) = ''Done''" by (auto dest: arg_cong [where f = size])
  then show ?thesis using f by blast
qed

end
