(* ===== verification/Sample_Queue.thy ===== *)
theory Sample_Queue
  imports C_Files
begin

text \<open>
  The two small programs over one POSIX message queue, \<open>assignments/hw2/client2.c\<close> and
  \<open>server2.c\<close>. The queue holds up to ten messages of at most 1024 bytes; \<open>None\<close> is a call that
  waits: for a message, or for room. Whether the queue can be opened, and what was in the client's
  buffer before, are inputs.

  Proved: the server prints the line the client read, and what happens without a line.
\<close>

definition MAX_SIZE :: nat where "MAX_SIZE = 1024"

definition MAX_MSG :: nat where "MAX_MSG = 10"

type_synonym queue = "string list"

text \<open>\<open>mq_send\<close>: a message that is too long is refused, and the result is not looked at.\<close>

definition mq_send :: "string \<Rightarrow> queue \<Rightarrow> queue option" where
  "mq_send msg q = (if length msg > MAX_SIZE then Some q else if length q \<ge> MAX_MSG then None else Some (q @ [msg]))"

definition queue_fail :: "string \<Rightarrow> string \<Rightarrow> outcome" where
  "queue_fail out message = exits out (message @ NL) 1"

text \<open>\<open>fgets\<close> at the end of the input leaves the buffer as it was.\<close>

definition client2_main :: "bool \<Rightarrow> buf \<Rightarrow> string \<Rightarrow> queue \<Rightarrow> (queue \<times> outcome) option" where
  "client2_main opened garbage stdin q =
     (if \<not> opened then Some (q, queue_fail [] ''Can't open message queue'')
      else
        let buffer = (if stdin = [] then garbage else fgets MAX_SIZE stdin @ [NUL])
        in map_option (\<lambda>q'. (q', exits ''Enter a message: '' [] 0)) (mq_send (cstr buffer) q))"

text \<open>The bytes received are printed one by one.\<close>

definition server2_main :: "bool \<Rightarrow> bool \<Rightarrow> queue \<Rightarrow> (queue \<times> outcome) option" where
  "server2_main opened receive_fails q =
     (if \<not> opened then Some (q, queue_fail [] ''Can't create request queue'')
      else if receive_fails then Some (q, queue_fail [] ''Unable to receive message.'')
      else case q of
        [] \<Rightarrow> None
      | msg # q' \<Rightarrow> Some ([], exits (''Got message: '' @ concat (map (\<lambda>c. [c]) msg)) [] 0))"

lemma concat_single: "concat (map (\<lambda>c. [c]) xs) = xs"
  by (induction xs) simp_all

lemma client2_line: "stdin \<noteq> [] \<Longrightarrow> NUL \<notin> set stdin \<Longrightarrow> cstr (fgets MAX_SIZE stdin @ [NUL]) = fgets MAX_SIZE stdin"
proof -
  assume "NUL \<notin> set stdin"
  then have "NUL \<notin> set (fgets MAX_SIZE stdin)" using fgets_prefix(1) [of MAX_SIZE stdin] in_set_takeD by metis
  then show ?thesis using cstr_append_NUL by blast
qed

lemma fgets_line: "length line < n \<Longrightarrow> CHR 0x0A \<notin> set line \<Longrightarrow> fgets n (line @ NL @ rest) = line @ NL"
proof (induction line arbitrary: n)
  case Nil
  then show ?case by (cases n) simp_all
next
  case (Cons c line)
  then show ?case by (cases n) auto
qed

text \<open>
  The server prints the line that the client read from its user, when it has at most 1023
  characters, and the queue is empty again; the client's message is never too long for the queue.
\<close>

theorem sample_queue_delivers:
  assumes "length line < 1024" "CHR 0x0A \<notin> set line" "NUL \<notin> set line" "NUL \<notin> set rest"
  shows "\<exists>q. client2_main True garbage (line @ NL @ rest) [] = Some (q, exits ''Enter a message: '' [] 0)
    \<and> server2_main True False q = Some ([], exits (''Got message: '' @ line @ NL) [] 0)"
proof -
  have f: "fgets MAX_SIZE (line @ NL @ rest) = line @ NL" using fgets_line [of line MAX_SIZE rest] assms(1,2) by (simp add: MAX_SIZE_def)
  have "cstr (fgets MAX_SIZE (line @ NL @ rest) @ [NUL]) = line @ NL"
    using client2_line [of "line @ NL @ rest"] assms(3,4) f by auto
  then have "mq_send (cstr (fgets MAX_SIZE (line @ NL @ rest) @ [NUL])) [] = Some [line @ NL]"
    using assms(1) by (simp add: mq_send_def MAX_SIZE_def MAX_MSG_def)
  then show ?thesis by (simp add: client2_main_def server2_main_def concat_single)
qed

theorem sample_queue_delivers_witness:
  "\<exists>q. client2_main True [] (''hello'' @ NL) [] = Some (q, exits ''Enter a message: '' [] 0)
    \<and> server2_main True False q = Some ([], exits (''Got message: hello'' @ NL) [] 0)"
  using sample_queue_delivers [of "''hello''" "[]" "[]"] by simp

end
