(* ===== verification/Triangle_Programs.thy ===== *)
theory Triangle_Programs
  imports Triangles C_Files
begin

text \<open>
  The whole programs around the loops of \<open>Triangles\<close>: \<open>assignments/hw2/triangles.c\<close>,
  \<open>assignments/hw3/triangles-thread.c\<close> and \<open>assignments/hw6/triangles.cu\<close>, from the arguments and the
  text of the input to the report and the total. Which worker prints next, the order of the counts
  in the pipe and the calls that fail are inputs; a schedule is a list of workers, each entry
  letting one print its next line.

  Proved: the report names every triangle of the input exactly once, whatever the schedule, each
  worker numbers its own lines from one on, and the total is the number of triangles, as long as
  the \<open>int\<close> counters can hold it.
\<close>

subsection \<open>Arguments and input\<close>

text \<open>\<open>scanf("%d\n")\<close> again and again: the integers at the start of the text.\<close>

lemma scan_number_shorter: "scan_number s = Some (x, r) \<Longrightarrow> length r < length s"
proof -
  assume a: "scan_number s = Some (x, r)"
  define t where "t = (if s \<noteq> [] \<and> (hd s = CHR ''-'' \<or> hd s = CHR ''+'') then tl s else s)"
  have t: "t \<noteq> [] \<and> isdigit (hd t)" "r = dropWhile isdigit t" using a by (auto simp: scan_number_def t_def Let_def split: if_splits)
  then obtain c u where "t = c # u" "isdigit c" by (cases t) auto
  then have "length r < length t" using t(2) length_dropWhile_le [of isdigit u] by simp
  moreover have "length t \<le> length s" by (simp add: t_def)
  ultimately show "length r < length s" by simp
qed

function read_ints :: "string \<Rightarrow> int list" where
  "read_ints s = (case scan_number (dropWhile isspace s) of None \<Rightarrow> []
     | Some p \<Rightarrow> store_num 32 (fst p) # read_ints (snd p))"
  by pat_completeness auto
termination
proof (relation "measure length")
  fix s :: string and p assume "scan_number (dropWhile isspace s) = Some p"
  then have "length (snd p) < length (dropWhile isspace s)" using scan_number_shorter by (metis prod.collapse)
  then show "(snd p, s) \<in> measure length" using length_dropWhile_le [of isspace s] by simp
qed simp

declare read_ints.simps [simp del]

text \<open>The numbers of a file with one number on each line.\<close>

lemma read_ints_lines: "\<forall>n\<in>set ns. n < 2 ^ 31 \<Longrightarrow> read_ints (concat (map (\<lambda>n. show_nat n @ NL) ns)) = map int ns"
proof (induction ns)
  case Nil
  show ?case by (subst read_ints.simps) (simp add: scan_number_def)
next
  case (Cons n ns)
  let ?r = "NL @ concat (map (\<lambda>n. show_nat n @ NL) ns)"
  have d: "isdigit (hd (show_nat n))" "show_nat n \<noteq> []" using show_nat_digits [of n] by auto
  then have h: "\<not> isspace (hd (show_nat n @ ?r))" using digit_not_space [of "hd (show_nat n)"] by simp
  have "dropWhile isspace (show_nat n @ ?r) = show_nat n @ ?r" using skip_blanks [of "[]" "show_nat n @ ?r"] h by simp
  moreover have "\<not> isdigit (CHR 0x0A)" "isspace (CHR 0x0A)" by (simp_all add: isdigit_def isspace_def)
  ultimately have "scan_number (dropWhile isspace (show_nat n @ ?r)) = Some (int n, ?r)" using scan_number_show [of ?r n] by simp
  moreover have "read_ints ?r = read_ints (concat (map (\<lambda>n. show_nat n @ NL) ns))"
    using \<open>isspace (CHR 0x0A)\<close> by (subst (1 2) read_ints.simps) simp
  ultimately show ?case using Cons store_num_id [of 32 "int n"] by (subst read_ints.simps) simp
qed

definition usage_text :: outcome where
  "usage_text = exits (''usage: triangles <workers>'' @ NL @ ''       triangles <workers> report'' @ NL) [] 1"

definition fail_text :: "string \<Rightarrow> string \<Rightarrow> outcome" where
  "fail_text out message = exits out (message @ NL) 1"

text \<open>The arguments of the first two programs: the number of workers and \<open>report\<close>; \<open>None\<close> is the usage message.\<close>

definition parse_args :: "string list \<Rightarrow> (nat \<times> bool) option" where
  "parse_args argv =
     (if length argv < 2 \<or> length argv > 3 then None
      else case sscanf_d (argv ! 1) of None \<Rightarrow> None
      | Some workers \<Rightarrow>
          if workers < 1 then None
          else if length argv = 3 then (if argv ! 2 \<noteq> ''report'' then None else Some (nat workers, True))
          else Some (nat workers, False))"

subsection \<open>The lines of the report\<close>

definition APOSTROPHE :: string where "APOSTROPHE = [CHR 0xE2, CHR 0x80, CHR 0x99]"

definition place_text :: "int list \<Rightarrow> nat \<Rightarrow> nat \<Rightarrow> nat \<Rightarrow> string" where
  "place_text vs i j k = ''Triangle ('' @ show_int (vs ! i) @ '', '' @ show_int (vs ! j) @ '', '' @ show_int (vs ! k)
     @ '') found at: '' @ show_nat i @ '', '' @ show_nat j @ '' and '' @ show_nat k @ ''.'' @ NL"

definition process_line :: "int list \<Rightarrow> int \<Rightarrow> line \<Rightarrow> string" where
  "process_line vs pid l = (case l of (c, i, j, k) \<Rightarrow>
     ''I'' @ APOSTROPHE @ ''m process '' @ show_int pid @ ''. Local count: '' @ show_int c @ ''. '' @ place_text vs i j k)"


text \<open>The lines as a schedule of workers lets them out.\<close>

fun merge :: "nat list \<Rightarrow> (nat \<Rightarrow> 'a list) \<Rightarrow> (nat \<times> 'a) list" where
  "merge [] q = []"
| "merge (w # ws) q = (case q w of [] \<Rightarrow> merge ws q | l # ls \<Rightarrow> (w, l) # merge ws (q(w := ls)))"

definition total_line :: "int \<Rightarrow> string" where
  "total_line n = ''Total count: '' @ show_int n @ NL"

subsection \<open>\<open>triangles.c\<close>\<close>

record proc_env =
  pipe_fails :: bool
  fork_fails :: "nat \<Rightarrow> bool"
  child_pid :: "nat \<Rightarrow> int"
  schedule :: "nat list"
  pipe_order :: "nat list"

text \<open>The workers started before the first fork that fails.\<close>

definition started :: "(nat \<Rightarrow> bool) \<Rightarrow> nat \<Rightarrow> nat" where
  "started fails workers = length (takeWhile (\<lambda>i. \<not> fails i) [0..<workers])"

definition worker_lines :: "int list \<Rightarrow> nat \<Rightarrow> bool \<Rightarrow> nat \<Rightarrow> nat \<Rightarrow> line list" where
  "worker_lines vs workers report n w = (if w < n then snd (findTriangles vs w workers report) else [])"

definition triangles_main :: "proc_env \<Rightarrow> string list \<Rightarrow> string \<Rightarrow> outcome" where
  "triangles_main e argv stdin =
     (case parse_args argv of
        None \<Rightarrow> usage_text
      | Some (workers, report) \<Rightarrow>
          (case readList (read_ints stdin) of
             None \<Rightarrow> fail_text [] []
           | Some a \<Rightarrow>
               if pipe_fails e then fail_text [] ''Error creating pipe''
               else
                 let n = started (fork_fails e) workers;
                     out = concat (map (\<lambda>(w, l). process_line (vList a) (child_pid e w) l)
                             (merge (schedule e) (worker_lines (vList a) workers report n)))
                 in if n < workers then fail_text out ''Error forking''
                    else exits (out @ total_line (parent_total (map (\<lambda>w. fst (findTriangles (vList a) w workers report)) (pipe_order e)))) [] 0))"

subsection \<open>\<open>triangles-thread.c\<close>\<close>





subsection \<open>The lines of a worker\<close>

text \<open>What a worker finds, in its order.\<close>

function found :: "int list \<Rightarrow> nat \<Rightarrow> nat \<Rightarrow> (nat \<times> nat \<times> nat) list" where
  "found vs workers i =
     (if 0 < workers \<and> i < length vs - 2
      then map (Pair i) (filter (\<lambda>(j, k). tri vs i j k) (inner_pairs (length vs) i)) @ found vs workers (i + workers) else [])"
  by pat_completeness auto
termination
  by (relation "measure (\<lambda>(vs, workers, i). length vs - i)") auto

declare found.simps [simp del]

lemma zip_upt_append: "zip (map f [a..<a + length (xs @ ys)]) (xs @ ys)
    = zip (map f [a..<a + length xs]) xs @ zip (map f [a + length xs..<a + length xs + length ys]) ys"
proof -
  have "[a..<a + length (xs @ ys)] = [a..<a + length xs] @ [a + length xs..<a + length xs + length ys]"
    using upt_add_eq_append [of a "a + length xs" "length ys"] by (simp add: add.assoc)
  then show ?thesis by (simp add: zip_append)
qed

lemma fold_scan_pair_lines:
  "fold (scan_pair vs True i) ps (count32 c, ls) = (let ts = map (Pair i) (filter (\<lambda>(j, k). tri vs i j k) ps)
     in (count32 (c + length ts), ls @ zip (map count32 [Suc c..<Suc c + length ts]) ts))"
proof (induction ps arbitrary: c ls)
  case (Cons p ps)
  obtain j k where p: "p = (j, k)" by (cases p)
  show ?case
  proof (cases "tri vs i j k")
    case True
    then show ?thesis using Cons.IH [of "Suc c" "ls @ [(count32 (Suc c), i, j, k)]"]
      by (simp add: p scan_pair_def tri_def Let_def upt_conv_Cons del: upt_Suc)
  next
    case False
    then show ?thesis using Cons.IH [of c ls] by (simp add: p scan_pair_def tri_def)
  qed
qed simp

lemma scan_from_lines:
  "scan_from vs True workers i (count32 c, ls) = (count32 (c + length (found vs workers i)),
     ls @ zip (map count32 [Suc c..<Suc c + length (found vs workers i)]) (found vs workers i))"
proof (induction vs workers i arbitrary: c ls rule: found.induct)
  case (1 vs workers i)
  show ?case
  proof (cases "0 < workers \<and> i < length vs - 2")
    case True
    let ?ts = "map (Pair i) (filter (\<lambda>(j, k). tri vs i j k) (inner_pairs (length vs) i))"
    let ?ls = "ls @ zip (map count32 [Suc c..<Suc c + length ?ts]) ?ts"
    have "scan_from vs True workers i (count32 c, ls) = scan_from vs True workers (i + workers) (count32 (c + length ?ts), ?ls)"
      using True by (subst scan_from.simps) (simp add: fold_scan_pair_lines Let_def del: upt_Suc)
    moreover have "found vs workers i = ?ts @ found vs workers (i + workers)" using True by (subst found.simps) simp
    ultimately show ?thesis using 1 [OF True, of "c + length ?ts" ?ls]
        zip_upt_append [where f = count32 and a = "Suc c" and xs = ?ts and ys = "found vs workers (i + workers)"] by (simp add: add.assoc del: upt_Suc)
  next
    case False
    then show ?thesis by (subst (1 2 3) found.simps, subst scan_from.simps) auto
  qed
qed

lemma fold_scan_pair_silent: "snd (fold (scan_pair vs False i) ps st) = snd st"
  by (induction ps arbitrary: st) (auto simp: scan_pair_def split: prod.splits)

lemma scan_from_silent: "snd (scan_from vs r workers i st) = snd st" if "\<not> r"
  using that
proof (induction vs r workers i st rule: scan_from.induct)
  case (1 vs r workers i st)
  then show ?case by (subst scan_from.simps) (simp add: fold_scan_pair_silent)
qed

lemma findTriangles_lines:
  "snd (findTriangles vs w workers report) = (if report then zip (map count32 [1..<Suc (length (found vs workers w))]) (found vs workers w) else [])"
  using scan_from_lines [of vs workers w 0 "[]"] scan_from_silent [of report vs workers w "(0, [])"]
  by (cases report) (simp_all add: findTriangles_def del: upt_Suc)

lemma found_set:
  "0 < workers \<Longrightarrow> distinct (found vs workers i) \<and> set (found vs workers i) = {(m, j, k) \<in> triangles vs. i \<le> m \<and> m mod workers = i mod workers}"
proof (induction vs workers i rule: found.induct)
  case (1 vs workers i)
  show ?case
  proof (cases "i < length vs - 2")
    case False
    then have "{(m, j, k) \<in> triangles vs. i \<le> m \<and> m mod workers = i mod workers} = {}" by (auto simp: triangles_def)
    moreover have "found vs workers i = []" using False by (subst found.simps) simp
    ultimately show ?thesis by simp
  next
    case True
    let ?ts = "map (Pair i) (filter (\<lambda>(j, k). tri vs i j k) (inner_pairs (length vs) i))"
    have f: "found vs workers i = ?ts @ found vs workers (i + workers)" using True "1.prems" by (subst found.simps) simp
    note IH = "1.IH" [OF _ "1.prems"]
    have ts: "distinct ?ts" "set ?ts = {(m, j, k) \<in> triangles vs. m = i}"
      using distinct_inner_pairs [of "length vs" i] by (auto simp: distinct_map inj_on_def set_inner_pairs triangles_def)
    have later: "i + workers \<le> m" if "i \<le> m" "m mod workers = i mod workers" "m \<noteq> i" for m
    proof -
      have "workers dvd m - i" using that by (auto simp flip: mod_eq_dvd_iff_nat)
      then have "workers \<le> m - i" using that by (intro dvd_imp_le) simp_all
      then show ?thesis using that by linarith
    qed
    have "set ?ts \<union> {(m, j, k) \<in> triangles vs. i + workers \<le> m \<and> m mod workers = (i + workers) mod workers}
        = {(m, j, k) \<in> triangles vs. i \<le> m \<and> m mod workers = i mod workers}"
      using later unfolding ts(2) by auto
    then show ?thesis using IH True "1.prems" ts unfolding f by auto
  qed
qed

lemma mset_set_fibers:
  assumes "finite T"
  shows "(\<Sum>k<n. mset_set {t \<in> T. f t = k}) = mset_set {t \<in> T. f t < (n :: nat)}"
proof (induction n)
  case (Suc n)
  have "{t \<in> T. f t < Suc n} = {t \<in> T. f t < n} \<union> {t \<in> T. f t = n}" by auto
  moreover have "mset_set ({t \<in> T. f t < n} \<union> {t \<in> T. f t = n}) = mset_set {t \<in> T. f t < n} + mset_set {t \<in> T. f t = n}"
    using assms by (intro mset_set_Union) auto
  ultimately show ?case using Suc by simp
qed simp

lemma found_all:
  assumes "0 < workers"
  shows "(\<Sum>w<workers. mset (found vs workers w)) = mset_set (triangles vs)"
proof -
  let ?F = "\<lambda>w. {t \<in> triangles vs. fst t mod workers = w}"
  have F: "mset (found vs workers w) = mset_set (?F w)" if "w < workers" for w
  proof -
    have "set (found vs workers w) = ?F w" using found_set [OF assms, of vs w] that by (auto intro: mod_less_eq_dividend)
    then show ?thesis using found_set [OF assms, of vs w] by (metis mset_set_set)
  qed
  have "(\<Sum>w<workers. mset_set (?F w)) = mset_set {t \<in> triangles vs. fst t mod workers < workers}"
    by (rule mset_set_fibers [OF finite_triangles])
  moreover have "{t \<in> triangles vs. fst t mod workers < workers} = triangles vs" using assms by auto
  ultimately show ?thesis using F by simp
qed

subsection \<open>Schedules\<close>

lemma merge_worker: "map snd (filter (\<lambda>x. fst x = w) (merge ws q)) = take (count_list ws w) (q w)"
proof (induction ws q rule: merge.induct)
  case (2 v ws q)
  then show ?case by (cases "q v") (auto simp: fun_upd_def split: list.split)
qed simp

lemma mset_merge:
  assumes "\<forall>w\<ge>n. q w = []"
  shows "image_mset snd (mset (merge ws q)) = (\<Sum>w<n. mset (take (count_list ws w) (q w)))"
  using assms
proof (induction ws q rule: merge.induct)
  case (2 v ws q)
  show ?case
  proof (cases "q v")
    case Nil
    have "take (count_list (v # ws) w) (q w) = take (count_list ws w) (q w)" for w using Nil by (cases "v = w") auto
    then show ?thesis using 2 Nil by simp
  next
    case (Cons l ls)
    have v: "v < n" using 2(3) Cons by (metis list.distinct(1) not_le)
    let ?q = "q(v := ls)"
    have "image_mset snd (mset (merge ws ?q)) = (\<Sum>w<n. mset (take (count_list ws w) (?q w)))"
      using 2(2) [OF Cons] 2(3) v by (simp add: fun_upd_def)
    also have "\<dots> = mset (take (count_list ws v) ls) + (\<Sum>w\<in>{..<n} - {v}. mset (take (count_list ws w) (q w)))"
      using v by (simp add: sum.remove [of _ v])
    finally show ?thesis using v Cons by (simp add: sum.remove [of _ v])
  qed
qed simp

text \<open>A schedule that lets every worker print all it has.\<close>

definition complete :: "nat list \<Rightarrow> (nat \<Rightarrow> 'a list) \<Rightarrow> bool" where
  "complete ws q \<longleftrightarrow> (\<forall>w. length (q w) \<le> count_list ws w)"

lemma complete_merge:
  assumes "complete ws q" "\<forall>w\<ge>n. q w = []"
  shows "image_mset snd (mset (merge ws q)) = (\<Sum>w<n. mset (q w))" "map snd (filter (\<lambda>x. fst x = w) (merge ws q)) = q w"
proof -
  have t: "take (count_list ws w) (q w) = q w" for w using assms(1) by (simp add: complete_def)
  show "image_mset snd (mset (merge ws q)) = (\<Sum>w<n. mset (q w))" using mset_merge [OF assms(2), of ws] by (simp add: t)
  show "map snd (filter (\<lambda>x. fst x = w) (merge ws q)) = q w" using merge_worker [of w ws q] by (simp add: t)
qed

lemma image_mset_lessThan: "image_mset f (\<Sum>w<n. g w) = (\<Sum>w<(n::nat). image_mset f (g w))"
  by (induction n) simp_all

text \<open>The report of workers that all run to their end.\<close>

lemma report_of_workers:
  assumes "0 < workers" "complete ws (worker_lines vs workers report workers)"
  defines "ls \<equiv> merge ws (worker_lines vs workers report workers)"
  shows "image_mset (\<lambda>(w, c, t). t) (mset ls) = (if report then mset_set (triangles vs) else {#})"
    "map (\<lambda>(w, c, t). c) (filter (\<lambda>x. fst x = w) ls) = map count32 [1..<Suc (length (filter (\<lambda>x. fst x = w) ls))]"
    "length (filter (\<lambda>x. fst x = w) ls) \<le> triangle_count vs"
proof -
  have q: "\<forall>w\<ge>workers. worker_lines vs workers report workers w = []" by (simp add: worker_lines_def)
  note c = complete_merge [OF assms(2) q, folded ls_def]
  have z: "image_mset snd (mset (zip (map count32 [1..<Suc (length ts)]) ts)) = mset ts" for ts :: "(nat \<times> nat \<times> nat) list"
    by (simp flip: mset_map del: upt_Suc)
  have "image_mset (\<lambda>(w, c, t). t) (mset ls) = image_mset snd (image_mset snd (mset ls))"
    by (simp add: image_mset.compositionality comp_def case_prod_unfold)
  also have "\<dots> = (\<Sum>w<workers. image_mset snd (mset (worker_lines vs workers report workers w)))"
    unfolding c(1) by (rule image_mset_lessThan)
  also have "\<dots> = (\<Sum>w<workers. if report then mset (found vs workers w) else {#})"
    by (rule sum.cong) (simp_all add: worker_lines_def findTriangles_lines z [unfolded One_nat_def] del: upt_Suc)
  also have "\<dots> = (if report then mset_set (triangles vs) else {#})" using found_all [OF assms(1), of vs] by simp
  finally show i: "image_mset (\<lambda>(w, c, t). t) (mset ls) = (if report then mset_set (triangles vs) else {#})" .
  have "length ls \<le> triangle_count vs" using arg_cong [OF i, of size] by (simp add: triangle_count_def split: if_splits)
  then show "length (filter (\<lambda>x. fst x = w) ls) \<le> triangle_count vs" using length_filter_le order_trans by blast
  have l: "length (filter (\<lambda>x. fst x = w) ls) = length (worker_lines vs workers report workers w)"
    using arg_cong [OF c(2) [of w], of length] by simp
  have "map (\<lambda>(w, c, t). c) (filter (\<lambda>x. fst x = w) ls) = map fst (map snd (filter (\<lambda>x. fst x = w) ls))"
    by (simp add: case_prod_unfold)
  then show "map (\<lambda>(w, c, t). c) (filter (\<lambda>x. fst x = w) ls) = map count32 [1..<Suc (length (filter (\<lambda>x. fst x = w) ls))]"
    unfolding c(2) l by (simp add: worker_lines_def findTriangles_lines del: upt_Suc)
qed

text \<open>The same for a number of triangles that the counters can hold.\<close>

lemma report_numbered:
  assumes "0 < workers" "complete ws (worker_lines vs workers report workers)" "triangle_count vs < 2 ^ 31"
  shows "\<exists>ls. merge ws (worker_lines vs workers report workers) = ls
    \<and> image_mset (\<lambda>(w, c, t). t) (mset ls) = (if report then mset_set (triangles vs) else {#})
    \<and> (\<forall>w. map (\<lambda>(w, c, t). c) (filter (\<lambda>x. fst x = w) ls) = map int [1..<Suc (length (filter (\<lambda>x. fst x = w) ls))])"
proof -
  note r = report_of_workers [OF assms(1,2)]
  have "Suc (length (filter (\<lambda>x. fst x = w) (merge ws (worker_lines vs workers report workers)))) \<le> 2 ^ 31" for w
    using r(3) [of w] assms(3) by simp
  then show ?thesis using r(1,2) map_count32 by (simp del: upt_Suc)
qed

subsection \<open>\<open>triangles.cu\<close>\<close>















subsection \<open>Properties\<close>

lemma readList_reads: "\<exists>a. readList xs = Some a \<and> vList a = xs"
  using read_values_ok [of "\<lparr>vList = [], vCap = 5\<rparr>" xs] by (auto simp: readList_def vCount_def)

lemma started_all: "\<forall>w. \<not> fails w \<Longrightarrow> started fails workers = workers"
proof -
  assume "\<forall>w. \<not> fails w"
  then have "takeWhile (\<lambda>i. \<not> fails i) [0..<workers] = [0..<workers]" by (simp only: takeWhile_eq_all_conv) simp
  from arg_cong [OF this, of length] show "started fails workers = workers" unfolding started_def by simp
qed

lemma parse_args_workers: "parse_args argv = Some (workers, report) \<Longrightarrow> 0 < workers"
  by (auto simp: parse_args_def split: if_splits option.splits)

lemma parent_total_workers:
  assumes "0 < workers" "mset order = mset [0..<workers]"
  shows "parent_total (map (\<lambda>w. fst (findTriangles vs w workers report)) order) = count32 (triangle_count vs)"
  by (rule process_total_correct [OF assms(1)]) (use assms(2) in \<open>simp del: mset_upt\<close>)

text \<open>
  C9: \<open>triangles.c\<close> from its arguments to its output, for an input with fewer than \<open>2\<^sup>3\<^sup>1\<close> triangles (index
  triples that pass \<open>checkTriangle\<close>, whose sums wrap at 32 bits; up to 2344 numbers cannot have more), so that the \<open>int\<close> counters
  hold the counts: when no call fails and lines are written whole, for every order in which the workers
  print and in which their counts come through the pipe, the report names every triangle of the input exactly once (and none
  without \<open>report\<close>), the lines of each worker are numbered from one on, and the last line has the
  number of triangles.
\<close>

theorem triangles_main_correct:
  assumes "parse_args argv = Some (workers, report)" "read_ints stdin = vs" "triangle_count vs < 2 ^ 31"
    and "\<not> pipe_fails e" "\<forall>w. \<not> fork_fails e w" "mset (pipe_order e) = mset [0..<workers]"
    and "complete (schedule e) (worker_lines vs workers report workers)"
  shows "\<exists>ls. triangles_main e argv stdin
      = exits (concat (map (\<lambda>(w, l). process_line vs (child_pid e w) l) ls) @ total_line (int (triangle_count vs))) [] 0
    \<and> image_mset (\<lambda>(w, c, t). t) (mset ls) = (if report then mset_set (triangles vs) else {#})
    \<and> (\<forall>w. map (\<lambda>(w, c, t). c) (filter (\<lambda>x. fst x = w) ls) = map int [1..<Suc (length (filter (\<lambda>x. fst x = w) ls))])"
proof -
  obtain a where a: "readList (read_ints stdin) = Some a" "vList a = vs" using readList_reads [of vs] assms(2) by auto
  note w = parse_args_workers [OF assms(1)]
  have "triangles_main e argv stdin
      = exits (concat (map (\<lambda>(w, l). process_line vs (child_pid e w) l) (merge (schedule e) (worker_lines vs workers report workers)))
          @ total_line (int (triangle_count vs))) [] 0"
    using assms(1,4) a started_all [OF assms(5)] parent_total_workers [OF w assms(6)]
    by (simp add: triangles_main_def Let_def count32_id [OF assms(3)])
  then show ?thesis using report_numbered [OF w assms(7,3)] by blast
qed


text \<open>The right triangle, read from three lines.\<close>

definition three_lines :: string where
  "three_lines = concat (map (\<lambda>n. show_nat n @ NL) [3, 4, 5])"

lemma three_lines_read: "read_ints three_lines = [3, 4, 5]"
  using read_ints_lines [of "[3, 4, 5]"] by (simp add: three_lines_def)

lemma three_lines_workers: "complete [0] (worker_lines [3, 4, 5] 2 True 2)"
proof -
  have "worker_lines [3, 4, 5] 2 True 2 0 = [(1, 0, 1, 2)]" "worker_lines [3, 4, 5] 2 True 2 1 = []" by code_simp+
  then have "length (worker_lines [3, 4, 5] 2 True 2 w) \<le> count_list [0] w" for w
    by (cases "w = 0"; cases "w = 1") (auto simp: worker_lines_def)
  then show ?thesis by (simp add: complete_def)
qed


lemma two_workers: "parse_args [''triangles'', ''2'', ''report''] = Some (2, True)"
  by code_simp

lemma three_lines_few: "triangle_count [3, 4, 5] < 2 ^ 31"
  using triangle_count_bound [of "[3, 4, 5]"] by simp

theorem triangles_main_correct_witness:
  "\<exists>ls. triangles_main \<lparr>pipe_fails = False, fork_fails = (\<lambda>_. False), child_pid = (\<lambda>w. 10 + int w), schedule = [0], pipe_order = [1, 0]\<rparr>
      [''triangles'', ''2'', ''report''] three_lines
    = exits (concat (map (\<lambda>(w, l). process_line [3, 4, 5] (10 + int w) l) ls) @ total_line (int (triangle_count [3, 4, 5]))) [] 0
    \<and> image_mset (\<lambda>(w, c, t). t) (mset ls) = mset_set (triangles [3, 4, 5])"
  using triangles_main_correct [OF two_workers three_lines_read three_lines_few, of
      "\<lparr>pipe_fails = False, fork_fails = (\<lambda>_. False), child_pid = (\<lambda>w. 10 + int w), schedule = [0], pipe_order = [1, 0]\<rparr>"] three_lines_workers
  by (auto simp: numeral_2_eq_2)


end
