(* ===== verification/Points.thy ===== *)
theory Points
  imports Exchange_Sort
begin

text \<open>
  \<open>exercises/ex14/sort.c\<close>: sort a mapped file of points of interest by their distance to a target
  and print them.

  The file is its bytes, and a mapping is the file and zeros up to the end of its last page. The
  arithmetic of \<open>double\<close>, \<open>cos\<close>, \<open>sin\<close>, \<open>acos\<close> and the conversions of \<open>scanf\<close> and \<open>printf\<close> are
  parameters: a record of operations on any type, in which \<open>magnitude\<close> is \<open>None\<close> for what is no
  number (the \<open>acos\<close> of more than 1 is none). A comparison with such a value is false.

  Proved, for every choice of these operations: the program keeps the points and the rest of the
  file, the points with a distance come out in its order, a point without one stays where it is,
  and a second run changes nothing.
\<close>

subsection \<open>Doubles\<close>

record ('d, 'm) doubles =
  plus_d :: "'d \<Rightarrow> 'd \<Rightarrow> 'd"
  times_d :: "'d \<Rightarrow> 'd \<Rightarrow> 'd"
  cos_d :: "'d \<Rightarrow> 'd"
  sin_d :: "'d \<Rightarrow> 'd"
  acos_d :: "'d \<Rightarrow> 'd"
  zero_d :: 'd
  DEG_TO_RAD :: 'd
  EARTH_RADIUS :: 'd
  magnitude :: "'d \<Rightarrow> 'm option"
  of_bytes :: "string \<Rightarrow> 'd"
  scan_lf :: "string \<Rightarrow> 'd option"
  show_f :: "nat \<Rightarrow> 'd \<Rightarrow> string"

text \<open>The comparison \<open>a < b\<close> of C.\<close>

definition less_d :: "('d, 'm :: linorder) doubles \<Rightarrow> 'd \<Rightarrow> 'd \<Rightarrow> bool" where
  "less_d F a b = (case (magnitude F a, magnitude F b) of (Some x, Some y) \<Rightarrow> x < y | _ \<Rightarrow> False)"

subsection \<open>Distances\<close>

definition unit_vector :: "('d, 'm) doubles \<Rightarrow> 'd \<Rightarrow> 'd \<Rightarrow> 'd list" where
  "unit_vector F lat lon =
     [times_d F (cos_d F (times_d F lon (DEG_TO_RAD F))) (cos_d F (times_d F lat (DEG_TO_RAD F))),
      times_d F (sin_d F (times_d F lon (DEG_TO_RAD F))) (cos_d F (times_d F lat (DEG_TO_RAD F))),
      sin_d F (times_d F lat (DEG_TO_RAD F))]"

definition dot_product :: "('d, 'm) doubles \<Rightarrow> 'd list \<Rightarrow> 'd list \<Rightarrow> 'd" where
  "dot_product F v1 v2 = fold (\<lambda>i dp. plus_d F dp (times_d F (v1 ! i) (v2 ! i))) [0..<length v1] (zero_d F)"

definition globalDistance :: "('d, 'm) doubles \<Rightarrow> 'd \<times> 'd \<Rightarrow> 'd \<Rightarrow> 'd \<Rightarrow> 'd" where
  "globalDistance F target lat lon =
     (let v1 = unit_vector F lat lon; v2 = unit_vector F (fst target) (snd target);
        angle = acos_d F (dot_product F v1 v2)
      in times_d F (EARTH_RADIUS F) angle)"

subsection \<open>Points\<close>

definition NAME_MAX :: nat where "NAME_MAX = 23"

text \<open>A struct of 40 bytes; the coordinates stay as their 8 bytes.\<close>

record POI =
  poi_name :: buf
  lat :: string
  lon :: string

definition POI_size :: nat where "POI_size = 40"

definition poi_of_bytes :: "string \<Rightarrow> POI" where
  "poi_of_bytes b = \<lparr>poi_name = take (NAME_MAX + 1) b, lat = take 8 (drop (NAME_MAX + 1) b), lon = drop (NAME_MAX + 9) b\<rparr>"

definition bytes_of_poi :: "POI \<Rightarrow> string" where
  "bytes_of_poi p = poi_name p @ lat p @ lon p"

definition numPOIs :: "nat \<Rightarrow> nat" where
  "numPOIs fileSize = fileSize div POI_size"

definition points_of :: "string \<Rightarrow> POI list" where
  "points_of mem = map (\<lambda>i. poi_of_bytes (take POI_size (drop (POI_size * i) mem))) [0..<numPOIs (length mem)]"

text \<open>The bytes after the last whole struct.\<close>

definition leftover :: "string \<Rightarrow> string" where
  "leftover mem = drop (POI_size * numPOIs (length mem)) mem"

definition distance_to :: "('d, 'm) doubles \<Rightarrow> 'd \<times> 'd \<Rightarrow> POI \<Rightarrow> 'd" where
  "distance_to F target p = globalDistance F target (of_bytes F (lat p)) (of_bytes F (lon p))"

subsection \<open>The sort\<close>

definition closer :: "('d, 'm :: linorder) doubles \<Rightarrow> 'd \<times> 'd \<Rightarrow> POI \<Rightarrow> POI \<Rightarrow> bool" where
  "closer F target p q = less_d F (distance_to F target p) (distance_to F target q)"

text \<open>The loops count with \<open>size_t\<close>, so \<open>numPOIs - 1\<close> wraps for 0.\<close>

definition outer_rounds :: "nat \<Rightarrow> nat" where
  "outer_rounds n = (n + (2 ^ 64 - 1)) mod 2 ^ 64"

definition sort_points :: "('d, 'm :: linorder) doubles \<Rightarrow> 'd \<times> 'd \<Rightarrow> POI list \<Rightarrow> POI list" where
  "sort_points F target plist = fold (exch_pass (closer F target)) [0..<outer_rounds (length plist)] plist"

text \<open>The mapped file after the sort: the structs where they were, and what follows them.\<close>

definition sort_file :: "('d, 'm :: linorder) doubles \<Rightarrow> 'd \<times> 'd \<Rightarrow> string \<Rightarrow> string" where
  "sort_file F target mem = concat (map bytes_of_poi (sort_points F target (points_of mem))) @ leftover mem"

subsection \<open>Output and main\<close>

text \<open>\<open>%s\<close> at \<open>plist[i].name\<close> reads on in the mapping until a NUL; \<open>None\<close> when there is none.\<close>

definition PAGE :: nat where "PAGE = 4096"

definition mapping_of :: "string \<Rightarrow> string" where
  "mapping_of mem = mem @ replicate ((PAGE - length mem mod PAGE) mod PAGE) NUL"

definition name_at :: "string \<Rightarrow> nat \<Rightarrow> string option" where
  "name_at mem i = (let b = drop (POI_size * i) (mapping_of mem) in if NUL \<in> set b then Some (cstr b) else None)"

definition pad_left :: "nat \<Rightarrow> string \<Rightarrow> string" where
  "pad_left n s = replicate (n - length s) (CHR '' '') @ s"

definition point_line :: "('d, 'm) doubles \<Rightarrow> 'd \<times> 'd \<Rightarrow> string \<Rightarrow> POI \<Rightarrow> string" where
  "point_line F target name p =
     pad_left 23 name @ '' '' @ pad_left 9 (show_f F 4 (of_bytes F (lat p))) @ '' ''
       @ pad_left 9 (show_f F 4 (of_bytes F (lon p))) @ '' ('' @ show_f F 2 (distance_to F target p) @ '' miles)'' @ NL"

fun print_points :: "('d, 'm) doubles \<Rightarrow> 'd \<times> 'd \<Rightarrow> string \<Rightarrow> nat list \<Rightarrow> string option" where
  "print_points F target mem [] = Some []"
| "print_points F target mem (i # is) =
     (case name_at mem i of None \<Rightarrow> None
      | Some name \<Rightarrow> map_option ((@) (point_line F target name (points_of mem ! i))) (print_points F target mem is))"

record sort_env =
  cannot_open :: bool
  cannot_stat :: bool
  cannot_map :: bool
  contents :: string

definition sort_fail :: "string \<Rightarrow> outcome" where
  "sort_fail msg = exits (msg @ NL) [] EXIT_FAILURE"

definition sort_usage :: string where
  "sort_usage = ''usage: sort <file.dat> <latitude> <longitude>''"

text \<open>
  \<open>main\<close>: what it prints, and the file it leaves. \<open>mmap\<close> refuses a length of 0.
\<close>

definition sort_main :: "('d, 'm :: linorder) doubles \<Rightarrow> sort_env \<Rightarrow> string list \<Rightarrow> (outcome \<times> string) option" where
  "sort_main F e args =
     (if length args \<noteq> 3 \<or> cannot_open e then Some (sort_fail sort_usage, contents e)
      else case (scan_lf F (args ! 1), scan_lf F (args ! 2)) of
          (Some targetLat, Some targetLon) \<Rightarrow>
            if cannot_stat e then Some (sort_fail ''Can't stat file'', contents e)
            else if cannot_map e \<or> contents e = [] then Some (sort_fail (''Can't map file file'' @ NL), contents e)
            else let mem = sort_file F (targetLat, targetLon) (contents e) in
              (case print_points F (targetLat, targetLon) mem [0..<numPOIs (length mem)] of
                 None \<Rightarrow> None
               | Some out \<Rightarrow> Some (exits out [] EXIT_SUCCESS, mem))
        | _ \<Rightarrow> Some (sort_fail sort_usage, contents e))"

subsection \<open>Points as bytes\<close>

definition whole_point :: "POI \<Rightarrow> bool" where
  "whole_point p \<longleftrightarrow> length (poi_name p) = 24 \<and> length (lat p) = 8 \<and> length (lon p) = 8"

lemma bytes_of_poi_of_bytes: "bytes_of_poi (poi_of_bytes b) = b"
proof -
  have "drop 33 b = drop 8 (drop 25 b)" "drop 32 b = drop 8 (drop 24 b)" by simp_all
  then show ?thesis by (simp add: bytes_of_poi_def poi_of_bytes_def NAME_MAX_def del: drop_drop)
qed

lemma poi_of_bytes_of_poi: "whole_point p \<Longrightarrow> poi_of_bytes (bytes_of_poi p) = p"
  by (simp add: bytes_of_poi_def poi_of_bytes_def NAME_MAX_def whole_point_def)

lemma length_bytes_of_poi: "whole_point p \<Longrightarrow> length (bytes_of_poi p) = POI_size"
  by (simp add: bytes_of_poi_def whole_point_def POI_size_def)

lemma length_points_of [simp]: "length (points_of mem) = numPOIs (length mem)"
  by (simp add: points_of_def)

lemma whole_points: "\<forall>p \<in> set (points_of mem). whole_point p"
proof -
  have "40 * i + 40 \<le> length mem" if "i < length mem div 40" for i using that by simp
  then show ?thesis
    by (auto simp: points_of_def whole_point_def poi_of_bytes_def numPOIs_def POI_size_def NAME_MAX_def min_def)
qed

lemma points_of_Cons:
  assumes "whole_point p"
  shows "points_of (bytes_of_poi p @ mem) = p # points_of mem" "leftover (bytes_of_poi p @ mem) = leftover mem"
proof -
  have n: "numPOIs (length (bytes_of_poi p @ mem)) = Suc (numPOIs (length mem))"
    by (simp add: numPOIs_def POI_size_def length_bytes_of_poi [OF assms, unfolded POI_size_def])
  show "points_of (bytes_of_poi p @ mem) = p # points_of mem"
    unfolding points_of_def n upt_conv_Cons [OF zero_less_Suc] map_Suc_upt [symmetric]
    by (simp add: length_bytes_of_poi [OF assms] poi_of_bytes_of_poi [OF assms])
  show "leftover (bytes_of_poi p @ mem) = leftover mem"
    unfolding leftover_def n by (simp add: length_bytes_of_poi [OF assms])
qed

lemma points_of_concat:
  assumes "\<forall>p \<in> set ps. whole_point p" "length rest < POI_size"
  shows "points_of (concat (map bytes_of_poi ps) @ rest) = ps \<and> leftover (concat (map bytes_of_poi ps) @ rest) = rest
    \<and> length (concat (map bytes_of_poi ps) @ rest) = POI_size * length ps + length rest"
  using assms(1)
proof (induction ps)
  case Nil
  then show ?case using assms(2) by (simp add: points_of_def leftover_def numPOIs_def)
next
  case (Cons p ps)
  then show ?case by (simp add: points_of_Cons length_bytes_of_poi)
qed

lemma file_is_points: "concat (map bytes_of_poi (points_of mem)) @ leftover mem = mem"
proof (induction mem rule: length_induct)
  case (1 mem)
  show ?case
  proof (cases "length mem < POI_size")
    case True
    then show ?thesis by (simp add: points_of_def leftover_def numPOIs_def)
  next
    case False
    define p rest where "p = poi_of_bytes (take POI_size mem)" and "rest = drop POI_size mem"
    have b: "bytes_of_poi p @ rest = mem" by (simp add: p_def rest_def bytes_of_poi_of_bytes)
    have w: "whole_point p" using False by (simp add: p_def whole_point_def poi_of_bytes_def POI_size_def NAME_MAX_def)
    have "length rest < length mem" using False by (simp add: rest_def POI_size_def)
    then have "concat (map bytes_of_poi (points_of rest)) @ leftover rest = rest" using 1 by blast
    then show ?thesis using b points_of_Cons [OF w, of rest] by simp
  qed
qed

lemma length_leftover: "length (leftover mem) < POI_size"
  by (simp add: leftover_def numPOIs_def POI_size_def flip: mult.commute [of "length mem div 40"])

text \<open>A name that ends within its field is printed as it is.\<close>

lemma name_at_field:
  assumes "i < numPOIs (length mem)" "NUL \<in> set (poi_name (points_of mem ! i))"
  shows "name_at mem i = Some (cstr (poi_name (points_of mem ! i)))"
proof -
  let ?b = "drop (POI_size * i) (mapping_of mem)"
  have le: "POI_size * i + POI_size \<le> length mem" using assms(1) by (simp add: numPOIs_def POI_size_def)
  have n: "poi_name (points_of mem ! i) = take 24 ?b"
    using assms(1) le by (simp add: points_of_def poi_of_bytes_def NAME_MAX_def mapping_of_def POI_size_def min_def)
  have "cstr ?b = cstr (take 24 ?b @ drop 24 ?b)" by (simp only: append_take_drop_id)
  also have "\<dots> = cstr (take 24 ?b)" using assms(2) unfolding n cstr_def by (intro takeWhile_append1) auto
  finally have "cstr ?b = cstr (take 24 ?b)" .
  moreover have "NUL \<in> set ?b" using assms(2) unfolding n by (rule in_set_takeD)
  ultimately show ?thesis by (simp add: name_at_def n Let_def)
qed

lemma print_points_all:
  assumes "\<forall>p \<in> set (points_of mem). NUL \<in> set (poi_name p)" "\<forall>i \<in> set is. i < numPOIs (length mem)"
  shows "print_points F target mem is
    = Some (concat (map (\<lambda>i. point_line F target (cstr (poi_name (points_of mem ! i))) (points_of mem ! i)) is))"
  using assms(2)
proof (induction "is")
  case (Cons i "is")
  then have "NUL \<in> set (poi_name (points_of mem ! i))" using assms(1) by simp
  then show ?case using Cons by (simp add: name_at_field)
qed simp

subsection \<open>Order\<close>

definition has_distance :: "('d, 'm) doubles \<Rightarrow> 'd \<times> 'd \<Rightarrow> POI \<Rightarrow> bool" where
  "has_distance F target p \<longleftrightarrow> magnitude F (distance_to F target p) \<noteq> None"

definition miles :: "('d, 'm) doubles \<Rightarrow> 'd \<times> 'd \<Rightarrow> POI \<Rightarrow> 'm" where
  "miles F target p = the (magnitude F (distance_to F target p))"

interpretation proximity: partial_key_order "closer F target" "has_distance F target" "miles F target"
  for F :: "('d, 'm :: linorder) doubles" and target
  by unfold_locales (auto simp: closer_def less_d_def has_distance_def miles_def split: option.splits)

lemma exch_pass_Nil: "fold (exch_pass lt) js [] = []"
  by (induction js) (simp_all add: exch_pass_def)

lemma outer_rounds_Suc:
  assumes "Suc n < 2 ^ 64"
  shows "outer_rounds (Suc n) = n"
proof -
  have "Suc n + (2 ^ 64 - 1) = n + 2 ^ 64" by simp
  then have "outer_rounds (Suc n) = n mod 2 ^ 64" unfolding outer_rounds_def by (simp only: mod_add_self2)
  then show ?thesis using assms by simp
qed

lemma sort_points_eq:
  assumes "length plist < 2 ^ 64"
  shows "sort_points F target plist = exch_sort (closer F target) plist"
proof (cases plist)
  case Nil
  then show ?thesis by (simp add: sort_points_def exch_sort_def exch_pass_Nil)
next
  case (Cons p ps)
  then show ?thesis using assms outer_rounds_Suc [of "length ps"] by (simp add: sort_points_def exch_sort_def)
qed

lemma sort_file_points:
  assumes "length mem < 2 ^ 64"
  shows "points_of (sort_file F target mem) = exch_sort (closer F target) (points_of mem)"
    "leftover (sort_file F target mem) = leftover mem" "length (sort_file F target mem) = length mem"
proof -
  let ?ps = "exch_sort (closer F target) (points_of mem)"
  have "numPOIs (length mem) \<le> length mem" by (simp add: numPOIs_def)
  then have e: "sort_file F target mem = concat (map bytes_of_poi ?ps) @ leftover mem"
    unfolding sort_file_def by (subst sort_points_eq) (use assms in simp_all)
  have "\<forall>p \<in> set ?ps. whole_point p" using whole_points by simp
  note c = points_of_concat [OF this length_leftover [of mem]]
  have "length mem = length (concat (map bytes_of_poi (points_of mem)) @ leftover mem)" by (simp only: file_is_points)
  then have "length mem = POI_size * numPOIs (length mem) + length (leftover mem)"
    using points_of_concat [OF whole_points length_leftover, of mem mem] by simp
  then show "points_of (sort_file F target mem) = ?ps" "leftover (sort_file F target mem) = leftover mem"
    "length (sort_file F target mem) = length mem" using c unfolding e by simp_all
qed

lemma sort_file_idem:
  assumes "length mem < 2 ^ 64"
  shows "sort_file F target (sort_file F target mem) = sort_file F target mem"
proof -
  let ?m = "sort_file F target mem"
  note m = sort_file_points [OF assms, of F target]
  have l: "length ?m < 2 ^ 64" using assms unfolding m(3) .
  note n = sort_file_points [OF l, of F target]
  have "points_of (sort_file F target ?m) = points_of ?m" "leftover (sort_file F target ?m) = leftover ?m"
    unfolding n(1,2) m(1) by (simp_all add: proximity.exch_sort_idem)
  then show ?thesis by (metis file_is_points)
qed

text \<open>
  What the program takes for granted: a file that is opened and mapped, neither empty nor of
  \<open>2 ^ 63\<close> bytes, arguments that are numbers, and names that end within their fields. The last is
  checked nowhere: printing a name without a NUL (\<open>name_at\<close>) goes on into what follows the field,
  or past the mapping.
\<close>

definition sortable :: "('d, 'm) doubles \<Rightarrow> sort_env \<Rightarrow> string list \<Rightarrow> 'd \<times> 'd \<Rightarrow> bool" where
  "sortable F e args target \<longleftrightarrow> length args = 3 \<and> scan_lf F (args ! 1) = Some (fst target) \<and> scan_lf F (args ! 2) = Some (snd target)
     \<and> \<not> cannot_open e \<and> \<not> cannot_stat e \<and> \<not> cannot_map e \<and> contents e \<noteq> [] \<and> length (contents e) < 2 ^ 63
     \<and> (\<forall>p \<in> set (points_of (contents e)). NUL \<in> set (poi_name p))"

text \<open>Sorted as far as there are distances, the rest in its place.\<close>

definition sorted_by_distance :: "('d, 'm :: linorder) doubles \<Rightarrow> 'd \<times> 'd \<Rightarrow> POI list \<Rightarrow> POI list \<Rightarrow> bool" where
  "sorted_by_distance F target old new \<longleftrightarrow> mset new = mset old
     \<and> (\<forall>b < length new. \<forall>a < b. has_distance F target (new ! a) \<and> has_distance F target (new ! b)
          \<longrightarrow> miles F target (new ! a) \<le> miles F target (new ! b))
     \<and> (\<forall>a < length old. \<not> has_distance F target (old ! a) \<longrightarrow> new ! a = old ! a)"

lemma sort_main_result:
  assumes s: "sortable F e args target"
  shows "sort_main F e args = (let mem = sort_file F target (contents e) in
    Some (exits (concat (map (\<lambda>p. point_line F target (cstr (poi_name p)) p) (points_of mem))) [] EXIT_SUCCESS, mem))"
proof -
  let ?m = "sort_file F target (contents e)"
  have l: "length (contents e) < 2 ^ 64" using s by (simp add: sortable_def)
  have "\<forall>p \<in> set (points_of ?m). NUL \<in> set (poi_name p)" using s sort_file_points(1) [OF l, of F target] by (simp add: sortable_def)
  then have "print_points F target ?m [0..<numPOIs (length ?m)]
      = Some (concat (map (\<lambda>i. point_line F target (cstr (poi_name (points_of ?m ! i))) (points_of ?m ! i)) [0..<length (points_of ?m)]))"
    by (subst print_points_all) simp_all
  also have "map (\<lambda>i. point_line F target (cstr (poi_name (points_of ?m ! i))) (points_of ?m ! i)) [0..<length (points_of ?m)]
      = map (\<lambda>p. point_line F target (cstr (poi_name p)) p) (points_of ?m)"
    by (rule nth_equalityI) simp_all
  finally show ?thesis using s by (simp add: sort_main_def sortable_def Let_def)
qed

text \<open>
  C33: A file that can be opened and mapped, with a latitude and a longitude that are numbers, and in
  which the name of every point ends with a NUL within its field (\<open>sort.c\<close> does not check this; it
  prints the name with \<open>%s\<close>), is sorted in place: it holds the same points, those with
  a distance in the order of it, those whose distance is no number where they were; what follows
  the last whole struct stays; the program prints one line for every point, in the new order; and
  a second run with the same target prints the same and leaves the file as it is.
\<close>

theorem sort_points_correct:
  assumes "sortable F e args target"
  shows "\<exists>out new. sort_main F e args = Some (exits out [] EXIT_SUCCESS, new)
    \<and> sorted_by_distance F target (points_of (contents e)) (points_of new)
    \<and> leftover new = leftover (contents e) \<and> length new = length (contents e)
    \<and> out = concat (map (\<lambda>p. point_line F target (cstr (poi_name p)) p) (points_of new))
    \<and> sort_main F (e\<lparr>contents := new\<rparr>) args = Some (exits out [] EXIT_SUCCESS, new)"
proof -
  let ?m = "sort_file F target (contents e)"
  have l: "length (contents e) < 2 ^ 64" using assms by (simp add: sortable_def)
  note p = sort_file_points [OF l, of F target]
  have "\<not> has_distance F target (old ! a) \<longrightarrow> exch_sort (closer F target) old ! a = old ! a" for old a
    by (simp add: proximity.exch_sort_fixes)
  then have sd: "sorted_by_distance F target (points_of (contents e)) (points_of ?m)"
    unfolding sorted_by_distance_def p(1)
    using proximity.ordered_exch_sort [of _ _ "points_of (contents e)" F target] by (simp add: mset_exch_sort)
  have "sortable F (e\<lparr>contents := ?m\<rparr>) args target"
    using assms p(1,3) by (auto simp: sortable_def)
  from sort_main_result [OF this] show ?thesis
    using sort_main_result [OF assms] sd p(2,3) sort_file_idem [OF l, of F target] by (simp add: Let_def)
qed

text \<open>A small arithmetic to run the program with: numbers up to 200 have an \<open>acos\<close>.\<close>

definition small_doubles :: "(int option, int) doubles" where
  "small_doubles = \<lparr>plus_d = combine_options (+), times_d = (\<lambda>a b. case (a, b) of (Some x, Some y) \<Rightarrow> Some (x * y) | _ \<Rightarrow> None),
     cos_d = map_option (\<lambda>x. 1), sin_d = id,
     acos_d = (\<lambda>a. case a of Some x \<Rightarrow> (if x > 200 then None else Some (200 - x)) | None \<Rightarrow> None),
     zero_d = Some 0, DEG_TO_RAD = Some 1, EARTH_RADIUS = Some 3959, magnitude = id,
     of_bytes = (\<lambda>b. Some (of_char (hd b))), scan_lf = (\<lambda>s. map_option Some (sscanf_d s)),
     show_f = (\<lambda>n a. case a of Some x \<Rightarrow> show_int x | None \<Rightarrow> ''nan'')\<rparr>"

definition field :: "nat \<Rightarrow> string \<Rightarrow> string" where
  "field n s = s @ replicate (n - length s) NUL"

definition small_points :: "string list \<Rightarrow> sort_env" where
  "small_points bs = \<lparr>cannot_open = False, cannot_stat = False, cannot_map = False, contents = concat bs @ ''end''\<rparr>"

definition far_point :: string where "far_point = field 24 ''far'' @ field 8 [CHR 0x01] @ field 8 []"
definition near_point :: string where "near_point = field 24 ''near'' @ field 8 [CHR 0x09] @ field 8 []"
definition beyond_point :: string where "beyond_point = field 24 ''here'' @ field 8 [CHR 0xFF] @ field 8 []"

lemma small_sortable:
  "sortable small_doubles (small_points [far_point, beyond_point, near_point]) [''f.dat'', ''1'', ''0''] (Some 1, Some 0)"
proof -
  let ?e = "small_points [far_point, beyond_point, near_point]"
  have "scan_lf small_doubles ''1'' = Some (Some 1)" "scan_lf small_doubles ''0'' = Some (Some 0)" by code_simp+
  moreover have "list_all (\<lambda>p. NUL \<in> set (poi_name p)) (points_of (contents ?e))" by code_simp
  moreover have "length (contents ?e) = 123" by code_simp
  ultimately show ?thesis by (auto simp: sortable_def list_all_iff small_points_def)
qed

text \<open>The point whose distance is no number stays in the second place, the two others change places.\<close>

theorem sort_points_correct_witness:
  "\<exists>out new. sort_main small_doubles (small_points [far_point, beyond_point, near_point]) [''f.dat'', ''1'', ''0''] = Some (exits out [] EXIT_SUCCESS, new)
    \<and> map (cstr \<circ> poi_name) (points_of new) = [''near'', ''here'', ''far''] \<and> leftover new = ''end''
    \<and> sorted_by_distance small_doubles (Some 1, Some 0) (points_of (contents (small_points [far_point, beyond_point, near_point]))) (points_of new)"
proof -
  let ?e = "small_points [far_point, beyond_point, near_point]"
  obtain out new where n: "sort_main small_doubles ?e [''f.dat'', ''1'', ''0''] = Some (exits out [] EXIT_SUCCESS, new)"
    and sd: "sorted_by_distance small_doubles (Some 1, Some 0) (points_of (contents ?e)) (points_of new)"
    using sort_points_correct [OF small_sortable] by blast
  have new: "new = sort_file small_doubles (Some 1, Some 0) (contents ?e)"
    using n sort_main_result [OF small_sortable] by (simp add: Let_def)
  have l: "length (contents ?e) < 2 ^ 64" using small_sortable by (simp add: sortable_def)
  have "map (cstr \<circ> poi_name) (exch_sort (closer small_doubles (Some 1, Some 0)) (points_of (contents ?e))) = [''near'', ''here'', ''far'']"
    "leftover (contents ?e) = ''end''" by code_simp+
  then show ?thesis
    using n sd sort_file_points [OF l, of small_doubles "(Some 1, Some 0)"] unfolding new by (intro exI [of _ out] exI [of _ "sort_file small_doubles (Some 1, Some 0) (contents ?e)"]) simp
qed

text \<open>
  A file shorter than one struct is mapped, but \<open>numPOIs - 1\<close> wraps: the outer loop runs for all
  the values of \<open>size_t\<close> but one, with nothing to do. The file stays as it is.
\<close>

theorem short_file_rounds:
  assumes "length mem < POI_size"
  shows "outer_rounds (length (points_of mem)) = 2 ^ 64 - 1 \<and> sort_file F target mem = mem"
proof -
  have z: "points_of mem = []" using assms by (simp add: points_of_def numPOIs_def)
  have "leftover mem = mem" using assms by (simp add: leftover_def numPOIs_def)
  then have "sort_file F target mem = mem" using sort_points_eq [of "[]" F target] z by (simp add: sort_file_def exch_sort_def)
  then show ?thesis using z by (simp add: outer_rounds_def)
qed

theorem short_file_rounds_witness: "outer_rounds (length (points_of ''short'')) = 2 ^ 64 - 1"
  using short_file_rounds [of "''short''" small_doubles "(Some 1, Some 0)"] by (simp add: POI_size_def)

text \<open>Whatever fails before the sort leaves the file as it was, with a message on the standard output.\<close>

theorem sort_main_fails:
  assumes "length args \<noteq> 3 \<or> cannot_open e \<or> scan_lf F (args ! 1) = None \<or> scan_lf F (args ! 2) = None
    \<or> cannot_stat e \<or> cannot_map e \<or> contents e = []"
  shows "\<exists>msg. sort_main F e args = Some (sort_fail msg, contents e)"
  using assms by (auto simp: sort_main_def split: option.splits)

theorem sort_main_fails_witness: "\<exists>msg. sort_main small_doubles (small_points []) [] = Some (sort_fail msg, ''end'')"
  using sort_main_fails [of "[]" "small_points []" small_doubles] by (simp add: small_points_def)

end
