(* ===== verification/Editor_Server_Main.thy ===== *)
theory Editor_Server_Main
  imports Editor_Server
begin

text \<open>
  The program around the loop of \<open>Editor_Server\<close>: the rest of \<open>main\<close> and the signal handler of
  \<open>assignments/hw2/server.c\<close>. An iteration of the loop is described by what \<open>mq_receive\<close> returns,
  whether \<open>mq_send\<close> succeeds, and whether SIGINT has arrived when the loop is tested again.

  Proved: when the server is stopped it prints the text of the specification, and as the number
  of undos the number of versions kept, or 4 when all three are kept; it does print 4.
\<close>

record server_calls =
  no_server_queue :: bool
  no_client_queue :: bool
  junk_memory :: ServerState

record server_round =
  received :: "ClientRequest option"
  sends :: bool
  sigint :: bool

definition server_fail :: "string \<Rightarrow> outcome" where
  "server_fail msg = exits [] (msg @ NL) 1"

definition server_usage :: outcome where
  "server_usage = server_fail ''usage: server INITIAL-STRING''"

definition sigHandler :: "ServerState \<Rightarrow> ServerState" where
  "sigHandler s = s\<lparr>running := False\<rparr>"

text \<open>\<open>None\<close>: an access outside an array, or the server still waits for a request.\<close>

fun server_loop :: "server_round list \<Rightarrow> ServerState \<Rightarrow> ServerState option" where
  "server_loop [] s = (if running s then None else Some s)"
| "server_loop (r # rs) s =
     (if \<not> running s then Some s
      else case server_step (received r) (sends r) s of None \<Rightarrow> None
        | Some s' \<Rightarrow> server_loop rs (if sigint r then sigHandler s' else s'))"

definition server_main :: "server_calls \<Rightarrow> string list \<Rightarrow> server_round list \<Rightarrow> outcome option" where
  "server_main e args rounds =
     (if no_server_queue e \<or> no_client_queue e then Some (server_fail ''Can't create the needed message queues'')
      else if length args \<noteq> 1 then Some server_usage
      else case server_init (junk_memory e) (args ! 0) of None \<Rightarrow> Some server_usage
        | Some s \<Rightarrow> map_option final_report (server_loop rounds s))"

subsection \<open>The end of a session\<close>

text \<open>The counter is capped at the top of the loop and raised once after that.\<close>

lemma save_versions_snum: "save_versions s = Some s' \<Longrightarrow> snum s' = snum s"
  by (auto simp: save_versions_def split: option.splits)

lemma process_snum: "process s = Some (s', st) \<Longrightarrow> snum s' \<le> snum s + 1"
  by (auto simp: process_def Let_def dest: save_versions_snum split: if_splits option.splits)

lemma answer_snum: "answer s st = Some s' \<Longrightarrow> snum s' = snum s"
  by (auto simp: answer_def Let_def split: if_splits)

lemma server_step_snum:
  assumes "server_step r sent s = Some s'"
  shows "snum s' \<le> 4"
proof -
  let ?s1 = "s\<lparr>snum := (if snum s > 3 then 3 else snum s), slen := int (strlen (sstr s))\<rparr>"
  let ?s2 = "case r of None \<Rightarrow> ?s1\<lparr>running := False\<rparr> | Some r \<Rightarrow> ?s1\<lparr>request := r\<rparr>"
  obtain s3 st s4 where p: "process ?s2 = Some (s3, st)" "answer s3 st = Some s4" and s': "s' = (if sent then s4 else s4\<lparr>running := False\<rparr>)"
    using assms by (auto simp: server_step_def Let_def split: if_splits option.splits)
  have "snum ?s2 \<le> 3" by (simp split: option.split)
  then have "snum s4 \<le> 4" using process_snum [OF p(1)] answer_snum [OF p(2)] by linarith
  then show ?thesis by (simp add: s')
qed

definition answered :: "ClientRequest \<Rightarrow> server_round" where
  "answered r = \<lparr>received = Some r, sends = True, sigint = False\<rparr>"

definition interrupted :: "ClientRequest \<Rightarrow> server_round" where
  "interrupted r = \<lparr>received = Some r, sends = True, sigint = True\<rparr>"

fun spec_end :: "ClientRequest list \<Rightarrow> doc \<Rightarrow> doc" where
  "spec_end [] d = d"
| "spec_end (r # rs) d = spec_end rs (fst (spec_request d r))"

text \<open>What may be printed of a text with its versions.\<close>

definition final_text :: "doc \<Rightarrow> outcome \<Rightarrow> bool" where
  "final_text d out \<longleftrightarrow> (\<exists>n. out = exits (NL @ fst d @ '' ['' @ show_int n @ '']'' @ NL) [] 0
     \<and> (n = int (length (snd d)) \<or> n = 4 \<and> length (snd d) = 3))"

lemma final_report_text:
  assumes "represents s d" "snum s \<le> 4"
  shows "final_text d (final_report s)"
proof -
  have d: "NUL \<notin> set (fst d)" "length (fst d) < STRING_LIMIT" "sstr s = padded (fst d)" "0 \<le> snum s" "length (snd d) = nat (min 3 (snum s))"
    using assms(1) unfolding represents_def by blast+
  have "final_report s = exits (NL @ fst d @ '' ['' @ show_int (snum s) @ '']'' @ NL) [] 0"
    using d(1-3) by (simp add: final_report_def)
  moreover have "snum s = int (length (snd d)) \<or> snum s = 4 \<and> length (snd d) = 3" using d(4,5) assms(2) by (cases "snum s \<le> 3") auto
  ultimately show ?thesis unfolding final_text_def by blast
qed

lemma loop_refines:
  assumes "represents s d" "session_fits (rs @ [r]) d" "running s"
  shows "\<exists>s'. server_loop (map answered rs @ [interrupted r]) s = Some s' \<and> represents s' (spec_end (rs @ [r]) d) \<and> snum s' \<le> 4"
  using assms
proof (induction rs arbitrary: s d)
  case Nil
  have f: "request_fits d r" using Nil.prems(2) by simp
  from step_refines [OF Nil.prems(1) f] obtain s' where s': "server_step (Some r) True s = Some s'"
    "represents s' (fst (spec_request d r))" .
  have "represents (sigHandler s') (fst (spec_request d r)) = represents s' (fst (spec_request d r))"
    by (simp add: represents_def sigHandler_def)
  then show ?case using s' Nil.prems(3) server_step_snum [OF s'(1)] by (simp add: interrupted_def sigHandler_def)
next
  case (Cons q rs)
  have f: "request_fits d q" using Cons.prems(2) by simp
  from step_refines [OF Cons.prems(1) f] obtain s' where s': "server_step (Some q) True s = Some s'"
    "represents s' (fst (spec_request d q))" "running s' = running s" .
  then show ?case using Cons.IH [OF s'(2)] Cons.prems by (simp add: answered_def)
qed

text \<open>
  A server that answers requests that fit and is then interrupted ends with the text of the
  specification, and the number of versions it keeps, or 4 for 3.
\<close>

theorem server_main_reports:
  assumes "\<not> no_server_queue e" "\<not> no_client_queue e" "CHR 0x0A \<notin> set t" "NUL \<notin> set t" "length t < STRING_LIMIT"
    and "length (sstr (junk_memory e)) = STRING_LIMIT" "length (message (response (junk_memory e))) = STRING_LIMIT"
    and "ready (sprev1 (junk_memory e))" "ready (sprev2 (junk_memory e))" "ready (sprev3 (junk_memory e))"
    and "session_fits (rs @ [r]) (t, [])"
  shows "\<exists>out. server_main e [t] (map answered rs @ [interrupted r]) = Some out \<and> final_text (spec_end (rs @ [r]) (t, [])) out"
proof -
  have "cstr ((strncpy (sstr (junk_memory e)) t (STRING_LIMIT - 1))[STRING_LIMIT - 1 := NUL]) = t"
    using strncpy_padded [OF assms(6,4,5)] assms(4,5) by simp
  then obtain s where s: "server_init (junk_memory e) t = Some s" using assms(3) by (auto simp: server_init_def Let_def)
  have "represents s (t, [])" "running s" using init_represents [OF s assms(4-10)] by blast+
  from loop_refines [OF this(1) assms(11) this(2)] obtain s' where l: "server_loop (map answered rs @ [interrupted r]) s = Some s'"
    "represents s' (spec_end (rs @ [r]) (t, []))" "snum s' \<le> 4" by blast
  then show ?thesis using final_report_text [OF l(2,3)] assms(1,2) s by (simp add: server_main_def)
qed

definition calm :: server_calls where
  "calm = \<lparr>no_server_queue = False, no_client_queue = False, junk_memory = server_zero\<rparr>"

definition four_inserts :: "ClientRequest list" where
  "four_inserts = [ask [''insert'', ''0'', ''a''], ask [''insert'', ''0'', ''b''], ask [''insert'', ''0'', ''c'']]"

theorem server_main_reports_witness:
  "\<exists>out. server_main calm [''x''] (map answered four_inserts @ [interrupted (ask [''delete'', ''0''])]) = Some out
    \<and> final_text (''bax'', [''cbax'', ''bax'', ''ax'']) out"
proof -
  have z: "length (sstr server_zero) = STRING_LIMIT" "length (message (response server_zero)) = STRING_LIMIT"
    "ready (sprev1 server_zero)" "ready (sprev2 server_zero)" "ready (sprev3 server_zero)" by code_simp+
  have f: "session_fits (four_inserts @ [ask [''delete'', ''0'']]) (''x'', [])" by code_simp
  have e: "spec_end (four_inserts @ [ask [''delete'', ''0'']]) (''x'', []) = (''bax'', [''cbax'', ''bax'', ''ax''])" by code_simp
  have c: "\<not> no_server_queue calm" "\<not> no_client_queue calm" "junk_memory calm = server_zero" by (simp_all add: calm_def)
  show ?thesis
    using server_main_reports [of calm "''x''" four_inserts "ask [''delete'', ''0'']"] z f e c by (simp add: limits)
qed

text \<open>Only three undos are possible, but after four edits the server ends with a 4.\<close>

theorem server_reports_four:
  "server_main calm [[]] (map answered four_inserts @ [interrupted (ask [''insert'', ''0'', ''d''])])
    = Some (exits (NL @ ''dcba [4]'' @ NL) [] 0)"
  by code_simp

text \<open>Arguments and queues.\<close>

theorem server_main_refuses:
  assumes "length args \<noteq> 1 \<or> (\<exists>t. args = [t] \<and> NUL \<notin> set t \<and> CHR 0x0A \<in> set (take (STRING_LIMIT - 1) t) \<and> length (sstr (junk_memory e)) = STRING_LIMIT)"
    and "\<not> no_server_queue e" "\<not> no_client_queue e"
  shows "server_main e args rounds = Some server_usage"
  using assms(1)
proof
  assume "\<exists>t. args = [t] \<and> NUL \<notin> set t \<and> CHR 0x0A \<in> set (take (STRING_LIMIT - 1) t) \<and> length (sstr (junk_memory e)) = STRING_LIMIT"
  then obtain t where t: "args = [t]" "NUL \<notin> set t" "CHR 0x0A \<in> set (take (STRING_LIMIT - 1) t)"
    "length (sstr (junk_memory e)) = STRING_LIMIT" by blast
  let ?w = "take (STRING_LIMIT - 1) t"
  have n: "NUL \<notin> set ?w" using t(2) by (metis in_set_takeD)
  have "strncpy (sstr (junk_memory e)) t (STRING_LIMIT - 1) = strncpy (sstr (junk_memory e)) ?w (STRING_LIMIT - 1)"
    using cstr_id [OF n] cstr_id [OF t(2)] by (simp add: strncpy_def)
  then have "cstr ((strncpy (sstr (junk_memory e)) t (STRING_LIMIT - 1))[STRING_LIMIT - 1 := NUL]) = ?w"
    using strncpy_padded [OF t(4) n] n by (simp add: limits)
  then show ?thesis using t assms(2,3) by (simp add: server_main_def server_init_def Let_def)
qed (use assms(2,3) in \<open>simp add: server_main_def\<close>)

theorem server_main_refuses_witness: "server_main calm [] [] = Some server_usage"
  using server_main_refuses [of "[]" calm "[]"] by (simp add: calm_def)

end
