(* ===== verification/Editor_Session.thy ===== *)
theory Editor_Session
  imports Editor_Server_Main
begin

text \<open>
  Sessions of the editor of homework 2: the server of \<open>server.c\<close>, any number of clients
  (\<open>client.c\<close>), and the two message queues between them. All clients read their responses from the
  same queue, and a client takes the first response that is there, whoever it is for. The queues
  keep the order and hold ten messages, as \<open>server.c\<close> sets them up; a send to a full queue and a
  receive from an empty one wait. Calls on the queues succeed, and no signal arrives.

  Proved: clients that run one after the other get the answers of the specification; clients that
  run at the same time may get each other's.
\<close>

definition QUEUE_MAX :: nat where "QUEUE_MAX = 10"

text \<open>A client has not started, waits for a response, or has ended with what it printed.\<close>

datatype client_state = Not_started | Waiting | Ended outcome

text \<open>\<open>sent_by\<close> is kept for the proof: the requests sent so far, and by whom.\<close>

record session =
  srv :: ServerState
  server_queue :: "ClientRequest list"
  client_queue :: "ServerResponse list"
  clients :: "nat \<Rightarrow> client_state"
  sent_by :: "(nat \<times> ClientRequest) list"

definition session_start :: "ServerState \<Rightarrow> session" where
  "session_start v = \<lparr>srv = v, server_queue = [], client_queue = [], clients = (\<lambda>_. Not_started), sent_by = []\<rparr>"

definition client_error :: outcome where
  "client_error = exits [] (''ERROR'' @ NL) 1"

text \<open>
  What can happen next: a client starts and sends its request, or prints ERROR and ends; the server
  takes a request and sends the response; a client takes the first response and prints it.
\<close>

datatype session_event = Client_sends nat | Server_answers | Client_receives nat

fun session_act :: "(nat \<Rightarrow> string list) \<Rightarrow> session_event \<Rightarrow> session \<Rightarrow> session option" where
  "session_act args (Client_sends c) s =
     (if clients s c \<noteq> Not_started then None
      else case client_request (args c) of
          None \<Rightarrow> Some (s\<lparr>clients := (clients s)(c := Ended client_error)\<rparr>)
        | Some r \<Rightarrow>
            if length (server_queue s) \<ge> QUEUE_MAX then None
            else Some (s\<lparr>clients := (clients s)(c := Waiting), server_queue := server_queue s @ [r], sent_by := sent_by s @ [(c, r)]\<rparr>))"
| "session_act args Server_answers s =
     (if \<not> running (srv s) \<or> length (client_queue s) \<ge> QUEUE_MAX then None
      else case server_queue s of [] \<Rightarrow> None
        | r # rs \<Rightarrow> map_option (\<lambda>v. s\<lparr>srv := v, server_queue := rs, client_queue := client_queue s @ [response v]\<rparr>)
            (server_step (Some r) True (srv s)))"
| "session_act args (Client_receives c) s =
     (if clients s c \<noteq> Waiting then None
      else case client_queue s of [] \<Rightarrow> None
        | m # ms \<Rightarrow> Some (s\<lparr>clients := (clients s)(c := Ended (client_print m)), client_queue := ms\<rparr>))"

fun session_run :: "(nat \<Rightarrow> string list) \<Rightarrow> session_event list \<Rightarrow> session \<Rightarrow> session option" where
  "session_run args [] s = Some s"
| "session_run args (a # as) s = (case session_act args a s of None \<Rightarrow> None | Some s' \<Rightarrow> session_run args as s')"

text \<open>Clients one at a time: a client starts when no request and no response is under way.\<close>

fun alone :: "session_event \<Rightarrow> session \<Rightarrow> bool" where
  "alone (Client_sends c) s = (server_queue s = [] \<and> client_queue s = [])"
| "alone _ s = True"

fun one_at_a_time :: "(nat \<Rightarrow> string list) \<Rightarrow> session_event list \<Rightarrow> session \<Rightarrow> bool" where
  "one_at_a_time args [] s = True"
| "one_at_a_time args (a # as) s = (alone a s \<and> (case session_act args a s of None \<Rightarrow> True | Some s' \<Rightarrow> one_at_a_time args as s'))"

subsection \<open>The specification\<close>

text \<open>What the clients that send these requests print.\<close>

fun spec_outputs :: "ClientRequest list \<Rightarrow> doc \<Rightarrow> outcome list" where
  "spec_outputs [] d = []"
| "spec_outputs (r # rs) d =
     exits (snd (spec_request d r) @ NL) '''' 0 # spec_outputs rs (fst (spec_request d r))"

lemma length_spec_outputs [simp]: "length (spec_outputs rs d) = length rs"
  by (induction rs arbitrary: d) simp_all

lemma spec_outputs_snoc:
  "spec_outputs (rs @ [r]) d = spec_outputs rs d @ [exits (snd (spec_request (spec_end rs d) r) @ NL) '''' 0]"
  by (induction rs arbitrary: d) simp_all

lemma spec_end_snoc: "spec_end (rs @ [r]) d = fst (spec_request (spec_end rs d) r)"
  by (induction rs arbitrary: d) simp_all

lemma session_fits_snoc: "session_fits (rs @ [r]) d \<longleftrightarrow> session_fits rs d \<and> request_fits (spec_end rs d) r"
  by (induction rs arbitrary: d) auto

subsection \<open>One client at a time\<close>

text \<open>
  The clients in \<open>served\<close> have printed what the specification says; one more may wait, for the
  server or for its response.
\<close>

definition all_served :: "doc \<Rightarrow> session \<Rightarrow> (nat \<times> ClientRequest) list \<Rightarrow> bool" where
  "all_served d s served \<longleftrightarrow> map (\<lambda>(c, r). clients s c) served = map Ended (spec_outputs (map snd served) d)"

definition quiet :: "doc \<Rightarrow> session \<Rightarrow> bool" where
  "quiet d s \<longleftrightarrow> server_queue s = [] \<and> client_queue s = [] \<and> all_served d s (sent_by s) \<and> (\<forall>c. clients s c \<noteq> Waiting)
     \<and> represents (srv s) (spec_end (map snd (sent_by s)) d)"

definition asked :: "doc \<Rightarrow> session \<Rightarrow> bool" where
  "asked d s \<longleftrightarrow> (\<exists>served c r. sent_by s = served @ [(c, r)] \<and> server_queue s = [r] \<and> client_queue s = [] \<and> all_served d s served
     \<and> (\<forall>e. clients s e = Waiting \<longleftrightarrow> e = c) \<and> represents (srv s) (spec_end (map snd served) d))"

definition answered_one :: "doc \<Rightarrow> session \<Rightarrow> bool" where
  "answered_one d s \<longleftrightarrow> (\<exists>served c r m. sent_by s = served @ [(c, r)] \<and> server_queue s = [] \<and> client_queue s = [m] \<and> all_served d s served
     \<and> (\<forall>e. clients s e = Waiting \<longleftrightarrow> e = c)
     \<and> client_print m = exits (snd (spec_request (spec_end (map snd served) d) r) @ NL) '''' 0
     \<and> represents (srv s) (spec_end (map snd (sent_by s)) d))"

text \<open>Who has sent a request, and with which arguments.\<close>

definition booked :: "(nat \<Rightarrow> string list) \<Rightarrow> (nat \<Rightarrow> client_state) \<Rightarrow> (nat \<times> ClientRequest) list \<Rightarrow> nat \<Rightarrow> bool" where
  "booked args cl sent c \<longleftrightarrow> (\<forall>r. (c, r) \<in> set sent \<longrightarrow> client_request (args c) = Some r \<and> cl c \<noteq> Not_started)
     \<and> (cl c \<noteq> Not_started \<longrightarrow> (case client_request (args c) of None \<Rightarrow> cl c = Ended client_error | Some r \<Rightarrow> (c, r) \<in> set sent))"

definition books_ok :: "(nat \<Rightarrow> string list) \<Rightarrow> session \<Rightarrow> bool" where
  "books_ok args s \<longleftrightarrow> running (srv s) \<and> distinct (map fst (sent_by s)) \<and> (\<forall>c. booked args (clients s) (sent_by s) c)"

lemma booked_other: "booked args cl sent e \<Longrightarrow> e \<noteq> c \<Longrightarrow> booked args (cl(c := x)) sent e"
  by (cases "client_request (args e)") (simp_all add: booked_def)

lemma booked_more: "booked args cl sent e \<Longrightarrow> e \<noteq> c \<Longrightarrow> booked args cl (sent @ [(c, r)]) e"
  by (cases "client_request (args e)") (simp_all add: booked_def)

lemma books_change:
  assumes "books_ok args s" "running (srv s')" "sent_by s' = sent_by s" "clients s' = (clients s)(c := x)" "booked args (clients s') (sent_by s) c"
  shows "books_ok args s'"
proof -
  have "booked args (clients s') (sent_by s) e" for e
    using assms(1,5) booked_other [of args "clients s" "sent_by s" e c x] unfolding assms(4) books_ok_def by (cases "e = c") simp_all
  then show ?thesis using assms(1-3) by (simp add: books_ok_def)
qed

lemma books_send:
  assumes "books_ok args s" "clients s c = Not_started" "client_request (args c) = Some r" "srv s' = srv s"
    "clients s' = (clients s)(c := Waiting)" "sent_by s' = sent_by s @ [(c, r)]"
  shows "books_ok args s'"
proof -
  have n: "(c, q) \<notin> set (sent_by s)" for q using assms(1,2) by (auto simp: books_ok_def booked_def)
  then have "booked args (clients s') (sent_by s') c" using assms(3) by (simp add: booked_def assms(5,6))
  moreover have "booked args (clients s') (sent_by s') e" if "e \<noteq> c" for e
    using assms(1) that unfolding assms(5,6) books_ok_def by (intro booked_more booked_other) simp_all
  ultimately have "booked args (clients s') (sent_by s') e" for e by (cases "e = c") simp_all
  moreover have "distinct (map fst (sent_by s'))" using assms(1,6) n by (auto simp: books_ok_def)
  ultimately show ?thesis using assms(1,4) by (simp add: books_ok_def)
qed

definition session_ok :: "doc \<Rightarrow> (nat \<Rightarrow> string list) \<Rightarrow> session \<Rightarrow> bool" where
  "session_ok d args s \<longleftrightarrow> session_fits (map snd (sent_by s)) d \<longrightarrow> books_ok args s \<and> (quiet d s \<or> asked d s \<or> answered_one d s)"

lemma all_served_other:
  "all_served d s served \<Longrightarrow> (\<And>e r. (e, r) \<in> set served \<Longrightarrow> clients s' e = clients s e) \<Longrightarrow> all_served d s' served"
proof -
  assume a: "all_served d s served" "\<And>e r. (e, r) \<in> set served \<Longrightarrow> clients s' e = clients s e"
  have "map (\<lambda>(c, r). clients s' c) served = map (\<lambda>(c, r). clients s c) served" using a(2) by (intro map_cong) auto
  then show ?thesis using a(1) unfolding all_served_def by (rule trans)
qed

lemma sends_ok:
  assumes a: "session_act args (Client_sends c) s = Some s'" and q: "alone (Client_sends c) s" and ok: "session_ok d args s"
  shows "session_ok d args s'"
proof (unfold session_ok_def, rule impI)
  assume f: "session_fits (map snd (sent_by s')) d"
  have n: "clients s c = Not_started" using a by (auto split: if_splits)
  have fs: "session_fits (map snd (sent_by s)) d"
    using f a by (auto simp: session_fits_snoc split: if_splits option.splits)
  then have b: "books_ok args s" and m: "quiet d s"
    using ok q by (auto simp: session_ok_def asked_def answered_one_def)
  have new: "e \<noteq> c" if "(e, r) \<in> set (sent_by s)" for e r using b n that by (auto simp: books_ok_def booked_def)
  show "books_ok args s' \<and> (quiet d s' \<or> asked d s' \<or> answered_one d s')"
  proof (cases "client_request (args c)")
    case None
    then have s': "s' = s\<lparr>clients := (clients s)(c := Ended client_error)\<rparr>" using a n by simp
    have "all_served d s' (sent_by s)" by (rule all_served_other [of d s]) (use m new in \<open>auto simp: quiet_def s'\<close>)
    then have "quiet d s'" using m by (simp add: quiet_def s')
    moreover have "books_ok args s'"
      by (rule books_change [OF b, where c = c]) (use b None new in \<open>auto simp: s' books_ok_def booked_def\<close>)
    ultimately show ?thesis by blast
  next
    case (Some r)
    then have s': "s' = s\<lparr>clients := (clients s)(c := Waiting), server_queue := [r], sent_by := sent_by s @ [(c, r)]\<rparr>"
      using a n q by (simp split: if_splits)
    have "all_served d s' (sent_by s)" by (rule all_served_other [of d s]) (use m new in \<open>auto simp: quiet_def s'\<close>)
    then have "asked d s'" using m by (auto simp: quiet_def asked_def s')
    moreover have "books_ok args s'" by (rule books_send [OF b n Some]) (simp_all add: s')
    ultimately show ?thesis by blast
  qed
qed

lemma answers_ok:
  assumes a: "session_act args Server_answers s = Some s'" and ok: "session_ok d args s"
  shows "session_ok d args s'"
proof (unfold session_ok_def, rule impI)
  assume f: "session_fits (map snd (sent_by s')) d"
  obtain r rs v where s: "server_queue s = r # rs" "server_step (Some r) True (srv s) = Some v"
    and s': "s' = s\<lparr>srv := v, server_queue := rs, client_queue := client_queue s @ [response v]\<rparr>"
    using a by (auto split: if_splits list.splits)
  have b: "books_ok args s" and m: "asked d s" using ok f s(1) by (auto simp: session_ok_def s' quiet_def answered_one_def)
  obtain served c where k: "sent_by s = served @ [(c, r)]" "rs = []" "client_queue s = []" "all_served d s served"
    "\<forall>e. clients s e = Waiting \<longleftrightarrow> e = c" "represents (srv s) (spec_end (map snd served) d)"
    using m s(1) by (auto simp: asked_def)
  have rf: "request_fits (spec_end (map snd served) d) r" using f by (simp add: s' k(1) session_fits_snoc)
  from step_refines [OF k(6) rf] obtain v' where "server_step (Some r) True (srv s) = Some v'"
    "represents v' (fst (spec_request (spec_end (map snd served) d) r))"
    "client_print (response v') = exits (snd (spec_request (spec_end (map snd served) d) r) @ NL) '''' 0" "running v' = running (srv s)" .
  then have v: "represents v (spec_end (map snd (sent_by s)) d)" "running v = running (srv s)"
    "client_print (response v) = exits (snd (spec_request (spec_end (map snd served) d) r) @ NL) '''' 0"
    using s(2) by (simp_all add: k(1) spec_end_snoc)
  have "all_served d s' served" by (rule all_served_other [OF k(4)]) (simp add: s')
  then have "answered_one d s'" using k v by (auto simp: answered_one_def s')
  moreover have "books_ok args s'" using b v(2) by (simp add: books_ok_def s')
  ultimately show "books_ok args s' \<and> (quiet d s' \<or> asked d s' \<or> answered_one d s')" by blast
qed

lemma receives_ok:
  assumes a: "session_act args (Client_receives c) s = Some s'" and ok: "session_ok d args s"
  shows "session_ok d args s'"
proof (unfold session_ok_def, rule impI)
  assume f: "session_fits (map snd (sent_by s')) d"
  obtain m ms where s: "clients s c = Waiting" "client_queue s = m # ms"
    and s': "s' = s\<lparr>clients := (clients s)(c := Ended (client_print m)), client_queue := ms\<rparr>"
    using a by (auto split: if_splits list.splits)
  have b: "books_ok args s" and o: "answered_one d s" using ok f s(2) by (auto simp: session_ok_def s' quiet_def asked_def)
  obtain served r where k: "sent_by s = served @ [(c, r)]" "server_queue s = []" "ms = []" "all_served d s served"
    "\<forall>e. clients s e = Waiting \<longleftrightarrow> e = c"
    "client_print m = exits (snd (spec_request (spec_end (map snd served) d) r) @ NL) '''' 0"
    "represents (srv s) (spec_end (map snd (sent_by s)) d)"
    using o s by (auto simp: answered_one_def)
  have "c \<notin> fst ` set served" using b by (simp add: books_ok_def k(1))
  then have new: "e \<noteq> c" if "(e, q) \<in> set served" for e q using that by force
  have "all_served d s' served" by (rule all_served_other [OF k(4)]) (use new in \<open>auto simp: s'\<close>)
  then have "all_served d s' (sent_by s')" using k(6) by (simp add: all_served_def s' k(1) spec_outputs_snoc)
  then have "quiet d s'" using k by (auto simp: quiet_def s')
  moreover have "client_request (args c) = Some r" using b k(1) by (auto simp: books_ok_def booked_def)
  then have "booked args (clients s') (sent_by s) c" using b by (auto simp: books_ok_def booked_def s' k(1))
  then have "books_ok args s'" by (intro books_change [OF b, where c = c]) (use b in \<open>simp_all add: s' books_ok_def\<close>)
  ultimately show "books_ok args s' \<and> (quiet d s' \<or> asked d s' \<or> answered_one d s')" by blast
qed

lemma session_run_ok:
  "session_run args as s = Some s' \<Longrightarrow> one_at_a_time args as s \<Longrightarrow> session_ok d args s \<Longrightarrow> session_ok d args s'"
proof (induction as arbitrary: s)
  case (Cons a as)
  obtain s1 where s1: "session_act args a s = Some s1" using Cons.prems(1) by (auto split: option.splits)
  have "session_ok d args s1"
    using s1 Cons.prems sends_ok answers_ok receives_ok by (cases a) auto
  then show ?case using Cons.IH [of s1] Cons.prems s1 by simp
qed simp

lemma session_start_ok:
  "represents v d \<Longrightarrow> running v \<Longrightarrow> session_ok d args (session_start v)"
  by (simp add: session_ok_def session_start_def quiet_def all_served_def books_ok_def booked_def)

text \<open>What the invariant says of a client, and that the server can go on.\<close>

lemma served_client:
  assumes "session_ok d args s" "session_fits (map snd (sent_by s)) d" "i < length (sent_by s)" "sent_by s ! i = (c, r)"
  shows "clients s c = Ended (spec_outputs (map snd (sent_by s)) d ! i) \<or> clients s c = Waiting \<and> Suc i = length (sent_by s)"
proof -
  have served: "clients s c = Ended (spec_outputs (map snd xs) d ! i)" if "all_served d s xs" "i < length xs" "xs ! i = (c, r)" for xs
    using arg_cong [OF that(1) [unfolded all_served_def], of "\<lambda>l. l ! i"] that(2,3) by simp
  have "books_ok args s \<and> (quiet d s \<or> asked d s \<or> answered_one d s)" using assms(1,2) by (simp add: session_ok_def)
  then consider "all_served d s (sent_by s)" | xs e q where "sent_by s = xs @ [(e, q)]" "all_served d s xs" "clients s e = Waiting"
    by (auto simp: quiet_def asked_def answered_one_def)
  then show ?thesis
  proof cases
    case 1
    then show ?thesis using served assms(3,4) by blast
  next
    case 2
    show ?thesis
    proof (cases "i < length xs")
      case True
      then have "spec_outputs (map snd (sent_by s)) d ! i = spec_outputs (map snd xs) d ! i"
        by (simp add: 2(1) spec_outputs_snoc nth_append)
      then show ?thesis using served [OF 2(2) True] assms(4) True by (simp add: 2(1) nth_append)
    next
      case False
      then have "i = length xs" using assms(3) by (simp add: 2(1))
      then show ?thesis using assms(4) 2(3) by (simp add: 2(1))
    qed
  qed
qed

lemma server_goes_on:
  assumes "session_ok d args s" "session_fits (map snd (sent_by s)) d" "server_queue s \<noteq> []"
  shows "session_act args Server_answers s \<noteq> None"
proof -
  have b: "books_ok args s" and "asked d s" using assms by (auto simp: session_ok_def quiet_def answered_one_def)
  then obtain served c r where k: "sent_by s = served @ [(c, r)]" "server_queue s = [r]" "client_queue s = []"
    "represents (srv s) (spec_end (map snd served) d)" by (auto simp: asked_def)
  have "request_fits (spec_end (map snd served) d) r" using assms(2) by (simp add: k(1) session_fits_snoc)
  from step_refines [OF k(4) this] obtain v where "server_step (Some r) True (srv s) = Some v" .
  then show ?thesis using b k(2,3) by (simp add: books_ok_def QUEUE_MAX_def)
qed

subsection \<open>Properties\<close>

text \<open>
  C8: Clients that run one after the other (a client starts when no request and no response is in
  the queues) get the answers of the specification. After any such session, of the clients whose
  requests the server was sent, in the order they were sent, each has printed what the specification
  says for its request after those before (every edit at its index, every undo back to the version
  before, three deep, reports of the text and the number of undos), only the last may still wait for
  its response; a client whose arguments are wrong has printed ERROR; and the server, when there is a
  request, answers it without leaving its arrays. This is so when every insert finds a text of less
  than 75 characters and its character is not NUL, every report finds one of at most 71, the first
  text has at most 75 characters and no line break, the three arrays for the versions, which are
  copied with \<open>strcpy\<close> before they are written, happen to hold a NUL each, no call on the queues
  fails and no signal arrives. (Clients that run at the same time take each other's responses.)
\<close>

theorem server_session_correct:
  assumes "server_init junk t = Some v" "NUL \<notin> set t" "length t < STRING_LIMIT"
    and "length (sstr junk) = STRING_LIMIT" "length (message (response junk)) = STRING_LIMIT"
    and "ready (sprev1 junk)" "ready (sprev2 junk)" "ready (sprev3 junk)"
    and "session_run args events (session_start v) = Some s" "one_at_a_time args events (session_start v)"
    and "session_fits (map snd (sent_by s)) (t, [])"
  shows "(\<forall>i<length (sent_by s). case sent_by s ! i of (c, r) \<Rightarrow> client_request (args c) = Some r
        \<and> (clients s c = Ended (spec_outputs (map snd (sent_by s)) (t, []) ! i) \<or> clients s c = Waiting \<and> Suc i = length (sent_by s)))
    \<and> (\<forall>c. clients s c \<noteq> Not_started \<longrightarrow> (case client_request (args c) of
        None \<Rightarrow> clients s c = Ended client_error | Some r \<Rightarrow> (c, r) \<in> set (sent_by s)))
    \<and> (server_queue s \<noteq> [] \<longrightarrow> session_act args Server_answers s \<noteq> None)"
proof -
  have "represents v (t, [])" "running v" using init_represents [OF assms(1-8)] by blast+
  then have k: "session_ok (t, []) args s" using session_run_ok [OF assms(9,10)] session_start_ok by blast
  have b: "booked args (clients s) (sent_by s) c" for c using k assms(11) by (simp add: session_ok_def books_ok_def)
  have "client_request (args c) = Some r" if "sent_by s ! i = (c, r)" "i < length (sent_by s)" for i c r
    using b [of c] nth_mem [OF that(2)] that(1) by (auto simp: booked_def)
  moreover have "case client_request (args c) of None \<Rightarrow> clients s c = Ended client_error | Some r \<Rightarrow> (c, r) \<in> set (sent_by s)"
    if "clients s c \<noteq> Not_started" for c using b [of c] that by (simp add: booked_def)
  ultimately show ?thesis using served_client [OF k assms(11)] server_goes_on [OF k assms(11)]
    by (simp del: session_act.simps split: prod.split)
qed

text \<open>An insert, a client with wrong arguments, an undo, and a report that is not answered yet.\<close>

definition demo_args :: "nat \<Rightarrow> string list" where
  "demo_args c = [[''insert'', ''1'', ''x''], [''insert'', ''1''], [''delete'', ''0''], [''undo''], [''report''], [''undo'']] ! c"

definition demo_session :: "session_event list" where
  "demo_session = [Client_sends 0, Server_answers, Client_receives 0, Client_sends 1, Client_sends 2, Server_answers, Client_receives 2,
     Client_sends 3, Server_answers, Client_receives 3, Client_sends 4, Server_answers, Client_receives 4, Client_sends 5]"

theorem server_session_correct_witness:
  "\<exists>v s. server_init server_zero ''abc'' = Some v \<and> session_run demo_args demo_session (session_start v) = Some s
     \<and> clients s 4 = Ended (exits (''axbc [1]'' @ NL) [] 0) \<and> clients s 1 = Ended client_error \<and> session_act demo_args Server_answers s \<noteq> None"
proof -
  have "case server_init server_zero ''abc'' of None \<Rightarrow> False | Some v \<Rightarrow>
      one_at_a_time demo_args demo_session (session_start v)
      \<and> (case session_run demo_args demo_session (session_start v) of None \<Rightarrow> False | Some s \<Rightarrow>
          map fst (sent_by s) = [0, 2, 3, 4, 5] \<and> session_fits (map snd (sent_by s)) (''abc'', []) \<and> server_queue s \<noteq> []
          \<and> clients s 1 \<noteq> Not_started \<and> clients s 4 \<noteq> Waiting
          \<and> spec_outputs (map snd (sent_by s)) (''abc'', []) ! 3 = exits (''axbc [1]'' @ NL) [] 0)"
    by code_simp
  then obtain v s where v: "server_init server_zero ''abc'' = Some v" and o: "one_at_a_time demo_args demo_session (session_start v)"
    and s: "session_run demo_args demo_session (session_start v) = Some s"
    and f: "map fst (sent_by s) = [0, 2, 3, 4, 5]" "session_fits (map snd (sent_by s)) (''abc'', [])" "server_queue s \<noteq> []"
      "clients s 1 \<noteq> Not_started" "clients s 4 \<noteq> Waiting" "spec_outputs (map snd (sent_by s)) (''abc'', []) ! 3 = exits (''axbc [1]'' @ NL) [] 0"
    by (auto split: option.splits)
  have z: "length (sstr server_zero) = STRING_LIMIT" "length (message (response server_zero)) = STRING_LIMIT"
    "ready (sprev1 server_zero)" "ready (sprev2 server_zero)" "ready (sprev3 server_zero)" by code_simp+
  have n: "NUL \<notin> set ''abc''" "length ''abc'' < STRING_LIMIT" by (simp_all add: limits)
  note t = server_session_correct [OF v n z s o f(2)]
  have len: "3 < length (sent_by s)" using arg_cong [OF f(1), of length] by simp
  have "fst (sent_by s ! 3) = 4" using arg_cong [OF f(1), of "\<lambda>l. l ! 3"] len by simp
  then have "clients s 4 = Ended (exits (''axbc [1]'' @ NL) [] 0)"
    using conjunct1 [OF t, rule_format, OF len] f(5,6) by (auto simp: case_prod_beta)
  moreover have "client_request (demo_args 1) = None" by code_simp
  then have "clients s 1 = Ended client_error" using conjunct1 [OF conjunct2 [OF t], rule_format, OF f(4)] by simp
  moreover have "session_act demo_args Server_answers s \<noteq> None" using conjunct2 [OF conjunct2 [OF t]] f(3) by blast
  ultimately show ?thesis using v s by blast
qed

text \<open>
  Two clients at the same time: the one that inserts prints the report, the one that asked for the
  report prints OK.
\<close>

definition mixed_args :: "nat \<Rightarrow> string list" where
  "mixed_args c = (if c = 0 then [''report''] else [''insert'', ''0'', ''x''])"

theorem clients_mix_responses:
  "case server_init server_zero ''abc'' of None \<Rightarrow> False | Some v \<Rightarrow>
     (case session_run mixed_args [Client_sends 0, Client_sends 1, Server_answers, Server_answers, Client_receives 1, Client_receives 0] (session_start v) of
        None \<Rightarrow> False
      | Some s \<Rightarrow> clients s 0 = Ended (exits (''OK'' @ NL) [] 0) \<and> clients s 1 = Ended (exits (''abc [0]'' @ NL) [] 0))"
  by code_simp

end
