(* ===== verification/Triangles_Sem_Report.thy ===== *)
theory Triangles_Sem_Report
  imports Triangles_Sem Triangle_Programs
begin

text \<open>
  The whole of \<open>assignments/hw4/triangles-sem.c\<close> around the steps of \<open>Triangles_Sem\<close>: its arguments,
  its input and the lines of its report. A worker that has counted a triangle prints its line
  before it goes on, and the others may run in between.

  Proved, for input that keeps the reads inside the array and the counters below \<open>2\<^sup>3\<^sup>1\<close>: whatever the
  schedule, the report names every triangle of the input exactly once, each worker numbers its own
  lines from one on, and the program ends with the number of triangles.
\<close>

subsection \<open>The program\<close>

text \<open>The triangle that the next step of worker \<open>w\<close> counts: its number, \<open>index\<close>, \<open>k\<close> and \<open>j\<close>.\<close>

definition finds :: "semstate \<Rightarrow> nat \<Rightarrow> line option" where
  "finds s w = (case wpc s w of
       Scanning idx ((j, k) # ps) lc \<Rightarrow>
         if test_at (vals s) j k idx = Some True then Some (add32 lc 1, idx, k, j) else None
     | _ \<Rightarrow> None)"

record sem_program =
  core :: semstate
  unprinted :: "nat \<Rightarrow> line option"
  printed :: "(nat \<times> line) list"

datatype sem_turn = Main | Work nat | Print nat

fun sem_act :: "nat \<Rightarrow> bool \<Rightarrow> sem_turn \<Rightarrow> sem_program \<Rightarrow> sem_program option" where
  "sem_act N report Main p = map_option (\<lambda>s. p\<lparr>core := s\<rparr>) (sem_exec N None (core p))"
| "sem_act N report (Work w) p =
     (if unprinted p w \<noteq> None then None
      else map_option (\<lambda>s. p\<lparr>core := s, unprinted := (unprinted p)(w := if report then finds (core p) w else None)\<rparr>)
        (sem_exec N (Some w) (core p)))"
| "sem_act N report (Print w) p = (case unprinted p w of None \<Rightarrow> None
     | Some l \<Rightarrow> Some (p\<lparr>unprinted := (unprinted p)(w := None), printed := printed p @ [(w, l)]\<rparr>))"

fun sem_acts :: "nat \<Rightarrow> bool \<Rightarrow> sem_turn list \<Rightarrow> sem_program \<Rightarrow> sem_program option" where
  "sem_acts N report [] p = Some p"
| "sem_acts N report (a # as) p = (case sem_act N report a p of None \<Rightarrow> None | Some p' \<Rightarrow> sem_acts N report as p')"

definition sem_begin :: "int list \<Rightarrow> sem_program" where
  "sem_begin xs = \<lparr>core = sem_start xs, unprinted = (\<lambda>_. None), printed = []\<rparr>"

definition sem_usage :: outcome where
  "sem_usage = exits (''usage: triangles-sem <workers>'' @ NL @ ''       triangles-sem <workers> report'' @ NL) [] 1"

definition sem_line :: "int list \<Rightarrow> int \<Rightarrow> line \<Rightarrow> string" where
  "sem_line vs tid l = (case l of (c, idx, k, j) \<Rightarrow>
     ''I'' @ [CHR 0x27] @ ''m thread '' @ show_int tid @ ''. Local count: '' @ show_int c @ ''. Triangle ('' @ show_int (vs ! j) @ '', ''
       @ show_int (vs ! k) @ '', '' @ show_int (vs ! idx) @ '') found at: '' @ show_nat idx @ '', '' @ show_nat k @ '' and '' @ show_nat j @ ''.'' @ NL)"

definition finished :: "nat \<Rightarrow> sem_program \<Rightarrow> bool" where
  "finished N p \<longleftrightarrow> all_exited N (core p) \<and> (\<forall>w < N. unprinted p w = None)"

text \<open>\<open>None\<close>: the schedule does not bring the program to its end, or the input overruns the array.\<close>

definition triangles_sem_main :: "(nat \<Rightarrow> int) \<Rightarrow> string list \<Rightarrow> string \<Rightarrow> sem_turn list \<Rightarrow> outcome option" where
  "triangles_sem_main tid argv stdin acts =
     (case parse_args argv of
        None \<Rightarrow> Some sem_usage
      | Some (workers, report) \<Rightarrow>
          (case sem_acts workers report acts (sem_begin (read_ints stdin)) of
             None \<Rightarrow> None
           | Some p \<Rightarrow>
               if (\<forall>w < workers. case wpc (core p) w of Exited lc \<Rightarrow> True | _ \<Rightarrow> False) \<and> (\<forall>w < workers. unprinted p w = None)
               then Some (exits (concat (map (\<lambda>(w, l). sem_line (vals (core p)) (tid w) l) (printed p))
                      @ total_line (global_count (core p))) [] EXIT_SUCCESS)
               else None))"

subsection \<open>What is still to be named\<close>

definition named_by :: "line \<Rightarrow> nat \<times> nat \<times> nat" where
  "named_by l = (case l of (c, idx, k, j) \<Rightarrow> (j, k, idx))"

definition ends :: "int list \<Rightarrow> nat \<Rightarrow> (nat \<times> nat \<times> nat) multiset" where
  "ends vs k = image_mset (\<lambda>(i, j). (i, j, k)) (mset_set (tri_end vs k))"

fun still_named :: "int list \<Rightarrow> worker \<Rightarrow> (nat \<times> nat \<times> nat) multiset" where
  "still_named vs (Scanning idx ps lc) =
     image_mset (\<lambda>(j, k). (j, k, idx)) (mset (filter (\<lambda>(j, k). test_at vs j k idx = Some True) ps))"
| "still_named vs _ = {#}"

fun named_line :: "line option \<Rightarrow> (nat \<times> nat \<times> nat) multiset" where
  "named_line None = {#}"
| "named_line (Some l) = {#named_by l#}"

fun counted :: "worker \<Rightarrow> int" where
  "counted (AtWait lc) = lc"
| "counted (AtCheck lc) = lc"
| "counted (AtTake lc) = lc"
| "counted (Scanning idx ps lc) = lc"
| "counted (Exited lc) = lc"
| "counted Faulted = 0"

lemma ends_all: "(\<Sum>k<length vs. ends vs k) = mset_set (triangles vs)"
proof -
  have "ends vs k = mset_set {t \<in> triangles vs. (snd \<circ> snd) t = k}" if "k < length vs" for k
  proof -
    have "inj_on (\<lambda>(i, j). (i, j, k)) (tri_end vs k)" by (auto simp: inj_on_def)
    moreover have "(\<lambda>(i, j). (i, j, k)) ` tri_end vs k = {t \<in> triangles vs. (snd \<circ> snd) t = k}"
      using that by (auto simp: tri_end_def triangles_def image_iff)
    ultimately show ?thesis unfolding ends_def by (simp add: image_mset_mset_set)
  qed
  then have "(\<Sum>k<length vs. ends vs k) = (\<Sum>k<length vs. mset_set {t \<in> triangles vs. (snd \<circ> snd) t = k})" by simp
  also have "\<dots> = mset_set {t \<in> triangles vs. (snd \<circ> snd) t < length vs}"
    by (rule mset_set_fibers [OF finite_triangles])
  also have "{t \<in> triangles vs. (snd \<circ> snd) t < length vs} = triangles vs" by (auto simp: triangles_def)
  finally show ?thesis .
qed

lemma still_named_work:
  assumes "int32_list vs"
  shows "still_named vs (Scanning idx (work_pairs idx) lc) = (if idx < length vs then ends vs idx else {#})"
proof (cases "idx < length vs")
  case True
  then show ?thesis using mset_work [OF True] by (simp add: ends_def)
next
  case False
  then have "filter (\<lambda>(j, k). test_at vs j k idx = Some True) (work_pairs idx) = []"
    using test_at_past [OF assms] by (intro filter_False) auto
  then show ?thesis using False by simp
qed

lemma worker_step_moves:
  "worker_step w s = Some s' \<Longrightarrow> vals s' = vals s \<and> input s' = input s \<and> wpc s' = (wpc s)(w := wpc s' w)"
  by (auto simp: worker_step_def split: worker.splits list.splits prod.splits if_splits option.splits)

text \<open>A step of a worker moves a triangle from what is still to be named to its line.\<close>

lemma worker_step_named:
  assumes st: "worker_step w s = Some s'" and v: "int32_list (vals s)" and nf: "wpc s' w \<noteq> Faulted"
  shows "named_line (finds s w) + still_named (vals s) (wpc s' w) + (\<Sum>k\<in>{nextWorkIndex s'..<length (vals s)}. ends (vals s) k)
    = still_named (vals s) (wpc s w) + (\<Sum>k\<in>{nextWorkIndex s..<length (vals s)}. ends (vals s) k)"
proof (cases "wpc s w")
  case (AtTake lc)
  let ?i = "nextWorkIndex s"
  have "{?i..<length (vals s)} = (if ?i < length (vals s) then insert ?i {?i + 1..<length (vals s)} else {})"
    "{?i + 1..<length (vals s)} = {} \<or> ?i < length (vals s)" by auto
  then show ?thesis using AtTake st
    by (auto simp: worker_step_def finds_def still_named_work [OF v] simp del: still_named.simps(1))
next
  case (Scanning idx ps lc)
  then show ?thesis using st nf
    by (cases ps) (auto simp: worker_step_def finds_def named_by_def split: option.splits if_splits)
qed (use st in \<open>auto simp: worker_step_def finds_def split: if_splits\<close>)

lemma worker_step_counted:
  assumes "worker_step w s = Some s'" "wpc s' w \<noteq> Faulted"
  shows "finds s w = None \<and> counted (wpc s' w) = counted (wpc s w)
    \<or> (\<exists>l. finds s w = Some l \<and> fst l = add32 (counted (wpc s w)) 1 \<and> counted (wpc s' w) = add32 (counted (wpc s w)) 1)"
  using assms by (auto simp: worker_step_def finds_def split: worker.splits list.splits prod.splits if_splits option.splits)

subsection \<open>The invariant\<close>

definition lines_of :: "nat \<Rightarrow> sem_program \<Rightarrow> line list" where
  "lines_of w p = map snd (filter (\<lambda>x. fst x = w) (printed p)) @ (case unprinted p w of None \<Rightarrow> [] | Some l \<Rightarrow> [l])"

text \<open>Once the input is read: printed, about to be printed, still to be named by a worker, or at an index not taken.\<close>

definition all_named :: "nat \<Rightarrow> int list \<Rightarrow> sem_program \<Rightarrow> bool" where
  "all_named N xs p \<longleftrightarrow> image_mset (named_by \<circ> snd) (mset (printed p))
     + (\<Sum>w<N. named_line (unprinted p w) + still_named xs (wpc (core p) w))
     + (\<Sum>k\<in>{nextWorkIndex (core p)..<length xs}. ends xs k) = mset_set (triangles xs)"

text \<open>Lines numbered from one on by an \<open>int\<close> counter.\<close>

definition numbered :: "line list \<Rightarrow> bool" where
  "numbered ls \<longleftrightarrow> map fst ls = map count32 [1..<Suc (length ls)]"

lemma numbered_snoc: "numbered ls \<Longrightarrow> fst l = count32 (Suc (length ls)) \<Longrightarrow> numbered (ls @ [l])"
  by (simp add: numbered_def)

definition report_inv :: "nat \<Rightarrow> bool \<Rightarrow> int list \<Rightarrow> sem_program \<Rightarrow> bool" where
  "report_inv N report xs p \<longleftrightarrow> sem_inv N xs (core p)
     \<and> (input (core p) \<noteq> [] \<or> \<not> report \<longrightarrow> printed p = [] \<and> (\<forall>w. unprinted p w = None))
     \<and> (report \<and> input (core p) = [] \<longrightarrow> all_named N xs p)
     \<and> (report \<longrightarrow> (\<forall>w. numbered (lines_of w p) \<and> (w < N \<longrightarrow> counted (wpc (core p) w) = count32 (length (lines_of w p)))))"

lemma all_waiting_named:
  assumes "\<forall>w<N. \<exists>lc. wpc (core p) w = AtWait lc" "printed p = []" "\<forall>w. unprinted p w = None" "nextWorkIndex (core p) = 0"
  shows "all_named N xs p"
proof -
  have "still_named xs (wpc (core p) w) = {#}" if "w < N" for w using assms(1) that by auto
  then show ?thesis using assms(2-4) by (simp add: all_named_def ends_all atLeast0LessThan)
qed

lemma report_inv_begin: "report_inv N report xs (sem_begin xs)"
proof -
  have "all_named N xs (sem_begin xs)" by (rule all_waiting_named) (simp_all add: sem_begin_def sem_start_def)
  then show ?thesis by (simp add: report_inv_def numbered_def lines_of_def sem_inv_start sem_begin_def) (simp add: sem_start_def)
qed

lemma report_inv_main:
  assumes inv: "report_inv N report xs p" and e: "sem_exec N None (core p) = Some s" and x: "fits N xs"
  shows "report_inv N report xs (p\<lparr>core := s\<rparr>)"
proof -
  have i: "sem_inv N xs (core p)" using inv by (simp add: report_inv_def)
  have s: "sem_inv N xs s" by (rule sem_inv_step [OF sem_exec_step [OF e] i x])
  have w: "wpc s = wpc (core p)" "nextWorkIndex s = nextWorkIndex (core p)"
    using e by (auto split: list.splits store_result.splits if_splits)
  have l: "lines_of v (p\<lparr>core := s\<rparr>) = lines_of v p" for v by (simp add: lines_of_def)
  show ?thesis
  proof (cases "input (core p)")
    case Nil
    then have "input s = []" using e by (auto split: if_splits)
    then show ?thesis using inv s w l Nil by (simp add: report_inv_def all_named_def)
  next
    case (Cons v vs)
    then have n: "printed p = []" "\<forall>w. unprinted p w = None" "nextWorkIndex (core p) = 0"
      using inv i by (simp_all add: report_inv_def sem_inv_def)
    have "\<forall>w<N. \<exists>lc. wpc s w = AtWait lc" using reading_all_wait [OF i] Cons w by simp
    then have "all_named N xs (p\<lparr>core := s\<rparr>)" using n w by (intro all_waiting_named) simp_all
    then show ?thesis using inv s w l n by (simp add: report_inv_def)
  qed
qed

lemma exchange:
  fixes A B q c e e' :: "'a multiset"
  assumes "A + q = B + c" "c + e' = q + e"
  shows "A + e' = B + e"
proof -
  have "q + (A + e') = (A + q) + e'" by (simp add: ac_simps)
  also have "\<dots> = B + (c + e')" unfolding assms(1) by (simp only: add.assoc)
  also have "\<dots> = q + (B + e)" unfolding assms(2) by (simp add: ac_simps)
  finally show ?thesis by simp
qed

lemma report_inv_work:
  assumes inv: "report_inv N report xs p" and e: "sem_exec N (Some w) (core p) = Some s" and x: "fits N xs"
    and u: "unprinted p w = None"
  shows "report_inv N report xs (p\<lparr>core := s, unprinted := (unprinted p)(w := if report then finds (core p) w else None)\<rparr>)"
    (is "report_inv N report xs ?p")
proof -
  have w: "w < N" "worker_step w (core p) = Some s" using e by (auto split: if_splits)
  have i: "sem_inv N xs (core p)" using inv by (simp add: report_inv_def)
  have rd: "input (core p) = []" by (rule token_not_reading [OF i w])
  have v: "vals (core p) = xs" using i rd by (simp add: sem_inv_def)
  have s: "sem_inv N xs s" by (rule sem_inv_step [OF sem_exec_step [OF e] i x])
  note m = worker_step_moves [OF w(2)]
  have nf: "wpc s w \<noteq> Faulted" using sem_no_fault [OF s] w(1) by (simp add: no_fault_def)
  show ?thesis
  proof (cases report)
    case False
    then show ?thesis using inv s m rd by (simp add: report_inv_def)
  next
    case True
    let ?f = "\<lambda>(u, q). named_line u + still_named xs q"
    let ?g = "\<lambda>v. (unprinted p v, wpc (core p) v)"
    have o: "wpc s v = wpc (core p) v" if "v \<noteq> w" for v using m that by (metis fun_upd_apply)
    have "named_line (((unprinted p)(w := finds (core p) w)) v) + still_named xs (wpc s v) = ?f ((?g(w := (finds (core p) w, wpc s w))) v)" for v
      using o [of v] by (cases "v = w") simp_all
    then have "(\<Sum>v<N. named_line (((unprinted p)(w := finds (core p) w)) v) + still_named xs (wpc s v)) + ?f (?g w)
        = (\<Sum>v<N. ?f (?g v)) + ?f (finds (core p) w, wpc s w)"
      using sum_update [OF w(1), of ?f ?g "(finds (core p) w, wpc s w)"] by presburger
    then have a: "(\<Sum>v<N. named_line (((unprinted p)(w := finds (core p) w)) v) + still_named xs (wpc s v)) + still_named xs (wpc (core p) w)
        = (\<Sum>v<N. named_line (unprinted p v) + still_named xs (wpc (core p) v)) + (named_line (finds (core p) w) + still_named xs (wpc s w))"
      using u by simp
    have "named_line (finds (core p) w) + still_named xs (wpc s w) + (\<Sum>k\<in>{nextWorkIndex s..<length xs}. ends xs k)
        = still_named xs (wpc (core p) w) + (\<Sum>k\<in>{nextWorkIndex (core p)..<length xs}. ends xs k)"
      using worker_step_named [OF w(2) _ nf] x unfolding v fits_def by simp
    then have "(\<Sum>v<N. named_line (((unprinted p)(w := finds (core p) w)) v) + still_named xs (wpc s v)) + (\<Sum>k\<in>{nextWorkIndex s..<length xs}. ends xs k)
        = (\<Sum>v<N. named_line (unprinted p v) + still_named xs (wpc (core p) v)) + (\<Sum>k\<in>{nextWorkIndex (core p)..<length xs}. ends xs k)"
      by (rule exchange [OF a])
    then have "all_named N xs ?p" using inv True rd by (simp add: report_inv_def all_named_def add.assoc)
    moreover have "numbered (lines_of t ?p) \<and> (t < N \<longrightarrow> counted (wpc s t) = count32 (length (lines_of t ?p)))" for t
    proof -
      have old: "numbered (lines_of t p)" "t < N \<Longrightarrow> counted (wpc (core p) t) = count32 (length (lines_of t p))"
        using inv True by (simp_all add: report_inv_def)
      show ?thesis
      proof (cases "t = w")
        case True
        have "lines_of w ?p = lines_of w p @ (case finds (core p) w of None \<Rightarrow> [] | Some l \<Rightarrow> [l])"
          using u \<open>report\<close> by (simp add: lines_of_def)
        then show ?thesis using old w(1) True worker_step_counted [OF w(2) nf] numbered_snoc [of "lines_of w p"] by auto
      next
        case False
        then have "lines_of t ?p = lines_of t p" "wpc s t = wpc (core p) t" using m by (simp_all add: lines_of_def) (metis fun_upd_apply)
        then show ?thesis using old by simp
      qed
    qed
    ultimately show ?thesis using s m rd True by (simp add: report_inv_def del: upt_Suc)
  qed
qed

lemma report_inv_print:
  assumes inv: "report_inv N report xs p" and l: "unprinted p w = Some l" and w: "w < N"
  shows "report_inv N report xs (p\<lparr>unprinted := (unprinted p)(w := None), printed := printed p @ [(w, l)]\<rparr>)"
    (is "report_inv N report xs ?p")
proof -
  have b: "report" "input (core p) = []" using inv l by (auto simp: report_inv_def)
  let ?g = "\<lambda>u. \<Sum>v<N. named_line (u v) + still_named xs (wpc (core p) v)"
  have "(\<Sum>v<N. named_line (((unprinted p)(w := None)) v)) + named_line (unprinted p w) = (\<Sum>v<N. named_line (unprinted p v)) + named_line None"
    by (rule sum_update [OF w])
  then have "?g (unprinted p) = {#named_by l#} + ?g ((unprinted p)(w := None))" using l by (simp add: sum.distrib)
  then have "all_named N xs ?p" using inv b by (simp add: report_inv_def all_named_def)
  moreover have "lines_of t ?p = lines_of t p" for t using l by (simp add: lines_of_def)
  ultimately show ?thesis using inv b by (simp add: report_inv_def del: upt_Suc)
qed

text \<open>Only workers of the program have a line to print.\<close>

definition own_lines :: "nat \<Rightarrow> sem_program \<Rightarrow> bool" where
  "own_lines N p \<longleftrightarrow> (\<forall>w\<ge>N. unprinted p w = None)"

lemma own_lines_act: "sem_act N report a p = Some p' \<Longrightarrow> own_lines N p \<Longrightarrow> own_lines N p'"
  by (cases a) (auto simp: own_lines_def split: option.splits if_splits)

lemma work_act:
  "sem_act N report (Work w) p = Some p' \<longleftrightarrow> unprinted p w = None \<and> (\<exists>s. sem_exec N (Some w) (core p) = Some s
    \<and> p' = p\<lparr>core := s, unprinted := (unprinted p)(w := if report then finds (core p) w else None)\<rparr>)"
  by (cases "unprinted p w") (auto simp del: sem_exec.simps)

lemma report_inv_act:
  assumes "sem_act N report a p = Some p'" "report_inv N report xs p" "own_lines N p" "fits N xs"
  shows "report_inv N report xs p'"
proof (cases a)
  case Main
  then obtain s where "sem_exec N None (core p) = Some s" "p' = p\<lparr>core := s\<rparr>" using assms(1) by auto
  then show ?thesis using report_inv_main [OF assms(2) _ assms(4)] by simp
next
  case (Work w)
  then obtain s where "unprinted p w = None" "sem_exec N (Some w) (core p) = Some s"
    "p' = p\<lparr>core := s, unprinted := (unprinted p)(w := if report then finds (core p) w else None)\<rparr>"
    using work_act assms(1) by blast
  then show ?thesis using report_inv_work [OF assms(2) _ assms(4)] by simp
next
  case (Print w)
  then obtain l where l: "unprinted p w = Some l"
    "p' = p\<lparr>unprinted := (unprinted p)(w := None), printed := printed p @ [(w, l)]\<rparr>" using assms(1) by (auto split: option.splits)
  have "w < N" using assms(3) l(1) by (cases "w < N") (auto simp: own_lines_def)
  then show ?thesis using report_inv_print [OF assms(2) l(1)] l(2) by simp
qed

text \<open>Every act uses up part of this.\<close>

definition acts_left :: "nat \<Rightarrow> int list \<Rightarrow> sem_program \<Rightarrow> nat" where
  "acts_left N xs p = 2 * variant N (length xs) (core p) + (\<Sum>w<N. if unprinted p w = None then 0 else 1)"

lemma acts_left_act:
  assumes a: "sem_act N report a p = Some p'" and i: "sem_inv N xs (core p)" and o: "own_lines N p"
  shows "acts_left N xs p' < acts_left N xs p"
proof (cases a)
  case Main
  then obtain s where "sem_exec N None (core p) = Some s" "p' = p\<lparr>core := s\<rparr>" using a by auto
  then show ?thesis using variant_step [OF sem_exec_step i] by (simp add: acts_left_def del: sem_exec.simps)
next
  case (Work w)
  then obtain s where s: "unprinted p w = None" "sem_exec N (Some w) (core p) = Some s"
    "p' = p\<lparr>core := s, unprinted := (unprinted p)(w := if report then finds (core p) w else None)\<rparr>"
    using work_act a by blast
  have w: "w < N" using s(2) by (auto split: if_splits)
  have "(\<Sum>v<N. (\<lambda>u. if u = None then 0 else 1 :: nat) (unprinted p' v)) + 0
      = (\<Sum>v<N. (\<lambda>u. if u = None then 0 else 1) (unprinted p v)) + (if unprinted p' w = None then 0 else 1)"
    using sum_update [OF w, of "\<lambda>u. if u = None then 0 else 1 :: nat" "unprinted p" "unprinted p' w"] s(1,3) by simp
  then have "(\<Sum>v<N. if unprinted p' v = None then 0 else 1 :: nat) \<le> (\<Sum>v<N. if unprinted p v = None then 0 else 1) + 1" by simp
  then show ?thesis using variant_step [OF sem_exec_step [OF s(2)] i] s(3) by (simp add: acts_left_def)
next
  case (Print w)
  then obtain l where l: "unprinted p w = Some l"
    "p' = p\<lparr>unprinted := (unprinted p)(w := None), printed := printed p @ [(w, l)]\<rparr>" using a by (auto split: option.splits)
  have w: "w < N" using o l(1) by (cases "w < N") (auto simp: own_lines_def)
  have "(\<Sum>v<N. (\<lambda>u. if u = None then 0 else 1 :: nat) (unprinted p' v)) + 1 = (\<Sum>v<N. (\<lambda>u. if u = None then 0 else 1) (unprinted p v)) + 0"
    using sum_update [OF w, of "\<lambda>u. if u = None then 0 else 1 :: nat" "unprinted p" None] l by simp
  then show ?thesis using l(2) by (simp add: acts_left_def)
qed

lemma sem_acts_inv:
  assumes "sem_acts N report as p = Some p'" "report_inv N report xs p" "own_lines N p" "fits N xs"
  shows "report_inv N report xs p' \<and> own_lines N p' \<and> length as + acts_left N xs p' \<le> acts_left N xs p"
  using assms
proof (induction "as" arbitrary: p)
  case (Cons a as)
  then obtain q where q: "sem_act N report a p = Some q" "sem_acts N report as q = Some p'" by (auto split: option.splits)
  have i: "report_inv N report xs q" "own_lines N q"
    using report_inv_act [OF q(1)] own_lines_act [OF q(1)] Cons.prems by blast+
  have "acts_left N xs q < acts_left N xs p"
    using acts_left_act [OF q(1)] Cons.prems by (simp add: report_inv_def)
  then show ?case using Cons.IH [OF q(2) i Cons.prems(4)] by simp
qed simp

text \<open>Until the program has finished some act is possible.\<close>

lemma sem_step_exec: "sem_step N s s' \<Longrightarrow> \<exists>m. sem_exec N m s \<noteq> None"
proof (induction rule: sem_step.cases)
  case (read v vs vals')
  then show ?thesis by (intro exI [of _ None]) simp
next
  case post
  then show ?thesis by (intro exI [of _ None]) simp
next
  case (worker w)
  then show ?thesis by (intro exI [of _ "Some w"]) simp
qed

lemma sem_program_progress:
  assumes "report_inv N report xs p" "fits N xs" "\<not> finished N p"
  shows "\<exists>a. sem_act N report a p \<noteq> None"
proof (cases "\<exists>w. unprinted p w \<noteq> None")
  case True
  then obtain w l where "unprinted p w = Some l" by auto
  then show ?thesis by (intro exI [of _ "Print w"]) simp
next
  case False
  then have "\<not> all_exited N (core p)" using assms(3) by (simp add: finished_def)
  then obtain m where "sem_exec N m (core p) \<noteq> None"
    using sem_progress [of N xs "core p"] sem_step_exec assms(1,2) by (metis report_inv_def)
  then show ?thesis
  proof (cases m)
    case None
    then show ?thesis using \<open>sem_exec N m (core p) \<noteq> None\<close> by (intro exI [of _ Main]) (simp del: sem_exec.simps)
  next
    case (Some w)
    then show ?thesis using \<open>sem_exec N m (core p) \<noteq> None\<close> False work_act by blast
  qed
qed

subsection \<open>Properties\<close>

lemma read_ints_int32: "int32_list (read_ints s)"
proof (induction s rule: read_ints.induct)
  case (1 s)
  show ?case
  proof (cases "scan_number (dropWhile isspace s)")
    case None
    then show ?thesis by (subst read_ints.simps) (simp add: int32_list_def)
  next
    case (Some p)
    then have "int32_list (read_ints (snd p))" using 1 by blast
    then show ?thesis using Some to_int32_range
      by (subst read_ints.simps) (simp add: int32_list_def store_num_def)
  qed
qed

lemma finished_names:
  assumes inv: "report_inv N report xs p" and o: "own_lines N p" and f: "finished N p" and n: "0 < N"
  shows "image_mset (named_by \<circ> snd) (mset (printed p)) = (if report then mset_set (triangles xs) else {#})"
    "map (fst \<circ> snd) (filter (\<lambda>x. fst x = w) (printed p)) = map count32 [1..<Suc (length (filter (\<lambda>x. fst x = w) (printed p)))]"
    "length (filter (\<lambda>x. fst x = w) (printed p)) \<le> triangle_count xs"
    "vals (core p) = xs" "global_count (core p) = count32 (triangle_count xs)"
proof -
  have i: "sem_inv N xs (core p)" using inv by (simp add: report_inv_def)
  have ex: "\<exists>lc. wpc (core p) w = Exited lc" if "w < N" for w using f that by (simp add: finished_def all_exited_def)
  have u: "unprinted p w = None" for w using f o by (cases "w < N") (auto simp: finished_def own_lines_def)
  have rd: "input (core p) = []"
  proof (rule ccontr)
    assume "input (core p) \<noteq> []"
    then show False using reading_all_wait [OF i _ n] ex [OF n] by fastforce
  qed
  then show "vals (core p) = xs" using i by (simp add: sem_inv_def)
  then have "length xs \<le> nextWorkIndex (core p)" using i ex [OF n] n unfolding sem_inv_def by auto
  moreover have "(\<Sum>w<N. named_line (unprinted p w) + still_named xs (wpc (core p) w)) = {#}"
    by (rule sum.neutral) (use ex u in fastforce)
  ultimately show names: "image_mset (named_by \<circ> snd) (mset (printed p)) = (if report then mset_set (triangles xs) else {#})"
    using inv rd by (auto simp: report_inv_def all_named_def)
  have "length (printed p) \<le> triangle_count xs" using arg_cong [OF names, of size] by (simp add: triangle_count_def split: if_splits)
  then show "length (filter (\<lambda>x. fst x = w) (printed p)) \<le> triangle_count xs" using length_filter_le order_trans by blast
  have "numbered (lines_of w p)"
    using inv by (cases report) (simp_all add: report_inv_def lines_of_def numbered_def)
  then show "map (fst \<circ> snd) (filter (\<lambda>x. fst x = w) (printed p)) = map count32 [1..<Suc (length (filter (\<lambda>x. fst x = w) (printed p)))]"
    using u [of w] by (simp add: lines_of_def numbered_def comp_def del: upt_Suc)
  show "global_count (core p) = count32 (triangle_count xs)" using sem_total [OF i n] f by (simp add: finished_def)
qed

text \<open>
  C4: \<open>triangles-sem.c\<close> from its arguments to its output, when the threads can be created, for any
  numbers and workers that are together at most 10001 (one more, and the unlocked test of \<open>nextWorkIndex\<close> can lead a worker past the end of
  \<open>vList\<close>) and fewer than \<open>2\<^sup>3\<^sup>1\<close> triangles, which the \<open>int\<close> counters hold, and for every schedule of
  \<open>main\<close>, the workers and their prints: no worker ever reads outside \<open>vList\<close>; every run is finite and
  can only end when all workers have returned; then the report has named every triangle exactly once
  (and none without \<open>report\<close>), each worker has numbered its lines from one on, and the last line has
  the number of triangles.
\<close>

theorem sem_main_correct:
  assumes "parse_args argv = Some (workers, report)" "read_ints stdin = xs"
    and "length xs + workers \<le> Suc MAX_VALUES" "triangle_count xs < 2 ^ 31"
    and "sem_acts workers report acts (sem_begin xs) = Some p"
  shows "no_fault workers (core p)
    \<and> length acts \<le> acts_left workers xs (sem_begin xs)
    \<and> (finished workers p \<or> (\<exists>a. sem_act workers report a p \<noteq> None))
    \<and> (finished workers p \<longrightarrow>
        triangles_sem_main tid argv stdin acts
          = Some (exits (concat (map (\<lambda>(w, l). sem_line xs (tid w) l) (printed p)) @ total_line (int (triangle_count xs))) [] EXIT_SUCCESS)
        \<and> image_mset (named_by \<circ> snd) (mset (printed p)) = (if report then mset_set (triangles xs) else {#})
        \<and> (\<forall>w. map (fst \<circ> snd) (filter (\<lambda>x. fst x = w) (printed p)) = map int [1..<Suc (length (filter (\<lambda>x. fst x = w) (printed p)))]))"
proof -
  have x: "fits workers xs" using read_ints_int32 assms(2,3) unfolding fits_def by blast
  have "own_lines workers (sem_begin xs)" by (simp add: own_lines_def sem_begin_def)
  from sem_acts_inv [OF assms(5) report_inv_begin this x]
  have inv: "report_inv workers report xs p" "own_lines workers p" and l: "length acts \<le> acts_left workers xs (sem_begin xs)" by auto
  have nf: "no_fault workers (core p)" using inv(1) sem_no_fault unfolding report_inv_def by blast
  have fin: "(\<forall>w<workers. case wpc (core p) w of Exited lc \<Rightarrow> True | _ \<Rightarrow> False) \<and> (\<forall>w<workers. unprinted p w = None)" if "finished workers p"
    using that by (fastforce simp: finished_def all_exited_def)
  note names = finished_names [OF inv _ parse_args_workers [OF assms(1)]]
  have "triangles_sem_main tid argv stdin acts
      = Some (exits (concat (map (\<lambda>(w, l). sem_line xs (tid w) l) (printed p)) @ total_line (int (triangle_count xs))) [] EXIT_SUCCESS)"
    if "finished workers p"
    unfolding triangles_sem_main_def assms(1,2) option.case prod.case assms(5)
    using fin [OF that] names(4,5) [OF that] count32_id [OF assms(4)] by simp
  moreover have "map (fst \<circ> snd) (filter (\<lambda>x. fst x = w) (printed p)) = map int [1..<Suc (length (filter (\<lambda>x. fst x = w) (printed p)))]"
    if "finished workers p" for w
  proof -
    have "Suc (length (filter (\<lambda>x. fst x = w) (printed p))) \<le> 2 ^ 31" using names(3) [OF that, of w] assms(4) by simp
    then show ?thesis unfolding names(2) [OF that] by (rule map_count32)
  qed
  ultimately show ?thesis using nf l sem_program_progress [OF inv(1) x] names(1) by blast
qed

lemma readList_store_small: "length vs < 100 \<Longrightarrow> readList_store vs v = Stored (vs @ [v])"
  by (simp add: readList_store_def MAX_VALUES_def)

definition one_worker :: "sem_turn list" where
  "one_worker = replicate 4 Main @ replicate 12 (Work 0) @ [Print 0] @ replicate 3 (Work 0)"

theorem sem_main_correct_witness:
  "\<exists>p. sem_acts 1 True one_worker (sem_begin [3, 4, 5]) = Some p \<and> printed p = [(0, 1, 2, 1, 0)]
    \<and> triangles_sem_main int [''triangles-sem'', ''1'', ''report''] three_lines one_worker
      = Some (exits (concat (map (\<lambda>(w, l). sem_line [3, 4, 5] (int w) l) (printed p)) @ total_line (int (triangle_count [3, 4, 5]))) [] EXIT_SUCCESS)"
proof -
  obtain p where p: "sem_acts 1 True one_worker (sem_begin [3, 4, 5]) = Some p" and f: "finished 1 p" "printed p = [(0, 1, 2, 1, 0)]"
    by (simp add: one_worker_def numeral_eq_Suc sem_begin_def sem_start_def readList_store_small worker_step_def work_pairs_def
        finds_def test_at_def vAt_def checkTriangle_def add32_def to_int32_def finished_def all_exited_def upt_rec)
  have a: "parse_args [''triangles-sem'', ''1'', ''report''] = Some (1, True)" by code_simp
  show ?thesis using sem_main_correct [OF a three_lines_read _ three_lines_few p, of int] p f by (simp add: MAX_VALUES_def)
qed

end
