(* ===== verification/Kitchen_Mains.thy ===== *)
theory Kitchen_Mains
  imports Take_All
begin

text \<open>
  \<open>main\<close> of the four kitchens, \<open>assignments/hw5/kitchen.c\<close>, \<open>ordered.c\<close>, \<open>global.c\<close> and \<open>takeAll.c\<close>, step
  by step beside the chefs: it creates the threads one by one, clears \<open>running\<close>, joins the chefs in
  the order of the list and prints the line of each as soon as that chef has returned, while the
  others may still cook and print.

  What \<open>main\<close> relies on is the locale \<open>crew_laws\<close>; the chefs with locks and those of \<open>takeAll.c\<close> are
  its two interpretations. Proved: when the program ends, each line of its report has the number
  of dishes that this chef announced, and the total is their sum.
\<close>

subsection \<open>The program\<close>

text \<open>The chefs as \<open>main\<close> sees them; the flag of \<open>exec\<close> asks for a spurious wakeup.\<close>

record 's crew =
  exec :: "bool \<Rightarrow> chef \<Rightarrow> 's \<Rightarrow> 's option"
  kit_of :: "'s \<Rightarrow> kitchen"
  returned :: "'s \<Rightarrow> chef \<Rightarrow> bool"
  halts :: "'s \<Rightarrow> 's"

datatype main_pc = Creating nat | Sleeping | Joining nat | Ended | Gave_up

text \<open>What is on the standard output, by who printed it.\<close>

datatype shown_line = By_chef string | By_main string

fun line_text :: "shown_line \<Rightarrow> string" where
  "line_text (By_chef l) = l @ NL"
| "line_text (By_main l) = l @ NL"

record 's kitchen_program =
  staff :: 's
  main_at :: main_pc
  total_dishes :: nat
  shown :: "shown_line list"

datatype kitchen_turn = Main_moves | Chef_moves bool chef

fun present :: "main_pc \<Rightarrow> chef \<Rightarrow> bool" where
  "present (Creating i) c = (c \<in> set (take i chefList))"
| "present Sleeping c = True"
| "present (Joining i) c = True"
| "present Ended c = False"
| "present Gave_up c = False"

definition dish_line :: "kitchen \<Rightarrow> chef \<Rightarrow> string" where
  "dish_line k c = chef_name c @ '' cooked '' @ show_int (int (dishCount k c)) @ '' dishes''"

definition total_dishes_line :: "nat \<Rightarrow> string" where
  "total_dishes_line n = ''Total dishes cooked: '' @ show_int (int n)"

fun main_move :: "'s crew \<Rightarrow> (nat \<Rightarrow> bool) \<Rightarrow> main_pc \<Rightarrow> 's kitchen_program \<Rightarrow> 's kitchen_program option" where
  "main_move C create_fails (Creating i) p =
     Some (p\<lparr>main_at := (if \<not> i < length chefList then Sleeping else if create_fails i then Gave_up else Creating (i + 1))\<rparr>)"
| "main_move C create_fails Sleeping p = Some (p\<lparr>staff := halts C (staff p), main_at := Joining 0\<rparr>)"
| "main_move C create_fails (Joining i) p =
     (if \<not> i < length chefList
      then Some (p\<lparr>main_at := Ended, shown := shown p @ [By_main (total_dishes_line (total_dishes p))]\<rparr>)
      else if returned C (staff p) (chefList ! i)
      then Some (p\<lparr>main_at := Joining (i + 1), total_dishes := total_dishes p + dishCount (kit_of C (staff p)) (chefList ! i),
                   shown := shown p @ [By_main (dish_line (kit_of C (staff p)) (chefList ! i))]\<rparr>)
      else None)"
| "main_move C create_fails Ended p = None"
| "main_move C create_fails Gave_up p = None"

fun kitchen_act :: "'s crew \<Rightarrow> (nat \<Rightarrow> bool) \<Rightarrow> kitchen_turn \<Rightarrow> 's kitchen_program \<Rightarrow> 's kitchen_program option" where
  "kitchen_act C create_fails Main_moves p = main_move C create_fails (main_at p) p"
| "kitchen_act C create_fails (Chef_moves w c) p =
     (if \<not> present (main_at p) c then None
      else case exec C w c (staff p) of
        None \<Rightarrow> None
      | Some s \<Rightarrow> Some (p\<lparr>staff := s,
          shown := shown p @ map By_chef (drop (length (printed (kit_of C (staff p)))) (printed (kit_of C s)))\<rparr>))"

fun kitchen_acts :: "'s crew \<Rightarrow> (nat \<Rightarrow> bool) \<Rightarrow> kitchen_turn list \<Rightarrow> 's kitchen_program \<Rightarrow> 's kitchen_program option" where
  "kitchen_acts C create_fails [] p = Some p"
| "kitchen_acts C create_fails (a # as) p =
     (case kitchen_act C create_fails a p of None \<Rightarrow> None | Some p' \<Rightarrow> kitchen_acts C create_fails as p')"

definition kitchen_begin :: "'s \<Rightarrow> 's kitchen_program" where
  "kitchen_begin s = \<lparr>staff = s, main_at = Creating 0, total_dishes = 0, shown = []\<rparr>"

fun kitchen_end :: "main_pc \<Rightarrow> string \<Rightarrow> outcome option" where
  "kitchen_end Ended text_out = Some (exits text_out [] 0)"
| "kitchen_end Gave_up text_out = Some (exits text_out (''Can't create thread'' @ NL) 1)"
| "kitchen_end _ text_out = None"

text \<open>\<open>None\<close>: the turns do not bring the program to its end.\<close>

definition kitchen_main :: "'s crew \<Rightarrow> (nat \<Rightarrow> bool) \<Rightarrow> kitchen_turn list \<Rightarrow> 's \<Rightarrow> outcome option" where
  "kitchen_main C create_fails turns s0 =
     (case kitchen_acts C create_fails turns (kitchen_begin s0) of
        None \<Rightarrow> None
      | Some p \<Rightarrow> kitchen_end (main_at p) (concat (map line_text (shown p))))"

text \<open>The two kinds of chefs, and the four programs.\<close>

definition lock_crew :: "(chef \<Rightarrow> 'l \<Rightarrow> ('m, chef_act) instr list \<times> 'l)
    \<Rightarrow> (chef, 'm, chef_act, 'l, (chef, 'm) mutexes, kitchen) sys crew" where
  "lock_crew b = \<lparr>exec = (\<lambda>w c s. if w then None else thread_exec (kitchen_prog b) c s), kit_of = usr,
     returned = (\<lambda>s c. case thr s c of Done \<Rightarrow> True | At is l \<Rightarrow> False), halts = (\<lambda>s. s\<lparr>running := False\<rparr>)\<rparr>"

definition takeall_crew :: "takeall crew" where
  "takeall_crew = \<lparr>exec = (\<lambda>w c s. if w then (if pc s c = Waiting then Some (s\<lparr>pc := (pc s)(c := Trying)\<rparr>) else None) else chef_step c s),
     kit_of = out, returned = (\<lambda>s c. pc s c = Returned), halts = (\<lambda>s. s\<lparr>going := False\<rparr>)\<rparr>"

definition kitchen_c_main :: "(nat \<Rightarrow> bool) \<Rightarrow> kitchen_turn list \<Rightarrow> outcome option" where
  "kitchen_c_main create_fails turns = kitchen_main (lock_crew kitchen_body) create_fails turns kitchen_start"

definition ordered_main :: "(nat \<Rightarrow> bool) \<Rightarrow> kitchen_turn list \<Rightarrow> outcome option" where
  "ordered_main create_fails turns = kitchen_main (lock_crew ordered_body) create_fails turns ordered_start"

definition global_main :: "(nat \<Rightarrow> bool) \<Rightarrow> kitchen_turn list \<Rightarrow> outcome option" where
  "global_main create_fails turns = kitchen_main (lock_crew global_body) create_fails turns global_start"

definition takeall_main :: "(nat \<Rightarrow> bool) \<Rightarrow> kitchen_turn list \<Rightarrow> outcome option" where
  "takeall_main create_fails turns = kitchen_main takeall_crew create_fails turns takeall_init"

subsection \<open>What main relies on\<close>

locale crew_laws =
  fixes C :: "'s crew"
  assumes works: "exec C w c s = Some s' \<Longrightarrow> kit_of C s' = kit_of C s \<or> (\<exists>a. kit_of C s' = do_act c a (kit_of C s))"
    and gone: "returned C s c \<Longrightarrow> exec C w c s = None"
    and others: "exec C w c s = Some s' \<Longrightarrow> c' \<noteq> c \<Longrightarrow> returned C s' c' = returned C s c'"
    and halting: "kit_of C (halts C s) = kit_of C s" "returned C (halts C s) c = returned C s c"

text \<open>The lines by who printed them.\<close>

fun chef_lines :: "shown_line list \<Rightarrow> string list" where
  "chef_lines [] = []"
| "chef_lines (By_chef l # ls) = l # chef_lines ls"
| "chef_lines (By_main l # ls) = chef_lines ls"

fun main_lines :: "shown_line list \<Rightarrow> string list" where
  "main_lines [] = []"
| "main_lines (By_chef l # ls) = main_lines ls"
| "main_lines (By_main l # ls) = l # main_lines ls"

lemma lines_append [simp]:
  "chef_lines (as @ bs) = chef_lines as @ chef_lines bs" "main_lines (as @ bs) = main_lines as @ main_lines bs"
  "chef_lines (map By_chef ls) = ls" "main_lines (map By_chef ls) = []"
proof -
  show "chef_lines (as @ bs) = chef_lines as @ chef_lines bs" by (induction as rule: chef_lines.induct) simp_all
  show "main_lines (as @ bs) = main_lines as @ main_lines bs" by (induction as rule: main_lines.induct) simp_all
qed (induction ls, simp_all)+

text \<open>How many chefs have been joined; whether every thread was created.\<close>

fun joined_chefs :: "main_pc \<Rightarrow> nat" where
  "joined_chefs (Joining i) = i"
| "joined_chefs Ended = length chefList"
| "joined_chefs _ = 0"

fun created_so_far :: "(nat \<Rightarrow> bool) \<Rightarrow> main_pc \<Rightarrow> bool" where
  "created_so_far create_fails (Creating i) = (\<forall>j<length chefList. j < i \<longrightarrow> \<not> create_fails j)"
| "created_so_far create_fails Gave_up = (\<exists>j<length chefList. create_fails j)"
| "created_so_far create_fails _ = (\<forall>j<length chefList. \<not> create_fails j)"

definition main_says :: "kitchen \<Rightarrow> main_pc \<Rightarrow> string list" where
  "main_says k m = map (dish_line k) (take (joined_chefs m) chefList)
     @ (if m = Ended then [total_dishes_line (\<Sum>c\<leftarrow>chefList. dishCount k c)] else [])"

text \<open>The end of a program: its exit, and the figures of its report.\<close>

definition says_cooking :: "shown_line list \<Rightarrow> chef \<Rightarrow> nat" where
  "says_cooking ls c = count_list (chef_lines ls) (chef_name c @ '' is cooking'')"

definition well_reported :: "(nat \<Rightarrow> bool) \<Rightarrow> outcome \<Rightarrow> bool" where
  "well_reported create_fails oc \<longleftrightarrow> (\<exists>ls. stdout oc = concat (map line_text ls) \<and>
     (if \<exists>j<length chefList. create_fails j
      then main_lines ls = [] \<and> stderr oc = ''Can't create thread'' @ NL \<and> status oc = 1
      else main_lines ls = map (\<lambda>c. chef_name c @ '' cooked '' @ show_int (int (says_cooking ls c)) @ '' dishes'') chefList
             @ [''Total dishes cooked: '' @ show_int (int (\<Sum>c\<leftarrow>chefList. says_cooking ls c))]
         \<and> stderr oc = [] \<and> status oc = 0))"

lemma do_act_effect:
  "\<exists>l. printed (do_act c a k) = printed k @ [l]" "c' \<noteq> c \<Longrightarrow> dishCount (do_act c a k) c' = dishCount k c'"
  by (cases a; simp add: cook_def rest_def)+

context crew_laws
begin

definition crew_ok :: "(nat \<Rightarrow> bool) \<Rightarrow> 's kitchen_program \<Rightarrow> bool" where
  "crew_ok create_fails p \<longleftrightarrow> counted (kit_of C (staff p)) \<and> chef_lines (shown p) = printed (kit_of C (staff p))
     \<and> main_lines (shown p) = main_says (kit_of C (staff p)) (main_at p)
     \<and> total_dishes p = (\<Sum>c\<leftarrow>take (joined_chefs (main_at p)) chefList. dishCount (kit_of C (staff p)) c)
     \<and> (\<forall>c\<in>set (take (joined_chefs (main_at p)) chefList). returned C (staff p) c)
     \<and> joined_chefs (main_at p) \<le> length chefList \<and> created_so_far create_fails (main_at p)"

lemma crew_okD:
  assumes "crew_ok f p"
  shows "counted (kit_of C (staff p))" "chef_lines (shown p) = printed (kit_of C (staff p))"
    "main_lines (shown p) = main_says (kit_of C (staff p)) (main_at p)"
    "total_dishes p = (\<Sum>c\<leftarrow>take (joined_chefs (main_at p)) chefList. dishCount (kit_of C (staff p)) c)"
    "c \<in> set (take (joined_chefs (main_at p)) chefList) \<Longrightarrow> returned C (staff p) c"
    "joined_chefs (main_at p) \<le> length chefList" "created_so_far f (main_at p)"
  using assms unfolding crew_ok_def by blast+

lemma exec_effect:
  assumes "exec C w c s = Some s'"
  shows "counted (kit_of C s) \<Longrightarrow> counted (kit_of C s')"
    "printed (kit_of C s) @ drop (length (printed (kit_of C s))) (printed (kit_of C s')) = printed (kit_of C s')"
    "returned C s d \<Longrightarrow> dishCount (kit_of C s') d = dishCount (kit_of C s) d \<and> returned C s' d"
proof -
  note w = works [OF assms]
  show "counted (kit_of C s')" if "counted (kit_of C s)" using w that counted_act by metis
  show "printed (kit_of C s) @ drop (length (printed (kit_of C s))) (printed (kit_of C s')) = printed (kit_of C s')"
    using w
  proof
    assume "\<exists>a. kit_of C s' = do_act c a (kit_of C s)"
    then obtain a l where "printed (kit_of C s') = printed (kit_of C s) @ [l]" using do_act_effect(1) by metis
    then show ?thesis by simp
  qed simp
  assume d: "returned C s d"
  then have "d \<noteq> c" using gone [OF d, of w] assms by auto
  then show "dishCount (kit_of C s') d = dishCount (kit_of C s) d \<and> returned C s' d"
    using w do_act_effect(2) [of d c] others [OF assms, of d] d by metis
qed

lemma crew_ok_chef:
  assumes p: "crew_ok f p" and m: "main_at p \<noteq> Ended" and e: "exec C w c (staff p) = Some s"
  shows "crew_ok f (p\<lparr>staff := s, shown := shown p @ map By_chef (drop (length (printed (kit_of C (staff p)))) (printed (kit_of C s)))\<rparr>)"
proof -
  note i = crew_okD [OF p] and x = exec_effect [OF e]
  have d: "dishCount (kit_of C s) c = dishCount (kit_of C (staff p)) c" "returned C s c"
    if "c \<in> set (take (joined_chefs (main_at p)) chefList)" for c using x(3) [OF i(5) [OF that]] by blast+
  have "main_says (kit_of C s) (main_at p) = main_says (kit_of C (staff p)) (main_at p)"
    using m d(1) by (simp add: main_says_def dish_line_def)
  moreover have "(\<Sum>c\<leftarrow>take (joined_chefs (main_at p)) chefList. dishCount (kit_of C s) c)
      = (\<Sum>c\<leftarrow>take (joined_chefs (main_at p)) chefList. dishCount (kit_of C (staff p)) c)"
    using d(1) by (metis (mono_tags, lifting) map_eq_conv)
  ultimately show ?thesis using i x(1,2) d(2) by (simp add: crew_ok_def)
qed

lemma crew_ok_main:
  assumes p: "crew_ok f p" and a: "main_move C f (main_at p) p = Some p'"
  shows "crew_ok f p'"
proof (cases "main_at p")
  case (Creating n)
  then show ?thesis using a crew_okD [OF p] by (auto simp: crew_ok_def main_says_def less_Suc_eq split: if_splits)
next
  case Sleeping
  then show ?thesis using a crew_okD [OF p] by (auto simp: crew_ok_def main_says_def halting)
next
  case (Joining n)
  note i = crew_okD [OF p, unfolded Joining]
  show ?thesis
  proof (cases "n < length chefList")
    case True
    then have t: "take (Suc n) chefList = take n chefList @ [chefList ! n]" by (simp add: take_Suc_conv_app_nth)
    have p': "returned C (staff p) (chefList ! n)"
      "p' = p\<lparr>main_at := Joining (n + 1), total_dishes := total_dishes p + dishCount (kit_of C (staff p)) (chefList ! n),
         shown := shown p @ [By_main (dish_line (kit_of C (staff p)) (chefList ! n))]\<rparr>"
      using a True by (auto simp: Joining split: if_splits)
    show ?thesis using i p'(1) True by (auto simp: p'(2) crew_ok_def main_says_def t)
  next
    case False
    then have n: "n = length chefList" using i(6) by simp
    have "p' = p\<lparr>main_at := Ended, shown := shown p @ [By_main (total_dishes_line (total_dishes p))]\<rparr>"
      using a False by (simp add: Joining)
    then show ?thesis using i n by (auto simp: crew_ok_def main_says_def)
  qed
qed (use a in simp_all)

lemma crew_ok_acts: "kitchen_acts C f turns p = Some p' \<Longrightarrow> crew_ok f p \<Longrightarrow> crew_ok f p'"
proof (induction turns arbitrary: p)
  case (Cons t turns)
  then obtain q where q: "kitchen_act C f t p = Some q" "kitchen_acts C f turns q = Some p'" by (auto split: option.splits)
  have "crew_ok f q"
  proof (cases t)
    case Main_moves
    then show ?thesis using crew_ok_main [OF Cons.prems(2)] q(1) by simp
  next
    case (Chef_moves w c)
    then obtain s where "present (main_at p) c" "exec C w c (staff p) = Some s"
      "q = p\<lparr>staff := s, shown := shown p @ map By_chef (drop (length (printed (kit_of C (staff p)))) (printed (kit_of C s)))\<rparr>"
      using q(1) by (auto split: if_splits option.splits)
    moreover from this(1) have "main_at p \<noteq> Ended" by auto
    ultimately show ?thesis using crew_ok_chef [OF Cons.prems(2)] by simp
  qed
  then show ?case using Cons.IH q(2) by blast
qed simp

lemma main_reports:
  assumes "kitchen_main C f turns s0 = Some oc" "printed (kit_of C s0) = []" "counted (kit_of C s0)"
  shows "well_reported f oc"
proof -
  obtain p where p: "kitchen_acts C f turns (kitchen_begin s0) = Some p"
    and e: "kitchen_end (main_at p) (concat (map line_text (shown p))) = Some oc"
    using assms(1) by (auto simp: kitchen_main_def split: option.splits)
  have "crew_ok f (kitchen_begin s0)" using assms(2,3) by (simp add: crew_ok_def kitchen_begin_def main_says_def)
  note i = crew_okD [OF crew_ok_acts [OF p this]]
  have n: "dishCount (kit_of C (staff p)) c = says_cooking (shown p) c" for c
    using i(1,2) by (simp add: counted_def says_cooking_def)
  show ?thesis
  proof (cases "main_at p")
    case Ended
    then have "\<not> (\<exists>j<length chefList. f j)" using i(7) by simp
    moreover have "dishCount (kit_of C (staff p)) = says_cooking (shown p)" using n by auto
    ultimately show ?thesis using i(3) e unfolding well_reported_def
      by (intro exI [of _ "shown p"]) (auto simp: Ended exits_def main_says_def dish_line_def total_dishes_line_def)
  next
    case Gave_up
    then have "\<exists>j<length chefList. f j" using i(7) by simp
    then show ?thesis using i(3) e unfolding well_reported_def
      by (intro exI [of _ "shown p"]) (auto simp: Gave_up exits_def main_says_def)
  qed (use e in simp_all)
qed

end

interpretation lock_crew: crew_laws "lock_crew b"
proof
  show "exec (lock_crew b) w c s = Some s' \<Longrightarrow> kit_of (lock_crew b) s' = kit_of (lock_crew b) s
      \<or> (\<exists>a. kit_of (lock_crew b) s' = do_act c a (kit_of (lock_crew b) s))" for w c s s'
    by (auto simp: lock_crew_def thread_exec_def kitchen_prog_def split: if_splits thread.splits list.splits instr.splits prod.splits)
  show "returned (lock_crew b) s c \<Longrightarrow> exec (lock_crew b) w c s = None" for w c s
    by (auto simp: lock_crew_def thread_exec_def split: thread.splits)
  show "exec (lock_crew b) w c s = Some s' \<Longrightarrow> c' \<noteq> c \<Longrightarrow> returned (lock_crew b) s' c' = returned (lock_crew b) s c'" for w c c' s s'
    by (auto simp: lock_crew_def thread_exec_def split: if_splits thread.splits list.splits instr.splits prod.splits)
qed (simp_all add: lock_crew_def)

interpretation takeall_crew: crew_laws takeall_crew
proof
  show "exec takeall_crew w c s = Some s' \<Longrightarrow> kit_of takeall_crew s' = kit_of takeall_crew s
      \<or> (\<exists>a. kit_of takeall_crew s' = do_act c a (kit_of takeall_crew s))" for w c s s'
    by (auto simp: takeall_crew_def wait_and_acquire_appliances_def release_appliances_def split: if_splits chef_pc.splits
        intro: exI [of _ "Cook _"] exI [of _ "Rest _"])
  show "returned takeall_crew s c \<Longrightarrow> exec takeall_crew w c s = None" for w c s
    by (auto simp: takeall_crew_def)
  show "exec takeall_crew w c s = Some s' \<Longrightarrow> c' \<noteq> c \<Longrightarrow> returned takeall_crew s' c' = returned takeall_crew s c'" for w c c' s s'
    by (auto simp: takeall_crew_def wait_and_acquire_appliances_def release_appliances_def broadcast_def split: if_splits chef_pc.splits)
qed (simp_all add: takeall_crew_def)

subsection \<open>Properties\<close>

text \<open>
  A run of \<open>main\<close> of any of the four kitchens that comes to its end, whatever the order of the turns:
  when every thread could be created, the report has a line for each chef, in the order of the list,
  with the number of times the chef was said to be cooking, and their sum; when one could not, there
  is no report, and the program ends with status 1.
\<close>

theorem kitchen_mains_report:
  shows "kitchen_c_main create_fails turns = Some oc \<Longrightarrow> well_reported create_fails oc"
    and "ordered_main create_fails turns = Some oc \<Longrightarrow> well_reported create_fails oc"
    and "global_main create_fails turns = Some oc \<Longrightarrow> well_reported create_fails oc"
    and "takeall_main create_fails turns = Some oc \<Longrightarrow> well_reported create_fails oc"
proof -
  have k: "printed (kit_of (lock_crew b) (kitchen_init l)) = []" "counted (kit_of (lock_crew b) (kitchen_init l))" for b l
    by (simp_all add: lock_crew_def kitchen_init_def counted_def)
  have t: "printed (kit_of takeall_crew takeall_init) = []" "counted (kit_of takeall_crew takeall_init)"
    by (simp_all add: takeall_crew_def takeall_init_def counted_def)
  show "kitchen_c_main create_fails turns = Some oc \<Longrightarrow> well_reported create_fails oc"
    unfolding kitchen_c_main_def by (erule lock_crew.main_reports) (rule k)+
  show "ordered_main create_fails turns = Some oc \<Longrightarrow> well_reported create_fails oc"
    unfolding ordered_main_def by (erule lock_crew.main_reports) (rule k)+
  show "global_main create_fails turns = Some oc \<Longrightarrow> well_reported create_fails oc"
    unfolding global_main_def by (erule lock_crew.main_reports) (rule k)+
  show "takeall_main create_fails turns = Some oc \<Longrightarrow> well_reported create_fails oc"
    unfolding takeall_main_def by (erule takeall_crew.main_reports) (rule t)+
qed

text \<open>One dish of Lyn, then everybody leaves; and a run in which the fourth thread cannot be created.\<close>

definition one_dish :: "nat \<Rightarrow> kitchen_turn list" where
  "one_dish n = replicate 11 Main_moves @ replicate n (Chef_moves False Lyn) @ [Main_moves] @ map (Chef_moves False) chefList
     @ replicate 11 Main_moves"

theorem kitchen_mains_report_witness:
  "(\<exists>oc. global_main (\<lambda>_. False) (one_dish 5) = Some oc \<and> well_reported (\<lambda>_. False) oc
      \<and> take 34 (stdout oc) = ''Lyn is cooking'' @ NL @ ''Lyn is resting'' @ NL @ ''Tad '')
   \<and> (\<exists>oc. takeall_main (\<lambda>_. False) (one_dish 5) = Some oc \<and> well_reported (\<lambda>_. False) oc)
   \<and> (\<exists>oc. ordered_main (\<lambda>i. i = 3) (replicate 4 Main_moves) = Some oc \<and> status oc = 1)"
proof (intro conjI)
  have "case global_main (\<lambda>_. False) (one_dish 5) of None \<Rightarrow> False
    | Some oc \<Rightarrow> take 34 (stdout oc) = ''Lyn is cooking'' @ NL @ ''Lyn is resting'' @ NL @ ''Tad ''" by code_simp
  then show "\<exists>oc. global_main (\<lambda>_. False) (one_dish 5) = Some oc \<and> well_reported (\<lambda>_. False) oc
      \<and> take 34 (stdout oc) = ''Lyn is cooking'' @ NL @ ''Lyn is resting'' @ NL @ ''Tad ''"
    using kitchen_mains_report(3) by (auto split: option.splits)
  have "case takeall_main (\<lambda>_. False) (one_dish 5) of None \<Rightarrow> False | Some oc \<Rightarrow> True" by code_simp
  then show "\<exists>oc. takeall_main (\<lambda>_. False) (one_dish 5) = Some oc \<and> well_reported (\<lambda>_. False) oc"
    using kitchen_mains_report(4) by (auto split: option.splits)
  have "case ordered_main (\<lambda>i. i = 3) (replicate 4 Main_moves) of None \<Rightarrow> False | Some oc \<Rightarrow> status oc = 1" by code_simp
  then show "\<exists>oc. ordered_main (\<lambda>i. i = 3) (replicate 4 Main_moves) = Some oc \<and> status oc = 1"
    by (auto split: option.splits)
qed

end
