(* ===== verification/Driver_Mains.thy ===== *)
theory Driver_Mains
  imports Drivers
begin

text \<open>
  The whole of \<open>assignments/hw5/driver5.c\<close> and \<open>driver6.c\<close> around the loops of \<open>Drivers\<close>: the threads that
  can be created, what the monitor prints while they play, the report and \<open>destroyMonitor\<close>.

  Proved: a run that comes to its end prints the games, each between two players of the table whose
  skills are different and at most the gap apart, then one line for each player, and a total that is
  twice the number of the games; a thread that cannot be created ends the program with status 1.
\<close>

subsection \<open>The programs\<close>

text \<open>The threads that \<open>main\<close> creates before the first call of \<open>pthread_create\<close> that fails.\<close>

definition threads_created :: "(nat \<Rightarrow> bool) \<Rightarrow> crowd_cast \<Rightarrow> nat" where
  "threads_created create_fails d = length (takeWhile (\<lambda>i. \<not> create_fails i) [0..<length (plist d)])"

definition out_lines :: "string list \<Rightarrow> string" where
  "out_lines ls = concat (map (\<lambda>l. l @ NL) ls)"

text \<open>
  \<open>None\<close>: the schedule does not bring the program to its end, or a call of the monitor or
  \<open>destroyMonitor\<close> does not come back or reads what was freed. When a thread cannot be created, those
  created before it play until \<open>fail\<close> ends the program; the matchmaker is not stopped.
\<close>

definition crowd_main :: "crowd_cast \<Rightarrow> (nat \<Rightarrow> bool) \<Rightarrow> crowd_turn list \<Rightarrow> outcome option" where
  "crowd_main d create_fails turns =
     (let n = threads_created create_fails d in
      if n < length (plist d) then
        (if Closes \<in> set turns then None
         else map_option (\<lambda>s. exits (out_lines (announced (cmon s))) (''Can't create one of the threads.'' @ NL @ NL) 1)
           (crowd_run (d\<lparr>plist := take n (plist d)\<rparr>) turns (crowd_start (d\<lparr>plist := take n (plist d)\<rparr>))))
      else if count_list turns Closes \<noteq> 1 then None
      else case crowd_run d turns (crowd_start d) of
          None \<Rightarrow> None
        | Some s \<Rightarrow>
            if \<not> joined d s then None
            else map_option (\<lambda>freed. exits (out_lines (announced (cmon s) @ crowd_report d s)) [] 0) (destroyMonitor (cmon s)))"

definition driver5_main :: "(nat \<Rightarrow> bool) \<Rightarrow> crowd_turn list \<Rightarrow> outcome option" where
  "driver5_main = crowd_main driver5"

definition driver6_main :: "(nat \<Rightarrow> bool) \<Rightarrow> crowd_turn list \<Rightarrow> outcome option" where
  "driver6_main = crowd_main driver6"

subsection \<open>The games announced\<close>

text \<open>A player of the table; two of them that the monitor may match; the line it prints then.\<close>

definition of_table :: "crowd_cast \<Rightarrow> Player \<Rightarrow> bool" where
  "of_table d q \<longleftrightarrow> (\<exists>i<length (plist d). player_name q = take 63 (cstr (fst (plist d ! i))) \<and> skill q = snd (plist d ! i))"

definition a_game :: "crowd_cast \<Rightarrow> string \<Rightarrow> bool" where
  "a_game d l \<longleftrightarrow> (\<exists>i<length (plist d). \<exists>j<length (plist d).
     snd (plist d ! i) \<noteq> snd (plist d ! j) \<and> \<bar>snd (plist d ! i) - snd (plist d ! j)\<bar> \<le> crowd_gap d
     \<and> l = ''Playing: '' @ take 63 (cstr (fst (plist d ! i))) @ '' vs '' @ take 63 (cstr (fst (plist d ! j))))"

definition named :: "phase \<Rightarrow> bool" where
  "named ph \<longleftrightarrow> ph \<noteq> Outside \<and> ph \<noteq> Refused"

definition lines_ok :: "crowd_cast \<Rightarrow> monitor \<Rightarrow> bool" where
  "lines_ok d m \<longleftrightarrow> (\<forall>p. named (phase_of m p) \<longrightarrow> of_table d (players m p))
     \<and> (\<forall>l \<in> set (announced m). a_game d l)"

lemma make_match_lines:
  assumes "self \<noteq> c"
  shows "player_name (players (make_match self prev c s) p) = player_name (players s p)"
    "announced (make_match self prev c s)
      = announced s @ [''Playing: '' @ player_name (players s self) @ '' vs '' @ player_name (players s c)]"
  by (simp_all add: make_match_def upd_def Let_def split: option.split)

lemma a_game_of:
  "of_table d p \<Longrightarrow> of_table d q \<Longrightarrow> compatible (crowd_gap d) p q \<Longrightarrow> a_game d (''Playing: '' @ player_name p @ '' vs '' @ player_name q)"
  by (fastforce simp: of_table_def a_game_def compatible_def)

lemma of_table_same: "player_name p = player_name q \<Longrightarrow> skill p = skill q \<Longrightarrow> of_table d p = of_table d q"
  by (simp add: of_table_def)

lemma round_lines:
  assumes r: "find_round p s = Some s'" "\<not> matched (players s p)" "linked s" "\<not> matchmaking_stopped s" "skill_gap s = crowd_gap d"
    and l: "lines_ok d s" "of_table d (players s p)" "\<And>q. phase_of s q \<noteq> Refused"
  shows "lines_ok d s'"
  using find_round_cases [OF r(1,2)]
proof
  assume "\<exists>prev c. find_search (players s) (skill_gap s) p None (waiting_list s) = Some (prev, Some c)
      \<and> s' = go_to p Playing (make_match p prev c s)"
  then obtain prev c where f: "find_search (players s) (skill_gap s) p None (waiting_list s) = Some (prev, Some c)"
    and s': "s' = go_to p Playing (make_match p prev c s)" by blast
  have c: "p \<noteq> c" "compatible (crowd_gap d) (players s p) (players s c)"
    using find_search_found [OF f] compatible_irrefl r(5) by auto
  have "phase_of s c \<noteq> Outside" by (rule find_search_linked [OF f]) (use r(3) in \<open>auto simp: linked_def\<close>)
  then have "named (phase_of s c)" using l(3) [of c] by (simp add: named_def)
  then have "of_table d (players s c)" using l(1) by (simp add: lines_ok_def)
  note g = a_game_of [OF l(2) this c(2)]
  have t: "of_table d (players s' q) = of_table d (players s q)" for q
    by (rule of_table_same) (simp_all add: s' go_to_def make_match_lines [OF c(1)] make_match_players [OF c(1)])
  have "announced s' = announced s @ [''Playing: '' @ player_name (players s p) @ '' vs '' @ player_name (players s c)]"
    by (simp add: s' go_to_def make_match_lines [OF c(1)])
  moreover have "phase_of s' = (phase_of s)(p := Playing)" by (simp add: s' go_to_def make_match_players [OF c(1)])
  ultimately show ?thesis using l(1,2) g t by (auto simp: lines_ok_def)
next
  assume "\<exists>prev. find_search (players s) (skill_gap s) p None (waiting_list s) = Some (prev, None)
      \<and> (if matchmaking_stopped s then s' = go_to p Refused s
         else s' = go_to p InFind ((upd p (\<lambda>q. q\<lparr>next_waiting := waiting_list s\<rparr>) s)\<lparr>waiting_list := Some p\<rparr>))"
  then have s': "s' = go_to p InFind ((upd p (\<lambda>q. q\<lparr>next_waiting := waiting_list s\<rparr>) s)\<lparr>waiting_list := Some p\<rparr>)"
    using r(4) by auto
  have t: "of_table d (players s' q) = of_table d (players s q)" for q
    by (rule of_table_same) (simp_all add: s' go_to_def upd_def)
  show ?thesis using l(1,2) t by (auto simp: lines_ok_def s' go_to_def upd_def)
qed

text \<open>A call that changes no name, no skill and no line, and puts one player where it has a name already.\<close>

lemma lines_ok_quiet:
  assumes "lines_ok d m" "announced m' = announced m"
    "\<And>q. player_name (players m' q) = player_name (players m q)" "\<And>q. skill (players m' q) = skill (players m q)"
    "\<And>q. named (phase_of m' q) \<Longrightarrow> named (phase_of m q)"
  shows "lines_ok d m'"
  using assms of_table_same [of "players m' _" "players m _"] unfolding lines_ok_def by metis

lemma donePlaying_lines: "donePlaying p m = Some m' \<Longrightarrow> named (phase_of m p) \<Longrightarrow> lines_ok d m \<Longrightarrow> lines_ok d m'"
  by (erule lines_ok_quiet)
    (auto simp: donePlaying_def upd_def go_to_def Let_def split: option.splits if_splits)

lemma done_wake_lines: "done_wake p m = Some m' \<Longrightarrow> named (phase_of m p) \<Longrightarrow> lines_ok d m \<Longrightarrow> lines_ok d m'"
  by (erule lines_ok_quiet) (auto simp: done_wake_def go_to_def split: if_splits)

lemma crowd_act_lines:
  assumes a: "crowd_act d a s = Some s'" and s: "crowd_ok d s" and l: "lines_ok d (cmon s)"
  shows "lines_ok d (cmon s')"
proof -
  note i = crowd_okD [OF s]
  have nr: "phase_of (cmon s) q \<noteq> Refused" if "\<not> matchmaking_stopped (cmon s)" for q using i(4) [of q] that by blast
  show ?thesis
  proof (cases a)
    case (Seeks t)
    let ?p = "current s t" and ?m = "cmon s"
    obtain m where t: "t < length (plist d)" "phase_of ?m ?p = Outside"
      and f: "findMatch ?p (fst (plist d ! t)) (snd (plist d ! t)) ?m = Some m" and s': "cmon s' = m"
      using a Seeks by (auto split: if_splits)
    let ?n = "upd ?p (\<lambda>_. \<lparr>player_name = take 63 (cstr (fst (plist d ! t))), skill = snd (plist d ! t), opponent = None, matched = False,
      done_flag = False, next_waiting = None\<rparr>) ?m"
    show ?thesis
    proof (cases "matchmaking_stopped ?m")
      case True
      then have "m = go_to ?p Refused ?m" using f by (simp add: findMatch_def)
      then show ?thesis unfolding s' by (intro lines_ok_quiet [OF l]) (simp_all add: go_to_def named_def split: if_splits)
    next
      case False
      have r: "find_round ?p ?n = Some m" using f False by (simp add: findMatch_def)
      have "of_table d (players ?n ?p)" using t(1) by (auto simp: of_table_def upd_def)
      moreover have "lines_ok d ?n" using l t(2) by (auto simp: lines_ok_def upd_def named_def)
      ultimately show ?thesis unfolding s'
        by (intro round_lines [OF r]) (use i(3) False nr mutualD(4) [OF i(2)] in \<open>auto simp: upd_def linked_def\<close>)
    qed
  next
    case (Wakes_seeking t)
    let ?p = "current s t" and ?m = "cmon s"
    obtain m where t: "phase_of ?m ?p = InFind" and f: "find_wake ?p ?m = Some m" and s': "cmon s' = m"
      using a Wakes_seeking by (auto split: if_splits)
    show ?thesis
    proof (cases "\<not> matched (players ?m ?p) \<and> \<not> matchmaking_stopped ?m")
      case True
      then have r: "find_round ?p ?m = Some m" using f by (simp add: find_wake_def)
      show ?thesis unfolding s'
        by (rule round_lines [OF r]) (use True i(3) l t nr mutualD(4) [OF i(2)] in \<open>auto simp: lines_ok_def named_def\<close>)
    next
      case False
      then have "m = go_to ?p (if matched (players ?m ?p) then Playing else Refused) ?m" using f by (auto simp: find_wake_def)
      then show ?thesis unfolding s'
        by (intro lines_ok_quiet [OF l]) (use t in \<open>simp_all add: go_to_def named_def split: if_splits\<close>)
    qed
  next
    case (Done_with t)
    then show ?thesis using a donePlaying_lines [OF _ _ l] by (auto simp: named_def split: if_splits)
  next
    case (Wakes_from_done t)
    then show ?thesis using a done_wake_lines [OF _ _ l] by (auto simp: named_def split: if_splits)
  next
    case Closes
    then have "stopMatchmaking (cmon s) = Some (cmon s')" using a by auto
    then show ?thesis by (intro lines_ok_quiet [OF l]) (auto dest!: stopMatchmaking_result)
  qed (use a l in \<open>auto split: if_splits\<close>)
qed

lemma crowd_run_lines:
  "crowd_run d as s0 = Some s \<Longrightarrow> crowd_ok d s0 \<Longrightarrow> lines_ok d (cmon s0) \<Longrightarrow> lines_ok d (cmon s)"
  by (induction as arbitrary: s0) (auto split: option.splits intro: crowd_act_ok crowd_act_lines)

lemma games_announced:
  assumes "crowd_run d as (crowd_start d) = Some s" "l \<in> set (announced (cmon s))"
  shows "a_game d l"
proof -
  have "lines_ok d (cmon (crowd_start d))" by (simp add: lines_ok_def named_def crowd_start_def initMonitor_def blank_def)
  from crowd_run_lines [OF assms(1) crowd_start_ok this] show ?thesis using assms(2) by (simp add: lines_ok_def)
qed

subsection \<open>Properties\<close>

lemma a_game_take: "a_game (d\<lparr>plist := take n (plist d)\<rparr>) l \<Longrightarrow> a_game d l"
  unfolding a_game_def by fastforce

lemma threads_created_all: "threads_created f d < length (plist d) \<longleftrightarrow> (\<exists>i<length (plist d). f i)"
proof
  assume "threads_created f d < length (plist d)"
  then show "\<exists>i<length (plist d). f i"
    using takeWhile_eq_all_conv [of "\<lambda>i. \<not> f i" "[0..<length (plist d)]"] by (fastforce simp: threads_created_def)
next
  assume "\<exists>i<length (plist d). f i"
  then have "takeWhile (\<lambda>i. \<not> f i) [0..<length (plist d)] \<noteq> [0..<length (plist d)]" by (auto simp: takeWhile_eq_all_conv)
  then have "threads_created f d \<noteq> length (plist d)"
    unfolding threads_created_def using takeWhile_eq_take [of "\<lambda>i. \<not> f i" "[0..<length (plist d)]"]
    by (metis length_upt minus_nat.diff_0 take_all_iff order_refl)
  then show "threads_created f d < length (plist d)"
    using length_takeWhile_le [of "\<lambda>i. \<not> f i" "[0..<length (plist d)]"] by (simp add: threads_created_def)
qed

text \<open>
  C12: A run of \<open>main\<close> of the large drivers that comes to its end, with any table of players and any
  schedule, spurious wakeups included: when every thread can be created it prints the games, each
  between two players of the table whose skills are different and at most the gap apart, then for each
  player how many it played, and a total that is the sum of these and twice the number of the games
  printed. When a thread cannot be created the program prints the error and ends with status 1.
\<close>

theorem crowd_main_reports:
  assumes "crowd_main d create_fails turns = Some oc"
  shows "if \<exists>i<length (plist d). create_fails i
    then \<exists>ms. oc = exits (out_lines ms) (''Can't create one of the threads.'' @ NL @ NL) 1 \<and> (\<forall>m \<in> set ms. a_game d m)
    else \<exists>ms gs. oc = exits (out_lines (ms @ map (\<lambda>(p, g). fst p @ '' played '' @ show_nat g @ '' games'') (zip (plist d) gs)
             @ [''Total: '' @ show_nat (sum_list gs)])) [] 0
        \<and> (\<forall>m \<in> set ms. a_game d m) \<and> length gs = length (plist d) \<and> sum_list gs = 2 * length ms"
proof (cases "\<exists>i<length (plist d). create_fails i")
  case True
  then have n: "threads_created create_fails d < length (plist d)" by (simp only: threads_created_all)
  let ?d = "d\<lparr>plist := take (threads_created create_fails d) (plist d)\<rparr>"
  obtain s where s: "crowd_run ?d turns (crowd_start ?d) = Some s"
    and oc: "oc = exits (out_lines (announced (cmon s))) (''Can't create one of the threads.'' @ NL @ NL) 1"
    using assms n by (auto simp: crowd_main_def Let_def split: if_splits)
  have "\<forall>m \<in> set (announced (cmon s)). a_game d m" using games_announced [OF s] a_game_take by blast
  then show ?thesis using True oc by (simp only: if_True) blast
next
  case False
  then have "\<not> threads_created create_fails d < length (plist d)" by (simp only: threads_created_all not_False_eq_True)
  then obtain s where s: "crowd_run d turns (crowd_start d) = Some s" "joined d s"
    and oc: "oc = exits (out_lines (announced (cmon s) @ crowd_report d s)) [] 0"
    using assms by (auto simp: crowd_main_def Let_def split: if_splits option.splits)
  let ?gs = "map (games s) [0..<length (plist d)]"
  have t: "sum_list ?gs = total_games d s"
    by (simp add: total_games_def interv_sum_list_conv_sum_set_nat atLeast0LessThan)
  have "total_games d s = 2 * length (announced (cmon s))" by (rule total_when_joined [OF s])
  moreover have "map (\<lambda>(p, g). fst p @ '' played '' @ show_nat g @ '' games'') (zip (plist d) ?gs)
      = map (\<lambda>t. fst (plist d ! t) @ '' played '' @ show_nat (games s t) @ '' games'') [0..<length (plist d)]"
    by (rule nth_equalityI) simp_all
  ultimately have "oc = exits (out_lines (announced (cmon s) @ map (\<lambda>(p, g). fst p @ '' played '' @ show_nat g @ '' games'') (zip (plist d) ?gs)
       @ [''Total: '' @ show_nat (sum_list ?gs)])) [] 0 \<and> sum_list ?gs = 2 * length (announced (cmon s))"
    using t by (simp add: oc crowd_report_def)
  then have "\<exists>ms gs. oc = exits (out_lines (ms @ map (\<lambda>(p, g). fst p @ '' played '' @ show_nat g @ '' games'') (zip (plist d) gs)
       @ [''Total: '' @ show_nat (sum_list gs)])) [] 0
     \<and> (\<forall>m \<in> set ms. a_game d m) \<and> length gs = length (plist d) \<and> sum_list gs = 2 * length ms"
    using games_announced [OF s(1)] by (intro exI [of _ "announced (cmon s)"] exI [of _ ?gs]) simp
  then show ?thesis using False by (simp only: if_False)
qed

text \<open>
  The two runs: a game of the small cast of driver 5, and the same program when its third thread cannot be
  created.
\<close>

theorem crowd_main_reports_witness:
  "\<exists>oc ms gs. crowd_main driver5 (\<lambda>_. False) driver5_turns = Some oc \<and> status oc = 0 \<and> length gs = 20 \<and> sum_list gs = 2 * length ms
    \<and> (\<forall>m \<in> set ms. a_game driver5 m) \<and> take 27 (stdout oc) = ''Playing: Kylie vs Adelaida'' @ NL"
proof -
  have "case crowd_main driver5 (\<lambda>_. False) driver5_turns of None \<Rightarrow> False
    | Some oc \<Rightarrow> status oc = 0 \<and> take 27 (stdout oc) = ''Playing: Kylie vs Adelaida'' @ NL" by code_simp
  then obtain oc where oc: "crowd_main driver5 (\<lambda>_. False) driver5_turns = Some oc" "status oc = 0"
    "take 27 (stdout oc) = ''Playing: Kylie vs Adelaida'' @ NL" by (auto split: option.splits)
  have "length (plist driver5) = 20" by (simp add: driver5_def)
  then show ?thesis using crowd_main_reports [OF oc(1)] oc by auto
qed

lemma driver5_cannot_create:
  "crowd_main driver5 (\<lambda>i. i = 2) [Seeks 0, Seeks 1] = Some (exits [] (''Can't create one of the threads.'' @ NL @ NL) 1)"
  by code_simp

end
