(* ===== verification/Motd_Rpc.thy ===== *)
theory Motd_Rpc
  imports Motd_Client
begin

text \<open>
  The stubs between the client and the server of the message board: \<open>exercises/ex17/motd_clnt.c\<close> and
  \<open>motd_svc.c\<close> with the numbers of \<open>motd.h\<close>, as \<open>rpcgen\<close> made them. The RPC library is a parameter: how
  \<open>xdr_int\<close> and \<open>xdr_wrapstring\<close> write and read a value (or fail), how often a call is carried out
  before it is answered and whether the answer arrives, which of the calls of the server fail.

  Proved: the client over its stubs, the wire and the dispatcher of the server does what it does in
  \<open>Motd_Client\<close> with direct calls, whenever the library carries what it is given; a call that names no
  procedure, or has arguments that cannot be read, gets one answer and changes nothing.
\<close>

subsection \<open>The library\<close>

record xdr =
  put_int :: "int \<Rightarrow> string option"
  get_int :: "string \<Rightarrow> int option"
  put_string :: "string \<Rightarrow> string option"
  get_string :: "string \<Rightarrow> string option"

text \<open>The routines the stubs name, and the values behind their pointers.\<close>

datatype xdrproc = Xdr_void | Xdr_int | Xdr_wrapstring

datatype xdr_value = No_value | Int_value int | String_value string

fun encode :: "xdr \<Rightarrow> xdrproc \<Rightarrow> xdr_value \<Rightarrow> string option" where
  "encode X Xdr_void v = Some []"
| "encode X Xdr_int (Int_value i) = put_int X i"
| "encode X Xdr_wrapstring (String_value m) = put_string X m"
| "encode X _ _ = None"

fun decode :: "xdr \<Rightarrow> xdrproc \<Rightarrow> string \<Rightarrow> xdr_value option" where
  "decode X Xdr_void b = Some No_value"
| "decode X Xdr_int b = map_option Int_value (get_int X b)"
| "decode X Xdr_wrapstring b = map_option String_value (get_string X b)"

subsection \<open>The server's dispatcher\<close>

definition MOTD_PROG :: nat where "MOTD_PROG = 0x5f0000ce"
definition MOTD_VERS :: nat where "MOTD_VERS = 1"
definition NULLPROC :: nat where "NULLPROC = 0"
definition COUNT :: nat where "COUNT = 1"
definition GET :: nat where "GET = 2"
definition ADD :: nat where "ADD = 3"

lemmas procedure_numbers = NULLPROC_def COUNT_def GET_def ADD_def

datatype procedure = Count_1_svc | Get_1_svc | Add_1_svc

text \<open>The \<open>switch\<close>: how to read the arguments, how to write the result, what to call.\<close>

definition select_procedure :: "nat \<Rightarrow> (xdrproc \<times> xdrproc \<times> procedure) option" where
  "select_procedure rq_proc =
     (if rq_proc = COUNT then Some (Xdr_void, Xdr_int, Count_1_svc)
      else if rq_proc = GET then Some (Xdr_int, Xdr_wrapstring, Get_1_svc)
      else if rq_proc = ADD then Some (Xdr_wrapstring, Xdr_void, Add_1_svc)
      else None)"

text \<open>The call \<open>(*local)(&argument, rqstp)\<close>; the arguments are of the kind that the \<open>switch\<close> chose.\<close>

fun call_local :: "procedure \<Rightarrow> xdr_value \<Rightarrow> motd \<Rightarrow> xdr_value \<times> motd" where
  "call_local Count_1_svc v s = (Int_value (count_1_svc s), s)"
| "call_local Get_1_svc (Int_value i) s = (String_value (get_1_svc i s), s)"
| "call_local Add_1_svc (String_value m) s = (String_value ''ok'', add_1_svc m s)"
| "call_local _ _ s = (No_value, s)"

text \<open>What goes back to the client: a result, or one of the three errors of the library.\<close>

datatype svc_reply = Reply string | Svcerr_noproc | Svcerr_decode | Svcerr_systemerr

record svc_calls =
  sendreply_fails :: bool
  freeargs_fails :: bool

record svc_result =
  svc_state :: motd
  replies :: "svc_reply list"
  stops :: "outcome option"

text \<open>\<open>motd_prog_1\<close> of \<open>motd_svc.c\<close> on a request: a procedure number and the bytes of the arguments.\<close>

definition motd_dispatch :: "xdr \<Rightarrow> svc_calls \<Rightarrow> nat \<Rightarrow> string \<Rightarrow> motd \<Rightarrow> svc_result" where
  "motd_dispatch X e rq_proc args s =
     (if rq_proc = NULLPROC
      then \<lparr>svc_state = s, replies = (if sendreply_fails e then [] else [Reply []]), stops = None\<rparr>
      else case select_procedure rq_proc of
        None \<Rightarrow> \<lparr>svc_state = s, replies = [Svcerr_noproc], stops = None\<rparr>
      | Some (xdr_argument, xdr_result, local_proc) \<Rightarrow>
          (case decode X xdr_argument args of
             None \<Rightarrow> \<lparr>svc_state = s, replies = [Svcerr_decode], stops = None\<rparr>
           | Some argument \<Rightarrow>
               let (result, s') = call_local local_proc argument s in
               \<lparr>svc_state = s',
                replies = (case encode X xdr_result result of
                    None \<Rightarrow> [Svcerr_systemerr]
                  | Some b \<Rightarrow> if sendreply_fails e then [Svcerr_systemerr] else [Reply b]),
                stops = (if freeargs_fails e then Some (exits [] ''unable to free arguments'' 1) else None)\<rparr>))"

text \<open>\<open>main\<close>: \<open>svc_run\<close> serves for ever; the program ends when something before it fails, or when it returns.\<close>

record svc_env =
  no_udp :: bool
  no_udp_register :: bool
  no_tcp :: bool
  no_tcp_register :: bool
  svc_run_returns :: bool

definition svc_main :: "svc_env \<Rightarrow> outcome option" where
  "svc_main e =
     (if no_udp e then Some (exits [] ''cannot create udp service.'' 1)
      else if no_udp_register e then Some (exits [] ''unable to register (MOTD_PROG, MOTD_VERS, udp).'' 1)
      else if no_tcp e then Some (exits [] ''cannot create tcp service.'' 1)
      else if no_tcp_register e then Some (exits [] ''unable to register (MOTD_PROG, MOTD_VERS, tcp).'' 1)
      else if svc_run_returns e then Some (exits [] ''svc_run returned'' 1)
      else None)"

subsection \<open>The client's stubs\<close>

text \<open>
  \<open>clnt_call\<close>: the arguments are written, the request is carried out \<open>n\<close> times by a server whose own
  calls succeed, and the last answer arrives, or none. \<open>None\<close> is any result but \<open>RPC_SUCCESS\<close>.
\<close>

definition all_well :: svc_calls where
  "all_well = \<lparr>sendreply_fails = False, freeargs_fails = False\<rparr>"

fun carried_out :: "xdr \<Rightarrow> nat \<Rightarrow> string \<Rightarrow> nat \<Rightarrow> motd \<Rightarrow> svc_reply list \<Rightarrow> motd \<times> svc_reply list" where
  "carried_out X rq_proc b 0 s rs = (s, rs)"
| "carried_out X rq_proc b (Suc n) s rs =
     (let r = motd_dispatch X all_well rq_proc b s in carried_out X rq_proc b n (svc_state r) (replies r))"

definition clnt_call :: "xdr \<Rightarrow> nat \<Rightarrow> bool \<Rightarrow> nat \<Rightarrow> xdrproc \<Rightarrow> xdr_value \<Rightarrow> xdrproc \<Rightarrow> motd \<Rightarrow> motd \<times> xdr_value option" where
  "clnt_call X n arrives rq_proc inproc v outproc s =
     (case encode X inproc v of
        None \<Rightarrow> (s, None)
      | Some b \<Rightarrow>
          let (s', rs) = carried_out X rq_proc b n s [] in
          (s', if arrives then (case rs of [Reply r] \<Rightarrow> decode X outproc r | _ \<Rightarrow> None) else None))"

definition count_1 :: "xdr \<Rightarrow> nat \<Rightarrow> bool \<Rightarrow> motd \<Rightarrow> motd \<times> int option" where
  "count_1 X n arrives s = (case clnt_call X n arrives COUNT Xdr_void No_value Xdr_int s of
       (s', Some (Int_value i)) \<Rightarrow> (s', Some i) | (s', _) \<Rightarrow> (s', None))"

definition get_1 :: "xdr \<Rightarrow> nat \<Rightarrow> bool \<Rightarrow> int \<Rightarrow> motd \<Rightarrow> motd \<times> string option" where
  "get_1 X n arrives i s = (case clnt_call X n arrives GET Xdr_int (Int_value i) Xdr_wrapstring s of
       (s', Some (String_value m)) \<Rightarrow> (s', Some m) | (s', _) \<Rightarrow> (s', None))"

definition add_1 :: "xdr \<Rightarrow> nat \<Rightarrow> bool \<Rightarrow> string \<Rightarrow> motd \<Rightarrow> motd \<times> unit option" where
  "add_1 X n arrives m s = (case clnt_call X n arrives ADD Xdr_wrapstring (String_value m) Xdr_void s of
       (s', Some v) \<Rightarrow> (s', Some ()) | (s', None) \<Rightarrow> (s', None))"

text \<open>The client of \<open>motd_client.c\<close> with its calls made through the stubs.\<close>

fun history_over_rpc :: "xdr \<Rightarrow> rpc \<Rightarrow> nat \<Rightarrow> nat \<Rightarrow> motd \<Rightarrow> string \<Rightarrow> motd \<times> outcome" where
  "history_over_rpc X r i 0 s out = (s, exits out [] EXIT_SUCCESS)"
| "history_over_rpc X r i (Suc n) s out =
     (case get_1 X (executed r) (answered r (i + 1)) (int i) (others_add r (i + 1) s) of
        (s1, None) \<Rightarrow> (s1, exits out (perror r ''get_1 call failed'') EXIT_FAILURE)
      | (s1, Some line) \<Rightarrow> history_over_rpc X r (i + 1) n s1 (out @ line @ NL))"

definition client_over_rpc :: "xdr \<Rightarrow> rpc \<Rightarrow> string \<Rightarrow> buf option \<Rightarrow> motd \<Rightarrow> motd \<times> outcome" where
  "client_over_rpc X r host message s =
     (if \<not> created r then (s, exits [] (pcreateerror r host) 1)
      else let s0 = others_add r 0 s in
        case message of
          Some m \<Rightarrow>
            (case add_1 X (executed r) (answered r 0) (cstr m) s0 of
               (s1, None) \<Rightarrow> (s1, exits [] (perror r ''add_1 call failed'') EXIT_FAILURE)
             | (s1, Some u) \<Rightarrow> (s1, exits [] [] EXIT_SUCCESS))
        | None \<Rightarrow>
            (case count_1 X (executed r) (answered r 0) s0 of
               (s1, None) \<Rightarrow> (s1, exits [] (perror r ''count_1 call failed'') EXIT_FAILURE)
             | (s1, Some n) \<Rightarrow> history_over_rpc X r 0 (nat n) s1 []))"

subsection \<open>What the library carries\<close>

text \<open>
  The documented behaviour of the XDR routines: what one side writes the other reads. It is asked
  for the ints of 32 bits and for strings up to the length of a row of the server.
\<close>

definition carries_string :: "xdr \<Rightarrow> string \<Rightarrow> bool" where
  "carries_string X m \<longleftrightarrow> (\<exists>b. put_string X m = Some b \<and> get_string X b = Some m)"

definition xdr_works :: "xdr \<Rightarrow> bool" where
  "xdr_works X \<longleftrightarrow> (\<forall>i. - (2 ^ 31) \<le> i \<and> i < 2 ^ 31 \<longrightarrow> (\<exists>b. put_int X i = Some b \<and> get_int X b = Some i))
     \<and> (\<forall>m. NUL \<notin> set m \<and> length m \<le> ROW \<longrightarrow> carries_string X m)"

lemma count_carried:
  assumes "\<exists>b. put_int X (count_1_svc s) = Some b \<and> get_int X b = Some (count_1_svc s)" "0 < n"
  shows "count_1 X n arrives s = (s, if arrives then Some (count_1_svc s) else None)"
proof -
  obtain b where b: "put_int X (count_1_svc s) = Some b" "get_int X b = Some (count_1_svc s)" using assms(1) by blast
  have d: "motd_dispatch X all_well COUNT a s = \<lparr>svc_state = s, replies = [Reply b], stops = None\<rparr>" for a
    using b(1) by (simp add: motd_dispatch_def select_procedure_def procedure_numbers all_well_def)
  have "carried_out X COUNT a k s [Reply b] = (s, [Reply b])" for a k
    by (induction k) (simp_all add: d)
  then have "carried_out X COUNT [] n s [] = (s, [Reply b])" using assms(2) d by (cases n) simp_all
  then show ?thesis using b(2) by (simp add: count_1_def clnt_call_def)
qed

lemma get_carried:
  assumes i: "\<exists>b. put_int X i = Some b \<and> get_int X b = Some i" and m: "carries_string X (get_1_svc i s)" and n: "0 < n"
  shows "get_1 X n arrives i s = (s, if arrives then Some (get_1_svc i s) else None)"
proof -
  obtain a where a: "put_int X i = Some a" "get_int X a = Some i" using i by blast
  obtain b where b: "put_string X (get_1_svc i s) = Some b" "get_string X b = Some (get_1_svc i s)"
    using m by (auto simp: carries_string_def)
  have d: "motd_dispatch X all_well GET a s = \<lparr>svc_state = s, replies = [Reply b], stops = None\<rparr>"
    using a(2) b(1) by (simp add: motd_dispatch_def select_procedure_def procedure_numbers all_well_def)
  have "carried_out X GET a k s [Reply b] = (s, [Reply b])" for k
    by (induction k) (simp_all add: d)
  then have "carried_out X GET a n s [] = (s, [Reply b])" using n d by (cases n) simp_all
  then show ?thesis using a(1) b(2) by (simp add: get_1_def clnt_call_def)
qed

lemma add_carried:
  assumes "carries_string X m" "0 < n"
  shows "add_1 X n arrives m s = ((add_1_svc m ^^ n) s, if arrives then Some () else None)"
proof -
  obtain a where a: "put_string X m = Some a" "get_string X a = Some m" using assms(1) by (auto simp: carries_string_def)
  have d: "motd_dispatch X all_well ADD a s = \<lparr>svc_state = add_1_svc m s, replies = [Reply []], stops = None\<rparr>" for s
    using a(2) by (simp add: motd_dispatch_def select_procedure_def procedure_numbers all_well_def)
  have "carried_out X ADD a k s [Reply []] = ((add_1_svc m ^^ k) s, [Reply []])" for k s
    by (induction k arbitrary: s) (simp_all add: d funpow_swap1)
  then have "carried_out X ADD a n s [] = ((add_1_svc m ^^ n) s, [Reply []])"
    using assms(2) d by (cases n) (simp_all add: funpow_swap1)
  then show ?thesis using a(1) by (simp add: add_1_def clnt_call_def)
qed

subsection \<open>The client over its stubs\<close>

lemma add_1_svc_cstr: "add_1_svc (cstr m) = add_1_svc m"
  by (intro ext) (simp add: add_1_svc_def strncpy_def Let_def)

lemma get_fits: "NUL \<notin> set (get_1_svc i s) \<and> length (get_1_svc i s) \<le> ROW"
proof -
  have "length (cstr (row s k)) \<le> ROW" for k using length_cstr_le [of "row s k"] by (simp add: row_def)
  moreover have "NUL \<notin> set ''error''" "length ''error'' \<le> ROW" by (simp_all add: ROW_def MESSAGE_MAX_def)
  ultimately show ?thesis using cstr_no_NUL by (simp add: get_1_svc_def)
qed

lemma library_carries:
  assumes "xdr_works X"
  shows "carries_string X (get_1_svc i s)"
    "- (2 ^ 31) \<le> j \<Longrightarrow> j < 2 ^ 31 \<Longrightarrow> \<exists>b. put_int X j = Some b \<and> get_int X b = Some j"
  using assms get_fits [of i s] by (simp_all add: xdr_works_def)

lemma history_over_stubs:
  assumes "xdr_works X" "0 < executed r" "i + n \<le> HISTORY_MAX"
  shows "history_over_rpc X r i n s out = print_history r i n s out"
  using assms(3)
proof (induction n arbitrary: i s out)
  case (Suc n)
  have "\<exists>b. put_int X (int i) = Some b \<and> get_int X b = Some (int i)"
    using library_carries(2) [OF assms(1), of "int i"] Suc.prems by (simp add: HISTORY_MAX_def)
  note get_carried [OF this library_carries(1) [OF assms(1)] assms(2)]
  then show ?case using Suc.IH [of "i + 1"] Suc.prems by (simp add: Let_def)
qed simp

theorem stubs_are_transparent:
  assumes "xdr_works X" "0 < executed r" "well_sized s" "\<And>m. message = Some m \<Longrightarrow> carries_string X (cstr m)"
  shows "client_over_rpc X r host message s = motd_prog_1 r host message s"
proof (cases message)
  case None
  let ?s = "others_add r 0 s"
  have c: "mCount ?s \<le> HISTORY_MAX" using others_ok [OF assms(3), of r 0] by (simp add: well_sized_def)
  then have "\<exists>b. put_int X (count_1_svc ?s) = Some b \<and> get_int X b = Some (count_1_svc ?s)"
    using library_carries(2) [OF assms(1), of "count_1_svc ?s"] by (simp add: count_1_svc_def HISTORY_MAX_def)
  note n = count_carried [OF this assms(2)]
  have "history_over_rpc X r 0 (nat (count_1_svc ?s)) ?s [] = print_history r 0 (nat (count_1_svc ?s)) ?s []"
    using history_over_stubs [OF assms(1,2), of 0] c by (simp add: count_1_svc_def)
  then show ?thesis using None n by (simp add: client_over_rpc_def motd_prog_1_def Let_def)
next
  case (Some m)
  then show ?thesis using add_carried [OF assms(4) assms(2)]
    by (simp add: client_over_rpc_def motd_prog_1_def Let_def add_1_svc_cstr)
qed

subsection \<open>The server over the wire\<close>

text \<open>A session of the server: the requests in the order in which \<open>svc_run\<close> dispatches them.\<close>

type_synonym request = "svc_calls \<times> nat \<times> string"

fun svc_session :: "xdr \<Rightarrow> request list \<Rightarrow> motd \<Rightarrow> svc_reply list list \<times> outcome option" where
  "svc_session X [] s = ([], None)"
| "svc_session X ((e, p, b) # reqs) s =
     (let r = motd_dispatch X e p b s in
      case stops r of
        Some oc \<Rightarrow> ([replies r], Some oc)
      | None \<Rightarrow> let (rs, oc) = svc_session X reqs (svc_state r) in (replies r # rs, oc))"

text \<open>The same on the list of the messages: one answer to each request.\<close>

fun sent :: "string option \<Rightarrow> svc_reply" where
  "sent None = Svcerr_systemerr"
| "sent (Some b) = Reply b"

definition spec_answer :: "xdr \<Rightarrow> nat \<Rightarrow> string \<Rightarrow> string list \<Rightarrow> svc_reply" where
  "spec_answer X p b h =
     (if p = 0 then Reply []
      else if p = 1 then sent (put_int X (int (length h)))
      else if p = 2 then
        (case get_int X b of
           None \<Rightarrow> Svcerr_decode
         | Some i \<Rightarrow> sent (put_string X (if 0 \<le> i \<and> i < int (length h) then h ! nat i else ''error'')))
      else if p = 3 then (if get_string X b = None then Svcerr_decode else Reply [])
      else Svcerr_noproc)"

definition spec_messages :: "xdr \<Rightarrow> nat \<Rightarrow> string \<Rightarrow> string list \<Rightarrow> string list" where
  "spec_messages X p b h =
     (case (if p = 3 then get_string X b else None) of None \<Rightarrow> h | Some m \<Rightarrow> take 3 (take 60 (cstr m) # h))"

text \<open>An answer that cannot be sent becomes the error of the system; the answer to the null procedure is just lost.\<close>

fun spec_replies :: "svc_calls \<Rightarrow> nat \<Rightarrow> svc_reply \<Rightarrow> svc_reply list" where
  "spec_replies e p (Reply b) = (if \<not> sendreply_fails e then [Reply b] else if p = 0 then [] else [Svcerr_systemerr])"
| "spec_replies e p a = [a]"

text \<open>\<open>svc_freeargs\<close> is only called after a procedure was carried out.\<close>

definition spec_ends :: "svc_calls \<Rightarrow> nat \<Rightarrow> svc_reply \<Rightarrow> bool" where
  "spec_ends e p a \<longleftrightarrow> freeargs_fails e \<and> p \<noteq> 0 \<and> a \<noteq> Svcerr_noproc \<and> a \<noteq> Svcerr_decode"

fun spec_session :: "xdr \<Rightarrow> request list \<Rightarrow> string list \<Rightarrow> svc_reply list list \<times> outcome option" where
  "spec_session X [] h = ([], None)"
| "spec_session X ((e, p, b) # reqs) h =
     (let a = spec_answer X p b h in
      if spec_ends e p a then ([spec_replies e p a], Some (exits [] ''unable to free arguments'' 1))
      else let (rs, oc) = spec_session X reqs (spec_messages X p b h) in (spec_replies e p a # rs, oc))"

lemma sent_reply: "(case x of None \<Rightarrow> [Svcerr_systemerr] | Some b \<Rightarrow> if sendreply_fails e then [Svcerr_systemerr] else [Reply b])
    = spec_replies e (Suc p) (sent x)"
  by (cases x) simp_all

lemma sent_error [simp]: "sent x \<noteq> Svcerr_noproc" "sent x \<noteq> Svcerr_decode"
  by (cases x; simp)+

lemma dispatch_refines:
  assumes s: "well_sized s"
  shows "replies (motd_dispatch X e p b s) = spec_replies e p (spec_answer X p b (history s))"
    "stops (motd_dispatch X e p b s) = (if spec_ends e p (spec_answer X p b (history s))
        then Some (exits [] ''unable to free arguments'' 1) else None)"
    "well_sized (svc_state (motd_dispatch X e p b s))"
    "history (svc_state (motd_dispatch X e p b s)) = spec_messages X p b (history s)"
proof -
  let ?r = "motd_dispatch X e p b s"
  have n: "int (mCount s) = int (length (history s))" by (simp add: history_length)
  have g: "get_1_svc i s = (if 0 \<le> i \<and> i < int (length (history s)) then history s ! nat i else ''error'')" for i
    using n by (auto simp: get_1_svc_def history_def)
  note defs = motd_dispatch_def select_procedure_def procedure_numbers spec_answer_def spec_messages_def spec_ends_def
    count_1_svc_def n g sent_reply
  consider "p = 0" | "p = 1" | "p = 2" | "p = 3" | "p \<noteq> 0" "p \<noteq> 1" "p \<noteq> 2" "p \<noteq> 3" by blast
  then have "replies ?r = spec_replies e p (spec_answer X p b (history s))
    \<and> stops ?r = (if spec_ends e p (spec_answer X p b (history s)) then Some (exits [] ''unable to free arguments'' 1) else None)
    \<and> well_sized (svc_state ?r) \<and> history (svc_state ?r) = spec_messages X p b (history s)"
  proof cases
    case 2
    then show ?thesis using s sent_reply [where p = 0] by (simp add: defs)
  next
    case 3
    then show ?thesis using s sent_reply [where p = 1] by (cases "get_int X b") (simp_all add: defs numeral_2_eq_2)
  next
    case 4
    then show ?thesis using s add_refines [OF s] by (cases "get_string X b") (simp_all add: defs)
  qed (use s in \<open>simp_all add: defs\<close>)
  then show "replies ?r = spec_replies e p (spec_answer X p b (history s))"
    "stops ?r = (if spec_ends e p (spec_answer X p b (history s)) then Some (exits [] ''unable to free arguments'' 1) else None)"
    "well_sized (svc_state ?r)" "history (svc_state ?r) = spec_messages X p b (history s)" by blast+
qed

subsection \<open>Properties\<close>

text \<open>
  C32: Whatever requests reach the server, with whatever procedure numbers and bytes, its dispatcher
  answers like a list of messages. The null procedure gets an empty answer; an unknown number,
  arguments that cannot be read and a result that cannot be sent get the error that is theirs and
  change nothing but, in the last case, what the procedure did; an addition puts the message in
  front, cut to 60 characters, and keeps three. It stops only when the arguments of a procedure
  that was carried out cannot be freed.
\<close>

theorem wire_server_is_history: "svc_session X reqs motd_init = spec_session X reqs []"
proof -
  have "svc_session X reqs s = spec_session X reqs (history s)" if "well_sized s" for s
    using that
  proof (induction reqs arbitrary: s)
    case (Cons q reqs)
    obtain e p b where q: "q = (e, p, b)" by (cases q)
    show ?case using dispatch_refines [OF Cons.prems, of X e p b] Cons.IH by (simp add: q Let_def)
  qed simp
  moreover have "well_sized motd_init" "history motd_init = []"
    by (simp_all add: well_sized_def motd_init_def history_def)
  ultimately show ?thesis by metis
qed

text \<open>
  C31: What clients send is what the next one reads, over the stubs on both sides: when the library
  carries numbers and texts and every call is answered once, then after the messages \<open>ms\<close> have been
  added, one client for each, a client without a message prints the last three, the newest first,
  each cut to 60 characters.
\<close>

theorem messages_come_back_rpc:
  assumes "xdr_works X" "quiet r" "\<forall>m \<in> set ms. carries_string X (cstr m)"
  shows "stdout (snd (client_over_rpc X r host None (fold (\<lambda>m s. fst (client_over_rpc X r host (Some m) s)) ms motd_init)))
    = concat (map (\<lambda>m. m @ NL) (take 3 (map (\<lambda>m. take 60 (cstr m)) (rev ms))))"
proof -
  have r: "0 < executed r" using assms(2) by (simp add: quiet_def)
  have "well_sized s \<Longrightarrow> \<forall>m \<in> set ms. carries_string X (cstr m) \<Longrightarrow>
      well_sized (fold (\<lambda>m s. fst (motd_prog_1 r host (Some m) s)) ms s)
      \<and> fold (\<lambda>m s. fst (client_over_rpc X r host (Some m) s)) ms s = fold (\<lambda>m s. fst (motd_prog_1 r host (Some m) s)) ms s" for s
  proof (induction ms arbitrary: s)
    case (Cons m ms)
    have "well_sized (add_1_svc m s)" using add_refines [OF Cons.prems(1)] by blast
    then show ?case using Cons.IH [of "add_1_svc m s"] Cons.prems stubs_are_transparent [OF assms(1) r Cons.prems(1), of "Some m" host]
      by (simp add: quiet_calls(3) [OF assms(2)])
  qed simp
  moreover have "well_sized motd_init" by (simp add: well_sized_def motd_init_def)
  ultimately have f: "well_sized (fold (\<lambda>m s. fst (motd_prog_1 r host (Some m) s)) ms motd_init)"
    "fold (\<lambda>m s. fst (client_over_rpc X r host (Some m) s)) ms motd_init = fold (\<lambda>m s. fst (motd_prog_1 r host (Some m) s)) ms motd_init"
    using assms(3) by blast+
  show ?thesis unfolding f(2) stubs_are_transparent [OF assms(1) r f(1), where message = None, simplified]
    by (rule messages_come_back [OF assms(2)])
qed

text \<open>The encoding of RFC 4506: numbers in four bytes, the high one first; strings with their length in front.\<close>

definition four_bytes :: "nat \<Rightarrow> string" where
  "four_bytes n = map char_of [n div 256 div 256 div 256, n div 256 div 256, n div 256, n]"

fun from_four :: "string \<Rightarrow> nat option" where
  "from_four (a # b # c # d # r) = Some (((of_char a * 256 + of_char b) * 256 + of_char c) * 256 + of_char d)"
| "from_four _ = None"

definition xdr_rfc4506 :: xdr where
  "xdr_rfc4506 = \<lparr>
     put_int = (\<lambda>i. Some (four_bytes (nat (i mod 2 ^ 32)))),
     get_int = (\<lambda>b. map_option (\<lambda>n. if n < 2 ^ 31 then int n else int n - 2 ^ 32) (from_four b)),
     put_string = (\<lambda>m. if length m < 2 ^ 32 then Some (four_bytes (length m) @ m @ replicate (3 - (length m + 3) mod 4) NUL) else None),
     get_string = (\<lambda>b. case from_four b of
         Some n \<Rightarrow> if n \<le> length b - 4 then Some (take n (drop 4 b)) else None
       | None \<Rightarrow> None)\<rparr>"

lemma from_four_bytes:
  assumes "n < 2 ^ 32"
  shows "from_four (four_bytes n @ r) = Some n"
proof -
  have "n div 256 div 256 div 256 < 256" using assms by (simp add: less_mult_imp_div_less)
  then have "from_four (four_bytes n @ r) = Some (((n div 256 div 256 div 256 * 256 + n div 256 div 256 mod 256) * 256
      + n div 256 mod 256) * 256 + n mod 256)"
    by (simp only: four_bytes_def list.map append.simps from_four.simps of_char_of mod_less)
  then show ?thesis by (simp only: div_mult_mod_eq)
qed

lemma xdr_rfc4506_works:
  shows "length m < 2 ^ 32 \<Longrightarrow> carries_string xdr_rfc4506 m"
    "xdr_works xdr_rfc4506"
proof -
  show m: "carries_string xdr_rfc4506 m" if "length m < 2 ^ 32" for m
    using that from_four_bytes [OF that, of "m @ replicate (3 - (length m + 3) mod 4) NUL"]
    by (simp add: carries_string_def xdr_rfc4506_def four_bytes_def)
  have "map_option (\<lambda>n. if n < 2 ^ 31 then int n else int n - 2 ^ 32) (from_four (four_bytes (nat (i mod 2 ^ 32)))) = Some i"
    if "- (2 ^ 31) \<le> i" "i < 2 ^ 31" for i :: int
  proof -
    have "nat (i mod 2 ^ 32) < 2 ^ 32" by (simp add: nat_less_iff)
    then have "from_four (four_bytes (nat (i mod 2 ^ 32))) = Some (nat (i mod 2 ^ 32))" using from_four_bytes [of _ "[]"] by simp
    moreover have "i mod 2 ^ 32 = (if 0 \<le> i then i else i + 2 ^ 32)"
    proof (cases "0 \<le> i")
      case False
      have "i mod 2 ^ 32 = (i + 2 ^ 32) mod 2 ^ 32" by simp
      also have "\<dots> = i + 2 ^ 32" by (rule mod_pos_pos_trivial) (use that False in simp_all)
      finally show ?thesis using False by simp
    qed (use that in simp)
    ultimately show ?thesis using that by (simp split: if_splits)
  qed
  moreover have "length m < 2 ^ 32" if "length m \<le> ROW" for m :: string using that by (simp add: ROW_def MESSAGE_MAX_def)
  ultimately show "xdr_works xdr_rfc4506" using m by (simp add: xdr_works_def xdr_rfc4506_def)
qed

theorem messages_come_back_rpc_witness:
  "stdout (snd (client_over_rpc xdr_rfc4506 (busy\<lparr>between := (\<lambda>_. [])\<rparr>) ''localhost'' None
     (fold (\<lambda>m s. fst (client_over_rpc xdr_rfc4506 (busy\<lparr>between := (\<lambda>_. [])\<rparr>) ''localhost'' (Some m) s))
       [''a'', ''b'', ''c'', ''d''] motd_init)))
   = ''d'' @ NL @ ''c'' @ NL @ ''b'' @ NL"
proof -
  have "quiet (busy\<lparr>between := (\<lambda>_. [])\<rparr>)" by (simp add: quiet_def busy_def)
  moreover have "\<forall>m \<in> set [''a'', ''b'', ''c'', ''d'']. carries_string xdr_rfc4506 (cstr m)"
    by (auto intro!: xdr_rfc4506_works(1) simp: cstr_def)
  ultimately show ?thesis
    using messages_come_back_rpc [OF xdr_rfc4506_works(2), of "busy\<lparr>between := (\<lambda>_. [])\<rparr>" "[''a'', ''b'', ''c'', ''d'']" "''localhost''"]
    by (simp add: cstr_def)
qed

text \<open>
  One request of each kind: an addition, the call for its text, an index that is not there, a
  number that names no procedure, too few bytes, and a call whose answer is lost.
\<close>

theorem wire_server_is_history_witness:
  "svc_session xdr_rfc4506 [(all_well, ADD, four_bytes 2 @ ''hi''), (all_well, GET, four_bytes 0), (all_well, GET, four_bytes 7),
      (all_well, 9, []), (all_well, GET, ''x''), (\<lparr>sendreply_fails = True, freeargs_fails = True\<rparr>, COUNT, []), (all_well, NULLPROC, [])] motd_init
   = ([[Reply []], [Reply (four_bytes 2 @ ''hi'' @ replicate 2 NUL)], [Reply (four_bytes 5 @ ''error'' @ replicate 3 NUL)],
       [Svcerr_noproc], [Svcerr_decode], [Svcerr_systemerr]], Some (exits [] ''unable to free arguments'' 1))"
  by (simp add: wire_server_is_history spec_answer_def spec_messages_def spec_ends_def procedure_numbers all_well_def
      xdr_rfc4506_def four_bytes_def cstr_def)

end
