(* ===== verification/Hand_Outs.thy ===== *)
theory Hand_Outs
  imports Triangles_Sem_Report Fat12 Top
begin

text \<open>
  The unfinished programs that stand beside the finished ones: \<open>assignments/hw4/o-triangles-sem.c\<close>,
  \<open>exercises/ex18/floppyDirO.c\<close> and \<open>assignments/hw7/topO.c\<close>. They compile and run as they are. Where
  a loop of the first has only a comment for its body, the statement after it is the body.

  Proved: what they do until they are filled in; what they have already agrees with the finished ones.
\<close>

subsection \<open>\<open>o-triangles-sem.c\<close>\<close>

text \<open>What a failed \<open>scanf("%d\n")\<close> leaves: the blanks and a sign are consumed.\<close>

definition after_failure :: "string \<Rightarrow> string" where
  "after_failure s = (let t = dropWhile isspace s in
     if t \<noteq> [] \<and> (hd t = CHR ''-'' \<or> hd t = CHR ''+'') then tl t else t)"

function scan_values :: "string \<Rightarrow> int list \<times> string" where
  "scan_values s = (case scan_number (dropWhile isspace s) of
       None \<Rightarrow> ([], after_failure s)
     | Some p \<Rightarrow> (store_num 32 (fst p) # fst (scan_values (snd p)), snd (scan_values (snd p))))"
  by pat_completeness auto
termination
proof (relation "measure length")
  fix s :: string and p assume "scan_number (dropWhile isspace s) = Some p"
  then have "length (snd p) < length (dropWhile isspace s)" using scan_number_shorter by (metis prod.collapse)
  then show "(snd p, s) \<in> measure length" using length_dropWhile_le [of isspace s] by simp
  then show "(snd p, s) \<in> measure length" .
qed simp

declare scan_values.simps [simp del]

fun store_values :: "int list \<Rightarrow> int list \<Rightarrow> store_result" where
  "store_values vs [] = Stored vs"
| "store_values vs (x # xs) = (case readList_store vs x of Stored vs' \<Rightarrow> store_values vs' xs | Failed \<Rightarrow> Failed | Overrun \<Rightarrow> Overrun)"

text \<open>\<open>readList\<close> on what is left of the input: the array after it, and what it leaves.\<close>

definition readList_O :: "string \<Rightarrow> int list \<Rightarrow> store_result \<times> string" where
  "readList_O s vs = (store_values vs (fst (scan_values s)), snd (scan_values s))"

text \<open>The loop \<open>for (i = 0; i < workers; i++) readList();\<close>.\<close>

fun start_workers :: "nat \<Rightarrow> string \<Rightarrow> int list \<Rightarrow> store_result" where
  "start_workers 0 s vs = Stored vs"
| "start_workers (Suc n) s vs = (case readList_O s vs of
       (Stored vs', r) \<Rightarrow> start_workers n r vs' | (Failed, r) \<Rightarrow> Failed | (Overrun, r) \<Rightarrow> Overrun)"

text \<open>The loop \<open>for (i = 0; i < workers; i++) printf(...);\<close>; nothing ever changes \<open>global_count\<close>.\<close>

definition join_workers :: "nat \<Rightarrow> int \<Rightarrow> string" where
  "join_workers workers global = concat (replicate workers (total_line global))"

text \<open>\<open>None\<close>: a value is written past the array.\<close>

definition o_triangles_sem_main :: "string list \<Rightarrow> string \<Rightarrow> outcome option" where
  "o_triangles_sem_main argv stdin =
     (case parse_args argv of
        None \<Rightarrow> Some sem_usage
      | Some (workers, report) \<Rightarrow>
          (case start_workers workers stdin [] of
             Stored vs \<Rightarrow> Some (exits (join_workers workers 0) [] EXIT_SUCCESS)
           | Failed \<Rightarrow> Some (exits [] (''Too many input values'' @ NL) EXIT_FAILURE)
           | Overrun \<Rightarrow> None))"

text \<open>The values it reads first are those of the finished program.\<close>

lemma scan_values_read: "fst (scan_values s) = read_ints s"
proof (induction s rule: scan_values.induct)
  case (1 s)
  then show ?case by (subst scan_values.simps, subst read_ints.simps) (simp split: option.split)
qed

lemma store_values_fits: "length vs + length xs \<le> MAX_VALUES \<Longrightarrow> store_values vs xs = Stored (vs @ xs)"
  by (induction xs arbitrary: vs) (simp_all add: readList_store_def)

text \<open>A single number on each line: everything is read by the first call, and the total printed is always 0.\<close>

lemma scan_values_lines: "\<forall>n\<in>set ns. n < 2 ^ 31 \<Longrightarrow> scan_values (concat (map (\<lambda>n. show_nat n @ NL) ns)) = (map int ns, [])"
proof (induction ns)
  case Nil
  show ?case by (subst scan_values.simps) (simp add: scan_number_def after_failure_def)
next
  case (Cons n ns)
  let ?r = "NL @ concat (map (\<lambda>n. show_nat n @ NL) ns)"
  have d: "isdigit (hd (show_nat n))" "show_nat n \<noteq> []" using show_nat_digits [of n] by auto
  then have h: "\<not> isspace (hd (show_nat n @ ?r))" using digit_not_space [of "hd (show_nat n)"] by simp
  have "dropWhile isspace (show_nat n @ ?r) = show_nat n @ ?r" using skip_blanks [of "[]" "show_nat n @ ?r"] h by simp
  moreover have nl: "\<not> isdigit (CHR 0x0A)" "isspace (CHR 0x0A)" by (simp_all add: isdigit_def isspace_def)
  ultimately have "scan_number (dropWhile isspace (show_nat n @ ?r)) = Some (int n, ?r)" using scan_number_show [of ?r n] by simp
  moreover have "scan_values ?r = scan_values (concat (map (\<lambda>n. show_nat n @ NL) ns))"
    using nl(2) by (subst (1 2) scan_values.simps) (simp add: after_failure_def Let_def cong: option.case_cong)
  ultimately show ?case using Cons store_num_id [of 32 "int n"] by (subst scan_values.simps) simp
qed

lemma nothing_left: "start_workers n [] vs = Stored vs"
proof (induction n)
  case (Suc n)
  have "scan_values [] = ([], [])" by (subst scan_values.simps) (simp add: scan_number_def after_failure_def)
  then show ?case using Suc by (simp add: readList_O_def)
qed simp

theorem o_triangles_sem_prints_zero:
  assumes "parse_args argv = Some (workers, report)" "\<forall>n\<in>set ns. n < 2 ^ 31" "length ns \<le> MAX_VALUES"
  shows "o_triangles_sem_main argv (concat (map (\<lambda>n. show_nat n @ NL) ns)) = Some (exits (join_workers workers 0) [] EXIT_SUCCESS)"
proof -
  have "start_workers workers (concat (map (\<lambda>n. show_nat n @ NL) ns)) [] \<in> {Stored (map int ns), Stored []}"
    using scan_values_lines [OF assms(2)] store_values_fits [of "[]" "map int ns"] assms(3)
    by (cases workers) (simp_all add: readList_O_def nothing_left)
  then show ?thesis using assms(1) by (auto simp: o_triangles_sem_main_def)
qed

text \<open>
  A stray sign stops the first call of \<open>readList\<close>, and the second goes on after it: with one worker
  nothing of \<open>--5\<close> is read, with two the number is.
\<close>

lemma second_worker_reads: "start_workers 1 ''--5'' [] = Stored []" "start_workers 2 ''--5'' [] = Stored [-5]"
  by code_simp+

subsection \<open>\<open>floppyDirO.c\<close>\<close>

definition ROOT_DIR_START_O :: int where "ROOT_DIR_START_O = -12"
definition DATA_START_O :: nat where "DATA_START_O = 15872"
definition SCOUNT_O :: nat where "SCOUNT_O = 2880"

definition getFat12_O :: "disk \<Rightarrow> nat \<Rightarrow> event list \<times> nat option" where
  "getFat12_O d idx = (let offset = idx div 2 * 3 in
     case fread d (FAT_START + offset) 3 of
       None \<Rightarrow> ([Out (''Can't read fat entry at: '' @ show_int (int idx) @ NL)], None)
     | Some b \<Rightarrow>
         let pair = ucast (b ! 0) OR push_bit 8 (ucast (b ! 1)) OR push_bit 16 (ucast (b ! 2)) :: 32 word
         in ([], Some (if idx AND 1 \<noteq> 0 then unat (drop_bit 12 pair) else unat (pair AND 0xFFF))))"

definition reportDirectory_O :: "disk \<Rightarrow> nat \<Rightarrow> int \<Rightarrow> event list" where
  "reportDirectory_O d depth sec = []"

definition floppyDirO_main :: "(string \<Rightarrow> disk option) \<Rightarrow> string list \<Rightarrow> outcome" where
  "floppyDirO_main fopen args =
     (if length args \<noteq> 1 then exits (''usage: floppyDir <floppy-image>'' @ NL) [] EXIT_FAILURE
      else case fopen (args ! 0) of
        None \<Rightarrow> exits (''Can't open file: '' @ args ! 0 @ NL) [] EXIT_FAILURE
      | Some d \<Rightarrow> exits (out_text (reportDirectory_O d 0 ROOT_DIR_START_O)) [] EXIT_SUCCESS)"

text \<open>Its reader of the FAT is the one of \<open>floppyDir.c\<close>.\<close>

theorem getFat12_O_same: "getFat12_O = getFat12"
proof (intro ext)
  fix d and idx :: nat
  have "(idx AND 1 \<noteq> 0) = odd idx" by (simp add: and_one_eq odd_iff_mod_2_eq_one)
  then show "getFat12_O d idx = getFat12 d idx" by (simp only: getFat12_O_def getFat12_def Let_def)
qed

text \<open>
  Its constants name the same places: counted from its start of the data region, the root directory
  begins at sector \<open>-12\<close> and cluster 2 is sector 2; the two last of the fourteen root sectors are its
  sectors 0 and 1. All are on the disk.
\<close>

theorem layout_O:
  "int DATA_START_O + ROOT_DIR_START_O * int SSIZE = int BYTE_OFFSET"
  "DATA_START_O + 2 * SSIZE = DATA_START" "DATA_START < SCOUNT_O * SSIZE"
  by (simp_all add: disk_layout DATA_START_O_def ROOT_DIR_START_O_def SCOUNT_O_def)

text \<open>On arguments that do not open a disk it does what the finished program does.\<close>

theorem floppyDirO_refuses:
  "length args \<noteq> 1 \<or> fopen (args ! 0) = None \<Longrightarrow> floppyDir_main fopen args = Some (floppyDirO_main fopen args)"
  by (auto simp: floppyDir_main_def floppyDirO_main_def)

subsection \<open>\<open>topO.c\<close>\<close>

text \<open>The table in static memory and what is printed; every function is empty. The state of a process is a text there.\<close>

record process_O =
  pid_O :: int
  pname_O :: string
  pstate_O :: string
  ppid_O :: int
  memsize_O :: int

record top_O =
  procs_O :: "process_O list"
  printed_O :: string

definition output_time_O :: "top_O \<Rightarrow> top_O" where "output_time_O s = s"
definition output_uptime_O :: "top_O \<Rightarrow> top_O" where "output_uptime_O s = s"
definition output_loadavg_O :: "top_O \<Rightarrow> top_O" where "output_loadavg_O s = s"
definition output_cpu_O :: "top_O \<Rightarrow> top_O" where "output_cpu_O s = s"
definition output_mem_O :: "top_O \<Rightarrow> top_O" where "output_mem_O s = s"
definition output_swap_O :: "top_O \<Rightarrow> top_O" where "output_swap_O s = s"
definition getAllProcess_O :: "top_O \<Rightarrow> top_O" where "getAllProcess_O s = s"
definition output_procstat_O :: "top_O \<Rightarrow> top_O" where "output_procstat_O s = s"
definition output_proc_O :: "top_O \<Rightarrow> top_O" where "output_proc_O s = s"

definition clear_procs_O :: "top_O \<Rightarrow> top_O" where
  "clear_procs_O s = s\<lparr>procs_O := replicate MAX_PROC_NUM \<lparr>pid_O = 0, pname_O = [], pstate_O = [], ppid_O = 0, memsize_O = 0\<rparr>\<rparr>"

definition topO_main :: "top_O \<Rightarrow> outcome" where
  "topO_main s =
     (let s1 = output_proc_O (output_swap_O (output_mem_O (output_cpu_O (output_procstat_O (output_loadavg_O (output_uptime_O
          (output_time_O (getAllProcess_O (clear_procs_O s))))))))) in exits (printed_O s1) [] 0)"

lemmas empty_functions = output_time_O_def output_uptime_O_def output_loadavg_O_def output_cpu_O_def output_mem_O_def
  output_swap_O_def getAllProcess_O_def output_procstat_O_def output_proc_O_def

lemma topO_prints_nothing: "printed_O s = [] \<Longrightarrow> topO_main s = exits [] [] 0"
  by (simp add: topO_main_def clear_procs_O_def empty_functions)

end
