(* ===== verification/Spec2Isabelle.thy ===== *)
theory Spec2Isabelle
  imports Prelude Exchange_Sort Lock_System Kitchen Take_All Semaphore_Threads Triangles Triangles_Sem
    Editor_Shm Editor_Records Editor_Server Malloc Parking Matchmaker Fat12 Sorts Critical Exclude Stash Top
    Motd Ping_Pong Interleaving Mem_Test Drivers Motd_Client Http_Client
    Write_Calls Descriptors Pipes Children Sample_Queue Triangle_Programs Parking_Server Points Editor_Server_Main Editor_Session Triangles_Sem_Report
    Kitchen_Mains Driver_Mains Motd_Rpc Hand_Outs
begin

text \<open>
  Verification of the C programs of an operating systems course (\<open>src/assignments\<close>,
  \<open>src/exercises\<close>). The programs are independent of each other; what they share is here shared
  theory.

  \<^bold>\<open>Theories and what they model.\<close>
  \<^item> \<open>Prelude\<close>: C strings in fixed buffers (\<open>cstr\<close>, \<open>strlen\<close>, \<open>strncpy\<close>, \<open>memmove\<close>), \<open>atoi\<close>,
    decimal output, the outcome of a \<open>main\<close>.
  \<^item> \<open>Exchange_Sort\<close>: the two nested loops by which several of the programs sort, and the locale
    \<open>partial_key_order\<close> and its special case \<open>key_order\<close> in which it is proved, interpreted on points of
    interest, and on appliances and parking records.
  \<^item> \<open>Lock_System\<close>: threads that run a loop of acquire, release and act instructions over locks;
    its locales \<open>lock_store\<close> (what acquire and release do), \<open>locked_threads\<close> (every lock is with
    one thread) and \<open>ranked_threads\<close> (locks are taken in the order of a rank) hold the lemmas on
    exclusion, deadlock and termination. They are interpreted on the mutexes of \<open>Kitchen\<close> and on
    the semaphores of \<open>Semaphore_Threads\<close>.
  \<^item> \<open>Kitchen\<close>: \<open>hw5/kitchen.c\<close>, \<open>ordered.c\<close> and \<open>global.c\<close>; the body of every chef is the list of
    its calls. \<open>Take_All\<close>: \<open>hw5/takeAll.c\<close>, the monitor with flags and a condition variable.
    \<open>Kitchen_Mains\<close>: the four mains beside their chefs; what a main relies on is the locale
    \<open>crew_laws\<close>, interpreted on the chefs with locks and on those of \<open>takeAll.c\<close>.
  \<^item> \<open>Semaphore_Threads\<close>: \<open>ex09/deadlock.c\<close>.
  \<^item> \<open>Triangles\<close>: the counting of \<open>hw2/triangles.c\<close>, \<open>hw3/triangles-thread.c\<close>, \<open>hw6/triangles.cu\<close>;
    \<open>Triangle_Programs\<close>: the whole mains of the three, with arguments, failing calls and output;
    \<open>Triangles_Sem\<close>: \<open>hw4/triangles-sem.c\<close>, with every shared access a step;
    \<open>Triangles_Sem_Report\<close>: its main and its report, printed between these steps. The counters are
    \<open>int\<close>s with their wrap-around.
  \<^item> \<open>Editor_Shm\<close>: the editor in shared memory, \<open>hw3/edit.c\<close> and \<open>hw4/edit.c\<close>;
    \<open>Editor_Records\<close>: \<open>hw3/edit2.c\<close>; \<open>Editor_Server\<close>: \<open>hw2/server.c\<close> and \<open>client.c\<close>, with
    \<open>Editor_Server_Main\<close> for the program around the server's loop and \<open>Editor_Session\<close> for the server, its
    clients and the two queues between them. All three are compared with one specification of a
    document with three versions of history.
  \<^item> \<open>Malloc\<close>: \<open>ex11/myMalloc.c\<close> on a memory of bytes; \<open>mmap\<close> is a parameter.
  \<^item> \<open>Parking\<close>: the commands of \<open>hw6/parkingServer.c\<close> over its table; \<open>Parking_Server\<close>: its \<open>main\<close>
    and the threads of its connections, on top of \<open>Parking\<close> and the line reader of \<open>C_Files\<close>; every
    call of \<open>strtok\<close>, whose position all threads share, is a step.
  \<^item> \<open>Matchmaker\<close>: \<open>hw5/matchmaker.c\<close>, the monitor; \<open>Drivers\<close>: \<open>hw5/driver1.c\<close> to \<open>driver6.c\<close>, whose
    threads call the operations of \<open>Matchmaker\<close> under every schedule; \<open>Driver_Mains\<close>: the whole of the
    last two, from the creation of the threads to the report.
  \<^item> \<open>Fat12\<close>: \<open>ex18/floppyDir.c\<close> and \<open>floppyDirNew.c\<close>, the listing of a FAT12 image.
  \<^item> \<open>Sorts\<close>: the quicksorts \<open>ex15/array.c\<close> and \<open>linked.c\<close>; \<open>Node_Paths\<close>: linked lists in
    memory, as they and \<open>Critical\<close> have them; \<open>Points\<close>: \<open>ex14/sort.c\<close> on the bytes of its file.
  \<^item> \<open>Critical\<close>: \<open>ex08/critical.c\<close>, a shared list under a spin lock, with every access a step.
  \<^item> \<open>Exclude\<close>: \<open>hw1/exclude.c\<close>, the line filter; \<open>Stash\<close>: \<open>hw1/stash.c\<close>, the shell, over its array
    of pointers to words; \<open>Top\<close>: \<open>hw7/top.c\<close> and \<open>top 2.c\<close>, the process monitor on the files of \<open>/proc\<close>.
    \<open>C_Files\<close> has what they need of the C library: lines, \<open>sscanf\<close>.
  \<^item> \<open>Motd\<close>: \<open>ex17/motd_server.c\<close>, and \<open>Motd_Client\<close>: \<open>motd_client.c\<close>, as calls of its procedures;
    \<open>Motd_Rpc\<close>: the stubs of both sides, \<open>motd_clnt.c\<close> and \<open>motd_svc.c\<close>, with the encoding of the values
    as a parameter, and the client over them;
    \<open>Mem_Test\<close>: \<open>ex11/memTest.c\<close>, a client of \<open>Malloc\<close>.
  \<^item> \<open>Ping_Pong\<close>: \<open>ex06/pingpong.c\<close> and \<open>ex07/pingpong.c\<close>, two interpretations of the locale \<open>relay\<close>;
    \<open>Interleaving\<close>: \<open>ex05/interleaving.c\<close>.
  \<^item> \<open>Descriptors\<close>: tables of file descriptors and \<open>ex04/redirect.c\<close>; \<open>Pipes\<close>: \<open>ex03/pipe.c\<close>, three
    processes and a pipe; \<open>Children\<close>: \<open>ex2/children.c\<close>; \<open>Write_Calls\<close>: \<open>ex1/writeLibc.c\<close> and
    \<open>writeSystem.c\<close>; \<open>Http_Client\<close>: \<open>ex16/HTTPclient.c\<close>; \<open>Sample_Queue\<close>: \<open>hw2/client2.c\<close> and
    \<open>server2.c\<close>.
  \<^item> \<open>Hand_Outs\<close>: the unfinished \<open>hw4/o-triangles-sem.c\<close>, \<open>ex18/floppyDirO.c\<close> and \<open>hw7/topO.c\<close>, which
    compile and run as they are.

  \<^bold>\<open>Conventions.\<close> A struct is a record and keeps its field names where they are free; an
  operation returns the new state. A result \<open>None\<close> is an access outside an array or a loop that
  does not end, as each theory says; an exit with a message is an \<open>outcome\<close>. Critical sections
  are single steps; everything else that threads share is stepped access by access (the increment
  of a counter in \<open>Critical\<close> is a load and a store). Loops are
  structural recursions; those whose end depends on the data (the walks of the free list and of
  the waiting list, by a match and by \<open>stopMatchmaking\<close>) are \<open>partial_function\<close>s, and that they end is proved.

  \<^bold>\<open>What is proved.\<close> Deadlock freedom, exclusion and termination of the
  kitchens and of the semaphore exercise, and the deadlock of \<open>kitchen.c\<close>; the
  triangle counters equal the number of triangles for every schedule, as long as it fits an \<open>int\<close>, and
  their reports name each once; the editors show the texts of the specification; the allocator keeps live blocks apart and
  its list ordered and coalesced; the parking server refines a map of plates for any number of
  connections, when no two of them are between their \<open>strtok\<close> calls at once; the matchmaker's matches are mutual, and its drivers print what was played. The
  file of points comes out by distance with its bytes kept. The listing of a disk image is the
  tree it holds; the sorts sort; the shell runs what its lines say; the process monitor prints the
  largest processes. The two processes of the pipe never block each other for ever and show what
  \<open>grep\<close> finds; the redirected copy is the input; what the message board's clients
  add comes back, over any encoding that carries it, and its dispatcher answers every request,
  well-formed or not, like a list of messages. The mains of the kitchens and of the large drivers
  report what their threads announced. Where the code fails, a theorem states the failing run.

  \<^bold>\<open>Not modelled.\<close> System calls that only set things up (\<open>fork\<close>,
  \<open>shmget\<close>, sockets, queues) succeed or are inputs of the model, as each theory says;
  the programs that other commands stand for (\<open>ps\<close>, \<open>grep\<close>, \<open>cat\<close>, what the
  shell runs) are inputs too. Floating point is modelled where a result depends on it (the parking
  fee); elsewhere its operations are parameters (the distances of \<open>ex14/sort.c\<close>).
  The RPC library is a parameter of \<open>Motd_Rpc\<close>. There is no theory of the
  headers that only declare (\<open>matchmaker.h\<close>, \<open>myMalloc.h\<close>;
  \<open>hw3/common.h\<close> and \<open>hw4/common copy.h\<close> repeat \<open>hw4/common.h\<close>).
\<close>

end
